(* ===== verification/Prelude.thy ===== *)
theory Prelude
  imports Main "HOL-Library.Word"
begin

text \<open>
  Shared vocabulary of the development: the machine integer types of the kernel, the
  outcomes a kernel routine can have, the sequencing of routines, and the generic lemmas on
  words, lists and options that several components use.
\<close>

unbundle bit_operations_syntax

type_synonym u8 = "8 word"
type_synonym u16 = "16 word"
type_synonym u32 = "32 word"
type_synonym u64 = "64 word"

text \<open>The collections the component theories add their facts to.\<close>

named_theorems run_simps \<open>evaluation of kernel routines\<close>
named_theorems frame_simps \<open>loads that commute with stores elsewhere\<close>
named_theorems state_simps \<open>effect of an operation on the state components\<close>

section \<open>Outcomes of a routine\<close>

text \<open>
  A routine that does not return has the outcome \<open>None\<close>; one that stops in an
  \<open>assert\<close>, in the processor's divide error or in an access outside a buffer on the
  stack or an array (undefined in C) has the outcome \<open>Some (Inl fault)\<close>; one that returns has
  the outcome \<open>Some (Inr (result, state))\<close>.
\<close>

datatype fault =
    Assert_failed string
  | Divide_error
  | Out_of_bounds

type_synonym ('a, 's) run = "(fault + 'a \<times> 's) option"

definition ret :: "'a \<Rightarrow> 's \<Rightarrow> ('a, 's) run" where
  "ret x s = Some (Inr (x, s))"

definition fail :: "fault \<Rightarrow> ('a, 's) run" where
  "fail e = Some (Inl e)"

abbreviation halt :: "string \<Rightarrow> ('a, 's) run" where
  "halt e \<equiv> fail (Assert_failed e)"

definition andthen :: "('a, 's) run \<Rightarrow> ('a \<Rightarrow> 's \<Rightarrow> ('b, 't) run) \<Rightarrow> ('b, 't) run" where
  "andthen r f = (case r of None \<Rightarrow> None | Some (Inl e) \<Rightarrow> Some (Inl e) | Some (Inr (x, s)) \<Rightarrow> f x s)"

lemma andthen_ret [simp, run_simps]: "andthen (ret x s) f = f x s"
  by (simp add: andthen_def ret_def)

lemma andthen_fail [simp, run_simps]: "andthen (fail e) f = fail e"
  by (simp add: andthen_def fail_def)

lemma andthen_None [simp, run_simps]: "andthen None f = None"
  by (simp add: andthen_def)

lemma ret_inject [simp]: "ret x s = ret y t \<longleftrightarrow> x = y \<and> s = t"
  by (simp add: ret_def)

lemma fail_inject [simp]: "(fail e :: ('a, 's) run) = fail e' \<longleftrightarrow> e = e'"
  by (simp add: fail_def)

lemma ret_neq_fail [simp]: "ret x s \<noteq> fail e" "fail e \<noteq> ret x s"
  by (simp_all add: ret_def fail_def)

lemma ret_neq_None [simp]: "ret x s \<noteq> None" "None \<noteq> ret x s"
  by (simp_all add: ret_def)

lemma fail_neq_None [simp]: "fail e \<noteq> None" "None \<noteq> fail e"
  by (simp_all add: fail_def)

lemma andthen_eq_ret:
  "andthen r f = ret y t \<longleftrightarrow> (\<exists>x s. r = ret x s \<and> f x s = ret y t)"
  by (auto simp: andthen_def ret_def split: option.splits sum.splits)

lemma run_cases [case_names no_return fault returns]:
  obtains "r = None" | e where "r = fail e" | x s where "r = ret x s"
  by (cases r) (auto simp: ret_def fail_def split: sum.splits, metis surj_pair sum.exhaust)

lemma andthen_assoc: "andthen (andthen r f) g = andthen r (\<lambda>x s. andthen (f x s) g)"
  by (cases r rule: run_cases) simp_all

text \<open>Sequencing is monotone, so a loop body may call it inside \<open>partial_function\<close>.\<close>

lemma andthen_mono [partial_function_mono]:
  fixes B :: "('p \<Rightarrow> 'q option) \<Rightarrow> ('a, 's) run"
    and C :: "('p \<Rightarrow> 'q option) \<Rightarrow> 'a \<Rightarrow> 's \<Rightarrow> ('b, 't) run"
  assumes "mono_option B" and "\<And>x s. mono_option (\<lambda>f. C f x s)"
  shows "mono_option (\<lambda>f. andthen (B f) (\<lambda>x s. C f x s))"
proof (rule monotoneI)
  fix f g :: "'p \<Rightarrow> 'q option"
  assume le: "fun_ord option_ord f g"
  have B: "option_ord (B f) (B g)"
    using assms(1) le by (rule monotoneD [of _ _ B f g])
  have C: "option_ord (C f x s) (C g x s)" for x s
    using assms(2) le by (rule monotoneD [of _ _ "\<lambda>f. C f x s" f g])
  show "option_ord (andthen (B f) (\<lambda>x s. C f x s)) (andthen (B g) (\<lambda>x s. C g x s))"
    using B C by (cases "B g"; cases "B f") (auto simp: flat_ord_def andthen_def split: sum.splits)
qed

section \<open>Counted loops\<close>

text \<open>A loop over the values of a counter whose body may stop.\<close>

fun for_each :: "'a list \<Rightarrow> ('a \<Rightarrow> 's \<Rightarrow> (unit, 's) run) \<Rightarrow> 's \<Rightarrow> (unit, 's) run" where
  "for_each [] body s = ret () s"
| "for_each (x # xs) body s = andthen (body x s) (\<lambda>_. for_each xs body)"

lemma for_each_append:
  "for_each (xs @ ys) body s = andthen (for_each xs body s) (\<lambda>_. for_each ys body)"
proof (induction xs arbitrary: s)
  case (Cons x xs)
  have "(\<lambda>_ :: unit. for_each (xs @ ys) body) = (\<lambda>_ s. andthen (for_each xs body s) (\<lambda>_. for_each ys body))"
    using Cons by (simp add: fun_eq_iff)
  then show ?case by (simp only: append_Cons for_each.simps andthen_assoc)
qed simp

lemma andthen_ret_right: "andthen r ret = r"
  by (cases r rule: run_cases) simp_all

lemma for_each_single: "for_each [x] body s = body x s"
proof -
  have "for_each [] body = ret ()" by (rule ext) simp
  then show ?thesis by (simp add: andthen_ret_right)
qed

lemma for_each_ret:
  "(\<And>x s. x \<in> set xs \<Longrightarrow> body x s = ret () (f x s)) \<Longrightarrow> for_each xs body s = ret () (fold f xs s)"
  by (induction xs arbitrary: s) simp_all

text \<open>
  A loop that collects items: \<open>good zs s\<close> says that \<open>zs\<close> has been collected in \<open>s\<close>, and \<open>err e zs\<close> that
  the fault \<open>e\<close> may come up once \<open>zs\<close> is due.
\<close>

definition collects ::
  "('b list \<Rightarrow> 's \<Rightarrow> bool) \<Rightarrow> (fault \<Rightarrow> 'b list \<Rightarrow> bool) \<Rightarrow> (unit, 's) run \<Rightarrow> 'b list \<Rightarrow> bool" where
  "collects good err r zs \<longleftrightarrow> (\<exists>e. r = fail e \<and> err e zs) \<or> (\<exists>s. r = ret () s \<and> good zs s)"

lemma for_each_collects:
  assumes "\<And>x ys s. x \<in> set xs \<Longrightarrow> good ys s \<Longrightarrow> collects good err (body x s) (ys @ f x)"
    and mono: "\<And>e zs ws. err e zs \<Longrightarrow> err e (zs @ ws)" and "good ys s"
  shows "collects good err (for_each xs body s) (ys @ concat (map f xs))"
  using assms(1,3)
proof (induction xs arbitrary: ys s)
  case Nil
  then show ?case by (simp add: collects_def)
next
  case (Cons x xs)
  have "collects good err (body x s) (ys @ f x)" using Cons.prems by simp
  then consider e where "body x s = fail e" "err e (ys @ f x)" | s' where "body x s = ret () s'" "good (ys @ f x) s'"
    by (auto simp: collects_def)
  then show ?case
  proof cases
    case 1
    then show ?thesis using mono [of e "ys @ f x" "concat (map f xs)"] by (simp add: collects_def)
  next
    case 2
    have "collects good err (for_each xs body s') ((ys @ f x) @ concat (map f xs))"
      using 2(2) Cons.prems(1) by (intro Cons.IH) simp_all
    then show ?thesis using 2(1) by simp
  qed
qed

section \<open>Outcomes up to a full heap\<close>

text \<open>The routine returns with a result and a state as described, or it stops because the heap is full.\<close>

definition outcome :: "('a, 's) run \<Rightarrow> ('a \<Rightarrow> 's \<Rightarrow> bool) \<Rightarrow> bool" where
  "outcome r Q \<longleftrightarrow> r = halt ''chunk'' \<or> (\<exists>x s. r = ret x s \<and> Q x s)"

lemma outcome_ret [intro]: "Q x s \<Longrightarrow> outcome (ret x s) Q"
  by (auto simp: outcome_def)

lemma outcome_full [simp, intro]: "outcome (halt ''chunk'') Q"
  by (simp add: outcome_def)

lemma outcome_andthen:
  assumes "outcome r P" and "\<And>x s. P x s \<Longrightarrow> outcome (f x s) Q"
  shows "outcome (andthen r f) Q"
proof -
  consider "r = halt ''chunk''" | x s where "r = ret x s" "P x s"
    using assms(1) by (auto simp: outcome_def)
  then show ?thesis using assms(2) by cases simp_all
qed

lemma outcome_mono: "outcome r P \<Longrightarrow> (\<And>x s. P x s \<Longrightarrow> Q x s) \<Longrightarrow> outcome r Q"
  by (auto simp: outcome_def)

section \<open>Words\<close>

lemma unat_lt2p: "unat x < 2 ^ LENGTH('a)" for x :: "'a::len word"
  by (fact unsigned_less)

lemma unat_of_nat_eq: "n < 2 ^ LENGTH('a) \<Longrightarrow> unat (word_of_nat n :: 'a::len word) = n"
  by (simp add: unat_of_nat)

lemma unat_add_le: "unat (a + b) \<le> unat a + unat b" for a b :: "'a::len word"
  by (simp add: unat_plus_if')

lemma unat_add_exact:
  "unat a + unat b < 2 ^ LENGTH('a) \<Longrightarrow> unat (a + b) = unat a + unat b" for a b :: "'a::len word"
  by (simp add: unat_add_lem)

lemma unat_sub_exact: "b \<le> a \<Longrightarrow> unat (a - b) = unat a - unat b" for a b :: "'a::len word"
  by (rule unat_sub)

lemma unat_diff_ge:
  "unat a + n \<le> unat b \<Longrightarrow> n \<le> unat (b - a)" for a b :: "'a::len word"
  by (simp add: unat_sub_if')

lemma unat_diff_wrap:
  fixes a b :: "'a::len word"
  assumes "unat a < unat b"
  shows "unat (a - b) = 2 ^ LENGTH('a) + unat a - unat b"
  using assms by (simp add: unat_sub_if')

lemma word_diff_bound:
  "unat p < n \<Longrightarrow> unat q < k \<Longrightarrow> n \<le> unat (p - q) \<Longrightarrow> \<not> k \<le> unat (q - p)"
  for p q :: "'a::len word"
  by (cases "unat q \<le> unat p") (simp_all add: unat_sub_if')

lemma word_of_nat_inj32_iff:
  "i < 2 ^ LENGTH('a) \<Longrightarrow> j < 2 ^ LENGTH('a) \<Longrightarrow>
   (word_of_nat i :: 'a::len word) = word_of_nat j \<longleftrightarrow> i = j"
  by (metis unat_of_nat_eq)

lemma unat_lt32: "unat (x :: u32) < 4294967296"
  using unat_lt2p [of x] by simp

lemma unat_lt8: "unat (x :: u8) < 256"
  using unat_lt2p [of x] by simp

lemma unat_u8_u32: "unat (ucast x :: u32) = unat x" for x :: u8
  using unat_lt8 [of x] by (simp add: unsigned_ucast_eq take_bit_nat_eq_self_iff)

lemma ucast_eq_iff_u8: "(ucast x :: u32) = ucast y \<longleftrightarrow> x = y" for x y :: u8
  by (metis unat_u8_u32 word_unat_eq_iff)

lemma unat_lt16: "unat (x :: u16) < 65536"
  using unat_lt2p [of x] by simp

lemma unat_u16_u32: "unat (ucast x :: u32) = unat x" for x :: u16
  using unat_lt16 [of x] by (simp add: unsigned_ucast_eq take_bit_nat_eq_self_iff)

lemma u32_add_numeral:
  "unat a + n < 4294967296 \<Longrightarrow> unat (a + word_of_nat n) = unat a + n" for a :: u32
  by (subst unat_add_exact) (simp_all add: unat_of_nat)

section \<open>Lists\<close>

lemma find_map: "find P (map f xs) = map_option f (find (\<lambda>x. P (f x)) xs)"
  by (induction xs) simp_all

end
