(* ===== verification/Memory.thy ===== *)
theory Memory
  imports Prelude
begin

text \<open>
  The kernel runs with paging off in one flat 32-bit address space: every pointer is a
  physical address, a null pointer is address 0, and reading or writing through it does not
  trap. Memory is a total map from addresses to bytes; multi-byte values are little-endian,
  as the processor stores them. The theory gives the loads and stores of each width, the
  address ranges they touch, and the frame lemmas every component proof uses.
\<close>

type_synonym memory = "u32 \<Rightarrow> u8"

section \<open>Loads and stores\<close>

definition load16 :: "memory \<Rightarrow> u32 \<Rightarrow> u16" where
  "load16 m a = ucast (m a) OR push_bit 8 (ucast (m (a + 1)))"

definition load32 :: "memory \<Rightarrow> u32 \<Rightarrow> u32" where
  "load32 m a = ucast (m a) OR push_bit 8 (ucast (m (a + 1)))
     OR push_bit 16 (ucast (m (a + 2))) OR push_bit 24 (ucast (m (a + 3)))"

definition load64 :: "memory \<Rightarrow> u32 \<Rightarrow> u64" where
  "load64 m a = ucast (load32 m a) OR push_bit 32 (ucast (load32 m (a + 4)))"

definition store8 :: "memory \<Rightarrow> u32 \<Rightarrow> u8 \<Rightarrow> memory" where
  "store8 m a v = m(a := v)"

definition store16 :: "memory \<Rightarrow> u32 \<Rightarrow> u16 \<Rightarrow> memory" where
  "store16 m a v = m(a := ucast v, a + 1 := ucast (drop_bit 8 v))"

definition store32 :: "memory \<Rightarrow> u32 \<Rightarrow> u32 \<Rightarrow> memory" where
  "store32 m a v = m(a := ucast v, a + 1 := ucast (drop_bit 8 v),
     a + 2 := ucast (drop_bit 16 v), a + 3 := ucast (drop_bit 24 v))"

section \<open>Address ranges\<close>

text \<open>
  The \<open>n\<close> bytes from \<open>a\<close> on, wrapping at the top of the address space as the
  processor's address arithmetic does.
\<close>

definition region :: "u32 \<Rightarrow> nat \<Rightarrow> u32 set" where
  "region a n = {x. unat (x - a) < n}"

definition same_on :: "u32 set \<Rightarrow> memory \<Rightarrow> memory \<Rightarrow> bool" where
  "same_on S m m' \<longleftrightarrow> (\<forall>x \<in> S. m' x = m x)"

lemma region_0 [simp]: "region a 0 = {}"
  by (simp add: region_def)

lemma in_region_iff: "x \<in> region a n \<longleftrightarrow> unat (x - a) < n"
  by (simp add: region_def)

lemma in_region_nat:
  assumes "unat a + n \<le> 2 ^ 32"
  shows "x \<in> region a n \<longleftrightarrow> unat a \<le> unat x \<and> unat x < unat a + n"
proof (cases "unat a \<le> unat x")
  case True
  then have "unat (x - a) = unat x - unat a"
    by (simp add: unat_sub word_le_nat_alt)
  with True show ?thesis by (auto simp: in_region_iff)
next
  case False
  then have "unat (x - a) = 2 ^ 32 + unat x - unat a"
    by (simp add: unat_diff_wrap)
  with False assms show ?thesis by (auto simp: in_region_iff)
qed

lemma region_self: "0 < n \<Longrightarrow> a \<in> region a n"
  by (simp add: in_region_iff)

lemma region_offset: "unat i < n \<Longrightarrow> a + i \<in> region a n"
  by (simp add: in_region_iff)

lemma region_mono: "n \<le> k \<Longrightarrow> region a n \<subseteq> region a k"
  by (auto simp: in_region_iff)

lemma region_shift_subset:
  assumes "unat i + n \<le> k" and "k \<le> 2 ^ 32"
  shows "region (a + i) n \<subseteq> region a k"
proof
  fix x assume "x \<in> region (a + i) n"
  then have lt: "unat (x - (a + i)) < n" by (simp add: in_region_iff)
  have "x - a = (x - (a + i)) + i" by simp
  then have "unat (x - a) \<le> unat (x - (a + i)) + unat i"
    by (metis unat_add_le)
  with lt assms show "x \<in> region a k" by (simp add: in_region_iff)
qed

lemma region_disjoint:
  assumes "unat a + n \<le> unat b" and "unat b + k \<le> 2 ^ 32"
  shows "region a n \<inter> region b k = {}"
proof -
  have "unat a + n \<le> 2 ^ 32" using assms by linarith
  with assms show ?thesis by (auto simp: in_region_nat)
qed

lemma region_disjoint':
  assumes "unat a + n \<le> unat b" and "unat b + k \<le> 2 ^ 32"
  shows "region b k \<inter> region a n = {}"
  using region_disjoint [OF assms] by blast

lemma region_offset_disjoint:
  assumes "n \<le> unat (j - i)" and "k \<le> unat (i - j)"
  shows "region (a + i) n \<inter> region (a + j) k = {}"
proof -
  have "\<not> (x \<in> region (a + i) n \<and> x \<in> region (a + j) k)" for x
  proof
    assume x: "x \<in> region (a + i) n \<and> x \<in> region (a + j) k"
    let ?p = "x - (a + i)" and ?q = "x - (a + j)"
    from x have p: "unat ?p < n" and q: "unat ?q < k" by (simp_all add: in_region_iff)
    have diff: "j - i = ?p - ?q" "i - j = ?q - ?p" by (simp_all add: algebra_simps)
    show False
      using word_diff_bound [OF p q] assms unfolding diff by blast
  qed
  then show ?thesis by blast
qed

lemma same_on_refl [simp]: "same_on S m m"
  by (simp add: same_on_def)

lemma same_on_trans: "same_on S m m' \<Longrightarrow> same_on S m' m'' \<Longrightarrow> same_on S m m''"
  by (simp add: same_on_def)

lemma same_on_mono: "same_on S m m' \<Longrightarrow> T \<subseteq> S \<Longrightarrow> same_on T m m'"
  by (auto simp: same_on_def)

lemma same_onD: "same_on S m m' \<Longrightarrow> x \<in> S \<Longrightarrow> m' x = m x"
  by (simp add: same_on_def)

section \<open>Frame lemmas\<close>

lemma offsets_in_region:
  "a \<in> region a 4" "a + 1 \<in> region a 4" "a + 2 \<in> region a 4" "a + 3 \<in> region a 4"
  "a \<in> region a 2" "a + 1 \<in> region a 2"
  by (simp_all add: in_region_iff)

lemma load32_cong: "same_on (region a 4) m m' \<Longrightarrow> load32 m' a = load32 m a"
  by (simp add: load32_def same_on_def offsets_in_region)

lemma load16_cong: "same_on (region a 2) m m' \<Longrightarrow> load16 m' a = load16 m a"
  by (simp add: load16_def same_on_def offsets_in_region)

lemma store32_other: "x \<notin> region a 4 \<Longrightarrow> store32 m a v x = m x"
  using offsets_in_region [of a] by (auto simp: store32_def)

lemma store16_other: "x \<notin> region a 2 \<Longrightarrow> store16 m a v x = m x"
  using offsets_in_region [of a] by (auto simp: store16_def)

lemma store8_other: "x \<noteq> a \<Longrightarrow> store8 m a v x = m x"
  by (simp add: store8_def)

lemma same_on_store32: "S \<inter> region a 4 = {} \<Longrightarrow> same_on S m (store32 m a v)"
  unfolding same_on_def by (intro ballI store32_other) blast

lemma same_on_store16: "S \<inter> region a 2 = {} \<Longrightarrow> same_on S m (store16 m a v)"
  unfolding same_on_def by (intro ballI store16_other) blast

lemma same_on_store8: "a \<notin> S \<Longrightarrow> same_on S m (store8 m a v)"
  by (auto simp: same_on_def store8_def)

lemma load32_store32_same [simp, frame_simps]: "load32 (store32 m a v) a = v"
proof (rule bit_word_eqI)
  fix n assume "n < LENGTH(32)"
  then consider "n < 8" | "8 \<le> n" "n < 16" | "16 \<le> n" "n < 24" | "24 \<le> n" "n < 32"
    by fastforce
  then show "bit (load32 (store32 m a v) a) n = bit v n"
    by cases (auto simp: load32_def store32_def bit_simps)
qed

lemma load16_store16_same [simp, frame_simps]: "load16 (store16 m a v) a = v"
  unfolding load16_def store16_def by (rule bit_word_eqI) (auto simp: bit_simps)

lemma store8_same [simp, frame_simps]: "store8 m a v a = v"
  by (simp add: store8_def)

lemma load32_store32_disj:
  "region b 4 \<inter> region a 4 = {} \<Longrightarrow> load32 (store32 m a v) b = load32 m b"
  by (rule load32_cong) (rule same_on_store32)

lemma load32_store8_disj: "a \<notin> region b 4 \<Longrightarrow> load32 (store8 m a v) b = load32 m b"
  by (rule load32_cong) (rule same_on_store8)

text \<open>Fields of one structure: the offsets are numerals, so the conditions evaluate.\<close>

lemma load32_store32_field [frame_simps]:
  "4 \<le> unat (j - i) \<Longrightarrow> 4 \<le> unat (i - j) \<Longrightarrow>
   load32 (store32 m (a + i) v) (a + j) = load32 m (a + j)"
  by (rule load32_store32_disj) (rule region_offset_disjoint)

lemma load32_store32_field0 [frame_simps]:
  "4 \<le> unat j \<Longrightarrow> 4 \<le> unat (- j) \<Longrightarrow> load32 (store32 m a v) (a + j) = load32 m (a + j)"
  using load32_store32_field [of j 0 m a v] by simp

lemma load32_store32_field1 [frame_simps]:
  "4 \<le> unat i \<Longrightarrow> 4 \<le> unat (- i) \<Longrightarrow> load32 (store32 m (a + i) v) a = load32 m a"
  using load32_store32_field [of 0 i m a v] by simp

lemma store32_field_other [frame_simps]:
  "4 \<le> unat (j - i) \<Longrightarrow> store32 m (a + i) v (a + j) = m (a + j)"
  by (rule store32_other) (simp add: in_region_iff)

lemma store32_field0_other [frame_simps]:
  "4 \<le> unat j \<Longrightarrow> store32 m a v (a + j) = m (a + j)"
  by (rule store32_other) (simp add: in_region_iff)

lemma load32_store8_field [frame_simps]:
  "4 \<le> unat (i - j) \<Longrightarrow> load32 (store8 m (a + i) v) (a + j) = load32 m (a + j)"
  by (rule load32_store8_disj) (simp add: in_region_iff)

lemma load32_store8_field0 [frame_simps]:
  "4 \<le> unat i \<Longrightarrow> load32 (store8 m (a + i) v) a = load32 m a"
  by (rule load32_store8_disj) (simp add: in_region_iff)

lemma load16_store_other [frame_simps]:
  "a \<noteq> b \<Longrightarrow> a + 1 \<noteq> b \<Longrightarrow> a \<noteq> b + 1 \<Longrightarrow> load16 (store16 m a v) b = load16 m b"
  "a \<noteq> b \<Longrightarrow> a \<noteq> b + 1 \<Longrightarrow> load16 (store8 m a w) b = load16 m b"
  by (auto simp: load16_def store16_def store8_def)

lemma byte_store_other [frame_simps]:
  "x \<noteq> a \<Longrightarrow> x \<noteq> a + 1 \<Longrightarrow> store16 m a v x = m x"
  "x \<noteq> a \<Longrightarrow> store8 m a w x = m x"
  by (simp_all add: store16_def store8_def)

section \<open>Byte sequences\<close>

definition bytes_at :: "memory \<Rightarrow> u32 \<Rightarrow> nat \<Rightarrow> u8 list" where
  "bytes_at m a n = map (\<lambda>i. m (a + word_of_nat i)) [0..<n]"

fun store_bytes :: "memory \<Rightarrow> u32 \<Rightarrow> u8 list \<Rightarrow> memory" where
  "store_bytes m a [] = m"
| "store_bytes m a (b # bs) = store_bytes (m(a := b)) (a + 1) bs"

lemma length_bytes_at [simp]: "length (bytes_at m a n) = n"
  by (simp add: bytes_at_def)

lemma nth_bytes_at [simp]: "i < n \<Longrightarrow> bytes_at m a n ! i = m (a + word_of_nat i)"
  by (simp add: bytes_at_def)

lemma bytes_at_0 [simp]: "bytes_at m a 0 = []"
  by (simp add: bytes_at_def)

lemma bytes_at_Suc: "bytes_at m a (Suc n) = bytes_at m a n @ [m (a + word_of_nat n)]"
  by (simp add: bytes_at_def)

lemma bytes_at_Cons: "bytes_at m a (Suc n) = m a # bytes_at m (a + 1) n"
  by (rule nth_equalityI) (auto simp: nth_Cons add.assoc split: nat.splits)

lemma bytes_at_append: "bytes_at m a (i + n) = bytes_at m a i @ bytes_at m (a + word_of_nat i) n"
  by (induction n) (simp_all add: bytes_at_Suc add.assoc)

lemma bytes_at_cong:
  "same_on (region a n) m m' \<Longrightarrow> n \<le> 2 ^ 32 \<Longrightarrow> bytes_at m' a n = bytes_at m a n"
  by (rule nth_equalityI) (auto simp: same_on_def in_region_iff unat_of_nat_eq)

lemma store_bytes_append:
  "store_bytes m a (bs @ cs) = store_bytes (store_bytes m a bs) (a + word_of_nat (length bs)) cs"
  by (induction bs arbitrary: m a) (simp_all add: add.assoc)

lemma store_bytes_apply:
  "length bs \<le> 2 ^ 32 \<Longrightarrow>
   store_bytes m a bs x = (if unat (x - a) < length bs then bs ! unat (x - a) else m x)"
proof (induction bs arbitrary: m a)
  case Nil
  then show ?case by simp
next
  case (Cons b bs)
  have IH: "store_bytes (m(a := b)) (a + 1) bs x =
      (if unat (x - (a + 1)) < length bs then bs ! unat (x - (a + 1)) else (m(a := b)) x)"
    using Cons.prems by (intro Cons.IH) simp
  show ?case
  proof (cases "x = a")
    case True
    then have "x - (a + 1) = - 1" by simp
    then have "unat (x - (a + 1)) = 4294967295"
      by (simp only: unsigned_minus_1_eq_mask) (simp add: mask_eq_exp_minus_1)
    with IH True Cons.prems show ?thesis by simp
  next
    case False
    then have "x - a \<noteq> 0" by simp
    then have "unat (x - a) = Suc (unat (x - a - 1))"
      by (metis Suc_pred' unat_gt_0 unat_minus_one)
    then have "unat (x - a) = Suc (unat (x - (a + 1)))" by (simp only: diff_diff_eq)
    with IH False show ?thesis by simp
  qed
qed

lemma bytes_at_store_bytes:
  "length bs \<le> 2 ^ 32 \<Longrightarrow> bytes_at (store_bytes m a bs) a (length bs) = bs"
  by (rule nth_equalityI) (auto simp: store_bytes_apply unat_of_nat_eq)

lemma same_on_store_bytes:
  "length bs \<le> 2 ^ 32 \<Longrightarrow> S \<inter> region a (length bs) = {} \<Longrightarrow> same_on S m (store_bytes m a bs)"
  by (auto simp: same_on_def store_bytes_apply in_region_iff)

lemma bytes_at_before:
  assumes "i + length bs \<le> 2 ^ 32"
  shows "bytes_at (store_bytes m (p + word_of_nat i) bs) p i = bytes_at m p i"
proof (cases "bs = []")
  case False
  have "store_bytes m (p + word_of_nat i) bs (p + word_of_nat j) = m (p + word_of_nat j)" if "j < i" for j
  proof -
    have "unat (word_of_nat j :: u32) = j" "i < 2 ^ 32 \<Longrightarrow> unat (word_of_nat i :: u32) = i"
      using that assms by (simp_all add: unat_of_nat_eq)
    moreover have "i < 2 ^ 32" using assms False by (cases bs) simp_all
    ultimately have "unat (word_of_nat j - word_of_nat i :: u32) = j + 2 ^ 32 - i"
      using that by (simp add: unat_sub_if')
    then have "\<not> unat (p + word_of_nat j - (p + word_of_nat i)) < length bs" using that assms by simp
    then show ?thesis using assms by (subst store_bytes_apply) simp_all
  qed
  then show ?thesis by (intro nth_equalityI) simp_all
qed simp

end
