(* ===== verification/Kernel_State.thy ===== *)
theory Kernel_State
  imports Memory
begin

text \<open>
  The state the kernel's routines act on: the physical memory, the history of port accesses
  (\<open>cpu/io.h\<close>), and the static variables of every source file. Static variables start
  at zero, as C prescribes; \<open>boot_state\<close> is the state before \<open>main\<close>.

  The devices behind the ports are not part of the kernel. A value read from a port is
  whatever the \<^emph>\<open>environment\<close> answers, a function of the port and of the whole
  history of accesses (so a device may react to what was written before); it is an argument
  of every routine that reads a port.
\<close>

section \<open>Ports\<close>

datatype port_event =
    In8 u16 u8 | In16 u16 u16 | In32 u16 u32
  | Out8 u16 u8 | Out16 u16 u16 | Out32 u16 u32

text \<open>The newest access is the head of the history.\<close>

type_synonym history = "port_event list"
type_synonym environment = "history \<Rightarrow> u16 \<Rightarrow> u32"

section \<open>Interrupt descriptors and handlers\<close>

text \<open>\<open>idt_entry\<close> of \<open>cpu/irq.h\<close>.\<close>

record idt_entry =
  offset0_15 :: u16
  selector :: u16
  reserved :: u8
  flags :: u8
  offset16_31 :: u16

text \<open>The functions the kernel registers as interrupt handlers.\<close>

datatype handler =
    Exceptions_handle_irq
  | Pit_handle_irq
  | Keyboard_handle_irq
  | Syscall_handle_irq

section \<open>The static variables\<close>

record kernel =
  mem :: memory
  io :: history
  \<comment> \<open>\<open>memory/malloc.c\<close>\<close>
  initialized :: bool
  start_chunk :: u32
  heap_len :: u32
  \<comment> \<open>\<open>execution/process.c\<close>\<close>
  next_id :: u32
  \<comment> \<open>\<open>execution/scheduler.c\<close>\<close>
  plist :: u32
  current :: u32
  enabled :: bool
  kesp :: u32
  \<comment> \<open>\<open>drivers/pit.c\<close>\<close>
  ticks :: u32
  \<comment> \<open>\<open>drivers/pci.c\<close>\<close>
  devices :: "nat \<Rightarrow> u32"
  device_count :: u32
  \<comment> \<open>\<open>display/display.c\<close>\<close>
  cursor :: u32
  \<comment> \<open>\<open>cpu/irq.c\<close>\<close>
  entries :: "nat \<Rightarrow> idt_entry"
  handlers :: "nat \<Rightarrow> handler option"
  \<comment> \<open>\<open>filesystem/fat12.c\<close>\<close>
  bpb :: u32
  lba_fat1 :: u32
  lba_root :: u32
  lba_data :: u32
  ata_bus :: u32
  \<comment> \<open>\<open>filesystem/fs.c\<close>\<close>
  drivers :: "nat \<Rightarrow> u32"

type_synonym 'a krun = "('a, kernel) run"

definition idt_entry_zero :: idt_entry where
  "idt_entry_zero = \<lparr>offset0_15 = 0, selector = 0, reserved = 0, flags = 0, offset16_31 = 0\<rparr>"

definition boot_state :: "memory \<Rightarrow> kernel" where
  "boot_state m = \<lparr>mem = m, io = [], initialized = False, start_chunk = 0, heap_len = 0,
     next_id = 0, plist = 0, current = 0, enabled = False, kesp = 0, ticks = 0,
     devices = (\<lambda>_. 0), device_count = 0, cursor = 0,
     entries = (\<lambda>_. idt_entry_zero), handlers = (\<lambda>_. None),
     bpb = 0, lba_fat1 = 0, lba_root = 0, lba_data = 0, ata_bus = 0, drivers = (\<lambda>_. 0)\<rparr>"

section \<open>Routines on the memory\<close>

definition on_memory :: "(memory \<Rightarrow> ('a, memory) run) \<Rightarrow> kernel \<Rightarrow> 'a krun" where
  "on_memory f s =
    (case f (mem s) of
       None \<Rightarrow> None
     | Some (Inl e) \<Rightarrow> fail e
     | Some (Inr (x, m)) \<Rightarrow> ret x (s\<lparr>mem := m\<rparr>))"

section \<open>Loops with a counter\<close>

text \<open>
  The values a 32-bit counter takes in \<open>for (i = 0; i < n; i++)\<close>, in order.
\<close>

definition indices :: "u32 \<Rightarrow> u32 list" where
  "indices n = map word_of_nat [0..<unat n]"

text \<open>
  A loop whose bound is read again before every iteration. Below its bound a counter does not wrap, so such a loop ends,
  whatever its body does to the bound; while the body keeps the bound it is the loop over \<open>indices\<close>.
\<close>

lemma count_decreases: "i < n \<Longrightarrow> 2 ^ 32 - unat (i + 1) < 2 ^ 32 - unat (i :: u32)"
proof -
  assume "i < n"
  then have "unat (i + 1) = unat i + 1" using unat_lt2p [of n] by (simp add: word_less_nat_alt unat_word_ariths)
  then show ?thesis using unat_lt2p [of i] by simp
qed

function count_up :: "('s \<Rightarrow> u32) \<Rightarrow> (u32 \<Rightarrow> 's \<Rightarrow> 's) \<Rightarrow> u32 \<Rightarrow> 's \<Rightarrow> 's" where
  "count_up bound body i s = (if i < bound s then count_up bound body (i + 1) (body i s) else s)"
  by pat_completeness auto
termination
  by (relation "measure (\<lambda>(_, _, i, _). 2 ^ 32 - unat i)") (simp_all only: in_measure prod.case wf_measure count_decreases)

declare count_up.simps [simp del]

lemma count_up_fold:
  assumes "n < 2 ^ 32" and "\<And>j. j \<le> n \<Longrightarrow> bound (fold body (map word_of_nat [0..<j]) s) = word_of_nat n"
  shows "count_up bound body 0 s = fold body (map word_of_nat [0..<n]) s"
proof -
  have "count_up bound body (word_of_nat i) (fold body (map word_of_nat [0..<i]) s) = fold body (map word_of_nat [0..<n]) s"
    if "i \<le> n" for i
    using that
  proof (induction rule: inc_induct)
    case base
    then show ?case using assms(2) [of n] by (subst count_up.simps) simp
  next
    case (step i)
    have "word_of_nat i < (word_of_nat n :: u32)"
      using step.hyps assms(1) by (simp add: word_less_nat_alt unat_of_nat_eq)
    then show ?case using step.IH assms(2) [of i] step.hyps by (subst count_up.simps) (simp add: add.commute)
  qed
  from this [of 0] show ?thesis by simp
qed

text \<open>The same with a body that may stop.\<close>

function for_up :: "('s \<Rightarrow> u32) \<Rightarrow> (u32 \<Rightarrow> 's \<Rightarrow> (unit, 's) run) \<Rightarrow> u32 \<Rightarrow> 's \<Rightarrow> (unit, 's) run" where
  "for_up bound body i s =
    (if i < bound s then andthen (body i s) (\<lambda>_ s. for_up bound body (i + 1) s) else ret () s)"
  by pat_completeness auto
termination
  by (relation "measure (\<lambda>(_, _, i, _). 2 ^ 32 - unat i)") (simp_all only: in_measure prod.case wf_measure count_decreases)

declare for_up.simps [simp del]

lemma for_up_each:
  assumes n: "n < 2 ^ 32" and bound: "\<And>s. P s \<Longrightarrow> bound s = word_of_nat n"
    and keep: "\<And>i s s'. i < n \<Longrightarrow> P s \<Longrightarrow> body (word_of_nat i) s = ret () s' \<Longrightarrow> P s'" and start: "P s"
  shows "for_up bound body 0 s = for_each (map word_of_nat [0..<n]) body s"
proof -
  have "for_up bound body (word_of_nat i) s = for_each (map word_of_nat [i..<n]) body s" if "i \<le> n" and "P s" for i s
    using that
  proof (induction arbitrary: s rule: inc_induct)
    case base
    then show ?case using bound by (subst for_up.simps) simp
  next
    case (step i)
    have lt: "word_of_nat i < (word_of_nat n :: u32)"
      using step.hyps n by (simp add: word_less_nat_alt unat_of_nat_eq)
    have s: "word_of_nat i + 1 = (word_of_nat (Suc i) :: u32)" by (simp add: add.commute)
    have "for_up bound body (word_of_nat i) s =
        andthen (body (word_of_nat i) s) (\<lambda>_ s. for_up bound body (word_of_nat (Suc i)) s)"
      using lt bound [OF step.prems] by (subst for_up.simps) (simp only: s if_True)
    also have "\<dots> = andthen (body (word_of_nat i) s) (\<lambda>_. for_each (map word_of_nat [Suc i..<n]) body)"
      using step.IH keep [OF _ step.prems] step.hyps by (cases "body (word_of_nat i) s" rule: run_cases) simp_all
    also have "\<dots> = for_each (map word_of_nat [i..<n]) body s" using step.hyps by (simp add: upt_conv_Cons)
    finally show ?case .
  qed
  from this [of 0] show ?thesis using start by simp
qed

lemma set_indices: "set (indices n) = {i. i < n}"
proof -
  have "i \<in> set (indices n)" if "i < n" for i
  proof -
    have "word_of_nat (unat i) = i" by simp
    moreover from that have "unat i \<in> {0..<unat n}" by (simp add: word_less_nat_alt)
    ultimately show ?thesis unfolding indices_def by (metis image_eqI list.set_map set_upt)
  qed
  moreover have "i < n" if "i \<in> set (indices n)" for i
    using that unat_lt2p [of n] by (auto simp: indices_def word_less_nat_alt unat_of_nat_eq)
  ultimately show ?thesis by blast
qed

lemma length_indices [simp]: "length (indices n) = unat n"
  by (simp add: indices_def)

lemma indices_0 [simp]: "indices 0 = []"
  by (simp add: indices_def)

end
