(* ===== verification/CString.thy ===== *)
theory CString
  imports Kernel_State
begin

text \<open>
  The routines of \<open>string.c\<close> that work on bytes in memory: lengths, comparison, copying,
  filling, trimming, reversal and the conversion of integers to text. Formatted output is in
  \<open>Format\<close>. A loop over a string has no bound in the code, so it is a partial function whose
  value is \<open>None\<close> when no terminator is ever met; a loop with a counter is a fold over the
  counter's values.
\<close>

section \<open>The routines\<close>

partial_function (option) strlen_from :: "memory \<Rightarrow> u32 \<Rightarrow> u32 \<Rightarrow> u32 option" where
  "strlen_from m str i = (if m (str + i) = 0 then Some i else strlen_from m str (i + 1))"

definition strlen :: "memory \<Rightarrow> u32 \<Rightarrow> u32 option" where
  "strlen m str = strlen_from m str 0"

partial_function (option) strcmp :: "memory \<Rightarrow> u32 \<Rightarrow> u32 \<Rightarrow> u32 option" where
  "strcmp m s1 s2 =
    (if m s1 \<noteq> 0 \<and> m s1 = m s2 then strcmp m (s1 + 1) (s2 + 1)
     else Some (ucast (m s1) - ucast (m s2)))"

definition copy_up :: "u32 \<Rightarrow> u32 \<Rightarrow> nat \<Rightarrow> memory \<Rightarrow> memory" where
  "copy_up dest src n m =
    fold (\<lambda>i m. store8 m (dest + word_of_nat i) (m (src + word_of_nat i))) [0..<n] m"

definition strcpy :: "u32 \<Rightarrow> u32 \<Rightarrow> u32 \<Rightarrow> memory \<Rightarrow> memory" where
  "strcpy src dest n m = copy_up dest src (unat n) m"

definition memcpy :: "u32 \<Rightarrow> u32 \<Rightarrow> u32 \<Rightarrow> memory \<Rightarrow> memory" where
  "memcpy dest src n m = copy_up dest src (unat n) m"

definition fill_up :: "u32 \<Rightarrow> u8 \<Rightarrow> nat \<Rightarrow> memory \<Rightarrow> memory" where
  "fill_up str c n m = fold (\<lambda>i m. store8 m (str + word_of_nat i) c) [0..<n] m"

definition strset :: "u32 \<Rightarrow> u8 \<Rightarrow> u32 \<Rightarrow> memory \<Rightarrow> memory" where
  "strset str c n m = fill_up str c (unat n) m"

definition memset :: "u32 \<Rightarrow> u32 \<Rightarrow> u32 \<Rightarrow> memory \<Rightarrow> memory" where
  "memset s c n m = fill_up s (ucast c) (unat n) m"

text \<open>The loop of \<open>strtrim\<close>, from index \<open>n - 1\<close> down to 0.\<close>

fun strtrim_loop :: "u32 \<Rightarrow> u8 \<Rightarrow> nat \<Rightarrow> memory \<Rightarrow> memory" where
  "strtrim_loop str c 0 m = m"
| "strtrim_loop str c (Suc i) m =
    (if m (str + word_of_nat i) = c
     then strtrim_loop str c i (store8 m (str + word_of_nat i) 0)
     else m)"

text \<open>The index is a signed 32-bit integer that starts at the length less one.\<close>

definition strtrim :: "u32 \<Rightarrow> u8 \<Rightarrow> memory \<Rightarrow> memory option" where
  "strtrim str c m =
    (case strlen m str of
       None \<Rightarrow> None
     | Some len \<Rightarrow> Some (if sint (len - 1) < 0 then m else strtrim_loop str c (unat len) m))"

definition swap :: "u32 \<Rightarrow> u32 \<Rightarrow> memory \<Rightarrow> memory" where
  "swap a b m = (let t = m a; m = store8 m a (m b) in store8 m b t)"

function reverse :: "u32 \<Rightarrow> u32 \<Rightarrow> u32 \<Rightarrow> memory \<Rightarrow> memory" where
  "reverse str i j m =
    (if i < j then reverse str (i + 1) (j - 1) (swap (str + i) (str + j) m) else m)"
  by pat_completeness auto
termination
proof (relation "measure (\<lambda>(str, i, j, m). unat j)")
  fix str i j :: u32 and m :: memory
  assume "i < j"
  then have "j \<noteq> 0" by auto
  then show "((str, i + 1, j - 1, swap (str + i) (str + j) m), str, i, j, m)
      \<in> measure (\<lambda>(str, i, j, m). unat j)"
    by (simp add: measure_unat)
qed simp

declare reverse.simps [simp del]

text \<open>
  \<open>itoa\<close>: the base is unsigned, so C converts the (signed) value to unsigned in the
  remainder and in the quotient; the model keeps the value's 32 bits.
\<close>

definition digit_char :: "u32 \<Rightarrow> u8" where
  "digit_char r = (if 10 \<le> r then ucast (65 + r - 10) else ucast (48 + r))"

partial_function (option) itoa_digits ::
  "u32 \<Rightarrow> u32 \<Rightarrow> u32 \<Rightarrow> u32 \<Rightarrow> memory \<Rightarrow> (memory \<times> u32) option" where
  "itoa_digits str base i j m =
    (if i = 0 then Some (m, j)
     else itoa_digits str base (i div base) (j + 1)
            (store8 m (str + j) (digit_char (i mod base))))"

definition itoa :: "u32 \<Rightarrow> u32 \<Rightarrow> u32 \<Rightarrow> memory \<Rightarrow> memory option" where
  "itoa i str base m =
    (if base < 2 \<or> 32 < base then Some m
     else
       let negative = (sint i < 0 \<and> base = 10);
           i = (if negative then - i else i)
       in case itoa_digits str base i 0 m of
            None \<Rightarrow> None
          | Some (m, j) \<Rightarrow>
              let (m, j) = (if j = 0 then (store8 m (str + j) 48, j + 1)
                            else if negative then (store8 m (str + j) 45, j + 1)
                            else (m, j));
                  m = store8 m (str + j) 0
              in Some (reverse str 0 (j - 1) m))"

section \<open>Strings in memory\<close>

text \<open>\<open>cstr m a cs\<close>: at \<open>a\<close> lie the characters \<open>cs\<close>, none of them 0, and then a 0.\<close>

definition cstr :: "memory \<Rightarrow> u32 \<Rightarrow> u8 list \<Rightarrow> bool" where
  "cstr m a cs \<longleftrightarrow> 0 \<notin> set cs \<and> length cs < 2 ^ 32 \<and> bytes_at m a (length cs) = cs \<and>
     m (a + word_of_nat (length cs)) = 0"

text \<open>The characters of a string literal.\<close>

definition char_codes :: "string \<Rightarrow> u8 list" where
  "char_codes = map of_char"

text \<open>The strings that the arguments of a formatted output may point to.\<close>

type_synonym strings = "u32 \<Rightarrow> u8 list option"

lemma cstr_Nil: "cstr m a [] \<longleftrightarrow> m a = 0"
  by (simp add: cstr_def)

lemma cstr_Cons:
  "length cs < 2 ^ 32 - 1 \<Longrightarrow> cstr m a (c # cs) \<longleftrightarrow> c \<noteq> 0 \<and> m a = c \<and> cstr m (a + 1) cs"
  by (auto simp: cstr_def bytes_at_Cons add.assoc)

lemma cstr_nth: "cstr m a cs \<Longrightarrow> i < length cs \<Longrightarrow> m (a + word_of_nat i) = cs ! i"
  by (metis cstr_def nth_bytes_at)

lemma cstr_nth_nonzero: "cstr m a cs \<Longrightarrow> i < length cs \<Longrightarrow> m (a + word_of_nat i) \<noteq> 0"
  by (metis cstr_def cstr_nth nth_mem)

lemma cstr_end: "cstr m a cs \<Longrightarrow> m (a + word_of_nat (length cs)) = 0"
  by (simp add: cstr_def)

lemma cstr_cong:
  assumes "same_on (region a (Suc (length cs))) m m'" and "cstr m a cs"
  shows "cstr m' a cs"
proof -
  have len: "length cs < 2 ^ 32" using assms(2) by (simp add: cstr_def)
  have "bytes_at m' a (Suc (length cs)) = bytes_at m a (Suc (length cs))"
    using assms(1) by (rule bytes_at_cong) (use len in simp)
  then show ?thesis using assms(2) by (simp add: cstr_def bytes_at_Suc)
qed

lemma strlen_from_cstr:
  assumes "cstr m a cs" and "k \<le> length cs"
  shows "strlen_from m a (word_of_nat k) = Some (word_of_nat (length cs))"
  using assms(2)
proof (induction "length cs - k" arbitrary: k)
  case 0
  then have "k = length cs" by simp
  with assms(1) show ?case by (simp add: strlen_from.simps cstr_end)
next
  case (Suc d)
  then have k: "k < length cs" by simp
  have "strlen_from m a (word_of_nat k) = strlen_from m a (word_of_nat (Suc k))"
    using cstr_nth_nonzero [OF assms(1) k] by (subst strlen_from.simps) (simp add: add.commute)
  also have "\<dots> = Some (word_of_nat (length cs))"
    using Suc k by (intro Suc.hyps) simp_all
  finally show ?case .
qed

lemma strlen_cstr: "cstr m a cs \<Longrightarrow> strlen m a = Some (word_of_nat (length cs))"
  using strlen_from_cstr [of m a cs 0] by (simp add: strlen_def)

text \<open>The difference of the first bytes in which two strings differ; the end counts as 0.\<close>

fun byte_diff :: "u8 list \<Rightarrow> u8 list \<Rightarrow> int" where
  "byte_diff [] [] = 0"
| "byte_diff [] (y # ys) = - uint y"
| "byte_diff (x # xs) [] = uint x"
| "byte_diff (x # xs) (y # ys) = (if x = y then byte_diff xs ys else uint x - uint y)"

lemma uint_u8: "0 \<le> uint x" "uint x < 256" for x :: u8
  using unsigned_less [of x] by simp_all

lemma byte_diff_range: "- 256 < byte_diff xs ys \<and> byte_diff xs ys < 256"
proof (induction xs ys rule: byte_diff.induct)
  case (4 x xs y ys)
  then show ?case using uint_u8(1) [of x] uint_u8(1) [of y] uint_u8(2) [of x] uint_u8(2) [of y] by (cases "x = y") (simp, simp only: byte_diff.simps if_False, linarith)
next
  case (2 y ys)
  show ?case unfolding byte_diff.simps using uint_u8(1) [of y] uint_u8(2) [of y] by linarith
next
  case (3 x xs)
  show ?case unfolding byte_diff.simps using uint_u8(1) [of x] uint_u8(2) [of x] by linarith
qed simp

lemma uint_pos_u8: "x \<noteq> 0 \<Longrightarrow> 0 < uint x" for x :: u8
  by (simp add: word_neq_0_conv word_less_def)

lemma uint_nonneg_pos: "0 < uint x \<longleftrightarrow> uint x \<noteq> 0" for x :: u8
  using uint_u8(1) [of x] by linarith

lemma byte_diff_0: "0 \<notin> set xs \<Longrightarrow> 0 \<notin> set ys \<Longrightarrow> byte_diff xs ys = 0 \<longleftrightarrow> xs = ys"
  by (induction xs ys rule: byte_diff.induct) (auto dest: uint_pos_u8 simp: word_uint_eq_iff)

lemma byte_diff_less: "0 \<notin> set xs \<Longrightarrow> 0 \<notin> set ys \<Longrightarrow> byte_diff xs ys < 0 \<longleftrightarrow> ord_class.lexordp xs ys"
  by (induction xs ys rule: byte_diff.induct)
    (auto simp: uint_u8 not_less word_less_def le_less word_uint_eq_iff uint_nonneg_pos)

lemma ucast_diff_u8:
  "(ucast x - ucast y :: u32) = word_of_int (uint x - uint y)" for x y :: u8
  by (simp add: unsigned_ucast_eq word_of_int_eq_iff flip: word_of_int_uint)

lemma strcmp_cstr:
  assumes "cstr m a xs" and "cstr m b ys"
  shows "strcmp m a b = Some (word_of_int (byte_diff xs ys))"
  using assms
proof (induction xs arbitrary: a b ys)
  case Nil
  then have a: "m a = 0" by (simp add: cstr_Nil)
  show ?case
  proof (cases ys)
    case Nil
    with Nil.prems a show ?thesis by (simp add: cstr_Nil strcmp.simps [of m a b])
  next
    case (Cons y ys')
    then have "m b = y" using cstr_nth [OF Nil.prems(2), of 0] by simp
    with a Cons show ?thesis
      using ucast_diff_u8 [of 0 y] by (simp add: strcmp.simps [of m a b])
  qed
next
  case (Cons x xs)
  have lx: "length xs < 2 ^ 32 - 1" using Cons.prems(1) by (simp add: cstr_def)
  with Cons.prems(1) have x: "x \<noteq> 0" "m a = x" and xs: "cstr m (a + 1) xs"
    by (simp_all add: cstr_Cons)
  show ?case
  proof (cases ys)
    case Nil
    then have "m b = 0" using Cons.prems(2) by (simp add: cstr_Nil)
    with x Nil show ?thesis using ucast_diff_u8 [of x 0] by (simp add: strcmp.simps [of m a b])
  next
    case ys: (Cons y ys')
    have "length ys' < 2 ^ 32 - 1" using Cons.prems(2) ys by (simp add: cstr_def)
    then have y: "m b = y" "cstr m (b + 1) ys'" using Cons.prems(2) ys by (simp_all add: cstr_Cons)
    show ?thesis
      using Cons.IH [OF xs y(2)] x y ys ucast_diff_u8 [of x y] by (simp add: strcmp.simps [of m a b])
  qed
qed

lemma sint_small: "- 256 < i \<Longrightarrow> i < 256 \<Longrightarrow> sint (word_of_int i :: u32) = i"
  by (simp add: signed_of_int signed_take_bit_int_eq_self)

section \<open>Copying and filling\<close>

text \<open>
  An upward copy moves the bytes as they were if no byte is overwritten before it is read:
  the regions are disjoint, or the destination lies below the source.
\<close>

definition copy_safe :: "u32 \<Rightarrow> u32 \<Rightarrow> nat \<Rightarrow> bool" where
  "copy_safe dest src n \<longleftrightarrow> (\<forall>i < n. src + word_of_nat i \<notin> region dest i)"

lemma copy_up_bytes:
  assumes "copy_safe dest src n" and "n \<le> 2 ^ 32"
  shows "copy_up dest src n m = store_bytes m dest (bytes_at m src n)"
  using assms
proof (induction n)
  case 0
  then show ?case by (simp add: copy_up_def)
next
  case (Suc n)
  have IH: "copy_up dest src n m = store_bytes m dest (bytes_at m src n)"
    using Suc.prems by (intro Suc.IH) (simp_all add: copy_safe_def)
  have "copy_up dest src (Suc n) m =
      store8 (copy_up dest src n m) (dest + word_of_nat n) (copy_up dest src n m (src + word_of_nat n))"
    by (simp add: copy_up_def)
  also have "copy_up dest src n m (src + word_of_nat n) = m (src + word_of_nat n)"
    using Suc.prems unfolding IH by (simp add: store_bytes_apply copy_safe_def in_region_iff)
  finally show ?case
    by (simp add: IH bytes_at_Suc store_bytes_append store8_def)
qed

lemma copy_safe_disjoint:
  assumes "region dest n \<inter> region src n = {}" and "n \<le> 2 ^ 32"
  shows "copy_safe dest src n"
  unfolding copy_safe_def
proof (intro allI impI)
  fix i assume i: "i < n"
  then have "src + word_of_nat i \<in> region src n"
    using assms(2) by (intro region_offset) (simp add: unat_of_nat_eq)
  then have "src + word_of_nat i \<notin> region dest n" using assms(1) by blast
  then show "src + word_of_nat i \<notin> region dest i" using i region_mono [of i n dest] by auto
qed

lemma memcpy_bytes:
  "copy_safe dest src (unat n) \<Longrightarrow>
   memcpy dest src n m = store_bytes m dest (bytes_at m src (unat n))"
  unfolding memcpy_def using unat_lt32 [of n] by (intro copy_up_bytes) simp_all

lemma fill_up_bytes: "fill_up a c n m = store_bytes m a (replicate n c)"
proof (induction n)
  case 0
  then show ?case by (simp add: fill_up_def)
next
  case (Suc n)
  have "replicate (Suc n) c = replicate n c @ [c]" by (metis replicate_append_same replicate_Suc)
  with Suc show ?case by (simp add: fill_up_def store_bytes_append store8_def)
qed

lemma memset_bytes: "memset a c n m = store_bytes m a (replicate (unat n) (ucast c))"
  by (simp add: memset_def fill_up_bytes)

lemma strset_bytes: "strset a c n m = store_bytes m a (replicate (unat n) c)"
  by (simp add: strset_def fill_up_bytes)


section \<open>Trimming\<close>

definition trim_end :: "u8 \<Rightarrow> u8 list \<Rightarrow> u8 list" where
  "trim_end c cs = rev (dropWhile (\<lambda>x. x = c) (rev cs))"

lemma trim_end_simps [simp]:
  "trim_end c [] = []"
  "trim_end c (cs @ [x]) = (if x = c then trim_end c cs else cs @ [x])"
  by (simp_all add: trim_end_def)

lemma length_trim_end: "length (trim_end c cs) \<le> length cs"
  using length_dropWhile_le [of "\<lambda>x. x = c" "rev cs"] by (simp add: trim_end_def)

lemma cstr_snoc_cut:
  assumes "cstr m a (cs @ [x])"
  shows "cstr (store8 m (a + word_of_nat (length cs)) 0) a cs"
proof -
  let ?z = "a + word_of_nat (length cs)"
  have len: "length cs < 2 ^ 32" and zero: "0 \<notin> set cs" and b: "bytes_at m a (length cs) = cs"
    using assms by (simp_all add: cstr_def bytes_at_Suc)
  have "same_on (region a (length cs)) m (store8 m ?z 0)"
    using len by (intro same_on_store8) (simp add: in_region_iff unat_of_nat_eq)
  then have "bytes_at (store8 m ?z 0) a (length cs) = cs"
    using b len by (subst bytes_at_cong) simp_all
  then show ?thesis using len zero by (simp add: cstr_def)
qed

lemma strtrim_loop_cstr:
  "cstr m a cs \<Longrightarrow> cstr (strtrim_loop a c (length cs) m) a (trim_end c cs)"
proof (induction cs arbitrary: m rule: rev_induct)
  case Nil
  then show ?case by simp
next
  case (snoc x cs)
  have x: "m (a + word_of_nat (length cs)) = x"
    using cstr_nth [OF snoc.prems, of "length cs"] by simp
  show ?case
  proof (cases "x = c")
    case True
    have "cstr (strtrim_loop a c (length cs) (store8 m (a + word_of_nat (length cs)) 0)) a (trim_end c cs)"
      using snoc.prems by (intro snoc.IH cstr_snoc_cut)
    with True x show ?thesis by simp
  next
    case False
    with x snoc.prems show ?thesis by simp
  qed
qed

lemma strtrim_loop_same:
  "n \<le> 2 ^ 32 \<Longrightarrow> same_on (- region a n) m (strtrim_loop a c n m)"
proof (induction n arbitrary: m)
  case 0
  then show ?case by simp
next
  case (Suc n)
  let ?m = "store8 m (a + word_of_nat n) 0"
  have "same_on (- region a (Suc n)) m ?m"
    using Suc.prems by (intro same_on_store8) (simp add: in_region_iff unat_of_nat_eq)
  moreover have "same_on (- region a (Suc n)) ?m (strtrim_loop a c n ?m)"
    using Suc by (intro same_on_mono [OF Suc.IH]) (auto simp: in_region_iff)
  ultimately show ?case by (auto intro: same_on_trans)
qed

lemma strtrim_run:
  assumes "cstr m a cs" and "length cs < 2 ^ 31"
  shows "strtrim a c m = Some (strtrim_loop a c (length cs) m)"
proof -
  have len: "unat (word_of_nat (length cs) :: u32) = length cs"
    using assms(2) by (intro unat_of_nat_eq) simp
  show ?thesis
  proof (cases "cs = []")
    case True
    with assms show ?thesis by (simp add: strtrim_def strlen_cstr)
  next
    case False
    have "word_of_nat (length cs) - (1 :: u32) = word_of_nat (length cs - 1)"
      using False by (simp add: of_nat_diff Suc_le_eq)
    moreover have "sint (word_of_nat (length cs - 1) :: u32) = int (length cs - 1)"
      using assms(2) by (simp add: signed_of_nat signed_take_bit_int_eq_self_iff)
    ultimately have "\<not> sint (word_of_nat (length cs) - (1 :: u32)) < 0" by simp
    with assms len show ?thesis by (simp add: strtrim_def strlen_cstr)
  qed
qed

lemma strtrim_cstr:
  assumes "cstr m a cs" and "length cs < 2 ^ 31"
  obtains m' where "strtrim a c m = Some m'" "cstr m' a (trim_end c cs)"
    "same_on (- region a (length cs)) m m'"
  using that strtrim_run [OF assms] strtrim_loop_cstr [OF assms(1)] strtrim_loop_same [of "length cs" a m c] assms(2)
  by simp

text \<open>What was cut is 0.\<close>

lemma strtrim_loop_zeros:
  "cstr m a cs \<Longrightarrow> length (trim_end c cs) \<le> i \<Longrightarrow> i \<le> length cs \<Longrightarrow>
   strtrim_loop a c (length cs) m (a + word_of_nat i) = 0"
proof (induction cs arbitrary: m rule: rev_induct)
  case Nil
  then show ?case by (simp add: cstr_Nil)
next
  case (snoc x cs)
  have x: "m (a + word_of_nat (length cs)) = x" and len: "length cs + 1 < 2 ^ 32"
    using cstr_nth [OF snoc.prems(1), of "length cs"] snoc.prems(1) by (simp_all add: cstr_def)
  show ?case
  proof (cases "x = c \<and> i \<le> length cs")
    case True
    have "strtrim_loop a c (length cs) (store8 m (a + word_of_nat (length cs)) 0) (a + word_of_nat i) = 0"
      using snoc.prems True by (intro snoc.IH cstr_snoc_cut) simp_all
    with True x show ?thesis by simp
  next
    case False
    have "i = length (cs @ [x])"
    proof (cases "x = c")
      case True
      then show ?thesis using False snoc.prems(3) by simp
    next
      case False
      then show ?thesis using snoc.prems(2,3) by simp
    qed
    moreover have "unat (word_of_nat (length (cs @ [x])) :: u32) = length (cs @ [x])"
      using len by (intro unat_of_nat_eq) simp
    ultimately have "a + word_of_nat i \<in> - region a (length (cs @ [x]))" by (simp add: in_region_iff)
    from same_onD [OF strtrim_loop_same this, of c m] len
    have "strtrim_loop a c (length (cs @ [x])) m (a + word_of_nat i) = m (a + word_of_nat i)" by simp
    then show ?thesis using cstr_end [OF snoc.prems(1)] \<open>i = length (cs @ [x])\<close> by simp
  qed
qed

lemma strtrim_zeros:
  assumes "strtrim a c m = Some m'" and "cstr m a cs" and "length cs < 2 ^ 31"
    and "length (trim_end c cs) \<le> i" and "i \<le> length cs"
  shows "m' (a + word_of_nat i) = 0"
  using strtrim_run [OF assms(2,3)] strtrim_loop_zeros [OF assms(2,4,5)] assms(1) by simp

section \<open>Reversal\<close>

lemma swap_apply:
  "swap a b m x = (if x = b then m a else if x = a then m b else m x)"
  by (auto simp: swap_def store8_def Let_def)

text \<open>The byte at offset \<open>k\<close> after a reversal of the offsets \<open>i\<close> to \<open>j\<close>.\<close>

lemma reverse_apply:
  assumes "unat k < 2 ^ 32"
  shows "reverse str i j m (str + k) =
    (if i \<le> k \<and> k \<le> j then m (str + (i + j - k)) else m (str + k))"
proof (induction str i j m rule: reverse.induct)
  case (1 str i j m)
  show ?case
  proof (cases "i < j")
    case False
    have "k = i \<and> j = i" if "i \<le> k" "k \<le> j"
      using False that by (simp add: word_le_nat_alt word_less_nat_alt word_unat_eq_iff)
    then have "m (str + (i + j - k)) = m (str + k)" if "i \<le> k" "k \<le> j"
      using that by simp
    with False show ?thesis by (subst reverse.simps) auto
  next
    case True
    let ?m = "swap (str + i) (str + j) m"
    have ii: "unat (i + 1) = unat i + 1"
      using True unat_lt32 [of j] by (subst unat_add_exact) (simp_all add: word_less_nat_alt)
    have jj: "unat (j - 1) = unat j - 1" using True by (intro unat_minus_one) auto
    have step: "reverse str i j m (str + k) =
        (if i + 1 \<le> k \<and> k \<le> j - 1 then ?m (str + (i + 1 + (j - 1) - k)) else ?m (str + k))"
      using True by (subst reverse.simps) (simp add: "1.IH")
    have inner: "i + 1 \<le> k \<and> k \<le> j - 1 \<longleftrightarrow> i \<le> k \<and> k \<le> j \<and> k \<noteq> i \<and> k \<noteq> j"
      using True ii jj by (auto simp: word_le_nat_alt word_less_nat_alt word_unat_eq_iff)
    have mid: "i + j - k \<noteq> i \<and> i + j - k \<noteq> j" if "k \<noteq> i" "k \<noteq> j"
      using that by (auto simp: algebra_simps)
    show ?thesis
      using True mid unfolding step inner
      by (auto simp: swap_apply word_le_nat_alt word_less_nat_alt)
  qed
qed

lemma reverse_bytes:
  assumes "0 < n" and "n \<le> 2 ^ 32"
  shows "reverse str 0 (word_of_nat (n - 1)) m = store_bytes m str (rev (bytes_at m str n))"
proof
  fix x
  define k where "k = x - str"
  have x: "x = str + k" by (simp add: k_def)
  have n: "unat (word_of_nat (n - 1) :: u32) = n - 1" using assms by (intro unat_of_nat_eq) simp
  show "reverse str 0 (word_of_nat (n - 1)) m x = store_bytes m str (rev (bytes_at m str n)) x"
  proof (cases "unat k < n")
    case True
    then have le: "k \<le> word_of_nat (n - 1)" using n by (simp add: word_le_nat_alt)
    have "word_of_nat (n - 1) - k = word_of_nat (n - 1 - unat k)"
      using True by (simp add: of_nat_diff)
    then have "reverse str 0 (word_of_nat (n - 1)) m x = m (str + word_of_nat (n - 1 - unat k))"
      using le unat_lt2p [of k] unfolding x by (subst reverse_apply) simp_all
    also have "\<dots> = rev (bytes_at m str n) ! unat k"
      using True by (simp add: rev_nth)
    finally show ?thesis using True assms x by (simp add: store_bytes_apply)
  next
    case False
    then have "\<not> k \<le> word_of_nat (n - 1)" using n assms by (simp add: word_le_nat_alt)
    then have "reverse str 0 (word_of_nat (n - 1)) m x = m x"
      using unat_lt2p [of k] unfolding x by (subst reverse_apply) simp_all
    then show ?thesis using False assms x by (simp add: store_bytes_apply)
  qed
qed


section \<open>Integers as text\<close>

text \<open>The digits of a number, least significant first, and the value of a digit string.\<close>

fun digits :: "nat \<Rightarrow> nat \<Rightarrow> nat list" where
  "digits b n = (if n = 0 \<or> b < 2 then [] else n mod b # digits b (n div b))"

declare digits.simps [simp del]

lemma digits_0 [simp]: "digits b 0 = []"
  by (simp add: digits.simps)

definition char_value :: "u8 \<Rightarrow> nat" where
  "char_value c = (if 65 \<le> c then unat c - 65 + 10 else unat c - 48)"

definition parse :: "nat \<Rightarrow> u8 list \<Rightarrow> nat" where
  "parse b cs = foldl (\<lambda>v c. v * b + char_value c) 0 cs"

lemma parse_snoc: "parse b (cs @ [c]) = parse b cs * b + char_value c"
  by (simp add: parse_def)

lemma parse_Nil: "parse b [] = 0"
  by (simp add: parse_def)

lemma digits_less: "d \<in> set (digits b n) \<Longrightarrow> d < b"
  by (induction b n rule: digits.induct) (subst (asm) (2) digits.simps, auto split: if_splits)

lemma digit_char_unat:
  assumes "r < 36"
  shows "unat (digit_char (word_of_nat r)) = (if 10 \<le> r then r + 55 else r + 48)"
proof -
  have r: "unat (word_of_nat r :: u32) = r" using assms by (intro unat_of_nat_eq) simp
  have c: "unat (ucast (word_of_nat r + word_of_nat k :: u32) :: u8) = r + k" if "k < 100" for k
  proof -
    have "unat (word_of_nat (r + k) :: u32) = r + k"
      using assms that by (intro unat_of_nat_eq) simp
    then have "unat (word_of_nat r + word_of_nat k :: u32) = r + k" by simp
    then show ?thesis
      using assms that by (simp only: unsigned_ucast_eq) (simp add: take_bit_nat_eq_self_iff)
  qed
  have "65 + word_of_nat r - 10 = (word_of_nat r + word_of_nat 55 :: u32)" by simp
  moreover have "48 + word_of_nat r = (word_of_nat r + word_of_nat 48 :: u32)" by simp
  ultimately show ?thesis
    using c [of 55] c [of 48] r by (simp only: digit_char_def word_le_nat_alt unat_numeral) simp
qed

lemma digit_char_value:
  assumes "r < 36"
  shows "char_value (digit_char (word_of_nat r)) = r" and "digit_char (word_of_nat r) \<noteq> 0"
    and "digit_char (word_of_nat r) \<noteq> 45"
proof -
  note u = digit_char_unat [OF assms]
  show "char_value (digit_char (word_of_nat r)) = r"
    using assms by (simp add: char_value_def word_le_nat_alt u)
  show "digit_char (word_of_nat r) \<noteq> 0" and "digit_char (word_of_nat r) \<noteq> 45"
    by (auto simp: word_unat_eq_iff u)
qed

lemma parse_digits:
  assumes "2 \<le> b" and "b \<le> 32"
  shows "parse b (rev (map (\<lambda>d. digit_char (word_of_nat d)) (digits b n))) = n"
proof (induction n rule: less_induct)
  case (less n)
  show ?case
  proof (cases "n = 0")
    case True
    then show ?thesis by (simp add: digits.simps parse_Nil)
  next
    case False
    with assms have "n div b < n" by simp
    then have IH: "parse b (rev (map (\<lambda>d. digit_char (word_of_nat d)) (digits b (n div b)))) = n div b"
      by (rule less.IH)
    have "n mod b < 36" using assms by (intro less_trans [OF mod_less_divisor]) auto
    with False assms IH show ?thesis
      by (subst digits.simps) (simp add: parse_snoc digit_char_value)
  qed
qed

lemma length_digits: "n < b ^ k \<Longrightarrow> length (digits b n) \<le> k"
proof (induction k arbitrary: n)
  case 0
  then show ?case by (simp add: digits.simps)
next
  case (Suc k)
  show ?case
  proof (cases "n = 0 \<or> b < 2")
    case True
    then show ?thesis by (simp add: digits.simps)
  next
    case False
    with Suc.prems have "n div b < b ^ k" by (simp add: less_mult_imp_div_less mult.commute)
    then have "length (digits b (n div b)) \<le> k" by (rule Suc.IH)
    with False show ?thesis by (subst digits.simps) simp
  qed
qed

lemma length_digits_u32: "2 \<le> b \<Longrightarrow> length (digits b (unat (i :: u32))) \<le> 32"
proof (rule length_digits)
  assume "2 \<le> b"
  then have "(2::nat) ^ 32 \<le> b ^ 32" by (rule power_mono) simp
  then show "unat i < b ^ 32" using unat_lt32 [of i] by simp
qed

lemma itoa_digits_bytes:
  assumes "2 \<le> base"
  shows "itoa_digits str base i j m =
    Some (store_bytes m (str + j) (map (\<lambda>d. digit_char (word_of_nat d)) (digits (unat base) (unat i))),
      j + word_of_nat (length (digits (unat base) (unat i))))"
proof (induction "unat i" arbitrary: i j m rule: less_induct)
  case less
  have base: "2 \<le> unat base" using assms by (simp add: word_le_nat_alt)
  show ?case
  proof (cases "i = 0")
    case True
    then show ?thesis by (simp add: itoa_digits.simps digits.simps)
  next
    case False
    then have "0 < unat i" by (simp add: unat_gt_0)
    with base have "unat (i div base) < unat i" by (simp add: unat_div)
    note IH = less [OF this]
    have "word_of_nat (unat i mod unat base) = i mod base"
      by (metis of_nat_unat unat_mod ucast_id)
    with False IH base \<open>0 < unat i\<close> show ?thesis
      by (subst itoa_digits.simps, subst (1 2) digits.simps)
        (simp add: unat_div store8_def add.assoc)
  qed
qed

text \<open>The characters \<open>itoa\<close> writes for an unsigned magnitude, most significant first.\<close>

definition digit_string :: "nat \<Rightarrow> nat \<Rightarrow> u8 list" where
  "digit_string b n =
    (if n = 0 then [48] else rev (map (\<lambda>d. digit_char (word_of_nat d)) (digits b n)))"

lemma digit_string_parse:
  assumes "2 \<le> b" and "b \<le> 32"
  shows "parse b (digit_string b n) = n"
  using parse_digits [OF assms, of n] by (simp add: digit_string_def parse_def char_value_def)

lemma digit_string_chars:
  assumes "b \<le> 32" and "c \<in> set (digit_string b n)"
  shows "c \<noteq> 0" and "c \<noteq> 45"
proof -
  have "c \<noteq> 0 \<and> c \<noteq> 45"
  proof (cases "n = 0")
    case True
    with assms show ?thesis by (simp add: digit_string_def)
  next
    case False
    have "c \<in> (\<lambda>d. digit_char (word_of_nat d)) ` set (digits b n)"
      using assms(2) False by (simp add: digit_string_def)
    then obtain d where d: "d \<in> set (digits b n)" "c = digit_char (word_of_nat d)" by blast
    then have "d < 36" using digits_less [OF d(1)] assms(1) by linarith
    then show ?thesis using digit_char_value unfolding d(2) by blast
  qed
  then show "c \<noteq> 0" and "c \<noteq> 45" by blast+
qed

lemma digit_string_length:
  "2 \<le> b \<Longrightarrow> length (digit_string b (unat (i :: u32))) \<le> 32"
  using length_digits_u32 [of b i] by (simp add: digit_string_def)

lemma digit_string_nonempty: "2 \<le> b \<Longrightarrow> digit_string b n \<noteq> []"
  by (subst digit_string_def, subst digits.simps) simp

text \<open>What \<open>itoa\<close> puts at its buffer: a minus sign for a negative value in base 10 only.\<close>

definition itoa_string :: "u32 \<Rightarrow> u32 \<Rightarrow> u8 list" where
  "itoa_string i base =
    (if sint i < 0 \<and> base = 10 then 45 # digit_string 10 (unat (- i))
     else digit_string (unat base) (unat i))"

lemma store_bytes_snoc:
  "store_bytes m a (bs @ [b]) = store8 (store_bytes m a bs) (a + word_of_nat (length bs)) b"
  by (simp add: store_bytes_append store8_def)

lemma itoa_bytes:
  assumes "2 \<le> base" and "base \<le> 32"
  shows "itoa i str base m = Some (store_bytes m str (itoa_string i base @ [0]))"
proof -
  define neg where "neg \<longleftrightarrow> sint i < 0 \<and> base = 10"
  define v where "v = (if neg then - i else i)"
  have b: "2 \<le> unat base" "unat base \<le> 32" using assms by (simp_all add: word_le_nat_alt)
  let ?ds = "map (\<lambda>d. digit_char (word_of_nat d)) (digits (unat base) (unat v))"
  have v0: "neg \<Longrightarrow> v \<noteq> 0" by (auto simp: v_def neg_def)
  define cs where "cs = (if v = 0 then [48] else if neg then ?ds @ [45] else ?ds)"
  have ds: "v \<noteq> 0 \<Longrightarrow> digits (unat base) (unat v) \<noteq> []"
    using b by (subst digits.simps) (simp add: unat_eq_0)
  have len: "0 < length cs" "length cs \<le> 33"
    using length_digits_u32 [OF b(1), of v] ds by (auto simp: cs_def)
  have str: "rev cs = itoa_string i base"
    using v0 by (auto simp: cs_def itoa_string_def digit_string_def v_def neg_def unat_eq_0)
  have lw: "word_of_nat (length ?ds) \<noteq> (0 :: u32)" if "v \<noteq> 0"
    using ds [OF that] length_digits_u32 [OF b(1), of v]
    by (subst word_of_nat_eq_0_iff) (auto dest: dvd_imp_le)
  have run: "itoa i str base m =
      Some (reverse str 0 (word_of_nat (length cs) - 1) (store8 (store_bytes m str cs) (str + word_of_nat (length cs)) 0))"
  proof -
    have guard: "\<not> (base < 2 \<or> 32 < base)" using assms by auto
    have dig: "itoa_digits str base v 0 m = Some (store_bytes m str ?ds, word_of_nat (length ?ds))"
      using itoa_digits_bytes [OF assms(1), of str v 0 m] by simp
    show ?thesis
    proof (cases "v = 0")
      case True
      show ?thesis using guard dig True v0 unfolding itoa_def neg_def [symmetric] Let_def v_def [symmetric]
        by (simp add: cs_def store8_def)
    next
      case False
      show ?thesis using guard dig False lw [OF False]
        unfolding itoa_def neg_def [symmetric] Let_def v_def [symmetric]
        by (simp add: cs_def store_bytes_snoc add.commute del: length_map)
    qed
  qed
  let ?m1 = "store8 (store_bytes m str cs) (str + word_of_nat (length cs)) 0"
  have m1: "?m1 = store_bytes m str (cs @ [0])" by (simp add: store_bytes_snoc)
  have "word_of_nat (length cs) - 1 = (word_of_nat (length cs - 1) :: u32)"
    using len by (simp add: of_nat_diff Suc_le_eq)
  then have "reverse str 0 (word_of_nat (length cs) - 1) ?m1 =
      store_bytes ?m1 str (rev (bytes_at ?m1 str (length cs)))"
    using reverse_bytes [of "length cs" str ?m1] len by simp
  also have "bytes_at ?m1 str (length cs) = cs"
  proof -
    have "bytes_at ?m1 str (length (cs @ [0])) = cs @ [0]"
      unfolding m1 using len by (intro bytes_at_store_bytes) simp
    then show ?thesis by (simp add: bytes_at_Suc)
  qed
  also have "store_bytes ?m1 str (rev cs) = store_bytes m str (rev cs @ [0])"
    unfolding m1 using len by (auto simp: fun_eq_iff store_bytes_apply nth_append)
  finally show ?thesis using run str by simp
qed

lemma itoa_cstr:
  assumes "2 \<le> base" and "base \<le> 32"
  obtains m' where "itoa i str base m = Some m'" "cstr m' str (itoa_string i base)"
    "same_on (- region str 34) m m'"
proof -
  let ?cs = "itoa_string i base"
  have b: "2 \<le> unat base" "unat base \<le> 32" using assms by (simp_all add: word_le_nat_alt)
  have len: "length ?cs \<le> 33"
    using digit_string_length [OF b(1), of i] digit_string_length [of 10 "- i"]
    by (simp add: itoa_string_def)
  have nz: "0 \<notin> set ?cs"
    using digit_string_chars(1) [OF b(2), of 0 "unat i"] digit_string_chars(1) [of 10 0 "unat (- i)"]
    by (auto simp: itoa_string_def)
  let ?m = "store_bytes m str (?cs @ [0])"
  have "bytes_at ?m str (Suc (length ?cs)) = ?cs @ [0]"
    using bytes_at_store_bytes [of "?cs @ [0]" m str] len by simp
  then have "cstr ?m str ?cs" using nz len by (simp add: cstr_def bytes_at_Suc)
  moreover have "same_on (- region str 34) m ?m"
    using len by (intro same_on_store_bytes) (auto simp: in_region_iff)
  ultimately show ?thesis using that itoa_bytes [OF assms] by blast
qed

text \<open>In the two bases the formatted output uses, the text fits 12 bytes.\<close>

lemma itoa_string_short:
  assumes "base = 10 \<or> base = 16"
  shows "length (itoa_string i base) \<le> (if base = 10 then 11 else 8)" and "0 \<notin> set (itoa_string i base)"
proof -
  have b10: "length (digits 10 (unat j)) \<le> 10" and b16: "length (digits 16 (unat j)) \<le> 8" for j :: u32
    using unat_lt32 [of j] by (auto intro!: length_digits)
  then have d: "length (digit_string 10 (unat j)) \<le> 10" "length (digit_string 16 (unat j)) \<le> 8" for j :: u32
    by (simp_all add: digit_string_def)
  then have "length (digit_string 10 (unat i)) \<le> 11" using d(1) [of i] by linarith
  with d show "length (itoa_string i base) \<le> (if base = 10 then 11 else 8)"
    using assms by (auto simp: itoa_string_def)
  show "0 \<notin> set (itoa_string i base)"
    using assms digit_string_chars(1) [of 10 0] digit_string_chars(1) [of 16 0] by (auto simp: itoa_string_def)
qed

lemma itoa_short:
  assumes "base = 10 \<or> base = 16"
  obtains m' where "itoa i str base m = Some m'" "cstr m' str (itoa_string i base)"
    "same_on (- region str 12) m m'"
proof -
  let ?cs = "itoa_string i base"
  have b: "2 \<le> base" "base \<le> 32" using assms by auto
  have len: "length ?cs \<le> 11" using itoa_string_short(1) [OF assms, of i] by (auto split: if_splits)
  have "same_on (- region str 12) m (store_bytes m str (?cs @ [0]))"
    using len by (intro same_on_store_bytes) (auto simp: in_region_iff)
  moreover obtain m' where "itoa i str base m = Some m'" "cstr m' str ?cs" using itoa_cstr [OF b] by metis
  ultimately show ?thesis using that itoa_bytes [OF b] by simp
qed

section \<open>Properties\<close>

text \<open>Three bytes at address 100, \<open>ab\<close> and a null, and the same at 200, for the instances below.\<close>

definition example_string :: memory where
  "example_string = (\<lambda>_. 0)(100 := 97, 101 := 98, 200 := 97, 201 := 32, 202 := 32)"

lemma example_string_cstr:
  "cstr example_string 100 [97, 98]" "cstr example_string 200 [97, 32, 32]"
  by (simp_all add: cstr_def example_string_def bytes_at_def upt_rec)

text \<open>C17. \<open>itoa\<close> round trip. For a base from 2 to 32 the routine leaves at its buffer a terminated
  string that reads back as the value: in base 10 a minus sign and the magnitude of a negative
  number, otherwise the value taken as unsigned. It writes at most 34 bytes.\<close>

theorem itoa_reads_back:
  assumes "2 \<le> base" and "base \<le> 32"
  shows "\<exists>m' cs. itoa i str base m = Some m' \<and> cstr m' str cs \<and> length cs \<le> 33 \<and>
     same_on (- region str 34) m m' \<and>
     (if sint i < 0 \<and> base = 10
      then \<exists>ds. cs = 45 # ds \<and> - int (parse 10 ds) = sint i
      else parse (unat base) cs = unat i)"
proof -
  have b: "2 \<le> unat base" "unat base \<le> 32" using assms by (simp_all add: word_le_nat_alt)
  obtain m' where m': "itoa i str base m = Some m'" "cstr m' str (itoa_string i base)"
    "same_on (- region str 34) m m'"
    using itoa_cstr [OF assms] by blast
  have len: "length (itoa_string i base) \<le> 33"
    using digit_string_length [OF b(1), of i] digit_string_length [of 10 "- i"]
    by (simp add: itoa_string_def)
  have neg: "- int (unat (- i)) = sint i" if "sint i < 0"
  proof -
    have "uint i = (sint i + 2 ^ 32) mod 2 ^ 32" by (simp add: uint_sint take_bit_eq_mod)
    also have "\<dots> = sint i + 2 ^ 32"
      using that sint_ge [of i] by (intro mod_pos_pos_trivial) simp_all
    finally have "uint i = sint i + 2 ^ 32" .
    then have i0: "0 < unat i" using that by (auto simp: unat_gt_0)
    have "unat (- i) = 4294967296 - unat i"
      using unat_diff_wrap [of 0 i] i0 by simp
    moreover have "int (unat i) = uint i" by simp
    ultimately show ?thesis using \<open>uint i = sint i + 2 ^ 32\<close> unat_lt32 [of i] by simp
  qed
  have "if sint i < 0 \<and> base = 10
      then \<exists>ds. itoa_string i base = 45 # ds \<and> - int (parse 10 ds) = sint i
      else parse (unat base) (itoa_string i base) = unat i"
    using neg digit_string_parse [OF b, of "unat i"] digit_string_parse [of 10 "unat (- i)"]
    by (auto simp: itoa_string_def)
  with m' len show ?thesis by blast
qed

theorem itoa_reads_back_witness:
  "\<exists>m' cs. itoa (- 42) 500 10 (\<lambda>_. 0) = Some m' \<and> cstr m' 500 cs \<and>
     (\<exists>ds. cs = 45 # ds \<and> parse 10 ds = 42)"
  using itoa_reads_back [of 10 "- 42" 500 "\<lambda>_. 0"] by fastforce

text \<open>C18. \<open>strcmp\<close> orders strings. On terminated strings it returns, and the result read as a
  signed number is zero exactly for equal strings and negative exactly when the first string comes
  before the second in the lexicographic order of unsigned bytes.\<close>

theorem strcmp_orders:
  assumes "cstr m a xs" and "cstr m b ys"
  shows "\<exists>r. strcmp m a b = Some r \<and> (sint r = 0 \<longleftrightarrow> xs = ys) \<and>
     (sint r < 0 \<longleftrightarrow> ord_class.lexordp xs ys)"
proof -
  have z: "0 \<notin> set xs" "0 \<notin> set ys" using assms by (simp_all add: cstr_def)
  have "sint (word_of_int (byte_diff xs ys) :: u32) = byte_diff xs ys"
    using byte_diff_range [of xs ys] by (intro sint_small) simp_all
  then show ?thesis using strcmp_cstr [OF assms] byte_diff_0 [OF z] byte_diff_less [OF z] by simp
qed

theorem strcmp_orders_witness:
  "\<exists>r. strcmp example_string 100 200 = Some r \<and> sint r \<noteq> 0"
  using strcmp_orders [OF example_string_cstr] by auto

text \<open>\<open>strtrim\<close> removes exactly the trailing run of the given character from a terminated
  string shorter than two gigabytes, and changes no byte outside the string.\<close>

theorem strtrim_trims:
  assumes "cstr m a cs" and "length cs < 2 ^ 31" and "c \<noteq> 0"
  shows "\<exists>m' ds k. strtrim a c m = Some m' \<and> cstr m' a ds \<and> cs = ds @ replicate k c \<and>
     (ds = [] \<or> last ds \<noteq> c) \<and> same_on (- region a (length cs)) m m'"
proof -
  obtain m' where m': "strtrim a c m = Some m'" "cstr m' a (trim_end c cs)"
    "same_on (- region a (length cs)) m m'"
    using strtrim_cstr [OF assms(1,2)] by blast
  have "\<exists>k. cs = trim_end c cs @ replicate k c \<and> (trim_end c cs = [] \<or> last (trim_end c cs) \<noteq> c)"
  proof (induction cs rule: rev_induct)
    case (snoc x cs)
    then obtain k where k: "cs = trim_end c cs @ replicate k c" "trim_end c cs = [] \<or> last (trim_end c cs) \<noteq> c"
      by blast
    show ?case
    proof (cases "x = c")
      case True
      have "cs @ [x] = trim_end c cs @ replicate (Suc k) c"
        using k(1) True by (metis append_assoc replicate_Suc replicate_append_same)
      with k(2) True show ?thesis by (metis trim_end_simps(2))
    qed simp
  qed simp
  with m' show ?thesis by blast
qed

theorem strtrim_trims_witness:
  "\<exists>m' ds k. strtrim 200 32 example_string = Some m' \<and> cstr m' 200 ds \<and>
     [97, 32, 32] = ds @ replicate k 32 \<and> (ds = [] \<or> last ds \<noteq> 32)"
  using strtrim_trims [OF example_string_cstr(2), of 32] by auto

end
