(* ===== verification/Malloc.thy ===== *)
theory Malloc
  imports CString
begin

text \<open>
  The allocator of \<open>memory/malloc.c\<close>: a doubly linked list of chunks, each a 16-byte
  header (previous chunk, next chunk, allocated flag, length) followed by the payload it
  hands out. This theory holds the model; \<open>Heap\<close> holds its abstract specification and
  the proofs.
\<close>

section \<open>The chunk header\<close>

text \<open>
  The fields of \<open>struct memory_chunk\<close> at their offsets in the i386 layout; \<open>bool\<close>
  is one byte, padded to four.
\<close>

abbreviation (input) sizeof_memory_chunk :: u32 where
  "sizeof_memory_chunk \<equiv> 16"

definition previous_chunk :: "memory \<Rightarrow> u32 \<Rightarrow> u32" where
  "previous_chunk m chunk = load32 m chunk"

definition next_chunk :: "memory \<Rightarrow> u32 \<Rightarrow> u32" where
  "next_chunk m chunk = load32 m (chunk + 4)"

definition allocated :: "memory \<Rightarrow> u32 \<Rightarrow> bool" where
  "allocated m chunk \<longleftrightarrow> m (chunk + 8) \<noteq> 0"

definition chunk_len :: "memory \<Rightarrow> u32 \<Rightarrow> u32" where
  "chunk_len m chunk = load32 m (chunk + 12)"

definition set_previous_chunk :: "u32 \<Rightarrow> u32 \<Rightarrow> memory \<Rightarrow> memory" where
  "set_previous_chunk chunk v m = store32 m chunk v"

definition set_next_chunk :: "u32 \<Rightarrow> u32 \<Rightarrow> memory \<Rightarrow> memory" where
  "set_next_chunk chunk v m = store32 m (chunk + 4) v"

definition set_allocated :: "u32 \<Rightarrow> bool \<Rightarrow> memory \<Rightarrow> memory" where
  "set_allocated chunk v m = store8 m (chunk + 8) (if v then 1 else 0)"

definition set_chunk_len :: "u32 \<Rightarrow> u32 \<Rightarrow> memory \<Rightarrow> memory" where
  "set_chunk_len chunk v m = store32 m (chunk + 12) v"

section \<open>Initialisation\<close>

text \<open>\<open>memory_map_entry\<close> and \<open>memory_map\<close> of \<open>cpu/boot.h\<close>, both packed.\<close>

definition mmap_len :: "memory \<Rightarrow> u32 \<Rightarrow> u32" where
  "mmap_len m mmap = load32 m mmap"

definition mmap_entry :: "memory \<Rightarrow> u32 \<Rightarrow> u32 \<Rightarrow> u32" where
  "mmap_entry m mmap i = load32 m (mmap + 4) + 24 * i"

definition entry_base :: "memory \<Rightarrow> u32 \<Rightarrow> u64" where
  "entry_base m e = load64 m e"

definition entry_len :: "memory \<Rightarrow> u32 \<Rightarrow> u64" where
  "entry_len m e = load64 m (e + 8)"

definition entry_type :: "memory \<Rightarrow> u32 \<Rightarrow> u32" where
  "entry_type m e = load32 m (e + 16)"

abbreviation (input) E820_ENTRY_FREE :: u32 where
  "E820_ENTRY_FREE \<equiv> 1"

text \<open>
  One iteration of the loop over the memory map. \<open>kernel_end\<close> is the address of the
  linker symbol \<open>KERNEL_END\<close>, \<open>chunk\<close> the local variable that holds the newest
  chunk. Sums of a base and a length are 64 bits wide, as the fields are; the stored lengths
  are cut to 32 bits.
\<close>

definition malloc_init_entry ::
  "u32 \<Rightarrow> u32 \<Rightarrow> u32 \<Rightarrow> u32 \<times> kernel \<Rightarrow> u32 \<times> kernel" where
  "malloc_init_entry kernel_end mmap i = (\<lambda>(chunk, s).
     let e = mmap_entry (mem s) mmap i;
         base = entry_base (mem s) e;
         elen = entry_len (mem s) e
     in
     if entry_type (mem s) e \<noteq> E820_ENTRY_FREE then (chunk, s)
     else if start_chunk s = 0 then
       if base < ucast kernel_end \<and> ucast kernel_end \<le> base + elen then
         let n = ucast (base + elen - ucast kernel_end - 16);
             m = set_next_chunk kernel_end 0 (mem s);
             m = set_previous_chunk kernel_end 0 m;
             m = set_allocated kernel_end False m;
             m = set_chunk_len kernel_end n m
         in (kernel_end, s\<lparr>mem := m, start_chunk := kernel_end, heap_len := heap_len s + n\<rparr>)
       else (chunk, s)
     else
       let next = ucast base;
           n = ucast (elen - 16);
           m = set_next_chunk next 0 (mem s);
           m = set_previous_chunk next chunk m;
           m = set_allocated next False m;
           m = set_chunk_len next n m;
           m = set_next_chunk chunk next m
       in (next, s\<lparr>mem := m, heap_len := heap_len s + chunk_len m next\<rparr>))"

text \<open>The loop reads the length of the map again before every iteration.\<close>

definition malloc_init :: "u32 \<Rightarrow> u32 \<Rightarrow> kernel \<Rightarrow> unit krun" where
  "malloc_init kernel_end mmap s =
    (if mmap = 0 then halt ''mmap''
     else
       let (chunk, s') = count_up (\<lambda>(chunk, s). mmap_len (mem s) mmap)
                              (malloc_init_entry kernel_end mmap) 0 (0, s)
       in if start_chunk s' = 0 then halt ''start_chunk''
          else ret () (s'\<lparr>initialized := True\<rparr>))"

section \<open>Allocation\<close>

text \<open>The search loop; it need not end when the list is cyclic.\<close>

partial_function (option) malloc_find :: "memory \<Rightarrow> u32 \<Rightarrow> u32 \<Rightarrow> u32 option" where
  "malloc_find m n chunk =
    (if chunk = 0 then Some 0
     else if \<not> allocated m chunk \<and> n \<le> chunk_len m chunk then Some chunk
     else malloc_find m n (next_chunk m chunk))"

definition malloc_split :: "u32 \<Rightarrow> u32 \<Rightarrow> memory \<Rightarrow> memory" where
  "malloc_split n chunk m =
    (if n + sizeof_memory_chunk < chunk_len m chunk then
       let new = chunk + n + sizeof_memory_chunk;
           m = set_previous_chunk new chunk m;
           m = set_next_chunk new (next_chunk m chunk) m;
           m = set_allocated new False m;
           m = set_chunk_len new (chunk_len m chunk - n - sizeof_memory_chunk) m;
           m = (if next_chunk m new \<noteq> 0 then set_previous_chunk (next_chunk m new) new m else m);
           m = set_chunk_len chunk n m
       in set_next_chunk chunk new m
     else m)"

definition malloc :: "u32 \<Rightarrow> kernel \<Rightarrow> u32 krun" where
  "malloc n s =
    (if \<not> initialized s then halt ''initialized''
     else if n = 0 then halt ''len''
     else case malloc_find (mem s) n (start_chunk s) of
         None \<Rightarrow> None
       | Some chunk \<Rightarrow>
           if chunk = 0 then halt ''chunk''
           else ret (chunk + sizeof_memory_chunk)
                  (s\<lparr>mem := set_allocated chunk True (malloc_split n chunk (mem s))\<rparr>))"

section \<open>Release\<close>

text \<open>The two merges; the first also moves on to the previous chunk.\<close>

definition free_merge_previous :: "u32 \<Rightarrow> memory \<Rightarrow> u32 \<times> memory" where
  "free_merge_previous chunk m =
    (let prev = previous_chunk m chunk in
     if prev \<noteq> 0 \<and> \<not> allocated m prev then
       let m = set_next_chunk prev (next_chunk m chunk) m;
           prev = previous_chunk m chunk;
           m = set_chunk_len prev (chunk_len m prev + (chunk_len m chunk + sizeof_memory_chunk)) m;
           m = (if next_chunk m chunk \<noteq> 0
                then set_previous_chunk (next_chunk m chunk) (previous_chunk m chunk) m else m)
       in (previous_chunk m chunk, m)
     else (chunk, m))"

definition free_merge_next :: "u32 \<Rightarrow> memory \<Rightarrow> memory" where
  "free_merge_next chunk m =
    (let nxt = next_chunk m chunk in
     if nxt \<noteq> 0 \<and> \<not> allocated m nxt then
       let m = set_chunk_len chunk (chunk_len m chunk + (chunk_len m nxt + sizeof_memory_chunk)) m;
           m = set_next_chunk chunk (next_chunk m (next_chunk m chunk)) m
       in if next_chunk m chunk \<noteq> 0
          then set_previous_chunk (next_chunk m chunk) chunk m else m
     else m)"

definition free :: "u32 \<Rightarrow> kernel \<Rightarrow> unit krun" where
  "free ptr s =
    (if \<not> initialized s then halt ''initialized''
     else if ptr = 0 then halt ''ptr''
     else
       let chunk = ptr - sizeof_memory_chunk in
       if \<not> allocated (mem s) chunk then halt ''chunk->allocated''
       else
         let m = set_allocated chunk False (mem s);
             (chunk, m) = free_merge_previous chunk m
         in ret () (s\<lparr>mem := free_merge_next chunk m\<rparr>))"

section \<open>Reallocation\<close>

definition realloc :: "u32 \<Rightarrow> u32 \<Rightarrow> kernel \<Rightarrow> u32 krun" where
  "realloc ptr n s =
    (if \<not> initialized s then halt ''initialized''
     else if ptr = 0 then halt ''ptr''
     else if n = 0 then halt ''len''
     else
       let chunk = ptr - sizeof_memory_chunk in
       if n \<le> chunk_len (mem s) chunk then ret ptr s
       else andthen (malloc n s) (\<lambda>next_ptr s.
              if next_ptr = 0 then halt ''next_ptr''
              else andthen (free ptr (s\<lparr>mem := memcpy next_ptr ptr (chunk_len (mem s) chunk) (mem s)\<rparr>))
                     (\<lambda>_ s. ret next_ptr s)))"

end
