(* ===== verification/Heap.thy ===== *)
theory Heap
  imports Malloc
begin

text \<open>
  What the allocator promises. The chunk list in memory is described by an abstract list of
  chunks (\<open>linked\<close>, \<open>heap_inv\<close>); on that list the operations are first-fit with a
  split, and release with a merge of the free neighbours. The operations of \<open>Malloc\<close> refine
  these list operations, keep the invariant, and leave every live payload alone. The locale
  \<open>allocator\<close> states the contract the other components rely on, and \<open>malloc\<close> and
  \<open>free\<close> are shown to meet it.
\<close>

section \<open>Field accesses\<close>

text \<open>Two headers that share no byte.\<close>

definition apart :: "u32 \<Rightarrow> u32 \<Rightarrow> bool" where
  "apart a b \<longleftrightarrow> region a 16 \<inter> region b 16 = {}"

lemma apart_sym: "apart a b \<Longrightarrow> apart b a"
  by (auto simp: apart_def)

lemmas header_defs = previous_chunk_def next_chunk_def allocated_def chunk_len_def
  set_previous_chunk_def set_next_chunk_def set_allocated_def set_chunk_len_def

lemma header_same [simp]:
  "previous_chunk (set_previous_chunk a v m) a = v"
  "previous_chunk (set_next_chunk a v m) a = previous_chunk m a"
  "previous_chunk (set_allocated a b m) a = previous_chunk m a"
  "previous_chunk (set_chunk_len a v m) a = previous_chunk m a"
  "next_chunk (set_previous_chunk a v m) a = next_chunk m a"
  "next_chunk (set_next_chunk a v m) a = v"
  "next_chunk (set_allocated a b m) a = next_chunk m a"
  "next_chunk (set_chunk_len a v m) a = next_chunk m a"
  "allocated (set_previous_chunk a v m) a = allocated m a"
  "allocated (set_next_chunk a v m) a = allocated m a"
  "allocated (set_allocated a b m) a = b"
  "allocated (set_chunk_len a v m) a = allocated m a"
  "chunk_len (set_previous_chunk a v m) a = chunk_len m a"
  "chunk_len (set_next_chunk a v m) a = chunk_len m a"
  "chunk_len (set_allocated a b m) a = chunk_len m a"
  "chunk_len (set_chunk_len a v m) a = v"
  by (simp_all add: header_defs frame_simps)

text \<open>A store into a header changes nothing outside it.\<close>

lemma header_region:
  "region a 4 \<subseteq> region a 16" "region (a + 4) 4 \<subseteq> region a 16"
  "region (a + 12) 4 \<subseteq> region a 16" "a + 8 \<in> region a 16"
  using region_shift_subset [of 4 4 16 a] region_shift_subset [of 12 4 16 a]
  by (auto simp: in_region_iff)

lemma same_on_header:
  assumes "S \<inter> region a 16 = {}"
  shows "same_on S m (set_previous_chunk a v m)"
    and "same_on S m (set_next_chunk a v m)"
    and "same_on S m (set_allocated a b m)"
    and "same_on S m (set_chunk_len a v m)"
proof -
  note sub = header_region [of a]
  show "same_on S m (set_previous_chunk a v m)"
    unfolding header_defs using assms sub by (intro same_on_store32) blast
  show "same_on S m (set_next_chunk a v m)"
    unfolding header_defs using assms sub by (intro same_on_store32) blast
  show "same_on S m (set_allocated a b m)"
    unfolding header_defs using assms sub by (intro same_on_store8) blast
  show "same_on S m (set_chunk_len a v m)"
    unfolding header_defs using assms sub by (intro same_on_store32) blast
qed

text \<open>The four fields of a header, as they are read from memory.\<close>

lemma header_cong:
  assumes "same_on (region a 16) m m'"
  shows "previous_chunk m' a = previous_chunk m a"
    and "next_chunk m' a = next_chunk m a"
    and "allocated m' a = allocated m a"
    and "chunk_len m' a = chunk_len m a"
proof -
  note sub = header_region [of a]
  show "previous_chunk m' a = previous_chunk m a" "next_chunk m' a = next_chunk m a"
    "chunk_len m' a = chunk_len m a"
    unfolding header_defs using assms sub by (auto intro!: load32_cong intro: same_on_mono)
  show "allocated m' a = allocated m a"
    unfolding header_defs using same_onD [OF assms sub(4)] by simp
qed

lemma header_other:
  assumes "apart a b"
  shows "previous_chunk (set_previous_chunk a v m) b = previous_chunk m b"
    and "previous_chunk (set_next_chunk a v m) b = previous_chunk m b"
    and "previous_chunk (set_allocated a w m) b = previous_chunk m b"
    and "previous_chunk (set_chunk_len a v m) b = previous_chunk m b"
    and "next_chunk (set_previous_chunk a v m) b = next_chunk m b"
    and "next_chunk (set_next_chunk a v m) b = next_chunk m b"
    and "next_chunk (set_allocated a w m) b = next_chunk m b"
    and "next_chunk (set_chunk_len a v m) b = next_chunk m b"
    and "allocated (set_previous_chunk a v m) b = allocated m b"
    and "allocated (set_next_chunk a v m) b = allocated m b"
    and "allocated (set_allocated a w m) b = allocated m b"
    and "allocated (set_chunk_len a v m) b = allocated m b"
    and "chunk_len (set_previous_chunk a v m) b = chunk_len m b"
    and "chunk_len (set_next_chunk a v m) b = chunk_len m b"
    and "chunk_len (set_allocated a w m) b = chunk_len m b"
    and "chunk_len (set_chunk_len a v m) b = chunk_len m b"
proof -
  have dis: "region b 16 \<inter> region a 16 = {}" using assms by (auto simp: apart_def)
  note [simp] = same_on_header [OF dis, THEN header_cong(1)] same_on_header [OF dis, THEN header_cong(2)]
    same_on_header [OF dis, THEN header_cong(3)] same_on_header [OF dis, THEN header_cong(4)]
  show "previous_chunk (set_previous_chunk a v m) b = previous_chunk m b"
    and "previous_chunk (set_next_chunk a v m) b = previous_chunk m b"
    and "previous_chunk (set_allocated a w m) b = previous_chunk m b"
    and "previous_chunk (set_chunk_len a v m) b = previous_chunk m b"
    and "next_chunk (set_previous_chunk a v m) b = next_chunk m b"
    and "next_chunk (set_next_chunk a v m) b = next_chunk m b"
    and "next_chunk (set_allocated a w m) b = next_chunk m b"
    and "next_chunk (set_chunk_len a v m) b = next_chunk m b"
    and "allocated (set_previous_chunk a v m) b = allocated m b"
    and "allocated (set_next_chunk a v m) b = allocated m b"
    and "allocated (set_allocated a w m) b = allocated m b"
    and "allocated (set_chunk_len a v m) b = allocated m b"
    and "chunk_len (set_previous_chunk a v m) b = chunk_len m b"
    and "chunk_len (set_next_chunk a v m) b = chunk_len m b"
    and "chunk_len (set_allocated a w m) b = chunk_len m b"
    and "chunk_len (set_chunk_len a v m) b = chunk_len m b"
    by simp_all
qed

section \<open>The chunk list\<close>

record chunk =
  c_addr :: u32
  c_len :: u32
  c_used :: bool

definition header :: "memory \<Rightarrow> u32 \<Rightarrow> chunk \<Rightarrow> u32 \<Rightarrow> bool" where
  "header m p c n \<longleftrightarrow> previous_chunk m (c_addr c) = p \<and> next_chunk m (c_addr c) = n \<and>
     allocated m (c_addr c) = c_used c \<and> chunk_len m (c_addr c) = c_len c"

definition head_addr :: "chunk list \<Rightarrow> u32 \<Rightarrow> u32" where
  "head_addr cs n = (case cs of [] \<Rightarrow> n | c # _ \<Rightarrow> c_addr c)"

definition last_addr :: "u32 \<Rightarrow> chunk list \<Rightarrow> u32" where
  "last_addr p cs = (if cs = [] then p else c_addr (last cs))"

text \<open>\<open>linked m p cs n\<close>: the chunks \<open>cs\<close> lie in memory as a doubly linked list between
  the chunks at \<open>p\<close> and \<open>n\<close>.\<close>

fun linked :: "memory \<Rightarrow> u32 \<Rightarrow> chunk list \<Rightarrow> u32 \<Rightarrow> bool" where
  "linked m p [] n = True"
| "linked m p (c # cs) n = (header m p c (head_addr cs n) \<and> linked m (c_addr c) cs n)"

lemma head_addr_simps [simp]:
  "head_addr [] n = n" "head_addr (c # cs) n = c_addr c"
  "head_addr (xs @ ys) n = head_addr xs (head_addr ys n)"
  by (auto simp: head_addr_def split: list.splits)

lemma last_addr_simps [simp]:
  "last_addr p [] = p" "last_addr p (c # cs) = last_addr (c_addr c) cs"
  "last_addr p (xs @ ys) = last_addr (last_addr p xs) ys"
  by (auto simp: last_addr_def)

lemma linked_append [simp]:
  "linked m p (xs @ ys) n \<longleftrightarrow> linked m p xs (head_addr ys n) \<and> linked m (last_addr p xs) ys n"
  by (induction xs arbitrary: p) (auto)

text \<open>Chunks in address order, none reaching into the next, none past the address space.\<close>

definition c_end :: "chunk \<Rightarrow> nat" where
  "c_end c = unat (c_addr c) + 16 + unat (c_len c)"

definition chunk_ok :: "chunk \<Rightarrow> bool" where
  "chunk_ok c \<longleftrightarrow> 0 < unat (c_addr c) \<and> c_end c < 2 ^ 32"

definition spaced :: "chunk list \<Rightarrow> bool" where
  "spaced cs \<longleftrightarrow> sorted_wrt (\<lambda>c d. c_end c \<le> unat (c_addr d)) cs \<and> (\<forall>c \<in> set cs. chunk_ok c)"

text \<open>No gap between neighbours, which holds when the heap is one region of memory.\<close>

fun gapless :: "chunk list \<Rightarrow> bool" where
  "gapless (c # d # cs) = (c_end c = unat (c_addr d) \<and> gapless (d # cs))"
| "gapless _ = True"

definition heap_inv :: "kernel \<Rightarrow> chunk list \<Rightarrow> bool" where
  "heap_inv s cs \<longleftrightarrow> initialized s \<and> cs \<noteq> [] \<and> start_chunk s = head_addr cs 0 \<and>
     linked (mem s) 0 cs 0 \<and> spaced cs"

lemma spaced_simps [simp]:
  "spaced []"
  "spaced (c # cs) \<longleftrightarrow> chunk_ok c \<and> (\<forall>d \<in> set cs. c_end c \<le> unat (c_addr d)) \<and> spaced cs"
  by (auto simp: spaced_def)

lemma spaced_append:
  "spaced (xs @ ys) \<longleftrightarrow> spaced xs \<and> spaced ys \<and>
     (\<forall>c \<in> set xs. \<forall>d \<in> set ys. c_end c \<le> unat (c_addr d))"
  by (auto simp: spaced_def sorted_wrt_append)

lemma payload_unat: "chunk_ok c \<Longrightarrow> unat (c_addr c + 16) = unat (c_addr c) + 16"
  by (rule u32_add_numeral [of _ 16, simplified]) (simp add: chunk_ok_def c_end_def)

lemma payload_addr: "chunk_ok c \<Longrightarrow> c_addr c + 16 \<noteq> 0"
  using payload_unat [of c] by auto

lemma apart_less:
  assumes "unat a + 16 \<le> unat b" and "unat b + 16 \<le> 2 ^ 32"
  shows "apart a b" and "apart b a"
  using region_disjoint [OF assms] by (auto simp: apart_def)

lemma apart_chunks:
  assumes "c_end c \<le> unat (c_addr d)" and "chunk_ok d"
  shows "apart (c_addr c) (c_addr d)" and "apart (c_addr d) (c_addr c)"
proof -
  have "unat (c_addr c) + 16 \<le> unat (c_addr d)" "unat (c_addr d) + 16 \<le> 2 ^ 32"
    using assms by (simp_all add: c_end_def chunk_ok_def)
  then show "apart (c_addr c) (c_addr d)" and "apart (c_addr d) (c_addr c)"
    by (rule apart_less)+
qed

lemma linked_cong:
  assumes "\<And>c. c \<in> set cs \<Longrightarrow> same_on (region (c_addr c) 16) m m'"
  shows "linked m' p cs n = linked m p cs n"
  using assms
proof (induction cs arbitrary: p)
  case Nil
  then show ?case by simp
next
  case (Cons c cs)
  then show ?case
    using header_cong [OF Cons.prems [of c]] by (simp add: header_def)
qed

lemma linked_other:
  assumes "\<And>c. c \<in> set cs \<Longrightarrow> apart a (c_addr c)"
  shows "linked (set_previous_chunk a v m) p cs n = linked m p cs n"
    and "linked (set_next_chunk a v m) p cs n = linked m p cs n"
    and "linked (set_allocated a b m) p cs n = linked m p cs n"
    and "linked (set_chunk_len a v m) p cs n = linked m p cs n"
  by (intro linked_cong same_on_header; use assms in \<open>force simp: apart_def\<close>)+


section \<open>Allocation on the chunk list\<close>

definition fits :: "u32 \<Rightarrow> chunk \<Rightarrow> bool" where
  "fits n c \<longleftrightarrow> \<not> c_used c \<and> n \<le> c_len c"

definition carve :: "u32 \<Rightarrow> chunk \<Rightarrow> chunk list" where
  "carve n c =
    (if n + 16 < c_len c
     then [c\<lparr>c_len := n, c_used := True\<rparr>,
           \<lparr>c_addr = c_addr c + n + 16, c_len = c_len c - n - 16, c_used = False\<rparr>]
     else [c\<lparr>c_used := True\<rparr>])"

fun alloc_list :: "u32 \<Rightarrow> chunk list \<Rightarrow> (u32 \<times> chunk list) option" where
  "alloc_list n [] = None"
| "alloc_list n (c # cs) =
    (if fits n c then Some (c_addr c, carve n c @ cs)
     else map_option (\<lambda>(a, cs'). (a, c # cs')) (alloc_list n cs))"

text \<open>First fit: the chunks before the chosen one are all used or too small.\<close>

lemma alloc_list_None: "alloc_list n cs = None \<longleftrightarrow> (\<forall>c \<in> set cs. \<not> fits n c)"
  by (induction cs) auto

lemma alloc_list_Some:
  assumes "alloc_list n cs = Some (a, cs')"
  obtains xs c ys where "cs = xs @ c # ys" "fits n c" "\<forall>x \<in> set xs. \<not> fits n x"
    "a = c_addr c" "cs' = xs @ carve n c @ ys"
proof -
  have "\<exists>xs c ys. cs = xs @ c # ys \<and> fits n c \<and> (\<forall>x \<in> set xs. \<not> fits n x) \<and>
      a = c_addr c \<and> cs' = xs @ carve n c @ ys"
    using assms
  proof (induction cs arbitrary: cs')
    case Nil
    then show ?case by simp
  next
    case (Cons c cs)
    show ?case
    proof (cases "fits n c")
      case True
      with Cons.prems have "c # cs = [] @ c # cs \<and> a = c_addr c \<and> cs' = [] @ carve n c @ cs" by simp
      with True show ?thesis by (metis empty_iff empty_set)
    next
      case False
      with Cons.prems obtain cs1 where "alloc_list n cs = Some (a, cs1)" "cs' = c # cs1" by auto
      with Cons.IH obtain xs d ys where
        "cs = xs @ d # ys" "fits n d" "\<forall>x \<in> set xs. \<not> fits n x" "a = c_addr d"
        "cs' = c # xs @ carve n d @ ys" by blast
      then have "c # cs = (c # xs) @ d # ys \<and> fits n d \<and> (\<forall>x \<in> set (c # xs). \<not> fits n x) \<and>
          a = c_addr d \<and> cs' = (c # xs) @ carve n d @ ys"
        using False by simp
      then show ?thesis by blast
    qed
  qed
  then show ?thesis using that by blast
qed

lemma malloc_find_linked:
  assumes "linked m p cs 0" and "\<forall>c \<in> set cs. chunk_ok c"
  shows "malloc_find m n (head_addr cs 0) = Some (case alloc_list n cs of None \<Rightarrow> 0 | Some (a, _) \<Rightarrow> a)"
  using assms
proof (induction cs arbitrary: p)
  case Nil
  then show ?case by (simp add: malloc_find.simps)
next
  case (Cons c cs)
  have c: "c_addr c \<noteq> 0" using Cons.prems by (auto simp: chunk_ok_def)
  have hd: "header m p c (head_addr cs 0)" using Cons.prems by simp
  have IH: "malloc_find m n (head_addr cs 0) =
      Some (case alloc_list n cs of None \<Rightarrow> 0 | Some (a, _) \<Rightarrow> a)"
    using Cons.prems by (intro Cons.IH [of "c_addr c"]) simp_all
  show ?case
  proof (cases "fits n c")
    case True
    with c hd show ?thesis
      by (simp add: malloc_find.simps [of m n "c_addr c"] header_def fits_def)
  next
    case False
    with c hd have "malloc_find m n (c_addr c) = malloc_find m n (head_addr cs 0)"
      by (auto simp add: malloc_find.simps [of m n "c_addr c"] header_def fits_def)
    with IH False show ?thesis by (auto split: option.splits)
  qed
qed

text \<open>The pieces of a carved chunk lie where the chunk lay.\<close>

lemma carve_len_bound:
  assumes "chunk_ok c" and "fits n c"
  shows "unat (n + 16) = unat n + 16"
proof -
  have "unat n \<le> unat (c_len c)" using assms by (simp add: fits_def word_le_nat_alt)
  moreover have "unat (c_len c) + 17 < 2 ^ 32" using assms by (simp add: chunk_ok_def c_end_def)
  ultimately show ?thesis by (intro u32_add_numeral [of n 16, simplified]) simp
qed

lemma carve_split:
  assumes "chunk_ok c" and "fits n c" and "n + 16 < c_len c"
  defines "d \<equiv> \<lparr>c_addr = c_addr c + n + 16, c_len = c_len c - n - 16, c_used = False\<rparr>"
  shows "unat (c_addr d) = unat (c_addr c) + unat n + 16" and "c_end d = c_end c"
    and "chunk_ok d" and "unat (c_len d) = unat (c_len c) - unat n - 16"
    and "unat n + 16 < unat (c_len c)"
proof -
  have n: "unat (n + 16) = unat n + 16" using assms carve_len_bound by blast
  with assms(3) show lt: "unat n + 16 < unat (c_len c)" by (simp add: word_less_nat_alt)
  have c: "unat (c_addr c) + 16 + unat (c_len c) < 2 ^ 32" "0 < unat (c_addr c)"
    using assms(1) by (simp_all add: chunk_ok_def c_end_def)
  have "unat (c_addr c + (n + 16)) = unat (c_addr c) + unat (n + 16)"
    using lt c n by (intro unat_add_exact) simp
  then show da: "unat (c_addr d) = unat (c_addr c) + unat n + 16"
    using n by (simp add: d_def add.assoc)
  have "c_len d = c_len c - (n + 16)" by (simp add: d_def)
  then show dl: "unat (c_len d) = unat (c_len c) - unat n - 16"
    using lt n by (simp add: unat_sub word_le_nat_alt)
  show "c_end d = c_end c" unfolding c_end_def da dl using lt by simp
  then show "chunk_ok d" using da assms(1) by (simp add: chunk_ok_def)
qed

lemma carve_end:
  assumes "chunk_ok c" and "fits n c" and "e \<in> set (carve n c)"
  shows "chunk_ok e" and "unat (c_addr c) \<le> unat (c_addr e)" and "c_end e \<le> c_end c"
proof -
  note sp = carve_split [OF assms(1,2)]
  have "chunk_ok e \<and> unat (c_addr c) \<le> unat (c_addr e) \<and> c_end e \<le> c_end c"
  proof (cases "n + 16 < c_len c")
    case True
    then consider "e = c\<lparr>c_len := n, c_used := True\<rparr>"
      | "e = \<lparr>c_addr = c_addr c + n + 16, c_len = c_len c - n - 16, c_used = False\<rparr>"
      using assms(3) by (auto simp: carve_def)
    then show ?thesis
    proof cases
      case 1
      then show ?thesis using sp(5) [OF True] assms(1) by (simp add: chunk_ok_def c_end_def)
    next
      case 2
      show ?thesis using sp(1-3) [OF True] unfolding 2 by linarith
    qed
  next
    case False
    then show ?thesis using assms by (simp add: carve_def chunk_ok_def c_end_def)
  qed
  then show "chunk_ok e" and "unat (c_addr c) \<le> unat (c_addr e)" and "c_end e \<le> c_end c"
    by blast+
qed

lemma spaced_carve:
  assumes "chunk_ok c" and "fits n c"
  shows "spaced (carve n c)"
  using carve_end [OF assms] carve_split [OF assms]
  by (auto simp: carve_def c_end_def)

lemma spaced_alloc:
  assumes "spaced (xs @ c # ys)" and "fits n c"
  shows "spaced (xs @ carve n c @ ys)"
proof -
  have c: "chunk_ok c" using assms by (simp add: spaced_append)
  note ce = carve_end [OF c assms(2)]
  have "c_end x \<le> unat (c_addr e)" if "x \<in> set xs" "e \<in> set (carve n c)" for x e
    using assms(1) that ce(2) [OF that(2)] by (force simp: spaced_append)
  moreover have "c_end e \<le> unat (c_addr y)" if "y \<in> set ys" "e \<in> set (carve n c)" for y e
    using assms(1) that ce(3) [OF that(2)] by (force simp: spaced_append)
  ultimately show ?thesis
    using assms(1) spaced_carve [OF c assms(2)] by (auto simp: spaced_append)
qed


section \<open>\<open>malloc\<close> refines the list operation\<close>

definition extent :: "chunk \<Rightarrow> u32 set" where
  "extent c = region (c_addr c) (16 + unat (c_len c))"

definition payload :: "chunk \<Rightarrow> u32 set" where
  "payload c = region (c_addr c + 16) (unat (c_len c))"

definition headers :: "chunk list \<Rightarrow> u32 set" where
  "headers cs = (\<Union>c \<in> set cs. region (c_addr c) 16)"

lemma headers_disjoint: "S \<inter> headers cs = {} \<Longrightarrow> c \<in> set cs \<Longrightarrow> S \<inter> region (c_addr c) 16 = {}"
  by (auto simp: headers_def)

lemma same_on_header_step:
  assumes "same_on S m m'" and "S \<inter> region a 16 = {}"
  shows "same_on S m (set_previous_chunk a v m')"
    and "same_on S m (set_next_chunk a v m')"
    and "same_on S m (set_allocated a b m')"
    and "same_on S m (set_chunk_len a v m')"
  using same_on_header [OF assms(2)] same_on_trans [OF assms(1)] by blast+

text \<open>A chunk between two runs of chunks: its header is apart from all others.\<close>

lemma spaced_apart:
  assumes "spaced (xs @ c # ys)"
  shows "\<And>x. x \<in> set xs \<Longrightarrow> apart (c_addr c) (c_addr x)"
    and "\<And>y. y \<in> set ys \<Longrightarrow> apart (c_addr c) (c_addr y)"
    and "\<And>x y. x \<in> set xs \<Longrightarrow> y \<in> set ys \<Longrightarrow> apart (c_addr y) (c_addr x)"
proof -
  fix x assume "x \<in> set xs"
  then have "c_end x \<le> unat (c_addr c)" "chunk_ok c" using assms by (auto simp: spaced_append)
  then show "apart (c_addr c) (c_addr x)" by (rule apart_chunks)
next
  fix y assume "y \<in> set ys"
  then have "c_end c \<le> unat (c_addr y)" "chunk_ok y"
    using assms by (auto simp: spaced_append) (simp add: spaced_def)
  then show "apart (c_addr c) (c_addr y)" by (rule apart_chunks)
next
  fix x y assume "x \<in> set xs" "y \<in> set ys"
  then have "c_end x \<le> unat (c_addr y)" "chunk_ok y"
    using assms by (auto simp: spaced_append) (simp add: spaced_def)
  then show "apart (c_addr y) (c_addr x)" by (rule apart_chunks)
qed

lemma split_linked:
  assumes lk: "linked m 0 (xs @ c # ys) 0" and sp: "spaced (xs @ c # ys)" and fit: "fits n c"
  shows "linked (set_allocated (c_addr c) True (malloc_split n (c_addr c) m)) 0 (xs @ carve n c @ ys) 0"
proof (cases "n + 16 < c_len c")
  case False
  have c: "apart (c_addr c) (c_addr x)" if "x \<in> set xs \<union> set ys" for x
    using spaced_apart [OF sp] that by blast
  show ?thesis
    using lk False c by (simp add: malloc_split_def carve_def header_def linked_other)
next
  case True
  let ?D = "c_addr c + n + 16"
  let ?c = "c\<lparr>c_len := n, c_used := True\<rparr>"
  have new: "spaced ((xs @ [?c]) @ \<lparr>c_addr = ?D, c_len = c_len c - n - 16, c_used = False\<rparr> # ys)"
    using spaced_alloc [OF sp fit] True by (simp add: carve_def)
  have cx: "apart (c_addr c) (c_addr x)" if "x \<in> set xs \<union> set ys" for x
    using spaced_apart [OF sp] that by blast
  have dx: "apart ?D (c_addr x)" if "x \<in> set xs \<union> set ys" for x
    using spaced_apart(1,2) [OF new, of x] that by auto
  have dc: "apart ?D (c_addr c)"
    using spaced_apart(1) [OF new, of ?c] by simp
  note other = header_other [OF dc] header_other [OF apart_sym [OF dc]]
  show ?thesis
  proof (cases ys)
    case Nil
    then show ?thesis
      using lk True cx dx
      by (simp add: malloc_split_def carve_def header_def linked_other other Let_def)
  next
    case (Cons y ys')
    have y: "c_addr y \<noteq> 0" using sp Cons by (auto simp: spaced_append chunk_ok_def)
    have yx: "apart (c_addr y) (c_addr x)" if "x \<in> set xs \<union> set ys'" for x
      using spaced_apart [of "xs @ [c]" y ys'] sp Cons that by auto
    have yin: "y \<in> set xs \<union> set ys" using Cons by simp
    note oy = header_other [OF cx [OF yin]] header_other [OF dx [OF yin]]
      header_other [OF apart_sym [OF cx [OF yin]]] header_other [OF apart_sym [OF dx [OF yin]]]
    show ?thesis
      using lk True cx dx yx y Cons
      by (simp add: malloc_split_def carve_def header_def linked_other other oy Let_def)
  qed
qed

lemma extent_nat:
  assumes "chunk_ok c"
  shows "extent c = {x. unat (c_addr c) \<le> unat x \<and> unat x < c_end c}"
  using assms by (auto simp: extent_def in_region_nat chunk_ok_def c_end_def)

text \<open>Allocation writes only into headers of the list and into the header of the chunk that it splits off.\<close>

lemma split_writes:
  assumes lk: "linked m 0 (xs @ c # ys) 0" and sp: "spaced (xs @ c # ys)" and fit: "fits n c"
    and S: "S \<inter> headers (xs @ c # ys) = {}" and Sd: "n + 16 < c_len c \<Longrightarrow> S \<inter> region (c_addr c + n + 16) 16 = {}"
  shows "same_on S m (set_allocated (c_addr c) True (malloc_split n (c_addr c) m))"
proof -
  have c: "chunk_ok c" using sp by (simp add: spaced_append)
  have Sc: "S \<inter> region (c_addr c) 16 = {}" using S(1) by (rule headers_disjoint) simp
  show ?thesis
  proof (cases "n + 16 < c_len c")
    case False
    with lk have "malloc_split n (c_addr c) m = m" by (simp add: malloc_split_def header_def)
    then show ?thesis using Sc by (simp add: same_on_header)
  next
    case True
    note sp' = carve_split [OF c fit True] and Sd = Sd [OF True]
    have Sy: "S \<inter> region (head_addr ys 0) 16 = {}" if "head_addr ys 0 \<noteq> 0"
    proof (cases ys)
      case Nil
      with that show ?thesis by simp
    next
      case (Cons y ys')
      then show ?thesis using headers_disjoint [OF S(1), of y] by simp
    qed
    have cd: "apart (c_addr c + n + 16) (c_addr c)"
      using sp' c by (intro apart_less(2)) (simp_all add: chunk_ok_def c_end_def)
    have "next_chunk m (c_addr c) = head_addr ys 0" using lk by (simp add: header_def)
    with Sy have "S \<inter> region (next_chunk m (c_addr c)) 16 = {}" if "next_chunk m (c_addr c) \<noteq> 0"
      using that by simp
    with True Sc Sd lk show ?thesis
      by (simp add: malloc_split_def header_def Let_def same_on_header_step header_other [OF cd])
  qed
qed

lemma split_frame:
  assumes lk: "linked m 0 (xs @ c # ys) 0" and sp: "spaced (xs @ c # ys)" and fit: "fits n c"
    and S: "S \<inter> headers (xs @ c # ys) = {}" "S \<inter> extent c = {}"
  shows "same_on S m (set_allocated (c_addr c) True (malloc_split n (c_addr c) m))"
proof (rule split_writes [OF lk sp fit S(1)])
  assume split: "n + 16 < c_len c"
  have c: "chunk_ok c" using sp by (simp add: spaced_append)
  have "unat (n + 16) + 16 \<le> 16 + unat (c_len c)"
    using carve_len_bound [OF c fit] carve_split(5) [OF c fit split] by simp
  then have "region (c_addr c + (n + 16)) 16 \<subseteq> extent c"
    unfolding extent_def using c by (intro region_shift_subset) (simp_all add: chunk_ok_def c_end_def)
  then show "S \<inter> region (c_addr c + n + 16) 16 = {}" using S(2) by (simp add: add.assoc) blast
qed

lemma malloc_refines:
  assumes inv: "heap_inv s cs" and n: "n \<noteq> 0"
  shows "case alloc_list n cs of
      None \<Rightarrow> malloc n s = halt ''chunk''
    | Some (a, cs') \<Rightarrow> \<exists>m'. malloc n s = ret (a + 16) (s\<lparr>mem := m'\<rparr>) \<and>
        heap_inv (s\<lparr>mem := m'\<rparr>) cs' \<and>
        (\<forall>S. S \<inter> headers cs = {} \<longrightarrow> (\<forall>c \<in> set cs. c_addr c = a \<longrightarrow> S \<inter> extent c = {}) \<longrightarrow>
           same_on S (mem s) m')"
proof -
  have lk: "linked (mem s) 0 cs 0" and sp: "spaced cs" and init: "initialized s"
    and start: "start_chunk s = head_addr cs 0"
    using inv by (simp_all add: heap_inv_def)
  have find: "malloc_find (mem s) n (start_chunk s) =
      Some (case alloc_list n cs of None \<Rightarrow> 0 | Some (a, _) \<Rightarrow> a)"
    unfolding start using lk sp by (intro malloc_find_linked) (simp_all add: spaced_def)
  show ?thesis
  proof (cases "alloc_list n cs")
    case None
    with find init n show ?thesis by (simp add: malloc_def)
  next
    case (Some r)
    obtain a cs' where r: "r = (a, cs')" by fastforce
    with Some obtain xs c ys where cs: "cs = xs @ c # ys" and fit: "fits n c"
      and a: "a = c_addr c" and cs': "cs' = xs @ carve n c @ ys"
      using alloc_list_Some by blast
    let ?m = "set_allocated a True (malloc_split n a (mem s))"
    have a0: "a \<noteq> 0" using sp cs a by (auto simp: spaced_append chunk_ok_def)
    have "malloc n s = ret (a + 16) (s\<lparr>mem := ?m\<rparr>)"
      using find init n a0 Some r by (simp add: malloc_def)
    moreover have "head_addr cs' 0 = head_addr cs 0"
      by (simp add: cs cs' carve_def)
    with inv have "heap_inv (s\<lparr>mem := ?m\<rparr>) cs'"
      using split_linked [of "mem s" xs c ys n] spaced_alloc [of xs c ys n] lk sp fit
      by (auto simp: heap_inv_def cs cs' a carve_def)
    moreover have "same_on S (mem s) ?m"
      if "S \<inter> headers cs = {}" "\<forall>c \<in> set cs. c_addr c = a \<longrightarrow> S \<inter> extent c = {}" for S
      using split_frame [of "mem s" xs c ys n S] lk sp fit that by (simp add: cs a)
    ultimately show ?thesis using Some r by auto
  qed
qed

section \<open>Release on the chunk list\<close>

definition join :: "chunk \<Rightarrow> chunk \<Rightarrow> chunk" where
  "join c d = c\<lparr>c_len := c_len c + (c_len d + 16)\<rparr>"

fun absorb :: "chunk \<Rightarrow> chunk list \<Rightarrow> chunk list" where
  "absorb c [] = [c]"
| "absorb c (d # ds) = (if c_used d then c # d # ds else join c d # ds)"

definition release :: "chunk list \<Rightarrow> chunk \<Rightarrow> chunk list \<Rightarrow> chunk list" where
  "release xs c ys =
    (if xs \<noteq> [] \<and> \<not> c_used (last xs)
     then butlast xs @ absorb (join (last xs) (c\<lparr>c_used := False\<rparr>)) ys
     else xs @ absorb (c\<lparr>c_used := False\<rparr>) ys)"

lemma join_simps [simp]:
  "c_addr (join c d) = c_addr c" "c_used (join c d) = c_used c"
  "c_len (join c d) = c_len c + (c_len d + 16)"
  by (simp_all add: join_def)

lemma join_end:
  assumes "c_end c \<le> unat (c_addr d)"
  shows "c_end (join c d) \<le> c_end d"
proof -
  have "unat (c_len c + (c_len d + 16)) \<le> unat (c_len c) + (unat (c_len d) + 16)"
    using unat_add_le [of "c_len c" "c_len d + 16"] unat_add_le [of "c_len d" 16] by simp
  then show ?thesis using assms by (simp add: c_end_def)
qed

lemma join_ok: "c_end c \<le> unat (c_addr d) \<Longrightarrow> chunk_ok c \<Longrightarrow> chunk_ok d \<Longrightarrow> chunk_ok (join c d)"
  using join_end [of c d] by (simp add: chunk_ok_def)

lemma spaced_join:
  assumes "spaced (xs @ c # d # ys)"
  shows "spaced (xs @ join c d # ys)"
proof -
  have e: "c_end (join c d) \<le> c_end d" "chunk_ok (join c d)"
    using assms join_end [of c d] join_ok [of c d] by (auto simp: spaced_append)
  then show ?thesis using assms by (fastforce simp: spaced_append)
qed

lemma spaced_absorb: "spaced (xs @ c # ys) \<Longrightarrow> spaced (xs @ absorb c ys)"
  by (cases ys) (auto simp: spaced_join)

lemma spaced_free: "spaced (xs @ c # ys) \<Longrightarrow> spaced (xs @ c\<lparr>c_used := b\<rparr> # ys)"
  by (simp add: spaced_append chunk_ok_def c_end_def)

lemma release_snoc:
  "release (xs @ [b]) c ys =
    (if c_used b then xs @ b # absorb (c\<lparr>c_used := False\<rparr>) ys
     else xs @ absorb (join b (c\<lparr>c_used := False\<rparr>)) ys)"
  by (simp add: release_def)

lemma release_Nil: "release [] c ys = absorb (c\<lparr>c_used := False\<rparr>) ys"
  by (simp add: release_def)

lemma head_addr_absorb [simp]: "head_addr (absorb c ys) n = c_addr c"
  by (cases ys) simp_all

lemma head_addr_release: "head_addr (release xs c ys) n = head_addr (xs @ c # ys) n"
  by (cases xs rule: rev_cases) (simp_all add: release_Nil release_snoc)

lemma release_nonempty: "release xs c ys \<noteq> []"
  by (cases xs rule: rev_cases; cases ys) (simp_all add: release_Nil release_snoc)

lemma spaced_release: "spaced (xs @ c # ys) \<Longrightarrow> spaced (release xs c ys)"
proof (cases xs rule: rev_cases)
  case Nil
  assume "spaced (xs @ c # ys)"
  with Nil show ?thesis
    using spaced_absorb [of "[]" "c\<lparr>c_used := False\<rparr>" ys] spaced_free [of "[]" c ys False]
    by (simp add: release_Nil)
next
  case (snoc xs' b)
  assume "spaced (xs @ c # ys)"
  then have "spaced (xs' @ b # c\<lparr>c_used := False\<rparr> # ys)"
    using spaced_free [of "xs' @ [b]" c ys False] snoc by simp
  then show ?thesis
    using snoc spaced_absorb [of "xs' @ [b]" "c\<lparr>c_used := False\<rparr>" ys]
      spaced_absorb [of xs' "join b (c\<lparr>c_used := False\<rparr>)" ys] spaced_join [of xs' b _ ys]
    by (simp add: release_snoc)
qed

section \<open>\<open>free\<close> refines the list operation\<close>

lemma merge_next_linked:
  assumes lk: "linked m 0 (xs @ c # ys) 0" and sp: "spaced (xs @ c # ys)"
  shows "linked (free_merge_next (c_addr c) m) 0 (xs @ absorb c ys) 0"
    and "S \<inter> headers (xs @ c # ys) = {} \<Longrightarrow> same_on S m (free_merge_next (c_addr c) m)"
proof -
  have "linked (free_merge_next (c_addr c) m) 0 (xs @ absorb c ys) 0 \<and>
    (S \<inter> headers (xs @ c # ys) = {} \<longrightarrow> same_on S m (free_merge_next (c_addr c) m))"
  proof (cases ys)
    case Nil
    then show ?thesis using lk by (simp add: free_merge_next_def header_def)
  next
    case (Cons d ds)
    have ad: "c_addr d \<noteq> 0" using sp Cons by (auto simp: spaced_append chunk_ok_def)
    have cx: "apart (c_addr c) (c_addr x)" if "x \<in> set xs \<union> set ys" for x
      using spaced_apart [OF sp] that by blast
    have cd: "apart (c_addr c) (c_addr d)" using cx [of d] Cons by simp
    note other = header_other [OF cd] header_other [OF apart_sym [OF cd]]
    show ?thesis
    proof (cases "c_used d")
      case True
      then show ?thesis using lk Cons by (simp add: free_merge_next_def header_def)
    next
      case False
      show ?thesis
      proof (cases ds)
        case Nil
        then show ?thesis
          using lk Cons False ad cx
          by (simp add: free_merge_next_def header_def Let_def linked_other other
              same_on_header_step headers_disjoint)
      next
        case (Cons e es)
        have ae: "c_addr e \<noteq> 0" using sp \<open>ys = d # ds\<close> Cons by (auto simp: spaced_append chunk_ok_def)
        have ex: "apart (c_addr e) (c_addr x)" if "x \<in> set xs \<union> set es" for x
          using spaced_apart [of "xs @ [c, d]" e es x] sp \<open>ys = d # ds\<close> Cons that by auto
        have ce: "apart (c_addr c) (c_addr e)" using cx [of e] \<open>ys = d # ds\<close> Cons by simp
        note oe = header_other [OF ce] header_other [OF apart_sym [OF ce]]
        show ?thesis
          using lk \<open>ys = d # ds\<close> Cons False ad ae cx ex
          by (simp add: free_merge_next_def header_def Let_def linked_other other oe
              same_on_header_step headers_disjoint)
      qed
    qed
  qed
  then show "linked (free_merge_next (c_addr c) m) 0 (xs @ absorb c ys) 0"
    and "S \<inter> headers (xs @ c # ys) = {} \<Longrightarrow> same_on S m (free_merge_next (c_addr c) m)"
    by blast+
qed


lemma merge_previous_linked:
  assumes lk: "linked m 0 (xs @ b # c # ys) 0" and sp: "spaced (xs @ b # c # ys)"
    and b: "\<not> c_used b"
  obtains m' where "free_merge_previous (c_addr c) m = (c_addr b, m')"
    and "linked m' 0 (xs @ join b c # ys) 0"
    and "\<And>S. S \<inter> headers (xs @ b # c # ys) = {} \<Longrightarrow> same_on S m m'"
proof -
  have ab: "c_addr b \<noteq> 0" using sp by (auto simp: spaced_append chunk_ok_def)
  have bx: "apart (c_addr b) (c_addr x)" if "x \<in> set xs \<union> set (c # ys)" for x
    using spaced_apart [OF sp] that by blast
  have bc: "apart (c_addr b) (c_addr c)" using bx [of c] by simp
  have "\<exists>m'. free_merge_previous (c_addr c) m = (c_addr b, m') \<and>
      linked m' 0 (xs @ join b c # ys) 0 \<and>
      (\<forall>S. S \<inter> headers (xs @ b # c # ys) = {} \<longrightarrow> same_on S m m')"
  proof (cases ys)
    case Nil
    then show ?thesis
      using lk b ab bx
      by (simp add: free_merge_previous_def header_def Let_def linked_other header_other [OF bc]
          header_other [OF apart_sym [OF bc]] same_on_header_step headers_disjoint)
  next
    case (Cons d ds)
    have ad: "c_addr d \<noteq> 0" using sp Cons by (auto simp: spaced_append chunk_ok_def)
    have dx: "apart (c_addr d) (c_addr x)" if "x \<in> set xs \<union> set ds" for x
      using spaced_apart [of "xs @ [b, c]" d ds x] sp Cons that by auto
    have bd: "apart (c_addr b) (c_addr d)" using bx [of d] Cons by simp
    have cd: "apart (c_addr c) (c_addr d)" using spaced_apart(2) [of "xs @ [b]" c ys d] sp Cons by simp
    show ?thesis
      using lk b ab bx Cons dx ad
      by (simp add: free_merge_previous_def header_def Let_def linked_other header_other [OF bc]
          header_other [OF apart_sym [OF bc]] header_other [OF bd] header_other [OF apart_sym [OF bd]]
          header_other [OF apart_sym [OF cd]] same_on_header_step headers_disjoint)
  qed
  then show ?thesis using that by blast
qed

lemma merge_previous_used:
  assumes "linked m 0 (xs @ c # ys) 0" and "spaced (xs @ c # ys)" and "xs = [] \<or> c_used (last xs)"
  shows "free_merge_previous (c_addr c) m = (c_addr c, m)"
  using assms
  by (cases xs rule: rev_cases) (auto simp: free_merge_previous_def header_def)

lemma headers_join:
  "headers (xs @ join b c # ys) \<subseteq> headers (xs @ b # c # ys)"
  "headers (xs @ c\<lparr>c_used := w\<rparr> # ys) = headers (xs @ c # ys)"
  by (auto simp: headers_def)

text \<open>
  Releasing the payload of a used chunk: \<open>free\<close> returns, memory holds the list with the
  chunk released and merged with its free neighbours, and only headers were written.
\<close>

lemma free_refines:
  assumes inv: "heap_inv s (xs @ c # ys)" and used: "c_used c"
  shows "\<exists>m'. free (c_addr c + 16) s = ret () (s\<lparr>mem := m'\<rparr>) \<and>
     heap_inv (s\<lparr>mem := m'\<rparr>) (release xs c ys) \<and>
     (\<forall>S. S \<inter> headers (xs @ c # ys) = {} \<longrightarrow> same_on S (mem s) m')"
proof -
  let ?c = "c\<lparr>c_used := False\<rparr>"
  let ?m = "set_allocated (c_addr c) False (mem s)"
  have lk: "linked (mem s) 0 (xs @ c # ys) 0" and sp: "spaced (xs @ c # ys)" and init: "initialized s"
    using inv by (simp_all add: heap_inv_def)
  have ptr: "c_addr c + 16 \<noteq> 0" using sp by (intro payload_addr) (simp add: spaced_append)
  have al: "allocated (mem s) (c_addr c)" using lk used by (simp add: header_def)
  have cx: "apart (c_addr c) (c_addr x)" if "x \<in> set xs \<union> set ys" for x
    using spaced_apart [OF sp] that by blast
  have lk1: "linked ?m 0 (xs @ ?c # ys) 0" using lk cx by (simp add: header_def linked_other)
  have sp1: "spaced (xs @ ?c # ys)" using sp by (rule spaced_free)
  have fr1: "same_on S (mem s) ?m" if "S \<inter> headers (xs @ c # ys) = {}" for S
    using that by (intro same_on_header) (simp add: headers_disjoint)
  have start: "start_chunk s = head_addr (release xs c ys) 0"
    using inv unfolding head_addr_release by (simp add: heap_inv_def)
  have "\<exists>a m'. free_merge_previous (c_addr c) ?m = (a, m') \<and>
      linked (free_merge_next a m') 0 (release xs c ys) 0 \<and>
      (\<forall>S. S \<inter> headers (xs @ c # ys) = {} \<longrightarrow> same_on S ?m (free_merge_next a m'))"
  proof (cases "xs = [] \<or> c_used (last xs)")
    case True
    have "release xs c ys = xs @ absorb ?c ys" using True by (auto simp: release_def)
    moreover have "free_merge_previous (c_addr c) ?m = (c_addr c, ?m)"
      using merge_previous_used [OF lk1 sp1 True] by simp
    ultimately show ?thesis
      using merge_next_linked [OF lk1 sp1] by (auto simp: headers_join)
  next
    case False
    then obtain xs' b where xs: "xs = xs' @ [b]" and b: "\<not> c_used b"
      by (cases xs rule: rev_cases) auto
    from lk1 sp1 xs b obtain m' where
      mp: "free_merge_previous (c_addr ?c) ?m = (c_addr b, m')" and
      lk2: "linked m' 0 (xs' @ join b ?c # ys) 0" and
      fr2: "\<And>S. S \<inter> headers (xs' @ b # ?c # ys) = {} \<Longrightarrow> same_on S ?m m'"
      using merge_previous_linked [of ?m xs' b ?c ys] by auto
    have sp2: "spaced (xs' @ join b ?c # ys)" using sp1 xs by (simp add: spaced_join)
    note mn = merge_next_linked [OF lk2 sp2]
    have "same_on S ?m (free_merge_next (c_addr b) m')" if S: "S \<inter> headers (xs @ c # ys) = {}" for S
    proof -
      have S2: "S \<inter> headers (xs' @ b # ?c # ys) = {}"
        using S headers_join(2) [of "xs' @ [b]" False c ys] xs by simp
      then have "S \<inter> headers (xs' @ join b ?c # ys) = {}"
        using headers_join(1) [of xs' b ?c ys] by blast
      with mn(2) [of S] fr2 [OF S2] show ?thesis by (auto intro: same_on_trans)
    qed
    with mp mn(1) xs b show ?thesis by (simp add: release_snoc)
  qed
  then obtain a m' where mp: "free_merge_previous (c_addr c) ?m = (a, m')"
    and lk': "linked (free_merge_next a m') 0 (release xs c ys) 0"
    and fr: "\<And>S. S \<inter> headers (xs @ c # ys) = {} \<Longrightarrow> same_on S ?m (free_merge_next a m')"
    by blast
  have "free (c_addr c + 16) s = ret () (s\<lparr>mem := free_merge_next a m'\<rparr>)"
    using init al ptr mp by (simp add: free_def Let_def)
  moreover have "heap_inv (s\<lparr>mem := free_merge_next a m'\<rparr>) (release xs c ys)"
    using lk' init start spaced_release [OF sp] release_nonempty by (simp add: heap_inv_def)
  moreover have "same_on S (mem s) (free_merge_next a m')" if "S \<inter> headers (xs @ c # ys) = {}" for S
    using fr1 [OF that] fr [OF that] by (rule same_on_trans)
  ultimately show ?thesis by (intro exI [of _ "free_merge_next a m'"]) simp
qed

end
