(* ===== verification/Allocator.thy ===== *)
theory Allocator
  imports Heap
begin

text \<open>
  The contract between the allocator and the routines that use it. \<open>holds s A L\<close> says
  that in state \<open>s\<close> the heap occupies the addresses \<open>A\<close> and has handed out the blocks
  \<open>L\<close> (payload address to length). The locale states what an allocation and a release
  do to that description and what they leave alone; its lemmas are what the list, process
  and file system proofs use. The interpretation at the end discharges the laws for
  \<open>malloc\<close> and \<open>free\<close>.
\<close>

definition blocks :: "(u32 \<rightharpoonup> u32) \<Rightarrow> u32 set" where
  "blocks L = (\<Union>(p, k) \<in> {(p, k). L p = Some k}. region p (unat k))"

lemma in_blocks: "x \<in> blocks L \<longleftrightarrow> (\<exists>p k. L p = Some k \<and> x \<in> region p (unat k))"
  by (auto simp: blocks_def)

lemma block_subset: "L p = Some k \<Longrightarrow> region p (unat k) \<subseteq> blocks L"
  by (force simp: in_blocks)

lemma blocks_mono: "L \<subseteq>\<^sub>m L' \<Longrightarrow> blocks L \<subseteq> blocks L'"
  unfolding in_blocks subset_iff map_le_def by (metis domI)

section \<open>The contract\<close>

locale allocator =
  fixes alloc :: "u32 \<Rightarrow> 's \<Rightarrow> (u32, 's) run"
    and dealloc :: "u32 \<Rightarrow> 's \<Rightarrow> (unit, 's) run"
    and memory_of :: "'s \<Rightarrow> memory"
    and with_memory :: "memory \<Rightarrow> 's \<Rightarrow> 's"
    and holds :: "'s \<Rightarrow> u32 set \<Rightarrow> (u32 \<rightharpoonup> u32) \<Rightarrow> bool"
  assumes memory_with [simp]: "memory_of (with_memory m s) = m"
    and with_memory_with [simp]: "with_memory m (with_memory m' s) = with_memory m s"
    and alloc_outcome: "holds s A L \<Longrightarrow> n \<noteq> 0 \<Longrightarrow>
        alloc n s = halt ''chunk'' \<or> (\<exists>p m'. alloc n s = ret p (with_memory m' s))"
    and alloc_block: "holds s A L \<Longrightarrow> n \<noteq> 0 \<Longrightarrow> alloc n s = ret p s' \<Longrightarrow>
        L p = None \<and> (\<exists>k. n \<le> k \<and> holds s' A (L(p \<mapsto> k)))"
    and alloc_frame: "holds s A L \<Longrightarrow> n \<noteq> 0 \<Longrightarrow> alloc n s = ret p s' \<Longrightarrow>
        same_on (- A \<union> blocks L) (memory_of s) (memory_of s')"
    and dealloc_block: "holds s A L \<Longrightarrow> L p = Some k \<Longrightarrow>
        \<exists>m'. dealloc p s = ret () (with_memory m' s) \<and>
          holds (with_memory m' s) A (L(p := None)) \<and>
          same_on (- A \<union> blocks L) (memory_of s) m'"
    and block_range: "holds s A L \<Longrightarrow> L p = Some k \<Longrightarrow>
        16 < unat p \<and> unat p + unat k < 2 ^ 32 \<and> region p (unat k) \<subseteq> A"
    and blocks_disjoint: "holds s A L \<Longrightarrow> L p = Some k \<Longrightarrow> L q = Some j \<Longrightarrow> p \<noteq> q \<Longrightarrow>
        region p (unat k) \<inter> region q (unat j) = {}"
    and holds_cong: "holds s A L \<Longrightarrow> same_on (A - blocks L) (memory_of s) m' \<Longrightarrow>
        holds (with_memory m' s) A L"
begin

lemma block_nonnull: "holds s A L \<Longrightarrow> L p = Some k \<Longrightarrow> p \<noteq> 0"
  using block_range [of s A L p k] by auto

text \<open>The state after an allocation differs from the one before in its memory only.\<close>

lemma alloc_memory:
  assumes "holds s A L" and "n \<noteq> 0" and "alloc n s = ret p s'"
  shows "s' = with_memory (memory_of s') s"
  using alloc_outcome [OF assms(1,2)] assms(3) by auto

text \<open>A block is its owner's to write.\<close>

lemma write_block:
  assumes "holds s A L" and "L p = Some k" and "same_on (- region p (unat k)) (memory_of s) m'"
  shows "holds (with_memory m' s) A L"
proof (rule holds_cong [OF assms(1)])
  show "same_on (A - blocks L) (memory_of s) m'"
    using assms(3) by (rule same_on_mono) (use block_subset [of L p k] assms(2) in blast)
qed

text \<open>A write outside the heap leaves it alone.\<close>

lemma write_outside:
  assumes "holds s A L" and "same_on A (memory_of s) m'"
  shows "holds (with_memory m' s) A L"
  using assms by (intro holds_cong) (auto intro: same_on_mono)

text \<open>A live block keeps its contents through an allocation and a release.\<close>

lemma alloc_keeps_block:
  assumes "holds s A L" and "n \<noteq> 0" and "alloc n s = ret p s'" and "L q = Some k"
  shows "same_on (region q (unat k)) (memory_of s) (memory_of s')"
  using alloc_frame [OF assms(1-3)] by (rule same_on_mono) (use block_subset [of L q k] assms(4) in blast)

lemma alloc_distinct:
  assumes "holds s A L" and "n \<noteq> 0" and "alloc n s = ret p s'" and "L q = Some j"
  shows "p \<noteq> q"
    and "region p (unat n) \<inter> region q (unat j) = {}"
proof -
  obtain k where L: "L p = None" and k: "n \<le> k" and h: "holds s' A (L(p \<mapsto> k))"
    using alloc_block [OF assms(1-3)] by blast
  show ne: "p \<noteq> q" using L assms(4) by auto
  have "region p (unat k) \<inter> region q (unat j) = {}"
    using blocks_disjoint [OF h, of p k q j] ne assms(4) by simp
  moreover have "region p (unat n) \<subseteq> region p (unat k)"
    using k by (intro region_mono) (simp add: word_le_nat_alt)
  ultimately show "region p (unat n) \<inter> region q (unat j) = {}" by blast
qed

text \<open>A block that an older description does not know lies in the heap, away from its blocks.\<close>

lemma fresh_away:
  assumes "holds s A L'" and "L' q = Some i" and "L q = None" and "L \<subseteq>\<^sub>m L'"
  shows "region q (unat i) \<inter> (- A \<union> blocks L) = {}"
proof -
  have "x \<notin> region q (unat i)" if x: "x \<in> blocks L" for x
  proof -
    obtain r l where r: "L r = Some l" "x \<in> region r (unat l)" using x by (auto simp: in_blocks)
    then have "L' r = Some l" "r \<noteq> q" using assms(3,4) by (auto simp: map_le_def dom_def)
    then have "region r (unat l) \<inter> region q (unat i) = {}"
      using blocks_disjoint [OF assms(1) _ assms(2)] by blast
    then show ?thesis using r(2) by blast
  qed
  moreover have "region q (unat i) \<subseteq> A" using block_range [OF assms(1,2)] by blast
  ultimately show ?thesis by blast
qed

text \<open>What \<open>n\<close> bytes at a fresh block promise: room, in the heap, not at address 0.\<close>

lemma alloc_room:
  assumes "holds s A L" and "n \<noteq> 0" and "alloc n s = ret p s'"
  obtains k where "n \<le> k" "holds s' A (L(p \<mapsto> k))" "p \<noteq> 0" "L p = None"
    "unat p + unat n < 2 ^ 32" "region p (unat n) \<subseteq> A"
proof -
  obtain k where L: "L p = None" and k: "n \<le> k" and h: "holds s' A (L(p \<mapsto> k))"
    using alloc_block [OF assms] by blast
  have r: "unat p + unat k < 2 ^ 32" "region p (unat k) \<subseteq> A"
    using block_range [OF h, of p k] by simp_all
  moreover have "unat n \<le> unat k" using k by (simp add: word_le_nat_alt)
  ultimately have "unat p + unat n < 2 ^ 32" "region p (unat n) \<subseteq> A"
    using region_mono [of "unat n" "unat k" p] by auto
  then show ?thesis using that k h L block_nonnull [OF h, of p k] by auto
qed

end

section \<open>The live blocks of a chunk list\<close>

definition live :: "chunk list \<Rightarrow> (u32 \<rightharpoonup> u32)" where
  "live cs = map_of (map (\<lambda>c. (c_addr c + 16, c_len c)) (filter c_used cs))"

definition heap_holds :: "kernel \<Rightarrow> u32 set \<Rightarrow> (u32 \<rightharpoonup> u32) \<Rightarrow> bool" where
  "heap_holds s A L \<longleftrightarrow> (\<exists>cs hi. heap_inv s cs \<and> hi < 2 ^ 32 \<and> (\<forall>c \<in> set cs. c_end c \<le> hi) \<and>
     A = {x. unat (start_chunk s) \<le> unat x \<and> unat x < hi} \<and> L = live cs)"

lemma live_simps [simp]:
  "live [] = Map.empty"
  "live (c # cs) = (if c_used c then (live cs)(c_addr c + 16 \<mapsto> c_len c) else live cs)"
  by (simp_all add: live_def)

lemma live_append: "live (xs @ ys) = live ys ++ live xs"
  by (simp add: live_def)

lemma live_Some:
  "live cs p = Some k \<Longrightarrow> \<exists>c \<in> set cs. c_used c \<and> p = c_addr c + 16 \<and> k = c_len c"
  unfolding live_def by (drule map_of_SomeD) auto

lemma live_dom: "p \<in> dom (live cs) \<longleftrightarrow> (\<exists>c \<in> set cs. c_used c \<and> p = c_addr c + 16)"
  by (induction cs) auto

lemma spaced_before:
  assumes "spaced (xs @ c # ys)" and "x \<in> set xs \<or> x \<in> set ys"
  shows "c_end x \<le> unat (c_addr c) \<or> c_end c \<le> unat (c_addr x)"
  using assms by (auto simp: spaced_append)

lemma spaced_distinct_addr:
  assumes "spaced (xs @ c # ys)" and "x \<in> set xs \<or> x \<in> set ys"
  shows "c_addr x \<noteq> c_addr c"
  using spaced_before [OF assms] by (auto simp: c_end_def)

lemma live_lookup:
  assumes "spaced cs" and "c \<in> set cs" and "c_used c"
  shows "live cs (c_addr c + 16) = Some (c_len c)"
proof -
  obtain xs ys where cs: "cs = xs @ c # ys" using assms(2) by (meson split_list)
  have "c_addr c + 16 \<notin> dom (live xs)"
  proof
    assume "c_addr c + 16 \<in> dom (live xs)"
    then obtain x where "x \<in> set xs" "c_addr x = c_addr c" by (auto simp: live_dom)
    then show False using spaced_distinct_addr [of xs c ys x] assms(1) cs by auto
  qed
  then show ?thesis using assms(3) unfolding cs live_append
    by (auto simp: map_add_def domIff)
qed

lemma live_used_away:
  assumes "spaced (xs @ c # ys)"
  shows "c_addr c + 16 \<notin> dom (live xs)" and "c_addr c + 16 \<notin> dom (live ys)"
proof -
  have ne: "c_addr x \<noteq> c_addr c" if "x \<in> set xs \<or> x \<in> set ys" for x
    using assms that by (rule spaced_distinct_addr)
  show "c_addr c + 16 \<notin> dom (live xs)" using ne unfolding live_dom by (metis add_right_cancel)
  show "c_addr c + 16 \<notin> dom (live ys)" using ne unfolding live_dom by (metis add_right_cancel)
qed

text \<open>Payloads lie inside their chunks, past the header.\<close>

lemma payload_nat:
  "chunk_ok c \<Longrightarrow> x \<in> payload c \<longleftrightarrow> unat (c_addr c) + 16 \<le> unat x \<and> unat x < c_end c"
  unfolding payload_def
  by (subst in_region_nat) (simp_all add: payload_unat, simp_all add: chunk_ok_def c_end_def)

lemma header_nat:
  "chunk_ok c \<Longrightarrow> x \<in> region (c_addr c) 16 \<longleftrightarrow> unat (c_addr c) \<le> unat x \<and> unat x < unat (c_addr c) + 16"
  by (subst in_region_nat) (simp_all add: chunk_ok_def c_end_def)

lemma payload_headers:
  assumes "spaced cs" and "c \<in> set cs"
  shows "payload c \<inter> headers cs = {}"
proof -
  obtain xs ys where cs: "cs = xs @ c # ys" using assms(2) by (meson split_list)
  have ok: "chunk_ok d" if "d \<in> set cs" for d using assms(1) that by (simp add: spaced_def)
  have "x \<notin> region (c_addr d) 16" if x: "x \<in> payload c" and d: "d \<in> set cs" for x d
  proof (cases "d = c")
    case True
    with x ok d show ?thesis by (auto simp: payload_nat header_nat)
  next
    case False
    then have "c_end d \<le> unat (c_addr c) \<or> c_end c \<le> unat (c_addr d)"
      using spaced_before [of xs c ys d] assms(1) cs d by auto
    with x ok d assms(2) show ?thesis by (auto simp: payload_nat header_nat c_end_def)
  qed
  then show ?thesis by (auto simp: headers_def)
qed

text \<open>The block that is handed out keeps its bytes.\<close>

lemma malloc_fresh_bytes:
  assumes inv: "heap_inv s cs" and n: "n \<noteq> 0" and run: "malloc n s = ret p s'"
  shows "same_on (region p (unat n)) (mem s) (mem s') \<and> region p (unat n) \<inter> headers cs = {}"
proof -
  have lk: "linked (mem s) 0 cs 0" and sp: "spaced cs" and init: "initialized s" and start: "start_chunk s = head_addr cs 0"
    using inv by (simp_all add: heap_inv_def)
  have find: "malloc_find (mem s) n (start_chunk s) = Some (case alloc_list n cs of None \<Rightarrow> 0 | Some (a, _) \<Rightarrow> a)"
    unfolding start using lk sp by (intro malloc_find_linked) (simp_all add: spaced_def)
  have "alloc_list n cs \<noteq> None"
  proof
    assume "alloc_list n cs = None"
    then show False using find init n run by (simp add: malloc_def)
  qed
  then obtain a cs' where al: "alloc_list n cs = Some (a, cs')" by auto
  then obtain xs c ys where cs: "cs = xs @ c # ys" and fit: "fits n c" and a: "a = c_addr c"
    by (rule alloc_list_Some)
  have c: "chunk_ok c" using sp by (simp add: cs spaced_append)
  have "a \<noteq> 0" using c a by (auto simp: chunk_ok_def)
  then have p: "p = c_addr c + 16" and m: "mem s' = set_allocated (c_addr c) True (malloc_split n (c_addr c) (mem s))"
    using find init n run al a by (auto simp: malloc_def Let_def)
  have "unat n \<le> unat (c_len c)" using fit by (simp add: fits_def word_le_nat_alt)
  then have "region p (unat n) \<subseteq> payload c" unfolding p payload_def by (rule region_mono)
  then have hd: "region p (unat n) \<inter> headers cs = {}" using payload_headers [OF sp, of c] cs by auto
  moreover have "region p (unat n) \<inter> region (c_addr c + n + 16) 16 = {}" if split: "n + 16 < c_len c"
  proof -
    note sp' = carve_split [OF c fit split]
    have u: "unat p = unat (c_addr c) + 16" using c p by (simp add: payload_unat)
    have v: "unat (c_addr c + n + 16) = unat (c_addr c) + unat n + 16" using sp'(1) by simp
    have "unat (c_addr c) + unat n + 16 + 16 \<le> 2 ^ 32"
      using sp'(5) c by (simp add: chunk_ok_def c_end_def)
    then show ?thesis using u v by (intro region_disjoint) simp_all
  qed
  ultimately show ?thesis unfolding m using split_writes [of "mem s" xs c ys n "region p (unat n)"] lk sp fit by (simp add: cs)
qed

lemma payload_extent:
  assumes "spaced cs" and "c \<in> set cs" and "d \<in> set cs" and "c \<noteq> d"
  shows "payload c \<inter> extent d = {}"
proof -
  obtain xs ys where cs: "cs = xs @ c # ys" using assms(2) by (meson split_list)
  have ok: "chunk_ok c" "chunk_ok d" using assms by (simp_all add: spaced_def)
  have "c_end d \<le> unat (c_addr c) \<or> c_end c \<le> unat (c_addr d)"
    using spaced_before [of xs c ys d] assms cs by auto
  then show ?thesis by (auto simp: payload_nat [OF ok(1)] extent_nat [OF ok(2)])
qed

lemma payload_subset_extent: "chunk_ok c \<Longrightarrow> payload c \<subseteq> extent c"
  by (auto simp: payload_nat extent_nat)

lemma blocks_live: "x \<in> blocks (live cs) \<Longrightarrow> \<exists>c \<in> set cs. c_used c \<and> x \<in> payload c"
  unfolding in_blocks payload_def by (metis live_Some)


section \<open>\<open>malloc\<close> and \<open>free\<close> meet the contract\<close>

lemma heap_holdsI:
  assumes "heap_inv s cs" and "hi < 2 ^ 32" and "\<forall>c \<in> set cs. c_end c \<le> hi"
    and "A = {x. unat (start_chunk s) \<le> unat x \<and> unat x < hi}" and "L = live cs"
  shows "heap_holds s A L"
  unfolding heap_holds_def using assms by (intro exI [of _ cs] exI [of _ hi]) simp

lemma heap_holdsE:
  assumes "heap_holds s A L"
  obtains cs hi where "heap_inv s cs" "hi < 2 ^ 32" "\<forall>c \<in> set cs. c_end c \<le> hi"
    "A = {x. unat (start_chunk s) \<le> unat x \<and> unat x < hi}" "L = live cs"
  using assms unfolding heap_holds_def by blast

lemma heap_start_le:
  assumes "heap_inv s cs" and "c \<in> set cs"
  shows "unat (start_chunk s) \<le> unat (c_addr c)"
  using assms by (cases cs) (auto simp: heap_inv_def c_end_def)

lemma heap_ok: "heap_inv s cs \<Longrightarrow> c \<in> set cs \<Longrightarrow> chunk_ok c"
  by (simp add: heap_inv_def spaced_def)

text \<open>Addresses outside the heap, and the payloads, are outside every header.\<close>

lemma outside_headers:
  assumes "heap_inv s cs" and "\<forall>c \<in> set cs. c_end c \<le> hi"
  shows "- {x. unat (start_chunk s) \<le> unat x \<and> unat x < hi} \<inter> extent c = {} \<or> c \<notin> set cs"
    and "(- {x. unat (start_chunk s) \<le> unat x \<and> unat x < hi} \<union> blocks (live cs)) \<inter> headers cs = {}"
proof -
  have out: "- {x. unat (start_chunk s) \<le> unat x \<and> unat x < hi} \<inter> extent d = {}" if "d \<in> set cs" for d
    using heap_start_le [OF assms(1) that] assms(2) that
    by (auto simp: extent_nat [OF heap_ok [OF assms(1) that]])
  then show "- {x. unat (start_chunk s) \<le> unat x \<and> unat x < hi} \<inter> extent c = {} \<or> c \<notin> set cs" by blast
  have "region (c_addr d) 16 \<subseteq> extent d" for d
    unfolding extent_def by (rule region_mono) simp
  with out have "- {x. unat (start_chunk s) \<le> unat x \<and> unat x < hi} \<inter> headers cs = {}"
    unfolding headers_def by blast
  moreover have "blocks (live cs) \<inter> headers cs = {}"
    using payload_headers [of cs] blocks_live [of _ cs] assms(1) by (fastforce simp: heap_inv_def)
  ultimately show "(- {x. unat (start_chunk s) \<le> unat x \<and> unat x < hi} \<union> blocks (live cs)) \<inter> headers cs = {}"
    by blast
qed

lemma live_alloc:
  assumes "spaced (xs @ c # ys)" and "fits n c"
  shows "live (xs @ c # ys) (c_addr c + 16) = None"
    and "\<exists>k. n \<le> k \<and> live (xs @ carve n c @ ys) = (live (xs @ c # ys))(c_addr c + 16 \<mapsto> k)"
proof -
  note away = live_used_away [OF assms(1)]
  have free: "\<not> c_used c" and n: "n \<le> c_len c" using assms(2) by (simp_all add: fits_def)
  show "live (xs @ c # ys) (c_addr c + 16) = None"
    using away free by (auto simp: live_append map_add_def domIff split: option.splits)
  obtain k where k: "n \<le> k" "live (carve n c @ ys) = (live ys)(c_addr c + 16 \<mapsto> k)"
    using n that [of n] that [of "c_len c"] by (cases "n + 16 < c_len c") (auto simp: carve_def)
  then have "live (xs @ carve n c @ ys) = (live (xs @ c # ys))(c_addr c + 16 \<mapsto> k)"
    using away free by (auto simp: live_append [of xs] map_add_def domIff fun_eq_iff split: option.splits)
  with k show "\<exists>k. n \<le> k \<and> live (xs @ carve n c @ ys) = (live (xs @ c # ys))(c_addr c + 16 \<mapsto> k)"
    by blast
qed

lemma live_absorb: "\<not> c_used c \<Longrightarrow> live (absorb c ys) = live ys"
  by (cases ys) auto

lemma live_release:
  assumes "spaced (xs @ c # ys)"
  shows "live (release xs c ys) = (live (xs @ c # ys))(c_addr c + 16 := None)"
proof -
  have "live (release xs c ys) = live ys ++ live xs"
    by (cases xs rule: rev_cases) (simp_all add: release_Nil release_snoc live_absorb live_append)
  then show ?thesis
    using live_used_away [OF assms]
    by (auto simp: live_append map_add_def domIff fun_eq_iff split: option.splits)
qed

lemma c_end_absorb:
  assumes "spaced (xs @ c # ys)" and "\<forall>e \<in> set (c # ys). c_end e \<le> hi"
  shows "\<forall>d \<in> set (absorb c ys). c_end d \<le> hi"
proof (cases ys)
  case Nil
  then show ?thesis using assms by simp
next
  case (Cons d ds)
  have "c_end (join c d) \<le> c_end d"
    using assms(1) Cons by (intro join_end) (simp add: spaced_append)
  then show ?thesis using assms(2) Cons by auto
qed

lemma c_end_release:
  assumes "spaced (xs @ c # ys)" and "\<forall>e \<in> set (xs @ c # ys). c_end e \<le> hi"
  shows "\<forall>d \<in> set (release xs c ys). c_end d \<le> hi"
proof -
  let ?c = "c\<lparr>c_used := False\<rparr>"
  have sp: "spaced (xs @ ?c # ys)" using assms(1) by (rule spaced_free)
  have e: "\<forall>e \<in> set (xs @ ?c # ys). c_end e \<le> hi" using assms(2) by (simp add: c_end_def)
  show ?thesis
  proof (cases "xs = [] \<or> c_used (last xs)")
    case True
    then have "release xs c ys = xs @ absorb ?c ys" by (auto simp: release_def)
    moreover have "\<forall>d \<in> set (absorb ?c ys). c_end d \<le> hi"
      using sp by (rule c_end_absorb) (use e in simp)
    ultimately show ?thesis using e by auto
  next
    case False
    then obtain xs' b where xs: "xs = xs' @ [b]" and b: "\<not> c_used b"
      by (cases xs rule: rev_cases) auto
    have sp': "spaced (xs' @ b # ?c # ys)" using sp xs by simp
    have "c_end (join b ?c) \<le> c_end ?c"
      using sp' by (intro join_end) (simp add: spaced_append)
    then have "\<forall>d \<in> set (join b ?c # ys). c_end d \<le> hi" using e by auto
    with spaced_join [OF sp'] have "\<forall>d \<in> set (absorb (join b ?c) ys). c_end d \<le> hi"
      by (rule c_end_absorb)
    then show ?thesis using e xs b by (auto simp: release_snoc)
  qed
qed

lemma heap_alloc:
  assumes "heap_holds s A L" and "n \<noteq> 0"
  shows "malloc n s = halt ''chunk'' \<or>
    (\<exists>p m' k. malloc n s = ret p (s\<lparr>mem := m'\<rparr>) \<and> L p = None \<and> n \<le> k \<and>
       heap_holds (s\<lparr>mem := m'\<rparr>) A (L(p \<mapsto> k)) \<and> same_on (- A \<union> blocks L) (mem s) m')"
proof -
  obtain cs hi where inv: "heap_inv s cs" and hi: "hi < 2 ^ 32" "\<forall>c \<in> set cs. c_end c \<le> hi"
    and A: "A = {x. unat (start_chunk s) \<le> unat x \<and> unat x < hi}" and L: "L = live cs"
    using assms(1) by (rule heap_holdsE)
  have sp: "spaced cs" using inv by (simp add: heap_inv_def)
  show ?thesis
  proof (cases "alloc_list n cs")
    case None
    then show ?thesis using malloc_refines [OF inv assms(2)] by simp
  next
    case (Some r)
    obtain a cs' where r: "r = (a, cs')" by fastforce
    obtain xs c ys where cs: "cs = xs @ c # ys" and fit: "fits n c" and a: "a = c_addr c"
      and cs': "cs' = xs @ carve n c @ ys"
      using alloc_list_Some [of n cs a cs'] Some r by metis
    obtain m' where run: "malloc n s = ret (a + 16) (s\<lparr>mem := m'\<rparr>)"
      and inv': "heap_inv (s\<lparr>mem := m'\<rparr>) cs'"
      and fr: "\<And>S. S \<inter> headers cs = {} \<Longrightarrow> (\<forall>c \<in> set cs. c_addr c = a \<longrightarrow> S \<inter> extent c = {}) \<Longrightarrow>
           same_on S (mem s) m'"
      using malloc_refines [OF inv assms(2)] Some r by auto
    obtain k where k: "n \<le> k" "live cs' = L(a + 16 \<mapsto> k)" and N: "L (a + 16) = None"
      using live_alloc [of xs c ys n] sp fit cs cs' a L by auto
    have ok: "chunk_ok c" using inv cs by (auto intro: heap_ok)
    have "\<forall>d \<in> set cs'. c_end d \<le> hi"
      using hi(2) carve_end(3) [OF ok fit] cs cs' by fastforce
    then have "heap_holds (s\<lparr>mem := m'\<rparr>) A (L(a + 16 \<mapsto> k))"
      using inv' hi(1) A k(2) by (intro heap_holdsI [of _ cs' hi]) simp_all
    moreover have "same_on (- A \<union> blocks L) (mem s) m'"
    proof (rule fr)
      show "(- A \<union> blocks L) \<inter> headers cs = {}"
        unfolding A L using inv hi(2) by (rule outside_headers)
      show "\<forall>d \<in> set cs. c_addr d = a \<longrightarrow> (- A \<union> blocks L) \<inter> extent d = {}"
      proof (intro ballI impI)
        fix d assume d: "d \<in> set cs" "c_addr d = a"
        have dc: "d = c"
          using spaced_distinct_addr [of xs c ys d] sp d cs a by auto
        have "- A \<inter> extent d = {}" using outside_headers(1) [OF inv hi(2), of d] d A by simp
        moreover have "blocks L \<inter> extent d = {}"
        proof -
          have "payload e \<inter> extent d = {}" if "e \<in> set cs" "c_used e" for e
            using payload_extent [OF sp that(1) d(1)] that fit dc by (auto simp: fits_def)
          then show ?thesis using blocks_live [of _ cs] L by blast
        qed
        ultimately show "(- A \<union> blocks L) \<inter> extent d = {}" by blast
      qed
    qed
    ultimately show ?thesis using run k(1) N by blast
  qed
qed

lemma heap_dealloc:
  assumes "heap_holds s A L" and "L p = Some k"
  shows "\<exists>m'. free p s = ret () (s\<lparr>mem := m'\<rparr>) \<and> heap_holds (s\<lparr>mem := m'\<rparr>) A (L(p := None)) \<and>
     same_on (- A \<union> blocks L) (mem s) m'"
proof -
  obtain cs hi where inv: "heap_inv s cs" and hi: "hi < 2 ^ 32" "\<forall>c \<in> set cs. c_end c \<le> hi"
    and A: "A = {x. unat (start_chunk s) \<le> unat x \<and> unat x < hi}" and L: "L = live cs"
    using assms(1) by (rule heap_holdsE)
  obtain c where c: "c \<in> set cs" "c_used c" "p = c_addr c + 16"
    using live_Some [of cs p k] assms(2) L by auto
  obtain xs ys where cs: "cs = xs @ c # ys" using c(1) by (meson split_list)
  have sp: "spaced (xs @ c # ys)" using inv cs by (simp add: heap_inv_def)
  obtain m' where run: "free p s = ret () (s\<lparr>mem := m'\<rparr>)"
    and inv': "heap_inv (s\<lparr>mem := m'\<rparr>) (release xs c ys)"
    and fr: "\<And>S. S \<inter> headers cs = {} \<Longrightarrow> same_on S (mem s) m'"
    using free_refines [of s xs c ys] inv c cs by auto
  have "\<forall>d \<in> set (release xs c ys). c_end d \<le> hi"
    using sp by (rule c_end_release) (use hi(2) cs in simp)
  then have "heap_holds (s\<lparr>mem := m'\<rparr>) A (L(p := None))"
    using inv' hi(1) A L live_release [OF sp] cs c(3)
    by (intro heap_holdsI [of _ "release xs c ys" hi]) simp_all
  moreover have "same_on (- A \<union> blocks L) (mem s) m'"
    unfolding A L by (rule fr) (rule outside_headers(2) [OF inv hi(2)])
  ultimately show ?thesis using run by blast
qed

lemma heap_block:
  assumes "heap_holds s A L" and "L p = Some k"
  shows "16 < unat p \<and> unat p + unat k < 2 ^ 32 \<and> region p (unat k) \<subseteq> A"
proof -
  obtain cs hi where inv: "heap_inv s cs" and hi: "\<forall>c \<in> set cs. c_end c \<le> hi"
    and A: "A = {x. unat (start_chunk s) \<le> unat x \<and> unat x < hi}" and L: "L = live cs"
    using assms(1) by (rule heap_holdsE)
  obtain c where c: "c \<in> set cs" "p = c_addr c + 16" "k = c_len c"
    using live_Some [of cs p k] assms(2) L by auto
  have ok: "chunk_ok c" using inv c(1) by (rule heap_ok)
  have "payload c \<subseteq> A" using outside_headers(1) [OF inv hi, of c] c(1) A payload_subset_extent [OF ok] by blast
  then show ?thesis using ok payload_unat [OF ok] c by (auto simp: payload_def chunk_ok_def c_end_def)
qed

lemma heap_blocks_disjoint:
  assumes "heap_holds s A L" and "L p = Some k" and "L q = Some j" and "p \<noteq> q"
  shows "region p (unat k) \<inter> region q (unat j) = {}"
proof -
  obtain cs where inv: "heap_inv s cs" and L: "L = live cs"
    using assms(1) by (rule heap_holdsE)
  obtain c where c: "c \<in> set cs" "p = c_addr c + 16" "k = c_len c"
    using live_Some [of cs p k] assms(2) L by auto
  obtain d where d: "d \<in> set cs" "q = c_addr d + 16" "j = c_len d"
    using live_Some [of cs q j] assms(3) L by auto
  have "payload c \<inter> extent d = {}"
    using inv c d assms(4) by (intro payload_extent) (auto simp: heap_inv_def)
  then show ?thesis
    using payload_subset_extent [OF heap_ok [OF inv d(1)]] c d by (auto simp: payload_def)
qed

lemma heap_holds_cong:
  assumes "heap_holds s A L" and "same_on (A - blocks L) (mem s) m'"
  shows "heap_holds (s\<lparr>mem := m'\<rparr>) A L"
proof -
  obtain cs hi where inv: "heap_inv s cs" and hi: "hi < 2 ^ 32" "\<forall>c \<in> set cs. c_end c \<le> hi"
    and A: "A = {x. unat (start_chunk s) \<le> unat x \<and> unat x < hi}" and L: "L = live cs"
    using assms(1) by (rule heap_holdsE)
  have "region (c_addr c) 16 \<subseteq> A - blocks L" if c: "c \<in> set cs" for c
  proof -
    have "region (c_addr c) 16 \<subseteq> extent c" unfolding extent_def by (rule region_mono) simp
    moreover have "extent c \<subseteq> A" using outside_headers(1) [OF inv hi(2), of c] c A by blast
    moreover have "region (c_addr c) 16 \<inter> blocks L = {}"
      using outside_headers(2) [OF inv hi(2)] headers_disjoint [OF _ c] L by blast
    ultimately show ?thesis by blast
  qed
  then have "linked m' 0 cs 0 = linked (mem s) 0 cs 0"
    using assms(2) by (intro linked_cong) (auto intro: same_on_mono)
  with inv have "heap_inv (s\<lparr>mem := m'\<rparr>) cs" by (simp add: heap_inv_def)
  then show ?thesis using hi A L by (intro heap_holdsI [of _ cs hi]) simp_all
qed

interpretation kheap: allocator malloc free mem "\<lambda>m s. s\<lparr>mem := m\<rparr>" heap_holds
proof
  fix s A L n p s'
  assume h: "heap_holds s A L" and n: "(n :: u32) \<noteq> 0"
  show "malloc n s = halt ''chunk'' \<or> (\<exists>p m'. malloc n s = ret p (s\<lparr>mem := m'\<rparr>))"
    using heap_alloc [OF h n] by blast
  show "L p = None \<and> (\<exists>k. n \<le> k \<and> heap_holds s' A (L(p \<mapsto> k)))" if "malloc n s = ret p s'"
    using heap_alloc [OF h n] that by auto
  show "same_on (- A \<union> blocks L) (mem s) (mem s')" if "malloc n s = ret p s'"
    using heap_alloc [OF h n] that by auto
qed (auto intro: heap_dealloc heap_block [THEN conjunct1] heap_holds_cong
      dest: heap_block heap_blocks_disjoint)

text \<open>The laws for a state given by its memory.\<close>

lemma free_at:
  assumes "heap_holds (s\<lparr>mem := m\<rparr>) A L" and "L p = Some k"
  obtains m' where "free p (s\<lparr>mem := m\<rparr>) = ret () (s\<lparr>mem := m'\<rparr>)"
    "heap_holds (s\<lparr>mem := m'\<rparr>) A (L(p := None))" "same_on (- A \<union> blocks L) m m'"
  using kheap.dealloc_block [OF assms] that by auto

lemma malloc_cases:
  assumes "heap_holds s A L" and "n \<noteq> 0"
  obtains (full) "malloc n s = halt ''chunk''"
  | (block) p k m where "malloc n s = ret p (s\<lparr>mem := m\<rparr>)" "n \<le> k" "L p = None"
      "heap_holds (s\<lparr>mem := m\<rparr>) A (L(p \<mapsto> k))" "same_on (- A \<union> blocks L) (mem s) m" "p \<noteq> 0"
proof -
  consider "malloc n s = halt ''chunk''" | p m where "malloc n s = ret p (s\<lparr>mem := m\<rparr>)"
    using kheap.alloc_outcome [OF assms] by blast
  then show ?thesis
  proof cases
    case 1
    then show ?thesis by (rule full)
  next
    case 2
    have "same_on (- A \<union> blocks L) (mem s) m" using kheap.alloc_frame [OF assms 2] by simp
    then show ?thesis using kheap.alloc_room [OF assms 2] block [OF 2] by metis
  qed
qed

text \<open>The contract depends on memory and the allocator's own variables only.\<close>

lemma heap_holds_update [simp]:
  "heap_holds (s\<lparr>next_id := v\<rparr>) A L = heap_holds s A L"
  "heap_holds (s\<lparr>plist := w\<rparr>) A L = heap_holds s A L"
  "heap_holds (s\<lparr>current := w\<rparr>) A L = heap_holds s A L"
  "heap_holds (s\<lparr>enabled := b\<rparr>) A L = heap_holds s A L"
  "heap_holds (s\<lparr>kesp := w\<rparr>) A L = heap_holds s A L"
  "heap_holds (s\<lparr>io := h\<rparr>) A L = heap_holds s A L"
  "heap_holds (s\<lparr>cursor := w\<rparr>) A L = heap_holds s A L"
  "heap_holds (s\<lparr>device_count := w\<rparr>) A L = heap_holds s A L"
  "heap_holds (s\<lparr>devices := f\<rparr>) A L = heap_holds s A L"
  "heap_holds (s\<lparr>drivers := f\<rparr>) A L = heap_holds s A L"
  by (simp_all add: heap_holds_def heap_inv_def)

end
