(* ===== verification/Heap_Init.thy ===== *)
theory Heap_Init
  imports Allocator
begin

text \<open>
  \<open>malloc_init\<close> builds the chunk list from the memory map the boot loader leaves behind:
  one chunk from the end of the kernel to the end of the free entry that holds it, and one for
  every free entry after that. The theory gives the list it builds as a function of the map's
  entries and shows that the heap invariant holds afterwards.
\<close>

type_synonym map_entry = "u64 \<times> u64 \<times> u32"

section \<open>The memory map in memory\<close>

definition mmap_at :: "memory \<Rightarrow> u32 \<Rightarrow> map_entry list \<Rightarrow> bool" where
  "mmap_at m mmap es \<longleftrightarrow> length es < 2 ^ 32 \<and> mmap_len m mmap = word_of_nat (length es) \<and>
     (\<forall>i < length es. let e = mmap_entry m mmap (word_of_nat i) in
        es ! i = (entry_base m e, entry_len m e, entry_type m e))"

definition mmap_foot :: "memory \<Rightarrow> u32 \<Rightarrow> nat \<Rightarrow> u32 set" where
  "mmap_foot m mmap n = region mmap 8 \<union> (\<Union>i < n. region (mmap_entry m mmap (word_of_nat i)) 24)"

lemma mmap_cong:
  assumes "same_on (mmap_foot m mmap n) m m'"
  shows "mmap_len m' mmap = mmap_len m mmap" and "mmap_entry m' mmap j = mmap_entry m mmap j"
    and "i < n \<Longrightarrow> e = mmap_entry m mmap (word_of_nat i) \<Longrightarrow>
      entry_base m' e = entry_base m e \<and> entry_len m' e = entry_len m e \<and> entry_type m' e = entry_type m e"
proof -
  have hdr: "same_on (region mmap 8) m m'"
    using assms by (rule same_on_mono) (auto simp: mmap_foot_def)
  have l0: "load32 m' mmap = load32 m mmap"
    using region_mono [of 4 8 mmap] by (intro load32_cong same_on_mono [OF hdr]) simp
  have l4: "load32 m' (mmap + 4) = load32 m (mmap + 4)"
    using region_shift_subset [of 4 4 8 mmap] by (intro load32_cong same_on_mono [OF hdr]) simp
  show "mmap_len m' mmap = mmap_len m mmap" and "mmap_entry m' mmap j = mmap_entry m mmap j"
    by (simp_all add: mmap_len_def mmap_entry_def l0 l4)
  assume i: "i < n" and e: "e = mmap_entry m mmap (word_of_nat i)"
  have ent: "same_on (region e 24) m m'"
    using assms by (rule same_on_mono) (use i e in \<open>auto simp: mmap_foot_def\<close>)
  have "load32 m' (e + k) = load32 m (e + k)" if "unat k + 4 \<le> 24" for k
    using region_shift_subset [of k 4 24 e] that by (intro load32_cong same_on_mono [OF ent]) simp
  from this [of 0] this [of 4] this [of 8] this [of 12] this [of 16]
  show "entry_base m' e = entry_base m e \<and> entry_len m' e = entry_len m e \<and> entry_type m' e = entry_type m e"
    by (simp add: entry_base_def entry_len_def entry_type_def load64_def add.assoc)
qed

section \<open>The chunks of a memory map\<close>

definition entry_chunk :: "map_entry \<Rightarrow> chunk" where
  "entry_chunk = (\<lambda>(b, l, t). \<lparr>c_addr = ucast b, c_len = ucast (l - 16), c_used = False\<rparr>)"

definition entry_free :: "map_entry \<Rightarrow> bool" where
  "entry_free = (\<lambda>(b, l, t). t = 1)"

definition holds_kernel :: "u32 \<Rightarrow> map_entry \<Rightarrow> bool" where
  "holds_kernel kernel_end = (\<lambda>(b, l, t). t = 1 \<and> b < ucast kernel_end \<and> ucast kernel_end \<le> b + l)"

definition kernel_chunk :: "u32 \<Rightarrow> map_entry \<Rightarrow> chunk" where
  "kernel_chunk kernel_end = (\<lambda>(b, l, t).
     \<lparr>c_addr = kernel_end, c_len = ucast (b + l - ucast kernel_end - 16), c_used = False\<rparr>)"

fun init_chunks :: "u32 \<Rightarrow> map_entry list \<Rightarrow> chunk list" where
  "init_chunks kernel_end [] = []"
| "init_chunks kernel_end (e # es) =
    (if holds_kernel kernel_end e
     then kernel_chunk kernel_end e # map entry_chunk (filter entry_free es)
     else init_chunks kernel_end es)"

lemma init_chunks_snoc:
  "init_chunks k (es @ [e]) =
    (if init_chunks k es = [] then (if holds_kernel k e then [kernel_chunk k e] else [])
     else init_chunks k es @ (if entry_free e then [entry_chunk e] else []))"
  by (induction es) auto

lemma init_chunks_prefix: "\<exists>zs. init_chunks k es = init_chunks k (take j es) @ zs"
proof (induction es arbitrary: j)
  case Nil
  then show ?case by simp
next
  case (Cons e es)
  show ?case
  proof (cases j)
    case 0
    then show ?thesis by simp
  next
    case (Suc i)
    have "filter entry_free es = filter entry_free (take i es) @ filter entry_free (drop i es)"
      by (metis append_take_drop_id filter_append)
    then show ?thesis using Suc Cons.IH [of i] by auto
  qed
qed

section \<open>The loop\<close>

definition init_state :: "u32 \<Rightarrow> map_entry list \<Rightarrow> kernel \<Rightarrow> u32 \<times> kernel \<Rightarrow> bool" where
  "init_state k es s = (\<lambda>(chunk, t).
     let cs = init_chunks k es in
     t = s\<lparr>mem := mem t, start_chunk := head_addr cs 0, heap_len := heap_len t\<rparr> \<and>
     chunk = last_addr 0 cs \<and> linked (mem t) 0 cs 0 \<and> same_on (- headers cs) (mem s) (mem t))"

lemma init_stateD:
  assumes "init_state k es s (chunk, t)"
  shows "start_chunk t = head_addr (init_chunks k es) 0" and "initialized t = initialized s"
    and "linked (mem t) 0 (init_chunks k es) 0"
    and "same_on (- headers (init_chunks k es)) (mem s) (mem t)"
proof -
  have eq: "t = s\<lparr>mem := mem t, start_chunk := head_addr (init_chunks k es) 0, heap_len := heap_len t\<rparr>"
    using assms unfolding init_state_def Let_def prod.case by blast
  show "start_chunk t = head_addr (init_chunks k es) 0"
    by (rule arg_cong [OF eq, of start_chunk, simplified])
  show "initialized t = initialized s"
    by (rule arg_cong [OF eq, of initialized, simplified])
  show "linked (mem t) 0 (init_chunks k es) 0"
    and "same_on (- headers (init_chunks k es)) (mem s) (mem t)"
    using assms by (simp_all add: init_state_def Let_def)
qed

lemma init_step:
  assumes st: "init_state k es s (chunk, t)" and start: "start_chunk s = 0"
    and sp: "spaced (init_chunks k (es @ [e]))"
    and at: "e = (entry_base (mem t) a, entry_len (mem t) a, entry_type (mem t) a)"
    and a: "a = mmap_entry (mem t) mmap i"
  shows "init_state k (es @ [e]) s (malloc_init_entry k mmap i (chunk, t))"
proof -
  define cs where "cs = init_chunks k es"
  define m where "m = mem t"
  obtain n where t: "t = s\<lparr>mem := m, start_chunk := head_addr cs 0, heap_len := n\<rparr>"
    and chunk: "chunk = last_addr 0 cs" and lk: "linked m 0 cs 0" and fr: "same_on (- headers cs) (mem s) m"
    using st by (auto simp: init_state_def Let_def cs_def m_def)
  have am: "mmap_entry m mmap i = a" by (simp add: a m_def)
  have mt: "mem t = m" and st0: "start_chunk t = head_addr cs 0" by (simp_all add: t)
  note unf = malloc_init_entry_def init_state_def init_chunks_snoc cs_def [symmetric] Let_def
  show ?thesis
  proof (cases "entry_free e")
    case False
    then have "\<not> holds_kernel k e" "entry_type m a \<noteq> 1"
      using at mt by (auto simp: entry_free_def holds_kernel_def)
    with False show ?thesis
      using t chunk lk fr by (auto simp add: unf am mt)
  next
    case free: True
    then have ty: "entry_type m a = 1" using at mt by (simp add: entry_free_def)
    show ?thesis
    proof (cases "cs = []")
      case empty: True
      then have s0: "start_chunk t = 0" by (simp add: st0)
      show ?thesis
      proof (cases "holds_kernel k e")
        case False
        then have "\<not> (entry_base m a < ucast k \<and> ucast k \<le> entry_base m a + entry_len m a)"
          using at mt ty by (simp add: holds_kernel_def)
        with False empty show ?thesis
          using t chunk lk fr ty s0 by (auto simp add: unf am mt)
      next
        case True
        then have "entry_base m a < ucast k \<and> ucast k \<le> entry_base m a + entry_len m a"
          using at mt by (simp add: holds_kernel_def)
        with True empty show ?thesis
          using t chunk fr ty s0 at mt
          by (simp add: unf am mt header_def kernel_chunk_def headers_def same_on_header_step
              same_on_mono [OF fr])
      qed
    next
      case False
      then obtain xs c where cs: "cs = xs @ [c]" by (cases cs rule: rev_cases) auto
      let ?d = "entry_chunk e"
      have sp': "spaced (xs @ c # [?d])" using sp free False cs by (simp add: unf)
      have c0: "start_chunk t \<noteq> 0"
        using sp' cs by (cases xs) (auto simp: st0 chunk_ok_def)
      have dx: "apart (c_addr ?d) (c_addr x)" if "x \<in> set xs" for x
        using spaced_apart(1) [of "xs @ [c]" ?d "[]" x] sp' that by simp
      have cx: "apart (c_addr c) (c_addr x)" if "x \<in> set xs" for x
        using spaced_apart(1) [OF sp'] that by simp
      have dc: "apart (c_addr ?d) (c_addr c)"
        using spaced_apart(1) [of "xs @ [c]" ?d "[]" c] sp' by simp
      note other = header_other [OF dc] header_other [OF apart_sym [OF dc]]
      have da: "c_addr ?d = ucast (entry_base m a)" "c_len ?d = ucast (entry_len m a - 16)" "\<not> c_used ?d"
        using at mt by (simp_all add: entry_chunk_def)
      have sub: "(- headers (xs @ [c, ?d])) \<inter> region (c_addr ?d) 16 = {}"
        "(- headers (xs @ [c, ?d])) \<inter> region (c_addr c) 16 = {}"
        "- headers (xs @ [c, ?d]) \<subseteq> - headers cs"
        by (auto simp: headers_def cs)
      show ?thesis
        using t chunk lk ty c0 free cs dx cx da(3) same_on_mono [OF fr sub(3)] sub(1,2)
        by (simp add: unf am mt da(1,2) [symmetric] header_def linked_other other
            same_on_header_step)
    qed
  qed
qed

text \<open>The loop leaves the memory map alone.\<close>

lemma init_keeps_map:
  assumes "init_state k (take j es) s (chunk, t)" and "mmap_foot (mem s) mmap n \<inter> headers (init_chunks k es) = {}"
  shows "same_on (mmap_foot (mem s) mmap n) (mem s) (mem t)"
proof -
  obtain zs where zs: "init_chunks k es = init_chunks k (take j es) @ zs"
    using init_chunks_prefix by blast
  have "headers (init_chunks k (take j es)) \<subseteq> headers (init_chunks k es)"
    unfolding zs by (auto simp: headers_def)
  then show ?thesis using assms by (auto simp: init_state_def Let_def intro: same_on_mono)
qed

lemma init_loop:
  assumes at: "mmap_at (mem s) mmap es" and start: "start_chunk s = 0"
    and sp: "spaced (init_chunks k es)"
    and foot: "mmap_foot (mem s) mmap (length es) \<inter> headers (init_chunks k es) = {}"
    and j: "j \<le> length es"
  shows "init_state k (take j es) s
    (fold (malloc_init_entry k mmap) (map word_of_nat [0..<j]) (0, s))"
  using j
proof (induction j)
  case 0
  show ?case using start by (simp add: init_state_def Let_def)
next
  case (Suc j)
  then have j: "j < length es" by simp
  obtain chunk t where ct: "fold (malloc_init_entry k mmap) (map word_of_nat [0..<j]) (0, s) = (chunk, t)"
    by fastforce
  with Suc have st: "init_state k (take j es) s (chunk, t)" by simp
  have tk: "take (Suc j) es = take j es @ [es ! j]" using j by (simp add: take_Suc_conv_app_nth)
  obtain zs' where zs': "init_chunks k es = init_chunks k (take (Suc j) es) @ zs'"
    using init_chunks_prefix by blast
  note cong = mmap_cong [OF init_keeps_map [OF st foot]]
  define a where "a = mmap_entry (mem t) mmap (word_of_nat j)"
  have a: "a = mmap_entry (mem s) mmap (word_of_nat j)" by (simp add: a_def cong(2))
  have "es ! j = (entry_base (mem t) a, entry_len (mem t) a, entry_type (mem t) a)"
    using cong(3) [OF j a] at j a by (simp add: mmap_at_def Let_def)
  moreover have "spaced (init_chunks k (take j es @ [es ! j]))"
    using sp unfolding zs' tk by (simp add: spaced_append)
  ultimately show ?case
    using init_step [OF st start, of "es ! j" a] a_def ct by (simp add: tk)
qed

lemma malloc_init_establishes:
  assumes "mmap \<noteq> 0" and at: "mmap_at (mem s) mmap es" and start: "start_chunk s = 0"
    and sp: "spaced (init_chunks k es)"
    and foot: "mmap_foot (mem s) mmap (length es) \<inter> headers (init_chunks k es) = {}"
  shows "if init_chunks k es = [] then malloc_init k mmap s = halt ''start_chunk''
    else \<exists>s'. malloc_init k mmap s = ret () s' \<and> heap_inv s' (init_chunks k es) \<and>
      same_on (- headers (init_chunks k es)) (mem s) (mem s') \<and>
      s' = s\<lparr>mem := mem s', initialized := True, start_chunk := head_addr (init_chunks k es) 0, heap_len := heap_len s'\<rparr>"
proof -
  let ?cs = "init_chunks k es"
  have len: "length es < 2 ^ 32" "mmap_len (mem s) mmap = word_of_nat (length es)" using at by (simp_all add: mmap_at_def)
  have loop: "count_up (\<lambda>(chunk, s). mmap_len (mem s) mmap) (malloc_init_entry k mmap) 0 (0, s) =
      fold (malloc_init_entry k mmap) (map word_of_nat [0..<length es]) (0, s)"
  proof (rule count_up_fold [OF len(1)])
    fix j assume "j \<le> length es"
    note st = init_loop [OF at start sp foot this]
    obtain chunk t where ct: "fold (malloc_init_entry k mmap) (map word_of_nat [0..<j]) (0, s) = (chunk, t)" by fastforce
    have "mmap_len (mem t) mmap = word_of_nat (length es)"
      using init_keeps_map [OF st [unfolded ct] foot] len(2) by (metis mmap_cong(1))
    then show "(case fold (malloc_init_entry k mmap) (map word_of_nat [0..<j]) (0, s) of (chunk, s) \<Rightarrow> mmap_len (mem s) mmap) =
        word_of_nat (length es)" by (simp add: ct)
  qed
  obtain chunk t where ct: "fold (malloc_init_entry k mmap) (map word_of_nat [0..<length es]) (0, s) = (chunk, t)"
    by fastforce
  then have st: "init_state k es s (chunk, t)"
    using init_loop [OF at start sp foot, of "length es"] by simp
  have eq: "t = s\<lparr>mem := mem t, start_chunk := head_addr ?cs 0, heap_len := heap_len t\<rparr>"
    using st unfolding init_state_def Let_def prod.case by blast
  have ne: "head_addr ?cs 0 \<noteq> 0" if "?cs \<noteq> []"
    using sp that by (cases ?cs) (auto simp: chunk_ok_def)
  note d = init_stateD [OF st]
  have run: "malloc_init k mmap s = (if head_addr ?cs 0 = 0 then halt ''start_chunk'' else ret () (t\<lparr>initialized := True\<rparr>))"
    using assms(1) ct loop d(1) by (simp add: malloc_init_def)
  show ?thesis
  proof (cases "?cs = []")
    case True
    then show ?thesis using run by simp
  next
    case False
    let ?t = "t\<lparr>initialized := True\<rparr>"
    have "heap_inv ?t ?cs" using False d sp by (simp add: heap_inv_def)
    moreover have "?t = s\<lparr>mem := mem ?t, initialized := True, start_chunk := head_addr ?cs 0, heap_len := heap_len ?t\<rparr>"
      by (subst eq) simp
    moreover have "same_on (- headers ?cs) (mem s) (mem ?t)" using d(4) by simp
    ultimately show ?thesis using False run ne [OF False] by (simp only: if_False) blast
  qed
qed

end
