(* ===== verification/Heap_Safety.thy ===== *)
theory Heap_Safety
  imports Heap_Init
begin

text \<open>
  What the allocator guarantees its clients, over whole histories of calls: the relation
  \<open>client_step\<close> interleaves allocations, releases and writes of the owners of blocks, and
  in every state it reaches each block still holds what its owner wrote. Then \<open>realloc\<close>, the
  coalescing of free chunks, and the merge over a gap in the memory map.
\<close>

section \<open>The length a block was handed out with\<close>

lemma linked_header:
  "linked m p cs n \<Longrightarrow> c \<in> set cs \<Longrightarrow>
   allocated m (c_addr c) = c_used c \<and> chunk_len m (c_addr c) = c_len c"
  by (induction cs arbitrary: p) (auto simp: header_def)

lemma heap_chunk_len:
  assumes "heap_holds s A L" and "L p = Some k"
  shows "chunk_len (mem s) (p - 16) = k"
proof -
  obtain cs where inv: "heap_inv s cs" and L: "L = live cs" using assms(1) by (rule heap_holdsE)
  obtain c where c: "c \<in> set cs" "p = c_addr c + 16" "k = c_len c"
    using live_Some [of cs p k] assms(2) L by auto
  then show ?thesis using linked_header [of "mem s" 0 cs 0 c] inv by (simp add: heap_inv_def)
qed

section \<open>Reallocation\<close>

lemma memcpy_into_block:
  assumes h: "heap_holds s A L" and q: "L q = Some j" and n: "unat n \<le> unat j"
    and disj: "region q (unat j) \<inter> region p (unat n) = {}"
  defines "m' \<equiv> memcpy q p n (mem s)"
  shows "heap_holds (s\<lparr>mem := m'\<rparr>) A L" and "bytes_at m' q (unat n) = bytes_at (mem s) p (unat n)"
    and "same_on (- region q (unat j)) (mem s) m'"
proof -
  have lt: "unat n \<le> 2 ^ 32" using unat_lt32 [of n] by simp
  have sub: "region q (unat n) \<subseteq> region q (unat j)" using n by (rule region_mono)
  have "copy_safe q p (unat n)" using disj sub lt by (intro copy_safe_disjoint) auto
  then have m': "m' = store_bytes (mem s) q (bytes_at (mem s) p (unat n))"
    by (simp add: m'_def memcpy_bytes)
  show "bytes_at m' q (unat n) = bytes_at (mem s) p (unat n)"
    using bytes_at_store_bytes [of "bytes_at (mem s) p (unat n)" "mem s" q] lt by (simp add: m')
  show fr: "same_on (- region q (unat j)) (mem s) m'"
    unfolding m' using lt sub by (intro same_on_store_bytes) auto
  show "heap_holds (s\<lparr>mem := m'\<rparr>) A L" using kheap.write_block [OF h q] fr by simp
qed

lemma realloc_grows:
  assumes h: "heap_holds s A L" and p: "L p = Some k" and n: "k < n" "malloc n s = ret q s\<^sub>1"
  shows "\<exists>s' j. realloc p n s = ret q s' \<and> n \<le> j \<and> heap_holds s' A ((L(p := None))(q \<mapsto> j)) \<and>
     L q = None \<and> bytes_at (mem s') q (unat k) = bytes_at (mem s) p (unat k) \<and>
     same_on (- A \<union> blocks (L(p := None))) (mem s) (mem s')"
proof -
  have n0: "n \<noteq> 0" using n(1) by auto
  obtain j where j: "n \<le> j" "heap_holds s\<^sub>1 A (L(q \<mapsto> j))" "q \<noteq> 0" "L q = None"
    using kheap.alloc_room [OF h n0 n(2)] by metis
  have qp: "q \<noteq> p" using j(4) p by auto
  have p0: "p \<noteq> 0" and init: "initialized s" using kheap.block_nonnull [OF h p] h
    by (auto simp: heap_holds_def heap_inv_def)
  let ?L = "L(q \<mapsto> j)"
  have Lp: "?L p = Some k" using p qp by simp
  have kj: "unat k \<le> unat j" using n(1) j(1) by (auto simp: word_le_nat_alt word_less_nat_alt)
  have disj: "region q (unat j) \<inter> region p (unat k) = {}"
    using kheap.blocks_disjoint [OF j(2), of q j p k] Lp qp by simp
  define m\<^sub>2 where "m\<^sub>2 = memcpy q p k (mem s\<^sub>1)"
  note copy = memcpy_into_block [OF j(2), of q j k p, folded m\<^sub>2_def]
  have h2: "heap_holds (s\<^sub>1\<lparr>mem := m\<^sub>2\<rparr>) A ?L" using copy(1) kj disj by simp
  obtain m\<^sub>3 where run: "free p (s\<^sub>1\<lparr>mem := m\<^sub>2\<rparr>) = ret () (s\<^sub>1\<lparr>mem := m\<^sub>3\<rparr>)"
    and h3: "heap_holds (s\<^sub>1\<lparr>mem := m\<^sub>3\<rparr>) A (?L(p := None))"
    and fr3: "same_on (- A \<union> blocks ?L) m\<^sub>2 m\<^sub>3"
    using free_at [OF h2 Lp] by blast
  have len: "chunk_len (mem s) (p - 16) = k" "chunk_len (mem s\<^sub>1) (p - 16) = k"
    using heap_chunk_len [OF h p] heap_chunk_len [OF j(2) Lp] by simp_all
  have "realloc p n s = ret q (s\<^sub>1\<lparr>mem := m\<^sub>3\<rparr>)"
    using init p0 n0 n(2) len j(3) run leD [of n k] n(1) by (auto simp add: realloc_def Let_def m\<^sub>2_def)
  moreover have "?L(p := None) = (L(p := None))(q \<mapsto> j)" using qp by (simp add: fun_upd_twist)
  moreover have "bytes_at m\<^sub>3 q (unat k) = bytes_at (mem s) p (unat k)"
  proof -
    have "region q (unat k) \<subseteq> blocks ?L"
      using block_subset [of ?L q j] region_mono [OF kj, of q] by auto
    then have "bytes_at m\<^sub>3 q (unat k) = bytes_at m\<^sub>2 q (unat k)"
      using fr3 unat_lt32 [of k] by (intro bytes_at_cong same_on_mono [OF fr3]) auto
    also have "\<dots> = bytes_at (mem s\<^sub>1) p (unat k)" using copy(2) kj disj by simp
    also have "\<dots> = bytes_at (mem s) p (unat k)"
      using kheap.alloc_keeps_block [OF h n0 n(2) p] unat_lt32 [of k] by (intro bytes_at_cong) auto
    finally show ?thesis .
  qed
  moreover have "same_on (- A \<union> blocks (L(p := None))) (mem s) m\<^sub>3"
  proof (rule same_on_trans [OF _ same_on_trans])
    have "L(p := None) \<subseteq>\<^sub>m L" "L(p := None) \<subseteq>\<^sub>m ?L" using j(4) by (auto simp: map_le_def)
    then have sub: "- A \<union> blocks (L(p := None)) \<subseteq> - A \<union> blocks L"
      "- A \<union> blocks (L(p := None)) \<subseteq> - A \<union> blocks ?L"
      using blocks_mono by blast+
    show "same_on (- A \<union> blocks (L(p := None))) (mem s) (mem s\<^sub>1)"
      using kheap.alloc_frame [OF h n0 n(2)] sub(1) by (rule same_on_mono)
    show "same_on (- A \<union> blocks (L(p := None))) m\<^sub>2 m\<^sub>3" using fr3 sub(2) by (rule same_on_mono)
    have "region q (unat j) \<inter> (- A \<union> blocks (L(p := None))) = {}"
      using j(2,4) \<open>L(p := None) \<subseteq>\<^sub>m ?L\<close> by (intro kheap.fresh_away [of s\<^sub>1 A ?L]) auto
    then show "same_on (- A \<union> blocks (L(p := None))) (mem s\<^sub>1) m\<^sub>2"
      using copy(3) kj disj by (intro same_on_mono [OF copy(3)]) auto
  qed
  ultimately show ?thesis using j(1,4) h3 by auto
qed

section \<open>Clients of the heap\<close>

text \<open>
  A history of calls by routines that respect the allocator: they allocate, release blocks
  they own, write bytes into blocks they own, and write outside the heap. The second component
  records what the owner of each block last put there.
\<close>

type_synonym client = "kernel \<times> (u32 \<rightharpoonup> u8 list)"

inductive client_step :: "u32 set \<Rightarrow> client \<Rightarrow> client \<Rightarrow> bool" for A where
  client_alloc: "n \<noteq> 0 \<Longrightarrow> malloc n s = ret p s' \<Longrightarrow>
    client_step A (s, B) (s', B(p \<mapsto> bytes_at (mem s') p (unat n)))"
| client_free: "B p = Some bs \<Longrightarrow> free p s = ret () s' \<Longrightarrow> client_step A (s, B) (s', B(p := None))"
| client_write: "B p = Some bs \<Longrightarrow> i < length bs \<Longrightarrow>
    client_step A (s, B)
      (s\<lparr>mem := store8 (mem s) (p + word_of_nat i) v\<rparr>, B(p \<mapsto> bs[i := v]))"
| client_elsewhere: "a \<notin> A \<Longrightarrow> client_step A (s, B) (s\<lparr>mem := store8 (mem s) a v\<rparr>, B)"

inductive_cases client_stepE: "client_step A (s, B) c"

definition kept :: "memory \<Rightarrow> (u32 \<rightharpoonup> u32) \<Rightarrow> (u32 \<rightharpoonup> u8 list) \<Rightarrow> bool" where
  "kept m L B \<longleftrightarrow> (\<forall>p bs. B p = Some bs \<longrightarrow> (\<exists>k. L p = Some k \<and> length bs \<le> unat k \<and>
     bytes_at m p (length bs) = bs))"

definition owned :: "u32 set \<Rightarrow> client \<Rightarrow> bool" where
  "owned A = (\<lambda>(s, B). \<exists>L. heap_holds s A L \<and> kept (mem s) L B)"

lemma keptD:
  "kept m L B \<Longrightarrow> B p = Some bs \<Longrightarrow> \<exists>k. L p = Some k \<and> length bs \<le> unat k \<and> bytes_at m p (length bs) = bs"
  by (simp add: kept_def)

lemma ownedE:
  assumes "owned A (s, B)"
  obtains L where "heap_holds s A L" "kept (mem s) L B"
  using assms by (auto simp: owned_def)

text \<open>The bytes of a block survive whatever leaves the live blocks alone.\<close>

lemma owned_bytes:
  fixes k :: u32
  assumes "length bs \<le> unat k" and "bytes_at m p (length bs) = bs"
    and "same_on (region p (unat k)) m m'"
  shows "bytes_at m' p (length bs) = bs"
proof -
  have "same_on (region p (length bs)) m m'"
    using assms(3) by (rule same_on_mono) (rule region_mono [OF assms(1)])
  then show ?thesis using assms(1,2) unat_lt32 [of k] by (simp add: bytes_at_cong)
qed

lemma owned_alloc:
  assumes "owned A (s, B)" and n: "n \<noteq> 0" and run: "malloc n s = ret p s'"
  shows "owned A (s', B(p \<mapsto> bytes_at (mem s') p (unat n)))"
proof -
  obtain L where h: "heap_holds s A L" and kp: "kept (mem s) L B"
    using assms(1) by (rule ownedE)
  note B = keptD [OF kp]
  obtain k where k: "n \<le> k" "heap_holds s' A (L(p \<mapsto> k))" "L p = None"
    using kheap.alloc_room [OF h n run] by metis
  have "\<exists>j. (L(p \<mapsto> k)) q = Some j \<and> length bs \<le> unat j \<and> bytes_at (mem s') q (length bs) = bs"
    if "(B(p \<mapsto> bytes_at (mem s') p (unat n))) q = Some bs" for q bs
  proof (cases "q = p")
    case True
    with that k(1) show ?thesis by (auto simp: word_le_nat_alt)
  next
    case False
    with that obtain j where j: "L q = Some j" "length bs \<le> unat j" "bytes_at (mem s) q (length bs) = bs"
      using B [of q bs] by auto
    have "bytes_at (mem s') q (length bs) = bs"
      using j(2,3) kheap.alloc_keeps_block [OF h n run j(1)] by (rule owned_bytes)
    with j False show ?thesis by simp
  qed
  with k(2) show ?thesis unfolding owned_def kept_def by blast
qed

lemma owned_free:
  assumes "owned A (s, B)" and p: "B p = Some cs" and run: "free p s = ret () s'"
  shows "owned A (s', B(p := None))"
proof -
  obtain L where h: "heap_holds s A L" and kp: "kept (mem s) L B"
    using assms(1) by (rule ownedE)
  note B = keptD [OF kp]
  obtain k where Lp: "L p = Some k" using B [OF p] by blast
  obtain m where m: "s' = s\<lparr>mem := m\<rparr>" "heap_holds s' A (L(p := None))"
    and fr: "same_on (- A \<union> blocks L) (mem s) m"
    using kheap.dealloc_block [OF h Lp] run by auto
  have "\<exists>j. (L(p := None)) q = Some j \<and> length bs \<le> unat j \<and> bytes_at (mem s') q (length bs) = bs"
    if "(B(p := None)) q = Some bs" for q bs
  proof -
    have q: "q \<noteq> p" "B q = Some bs" using that by (auto split: if_splits)
    then obtain j where j: "L q = Some j" "length bs \<le> unat j" "bytes_at (mem s) q (length bs) = bs"
      using B [of q bs] by auto
    have "same_on (region q (unat j)) (mem s) m"
      using fr by (rule same_on_mono) (use block_subset [of L q j] j(1) in blast)
    then have "bytes_at m q (length bs) = bs" by (rule owned_bytes [OF j(2,3)])
    with j q m(1) show ?thesis by simp
  qed
  with m(2) show ?thesis unfolding owned_def kept_def by blast
qed

lemma owned_write:
  assumes "owned A (s, B)" and p: "B p = Some cs" and i: "i < length cs"
  shows "owned A (s\<lparr>mem := store8 (mem s) (p + word_of_nat i) v\<rparr>, B(p \<mapsto> cs[i := v]))"
proof -
  obtain L where h: "heap_holds s A L" and kp: "kept (mem s) L B"
    using assms(1) by (rule ownedE)
  note B = keptD [OF kp]
  obtain k where k: "L p = Some k" "length cs \<le> unat k" "bytes_at (mem s) p (length cs) = cs"
    using B [OF p] by blast
  let ?m = "store8 (mem s) (p + word_of_nat i) v"
  have len: "length cs \<le> 2 ^ 32" using k(2) unat_lt32 [of k] by simp
  have ii: "unat (word_of_nat i :: u32) = i" using i len by (intro unat_of_nat_eq) simp
  have at: "p + word_of_nat i \<in> region p (unat k)" using i k(2) by (intro region_offset) (simp add: ii)
  have fr: "same_on (- region p (unat k)) (mem s) ?m" using at by (intro same_on_store8) simp
  have h': "heap_holds (s\<lparr>mem := ?m\<rparr>) A L" using kheap.write_block [OF h k(1)] fr by simp
  have own: "bytes_at ?m p (length cs) = cs[i := v]"
  proof (rule nth_equalityI)
    fix j assume j: "j < length (bytes_at ?m p (length cs))"
    then have "word_of_nat j = (word_of_nat i :: u32) \<longleftrightarrow> j = i"
      using i len by (intro word_of_nat_inj32_iff) simp_all
    moreover have "mem s (p + word_of_nat j) = cs ! j"
      using k(3) j by (metis length_bytes_at nth_bytes_at)
    ultimately show "bytes_at ?m p (length cs) ! j = cs[i := v] ! j"
      using j i by (auto simp: store8_def nth_list_update)
  qed simp
  have "\<exists>j. L q = Some j \<and> length bs \<le> unat j \<and> bytes_at ?m q (length bs) = bs"
    if "(B(p \<mapsto> cs[i := v])) q = Some bs" for q bs
  proof (cases "q = p")
    case True
    with that own k show ?thesis by auto
  next
    case False
    with that obtain j where j: "L q = Some j" "length bs \<le> unat j" "bytes_at (mem s) q (length bs) = bs"
      using B [of q bs] by auto
    have "same_on (region q (unat j)) (mem s) ?m"
      using fr by (rule same_on_mono) (use kheap.blocks_disjoint [OF h k(1) j(1)] False in auto)
    then have "bytes_at ?m q (length bs) = bs" by (rule owned_bytes [OF j(2,3)])
    with j show ?thesis by blast
  qed
  then have "kept ?m L (B(p \<mapsto> cs[i := v]))" unfolding kept_def by blast
  with h' show ?thesis unfolding owned_def by auto
qed

lemma owned_elsewhere:
  assumes "owned A (s, B)" and a: "a \<notin> A"
  shows "owned A (s\<lparr>mem := store8 (mem s) a v\<rparr>, B)"
proof -
  obtain L where h: "heap_holds s A L" and kp: "kept (mem s) L B"
    using assms(1) by (rule ownedE)
  note B = keptD [OF kp]
  have fr: "same_on A (mem s) (store8 (mem s) a v)" using a by (rule same_on_store8)
  have "bytes_at (store8 (mem s) a v) q (length bs) = bs"
    if q: "L q = Some j" "length bs \<le> unat j" "bytes_at (mem s) q (length bs) = bs" for q bs j
  proof (rule owned_bytes [OF q(2,3)])
    show "same_on (region q (unat j)) (mem s) (store8 (mem s) a v)"
      using fr by (rule same_on_mono) (use kheap.block_range [OF h q(1)] in blast)
  qed
  then have "kept (store8 (mem s) a v) L B" using kp unfolding kept_def by metis
  moreover have "heap_holds (s\<lparr>mem := store8 (mem s) a v\<rparr>) A L"
    using kheap.write_outside [OF h] fr by simp
  ultimately show ?thesis unfolding owned_def by auto
qed

lemma client_step_owned: "client_step A c c' \<Longrightarrow> owned A c \<Longrightarrow> owned A c'"
  by (induction rule: client_step.induct)
    (simp_all add: owned_alloc owned_free owned_write owned_elsewhere)

lemma client_run_owned: "(client_step A)\<^sup>*\<^sup>* c c' \<Longrightarrow> owned A c \<Longrightarrow> owned A c'"
  by (induction rule: rtranclp_induct) (auto intro: client_step_owned)

text \<open>What the invariant gives a client about two of its blocks.\<close>

lemma owned_blocks:
  assumes "owned A (s, B)" and "B p = Some bs"
  shows "bytes_at (mem s) p (length bs) = bs" and "region p (length bs) \<subseteq> A"
    and "\<exists>s'. free p s = ret () s'"
    and "B q = Some cs \<Longrightarrow> q \<noteq> p \<Longrightarrow> region p (length bs) \<inter> region q (length cs) = {}"
proof -
  obtain L where h: "heap_holds s A L" and kp: "kept (mem s) L B"
    using assms(1) by (rule ownedE)
  note B = keptD [OF kp]
  obtain k where k: "L p = Some k" "length bs \<le> unat k" "bytes_at (mem s) p (length bs) = bs"
    using B [OF assms(2)] by blast
  show "bytes_at (mem s) p (length bs) = bs" by (rule k(3))
  have sub: "region p (length bs) \<subseteq> region p (unat k)" using k(2) by (rule region_mono)
  with kheap.block_range [OF h k(1)] show "region p (length bs) \<subseteq> A" by blast
  show "\<exists>s'. free p s = ret () s'" using kheap.dealloc_block [OF h k(1)] by blast
  show "region p (length bs) \<inter> region q (length cs) = {}" if q: "B q = Some cs" "q \<noteq> p"
  proof -
    obtain j where j: "L q = Some j" "length cs \<le> unat j" using B [OF q(1)] by blast
    have "region q (length cs) \<subseteq> region q (unat j)" using j(2) by (rule region_mono)
    with sub kheap.blocks_disjoint [OF h k(1) j(1)] q(2) show ?thesis by auto
  qed
qed

section \<open>Coalescing and conservation\<close>

text \<open>No two neighbours in the list are both free: what merging on every release keeps.\<close>

fun coalesced :: "chunk list \<Rightarrow> bool" where
  "coalesced (c # d # cs) = ((c_used c \<or> c_used d) \<and> coalesced (d # cs))"
| "coalesced _ = True"

lemma coalesced_append:
  "coalesced (xs @ c # ys) \<longleftrightarrow>
     coalesced xs \<and> coalesced (c # ys) \<and> (xs = [] \<or> c_used (last xs) \<or> c_used c)"
  by (induction xs rule: coalesced.induct) auto

lemma coalesced_carve:
  assumes "coalesced (xs @ c # ys)" and "\<not> c_used c"
  shows "coalesced (xs @ carve n c @ ys)"
  using assms by (cases ys) (auto simp: coalesced_append carve_def)

lemma coalesced_Cons: "coalesced (c # ys) \<Longrightarrow> coalesced ys"
  by (cases ys) auto

lemma coalesced_head:
  "coalesced (c # ys) \<longleftrightarrow> coalesced ys \<and> (ys = [] \<or> c_used c \<or> c_used (hd ys))"
  by (cases ys) auto

lemma coalesced_absorb:
  assumes "coalesced (b # ys)" and "c_used b" and "\<not> c_used c"
  shows "coalesced (absorb c ys)"
proof (cases ys)
  case Nil
  then show ?thesis by simp
next
  case (Cons d ds)
  with assms show ?thesis by (auto simp: coalesced_head)
qed

lemma coalesced_release:
  assumes "coalesced (xs @ c # ys)" and "c_used c"
  shows "coalesced (release xs c ys)"
proof (cases xs rule: rev_cases)
  case Nil
  with assms show ?thesis by (simp add: release_Nil coalesced_absorb)
next
  case (snoc zs b)
  have cy: "coalesced (c # ys)" and zb: "coalesced (zs @ [b])" using assms(1) snoc by (simp_all add: coalesced_append)
  obtain e es where e: "absorb (join b (c\<lparr>c_used := False\<rparr>)) ys = e # es"
    by (cases ys; cases "c_used (hd ys)") auto
  obtain f fs where f: "absorb (c\<lparr>c_used := False\<rparr>) ys = f # fs"
    by (cases ys; cases "c_used (hd ys)") auto
  show ?thesis
  proof (cases "c_used b")
    case True
    with zb coalesced_absorb [OF cy assms(2), of "c\<lparr>c_used := False\<rparr>"] f show ?thesis
      by (simp add: snoc release_snoc coalesced_append)
  next
    case False
    have "coalesced (e # es)"
      using coalesced_absorb [OF cy assms(2), of "join b (c\<lparr>c_used := False\<rparr>)"] False e by simp
    moreover have "zs = [] \<or> c_used (last zs)" using zb False by (auto simp: coalesced_append)
    moreover have "coalesced zs" using zb by (simp add: coalesced_append)
    ultimately show ?thesis using False e by (auto simp: snoc release_snoc coalesced_append)
  qed
qed

text \<open>Releasing what was just carved off gives the list back.\<close>

lemma release_carve:
  assumes "coalesced (xs @ c # ys)" and "\<not> c_used c"
  obtains a as where "carve n c = a # as" and "c_addr a = c_addr c" and "c_used a"
    and "release xs a (as @ ys) = xs @ c # ys"
proof -
  have last: "xs = [] \<or> c_used (last xs)" and hd: "ys = [] \<or> c_used (hd ys)"
    using assms by (auto simp: coalesced_append coalesced_head)
  show ?thesis
  proof (cases "n + 16 < c_len c")
    case True
    let ?a = "c\<lparr>c_len := n, c_used := True\<rparr>"
    let ?d = "\<lparr>c_addr = c_addr c + n + 16, c_len = c_len c - n - 16, c_used = False\<rparr>"
    have "join (?a\<lparr>c_used := False\<rparr>) ?d = c" using assms(2) by (simp add: join_def)
    then have "release xs ?a ([?d] @ ys) = xs @ c # ys" using last by (auto simp: release_def)
    then show ?thesis using that [of ?a "[?d]"] True by (simp add: carve_def)
  next
    case False
    have "c\<lparr>c_used := False\<rparr> = c" using assms(2) by simp
    then have "release xs (c\<lparr>c_used := True\<rparr>) ([] @ ys) = xs @ c # ys"
      using last hd by (cases ys) (auto simp: release_def)
    then show ?thesis using that [of "c\<lparr>c_used := True\<rparr>" "[]"] False by (simp add: carve_def)
  qed
qed

text \<open>The bytes the list accounts for, headers included.\<close>

definition heap_bytes :: "chunk list \<Rightarrow> nat" where
  "heap_bytes cs = sum_list (map (\<lambda>c. 16 + unat (c_len c)) cs)"

lemma heap_bytes_simps [simp]:
  "heap_bytes [] = 0" "heap_bytes (c # cs) = 16 + unat (c_len c) + heap_bytes cs"
  "heap_bytes (xs @ ys) = heap_bytes xs + heap_bytes ys"
  by (simp_all add: heap_bytes_def)

lemma heap_bytes_carve: "chunk_ok c \<Longrightarrow> fits n c \<Longrightarrow> heap_bytes (carve n c) = heap_bytes [c]"
  using carve_split(4,5) [of c n] by (auto simp: carve_def)

lemma join_len:
  assumes "c_end c \<le> unat (c_addr d)" and "chunk_ok d"
  shows "unat (c_len (join c d)) = unat (c_len c) + unat (c_len d) + 16"
proof -
  have lt: "unat (c_len c) + unat (c_len d) + 32 < 4294967296"
    using assms by (simp add: chunk_ok_def c_end_def)
  then have "unat (c_len d + 16) = unat (c_len d) + 16"
    using u32_add_numeral [of "c_len d" 16] by simp
  then show ?thesis using lt unat_add_exact [of "c_len c" "c_len d + 16"] by simp
qed

lemma heap_bytes_absorb: "spaced (c # ys) \<Longrightarrow> heap_bytes (absorb c ys) = heap_bytes (c # ys)"
  by (cases ys) (auto simp: join_len simp del: join_simps(3))

lemma heap_bytes_release:
  assumes "spaced (xs @ c # ys)"
  shows "heap_bytes (release xs c ys) = heap_bytes (xs @ c # ys)"
proof (cases xs rule: rev_cases)
  case Nil
  then show ?thesis
    using heap_bytes_absorb [of "c\<lparr>c_used := False\<rparr>" ys] spaced_free [of "[]" c ys False] assms
    by (simp add: release_Nil)
next
  case (snoc zs b)
  let ?c = "c\<lparr>c_used := False\<rparr>"
  have sp: "spaced ((zs @ [b]) @ ?c # ys)" using assms snoc spaced_free [of "zs @ [b]" c ys False] by simp
  then have "spaced (?c # ys)" "spaced (zs @ join b ?c # ys)"
    using spaced_join [of zs b ?c ys] by (simp_all add: spaced_append)
  moreover from this have "spaced (join b ?c # ys)" by (simp add: spaced_append)
  moreover have "c_end b \<le> unat (c_addr ?c)" "chunk_ok ?c" using sp by (simp_all add: spaced_append)
  ultimately show ?thesis
    using heap_bytes_absorb [of ?c ys] heap_bytes_absorb [of "join b ?c" ys] join_len [of b ?c]
    by (simp add: snoc release_snoc del: join_simps(3))
qed

section \<open>Both properties on the running allocator\<close>

lemma malloc_effect:
  assumes "heap_inv s cs" and "n \<noteq> 0" and "malloc n s = ret p s'"
  obtains xs c ys where "cs = xs @ c # ys" and "fits n c" and "p = c_addr c + 16"
    and "heap_inv s' (xs @ carve n c @ ys)"
proof -
  have "alloc_list n cs \<noteq> None"
  proof
    assume "alloc_list n cs = None"
    from malloc_refines [OF assms(1,2), unfolded this option.case] assms(3) show False by simp
  qed
  then obtain a cs' where r: "alloc_list n cs = Some (a, cs')" by auto
  then obtain xs c ys where cs: "cs = xs @ c # ys" "fits n c" "a = c_addr c" "cs' = xs @ carve n c @ ys"
    by (rule alloc_list_Some)
  have "p = a + 16 \<and> heap_inv s' cs'" using malloc_refines [OF assms(1,2)] r assms(3) by auto
  with cs show ?thesis using that by blast
qed

lemma malloc_room:
  assumes "heap_inv s cs" and "alloc_list n cs \<noteq> None" and "n \<noteq> 0"
  shows "malloc n s \<noteq> halt ''chunk''"
proof -
  obtain a cs' where r: "alloc_list n cs = Some (a, cs')" using assms(2) by auto
  obtain m' where "malloc n s = ret (a + 16) (s\<lparr>mem := m'\<rparr>)"
    using malloc_refines [OF assms(1,3)] unfolding r option.case prod.case by blast
  then show ?thesis by simp
qed

lemma free_effect:
  assumes "heap_inv s (xs @ c # ys)" and "c_used c" and "free (c_addr c + 16) s = ret () s'"
  shows "heap_inv s' (release xs c ys)"
  using free_refines [OF assms(1,2)] assms(3) by auto

lemma malloc_then_free:
  assumes inv: "heap_inv s cs" and co: "coalesced cs" and n: "n \<noteq> 0" and run: "malloc n s = ret p s'"
  shows "\<exists>s''. free p s' = ret () s'' \<and> heap_inv s'' cs"
proof -
  obtain xs c ys where cs: "cs = xs @ c # ys" and fit: "fits n c" and p: "p = c_addr c + 16"
    and inv': "heap_inv s' (xs @ carve n c @ ys)"
    using inv n run by (rule malloc_effect)
  have free: "\<not> c_used c" using fit by (simp add: fits_def)
  obtain a as where a: "carve n c = a # as" "c_addr a = c_addr c" "c_used a"
    "release xs a (as @ ys) = xs @ c # ys"
    using co free unfolding cs by (rule release_carve)
  from inv' have "heap_inv s' (xs @ a # (as @ ys))" by (simp add: a(1))
  from free_refines [OF this a(3)] show ?thesis using a p cs by auto
qed

text \<open>A gap between two regions of the memory map, and what the second release makes of it.\<close>

lemma gap_merged:
  assumes inv: "heap_inv s [c, d]" and used: "c_used c" "c_used d"
    and gap: "c_end c < unat (c_addr d)"
  defines "n \<equiv> c_len c + (c_len d + 16)"
  shows "\<exists>s\<^sub>1 s\<^sub>2 s\<^sub>3. free (c_addr d + 16) s = ret () s\<^sub>1 \<and> free (c_addr c + 16) s\<^sub>1 = ret () s\<^sub>2 \<and>
     malloc n s\<^sub>2 = ret (c_addr c + 16) s\<^sub>3 \<and>
     word_of_nat (c_end c) \<in> region (c_addr c + 16) (unat n) - (extent c \<union> extent d)"
proof -
  let ?c = "c\<lparr>c_used := False\<rparr>" and ?d = "d\<lparr>c_used := False\<rparr>"
  have ok: "chunk_ok c" "chunk_ok d" using inv by (simp_all add: heap_inv_def)
  obtain s\<^sub>1 where r1: "free (c_addr d + 16) s = ret () s\<^sub>1" and i1: "heap_inv s\<^sub>1 [c, ?d]"
    using free_refines [of s "[c]" d "[]"] inv used by (auto simp: release_def)
  obtain s\<^sub>2 where r2: "free (c_addr c + 16) s\<^sub>1 = ret () s\<^sub>2" and i2: "heap_inv s\<^sub>2 [join ?c ?d]"
    using free_refines [of s\<^sub>1 "[]" c "[?d]"] i1 used by (auto simp: release_def)
  have len: "unat n = unat (c_len c) + unat (c_len d) + 16"
    using join_len [of c d] gap ok by (simp add: n_def)
  then have n0: "n \<noteq> 0" by auto
  have "alloc_list n [join ?c ?d] = Some (c_addr c, carve n (join ?c ?d))"
    by (simp add: fits_def n_def)
  then obtain s\<^sub>3 where r3: "malloc n s\<^sub>2 = ret (c_addr c + 16) s\<^sub>3"
    using malloc_refines [OF i2 n0] by auto
  have e: "unat (word_of_nat (c_end c) :: u32) = c_end c"
    using ok by (intro unat_of_nat_eq) (simp add: chunk_ok_def)
  have "word_of_nat (c_end c) \<in> region (c_addr c + 16) (unat n)"
    using ok e gap len payload_unat [OF ok(1)]
    by (subst in_region_nat) (simp_all add: chunk_ok_def c_end_def)
  moreover have "word_of_nat (c_end c) \<notin> extent c \<union> extent d"
    using e gap by (simp add: extent_nat ok)
  ultimately show ?thesis using r1 r2 r3 by blast
qed

section \<open>Properties\<close>

text \<open>A heap of one free chunk, 256 bytes of payload at address 4112, for the instances below.\<close>

definition one_chunk :: "bool \<Rightarrow> chunk" where
  "one_chunk used = \<lparr>c_addr = 4096, c_len = 256, c_used = used\<rparr>"

definition example_heap :: "bool \<Rightarrow> kernel" where
  "example_heap used = (boot_state (set_allocated 4096 used (set_chunk_len 4096 256 (\<lambda>_. 0))))
     \<lparr>initialized := True, start_chunk := 4096\<rparr>"

lemma zero_header [simp]:
  "previous_chunk (\<lambda>_. 0) a = 0" "next_chunk (\<lambda>_. 0) a = 0" "chunk_len (\<lambda>_. 0) a = 0"
  "\<not> allocated (\<lambda>_. 0) a"
  by (simp_all add: header_defs load32_def)

lemma example_heap_inv: "heap_inv (example_heap used) [one_chunk used]"
  by (simp add: heap_inv_def example_heap_def one_chunk_def boot_state_def header_def chunk_ok_def c_end_def)

lemma example_heap_holds:
  "heap_holds (example_heap used) {x. 4096 \<le> unat x \<and> unat x < 4368} (if used then [4112 \<mapsto> 256] else Map.empty)"
  by (rule heap_holdsI [OF example_heap_inv, of 4368])
    (simp_all add: one_chunk_def c_end_def example_heap_def)

text \<open>C1. \<open>malloc\<close> is first fit. Over a well-formed chunk list it takes the first free chunk
  that is long enough, splits it exactly when a header and at least one byte remain, returns the
  payload address, keeps the list well formed and writes nothing but chunk headers and the chosen
  chunk; when no chunk is long enough it stops in the assertion on \<open>chunk\<close>.\<close>

theorem malloc_first_fit:
  assumes "heap_inv s cs" and "n \<noteq> 0"
  shows "case alloc_list n cs of
      None \<Rightarrow> malloc n s = halt ''chunk'' \<and> (\<forall>c \<in> set cs. c_used c \<or> c_len c < n)
    | Some (a, cs') \<Rightarrow>
        (\<exists>xs c ys. cs = xs @ c # ys \<and> \<not> c_used c \<and> n \<le> c_len c \<and> c_addr c = a \<and>
           (\<forall>x \<in> set xs. c_used x \<or> c_len x < n) \<and> cs' = xs @ carve n c @ ys) \<and>
        (\<exists>m'. malloc n s = ret (a + 16) (s\<lparr>mem := m'\<rparr>) \<and> heap_inv (s\<lparr>mem := m'\<rparr>) cs' \<and>
           (\<forall>S. S \<inter> headers cs = {} \<longrightarrow> (\<forall>c \<in> set cs. c_addr c = a \<longrightarrow> S \<inter> extent c = {}) \<longrightarrow>
              same_on S (mem s) m'))"
proof (cases "alloc_list n cs")
  case None
  then show ?thesis
    using malloc_refines [OF assms] alloc_list_None [of n cs] by (auto simp: fits_def)
next
  case (Some r)
  obtain a cs' where r: "r = (a, cs')" by fastforce
  obtain xs c ys where "cs = xs @ c # ys" "fits n c" "\<forall>x \<in> set xs. \<not> fits n x"
    "a = c_addr c" "cs' = xs @ carve n c @ ys"
    using alloc_list_Some [of n cs a cs'] Some r by metis
  then have "\<exists>xs c ys. cs = xs @ c # ys \<and> \<not> c_used c \<and> n \<le> c_len c \<and> c_addr c = a \<and>
      (\<forall>x \<in> set xs. c_used x \<or> c_len x < n) \<and> cs' = xs @ carve n c @ ys"
    unfolding fits_def by (metis not_le)
  then show ?thesis using malloc_refines [OF assms] by (simp only: Some r option.case prod.case)
qed

theorem malloc_first_fit_witness:
  "\<exists>m'. malloc 16 (example_heap False) = ret 4112 ((example_heap False)\<lparr>mem := m'\<rparr>) \<and>
     heap_inv ((example_heap False)\<lparr>mem := m'\<rparr>)
       [\<lparr>c_addr = 4096, c_len = 16, c_used = True\<rparr>, \<lparr>c_addr = 4128, c_len = 224, c_used = False\<rparr>]"
  using malloc_first_fit [OF example_heap_inv, of 16 False]
  by (auto simp: one_chunk_def fits_def carve_def)

text \<open>C2. \<open>free\<close> releases and merges. Given the payload address of a used chunk it marks the
  chunk free, merges it with the neighbours in the list that are free, keeps the list well formed
  and writes nothing but chunk headers.\<close>

theorem free_merges:
  assumes "heap_inv s (xs @ c # ys)" and "c_used c"
  shows "\<exists>m'. free (c_addr c + 16) s = ret () (s\<lparr>mem := m'\<rparr>) \<and>
     heap_inv (s\<lparr>mem := m'\<rparr>) (release xs c ys) \<and>
     (\<forall>S. S \<inter> headers (xs @ c # ys) = {} \<longrightarrow> same_on S (mem s) m')"
  using assms by (rule free_refines)

theorem free_merges_witness:
  "\<exists>m'. free 4112 (example_heap True) = ret () ((example_heap True)\<lparr>mem := m'\<rparr>) \<and>
     heap_inv ((example_heap True)\<lparr>mem := m'\<rparr>) [one_chunk False]"
  using free_merges [of "example_heap True" "[]" "one_chunk True" "[]"] example_heap_inv [of True]
  by (auto simp: one_chunk_def release_def)

text \<open>C3. Blocks are safe. From any well-formed heap, after any history of allocations, releases
  and writes of clients that stay inside their blocks (or outside the heap), every block that was
  handed out and not released still holds the bytes its owner wrote last, lies inside the heap,
  overlaps no other block, and can be released without an assertion failing.\<close>

theorem blocks_safe:
  assumes "heap_holds s A L" and "(client_step A)\<^sup>*\<^sup>* (s, Map.empty) (s', B)" and "B p = Some bs"
  shows "bytes_at (mem s') p (length bs) = bs \<and> region p (length bs) \<subseteq> A \<and>
     (\<forall>q cs. B q = Some cs \<longrightarrow> q \<noteq> p \<longrightarrow> region p (length bs) \<inter> region q (length cs) = {}) \<and>
     (\<exists>s''. free p s' = ret () s'')"
proof -
  have "owned A (s, Map.empty)" using assms(1) by (auto simp: owned_def kept_def)
  then have o: "owned A (s', B)" using assms(2) client_run_owned by blast
  note b = owned_blocks [OF o assms(3)]
  then show ?thesis by blast
qed

lemma client_run_example:
  "\<exists>s' B. (client_step A)\<^sup>*\<^sup>* (example_heap False, Map.empty) (s', B) \<and>
     (\<exists>bs. B 4112 = Some bs \<and> length bs = 16 \<and> bs ! 3 = 7)"
proof -
  obtain m' where "malloc 16 (example_heap False) = ret 4112 ((example_heap False)\<lparr>mem := m'\<rparr>)"
    using malloc_refines [OF example_heap_inv, of 16 False]
    by (auto simp: one_chunk_def fits_def carve_def)
  then have 1: "client_step A (example_heap False, Map.empty)
     ((example_heap False)\<lparr>mem := m'\<rparr>, [4112 \<mapsto> bytes_at m' 4112 16])"
    using client_alloc [of 16 "example_heap False" 4112 _ A Map.empty] by fastforce
  have 2: "client_step A ((example_heap False)\<lparr>mem := m'\<rparr>, [4112 \<mapsto> bytes_at m' 4112 16])
     ((example_heap False)\<lparr>mem := store8 m' (4112 + word_of_nat 3) 7\<rparr>,
      [4112 \<mapsto> (bytes_at m' 4112 16)[3 := 7]])"
    using client_write [of "[4112 \<mapsto> bytes_at m' 4112 16]" 4112 "bytes_at m' 4112 16" 3 A
        "(example_heap False)\<lparr>mem := m'\<rparr>" 7] by simp
  show ?thesis
    by (rule exI, rule exI, rule conjI, rule rtranclp.rtrancl_into_rtrancl,
        rule r_into_rtranclp, rule 1, rule 2) simp
qed

theorem blocks_safe_witness:
  "\<exists>s' bs. length bs = 16 \<and> bs ! 3 = 7 \<and> bytes_at (mem s') 4112 16 = bs \<and> mem s' 4115 = 7 \<and>
     (\<exists>s''. free 4112 s' = ret () s'')"
proof -
  obtain s' B bs where run: "(client_step {x. 4096 \<le> unat x \<and> unat x < 4368})\<^sup>*\<^sup>* (example_heap False, Map.empty) (s', B)"
    and B: "B 4112 = Some bs" and bs: "length bs = 16" "bs ! 3 = 7"
    using client_run_example by blast
  note safe = blocks_safe [OF example_heap_holds [of False] run B]
  then have "bytes_at (mem s') 4112 16 = bs" using bs by simp
  moreover from this have "mem s' 4115 = 7" using bs nth_bytes_at [of 3 16 "mem s'" 4112] by simp
  ultimately show ?thesis using safe bs by blast
qed

text \<open>C4. \<open>malloc_init\<close> builds the heap the memory map describes: one free chunk from the end of
  the kernel to the end of the free region that holds it, then one chunk for each later free region,
  in the order of the map. It stops in the assertion on \<open>start_chunk\<close> when no free region holds
  the kernel, and writes nothing but the headers of the chunks.\<close>

theorem malloc_init_builds_heap:
  assumes "mmap \<noteq> 0" and "mmap_at (mem s) mmap es" and "start_chunk s = 0"
    and "spaced (init_chunks kernel_end es)"
    and "mmap_foot (mem s) mmap (length es) \<inter> headers (init_chunks kernel_end es) = {}"
  shows "if init_chunks kernel_end es = [] then malloc_init kernel_end mmap s = halt ''start_chunk''
    else \<exists>s'. malloc_init kernel_end mmap s = ret () s' \<and> heap_inv s' (init_chunks kernel_end es) \<and>
      same_on (- headers (init_chunks kernel_end es)) (mem s) (mem s')"
  using malloc_init_establishes [OF assms] by (auto split: if_splits)

text \<open>A memory map at address 1280 with one region, of type free, from 65536, 65536 bytes long.\<close>

definition example_mmap :: memory where
  "example_mmap = store32 (store32 (store32 (store32 (store32 (\<lambda>_. 0) 1280 1) 1284 1296)
     1296 65536) 1304 65536) 1312 1"

lemma example_mmap_at: "mmap_at example_mmap 1280 [(65536, 65536, 1)]"
proof -
  have "mmap_len example_mmap 1280 = 1" "mmap_entry example_mmap 1280 0 = 1296"
    "entry_base example_mmap 1296 = 65536" "entry_len example_mmap 1296 = 65536"
    "entry_type example_mmap 1296 = 1"
    by code_simp+
  then show ?thesis by (simp add: mmap_at_def Let_def)
qed

theorem malloc_init_builds_heap_witness:
  "\<exists>s'. malloc_init 98304 1280 (boot_state example_mmap) = ret () s' \<and>
     heap_inv s' [\<lparr>c_addr = 98304, c_len = 32752, c_used = False\<rparr>]"
proof -
  have cs: "init_chunks 98304 [(65536, 65536, 1)] = [\<lparr>c_addr = 98304, c_len = 32752, c_used = False\<rparr>]"
    by (simp add: holds_kernel_def kernel_chunk_def)
  have e: "mmap_entry example_mmap 1280 0 = 1296" by code_simp
  have foot: "mmap_foot example_mmap 1280 1 \<inter> headers [\<lparr>c_addr = 98304, c_len = 32752, c_used = False\<rparr>] = {}"
    using region_disjoint [of 1280 8 98304 16] region_disjoint [of 1296 24 98304 16]
    by (auto simp: mmap_foot_def headers_def e)
  show ?thesis
    using malloc_init_builds_heap [of 1280 "boot_state example_mmap" "[(65536, 65536, 1)]" 98304]
      example_mmap_at foot
    unfolding cs by (auto simp: boot_state_def chunk_ok_def c_end_def)
qed

text \<open>C5. \<open>realloc\<close> keeps the contents. A block that is long enough is returned as it is;
  otherwise the routine stops in the assertion of \<open>malloc\<close>, or returns a block of at least the
  length asked for that begins with all the bytes of the old one, with the old block released and
  every other block and all memory outside the heap as before.\<close>

theorem realloc_keeps_contents:
  assumes "heap_holds s A L" and "L p = Some k" and "n \<noteq> 0"
  shows "if n \<le> k then realloc p n s = ret p s
    else realloc p n s = halt ''chunk'' \<or>
      (\<exists>q s' j. realloc p n s = ret q s' \<and> n \<le> j \<and> L q = None \<and>
         heap_holds s' A ((L(p := None))(q \<mapsto> j)) \<and>
         bytes_at (mem s') q (unat k) = bytes_at (mem s) p (unat k) \<and>
         same_on (- A \<union> blocks (L(p := None))) (mem s) (mem s'))"
proof -
  have init: "initialized s" and p0: "p \<noteq> 0" and len: "chunk_len (mem s) (p - 16) = k"
    using assms kheap.block_nonnull [OF assms(1,2)] heap_chunk_len [OF assms(1,2)]
    by (auto simp: heap_holds_def heap_inv_def)
  show ?thesis
  proof (cases "n \<le> k")
    case True
    then show ?thesis using init p0 len assms(3) by (simp add: realloc_def Let_def)
  next
    case False
    then have "k < n" by simp
    show ?thesis
    proof (cases rule: malloc_cases [OF assms(1,3)])
      case 1
      then show ?thesis using init p0 len assms(3) False by (simp add: realloc_def Let_def)
    next
      case (2 q j m)
      then show ?thesis using realloc_grows [OF assms(1,2) \<open>k < n\<close>] False by (simp only: if_False) blast
    qed
  qed
qed

theorem realloc_keeps_contents_witness:
  "realloc 4112 100 (example_heap True) = ret 4112 (example_heap True)"
  using realloc_keeps_contents [OF example_heap_holds [of True], of 4112 256 100] by simp

text \<open>C6. Releasing a block that was just allocated gives back exactly the chunk list from before,
  when the list has no two free neighbours: the split is undone by the merge.\<close>

theorem malloc_free_roundtrip:
  assumes "heap_inv s cs" and "coalesced cs" and "n \<noteq> 0" and "malloc n s = ret p s'"
  shows "\<exists>s''. free p s' = ret () s'' \<and> heap_inv s'' cs"
  using assms by (rule malloc_then_free)

theorem malloc_free_roundtrip_witness:
  "\<exists>s' s''. malloc 16 (example_heap False) = ret 4112 s' \<and> free 4112 s' = ret () s'' \<and>
     heap_inv s'' [one_chunk False]"
proof -
  obtain m' where m: "malloc 16 (example_heap False) = ret 4112 ((example_heap False)\<lparr>mem := m'\<rparr>)"
    using malloc_refines [OF example_heap_inv, of 16 False]
    by (auto simp: one_chunk_def fits_def carve_def)
  show ?thesis using malloc_free_roundtrip [OF example_heap_inv _ _ m] m by auto
qed

text \<open>C7. Nothing is lost. From a chunk list without free neighbours, a successful \<open>malloc\<close>
  and a \<open>free\<close> of a used chunk each lead to a chunk list without free neighbours that accounts
  for the same number of bytes.\<close>

theorem heap_bytes_conserved:
  assumes "heap_inv s cs" and "coalesced cs"
    and "(n \<noteq> 0 \<and> malloc n s = ret p s') \<or>
         (\<exists>c \<in> set cs. c_used c \<and> free (c_addr c + 16) s = ret () s')"
  shows "\<exists>cs'. heap_inv s' cs' \<and> coalesced cs' \<and> heap_bytes cs' = heap_bytes cs"
proof -
  have sp: "spaced cs" using assms(1) by (simp add: heap_inv_def)
  consider "n \<noteq> 0" "malloc n s = ret p s'"
    | c where "c \<in> set cs" "c_used c" "free (c_addr c + 16) s = ret () s'"
    using assms(3) by blast
  then show ?thesis
  proof cases
    case 1
    obtain xs c ys where cs: "cs = xs @ c # ys" "fits n c" and inv: "heap_inv s' (xs @ carve n c @ ys)"
      using assms(1) 1 by (rule malloc_effect)
    then have "heap_bytes (carve n c) = heap_bytes [c]"
      using sp by (intro heap_bytes_carve) (simp_all add: spaced_append)
    then have "heap_bytes (xs @ carve n c @ ys) = heap_bytes cs" using cs by simp
    moreover have "coalesced (xs @ carve n c @ ys)"
      using assms(2) cs by (intro coalesced_carve) (simp_all add: fits_def)
    ultimately show ?thesis using inv by blast
  next
    case 2
    obtain xs ys where cs: "cs = xs @ c # ys" using 2(1) by (meson split_list)
    have "heap_inv s' (release xs c ys)" using assms(1) 2(2,3) unfolding cs by (rule free_effect)
    moreover have "coalesced (release xs c ys)" using assms(2) 2(2) unfolding cs by (rule coalesced_release)
    moreover have "heap_bytes (release xs c ys) = heap_bytes cs" using sp unfolding cs by (rule heap_bytes_release)
    ultimately show ?thesis by blast
  qed
qed

theorem heap_bytes_conserved_witness:
  "\<exists>s' cs'. free 4112 (example_heap True) = ret () s' \<and> heap_inv s' cs' \<and> coalesced cs' \<and> heap_bytes cs' = 272"
proof -
  obtain m' where m: "free 4112 (example_heap True) = ret () ((example_heap True)\<lparr>mem := m'\<rparr>)"
    using free_refines [of "example_heap True" "[]" "one_chunk True" "[]"] example_heap_inv [of True]
    by (auto simp: one_chunk_def)
  show ?thesis
    using heap_bytes_conserved [OF example_heap_inv [of True], of 0 0] m
    by (auto simp: one_chunk_def)
qed

text \<open>C8. The merge does not ask whether two chunks adjoin. When the memory map leaves a gap between
  two free regions, releasing the last two used chunks merges them over the gap, and the next
  allocation hands out a block that covers an address of the gap, which belongs to no region.\<close>

theorem free_merges_over_gap:
  assumes "heap_inv s [c, d]" and "c_used c" and "c_used d" and "c_end c < unat (c_addr d)"
  shows "\<exists>s\<^sub>1 s\<^sub>2 s\<^sub>3. free (c_addr d + 16) s = ret () s\<^sub>1 \<and> free (c_addr c + 16) s\<^sub>1 = ret () s\<^sub>2 \<and>
     malloc (c_len c + (c_len d + 16)) s\<^sub>2 = ret (c_addr c + 16) s\<^sub>3 \<and>
     word_of_nat (c_end c) \<in> region (c_addr c + 16) (unat (c_len c + (c_len d + 16)))
       - (extent c \<union> extent d)"
  using assms by (rule gap_merged)

definition example_gap :: kernel where
  "example_gap = (boot_state
     (set_allocated 8192 True (set_chunk_len 8192 16 (set_previous_chunk 8192 4096
     (set_allocated 4096 True (set_chunk_len 4096 16 (set_next_chunk 4096 8192 (\<lambda>_. 0))))))))
     \<lparr>initialized := True, start_chunk := 4096\<rparr>"

theorem free_merges_over_gap_witness:
  "\<exists>s\<^sub>1 s\<^sub>2 s\<^sub>3. free 8208 example_gap = ret () s\<^sub>1 \<and> free 4112 s\<^sub>1 = ret () s\<^sub>2 \<and>
     malloc 48 s\<^sub>2 = ret 4112 s\<^sub>3 \<and> 4128 \<in> region 4112 48"
proof -
  have "apart 8192 4096" by (rule apart_less) simp_all
  then have "heap_inv example_gap
      [\<lparr>c_addr = 4096, c_len = 16, c_used = True\<rparr>, \<lparr>c_addr = 8192, c_len = 16, c_used = True\<rparr>]"
    using apart_sym [OF \<open>apart 8192 4096\<close>]
    by (simp add: heap_inv_def example_gap_def boot_state_def header_def chunk_ok_def c_end_def header_other)
  from free_merges_over_gap [OF this] show ?thesis by (auto simp: c_end_def)
qed

end
