(* ===== verification/KList.thy ===== *)
theory KList
  imports Heap_Safety
begin

text \<open>
  The doubly linked list of \<open>list.c\<close>. A list is a heap block with the head pointer and the
  length; a node is a heap block with the previous node, the next node and the value. The model
  follows the code's loads and stores, including those through a null pointer, which go to the
  first bytes of memory. \<open>list_rep\<close> describes a list in memory by its nodes and values; each
  operation is shown to be the corresponding operation on that sequence.
\<close>

section \<open>Fields\<close>

definition node_previous :: "memory \<Rightarrow> u32 \<Rightarrow> u32" where
  "node_previous m node = load32 m node"

definition node_next :: "memory \<Rightarrow> u32 \<Rightarrow> u32" where
  "node_next m node = load32 m (node + 4)"

definition node_value :: "memory \<Rightarrow> u32 \<Rightarrow> u32" where
  "node_value m node = load32 m (node + 8)"

definition list_head :: "memory \<Rightarrow> u32 \<Rightarrow> u32" where
  "list_head m lst = load32 m lst"

definition list_length :: "memory \<Rightarrow> u32 \<Rightarrow> u32" where
  "list_length m lst = load32 m (lst + 4)"

definition set_node_previous :: "u32 \<Rightarrow> u32 \<Rightarrow> memory \<Rightarrow> memory" where
  "set_node_previous node v m = store32 m node v"

definition set_node_next :: "u32 \<Rightarrow> u32 \<Rightarrow> memory \<Rightarrow> memory" where
  "set_node_next node v m = store32 m (node + 4) v"

definition set_node_value :: "u32 \<Rightarrow> u32 \<Rightarrow> memory \<Rightarrow> memory" where
  "set_node_value node v m = store32 m (node + 8) v"

definition set_list_head :: "u32 \<Rightarrow> u32 \<Rightarrow> memory \<Rightarrow> memory" where
  "set_list_head lst v m = store32 m lst v"

definition set_list_length :: "u32 \<Rightarrow> u32 \<Rightarrow> memory \<Rightarrow> memory" where
  "set_list_length lst v m = store32 m (lst + 4) v"

section \<open>The operations\<close>

text \<open>\<open>list_create\<close> does not write the fields of the list it allocates.\<close>

definition list_create :: "kernel \<Rightarrow> u32 krun" where
  "list_create s = andthen (malloc 8 s) (\<lambda>lst s. if lst = 0 then halt ''list'' else ret lst s)"

partial_function (option) list_destroy_nodes :: "u32 \<Rightarrow> kernel \<Rightarrow> unit krun" where
  "list_destroy_nodes node s =
    (if node = 0 then ret () s
     else let nxt = node_next (mem s) node
          in andthen (free node s) (\<lambda>_ s. list_destroy_nodes nxt s))"

definition list_destroy :: "u32 \<Rightarrow> kernel \<Rightarrow> unit krun" where
  "list_destroy lst s =
    (if lst = 0 then halt ''list''
     else andthen (list_destroy_nodes (list_head (mem s) lst) s) (\<lambda>_ s. free lst s))"

partial_function (option) list_find_node :: "memory \<Rightarrow> u32 \<Rightarrow> u32 \<Rightarrow> u32 option" where
  "list_find_node m val node =
    (if node = 0 then Some 0
     else if node_value m node = val then Some node
     else list_find_node m val (node_next m node))"

definition list_find :: "u32 \<Rightarrow> u32 \<Rightarrow> kernel \<Rightarrow> u32 krun" where
  "list_find lst val s =
    (if lst = 0 then halt ''list''
     else if val = 0 then halt ''value''
     else case list_find_node (mem s) val (list_head (mem s) lst) of
         None \<Rightarrow> None | Some node \<Rightarrow> ret node s)"

partial_function (option) list_last :: "memory \<Rightarrow> u32 \<Rightarrow> u32 option" where
  "list_last m node = (if node_next m node = 0 then Some node else list_last m (node_next m node))"

definition list_insert :: "u32 \<Rightarrow> u32 \<Rightarrow> kernel \<Rightarrow> unit krun" where
  "list_insert lst val s =
    (if lst = 0 then halt ''list''
     else if val = 0 then halt ''value''
     else andthen (malloc 12 s) (\<lambda>new s.
       if new = 0 then halt ''new''
       else
         let m = set_node_previous new 0 (mem s);
             m = set_node_next new 0 m;
             m = set_node_value new val m
         in
         if list_head m lst = 0 then
           let m = set_list_head lst new m;
               m = set_list_length lst (list_length m lst + 1) m
           in ret () (s\<lparr>mem := m\<rparr>)
         else case list_last m (list_head m lst) of
             None \<Rightarrow> None
           | Some node \<Rightarrow>
               let m = set_node_next node new m;
                   m = set_node_previous new node m;
                   m = set_list_length lst (list_length m lst + 1) m
               in ret () (s\<lparr>mem := m\<rparr>)))"

definition list_delete :: "u32 \<Rightarrow> u32 \<Rightarrow> kernel \<Rightarrow> unit krun" where
  "list_delete lst val s =
    (if lst = 0 then halt ''list''
     else if val = 0 then halt ''value''
     else andthen (list_find lst val s) (\<lambda>node s.
       if node = 0 then halt ''node''
       else
         let prev = node_previous (mem s) node;
             nxt = node_next (mem s) node;
             m = set_node_next prev nxt (mem s);
             m = set_node_previous nxt prev m;
             m = (if list_head m lst = node then set_list_head lst nxt m else m);
             m = set_list_length lst (list_length m lst - 1) m
         in free node (s\<lparr>mem := m\<rparr>)))"

section \<open>A list in memory\<close>

text \<open>Nodes are given by address and value; \<open>chain\<close> is the doubly linked run between two addresses.\<close>

type_synonym node = "u32 \<times> u32"

definition first_node :: "node list \<Rightarrow> u32 \<Rightarrow> u32" where
  "first_node ns n = (case ns of [] \<Rightarrow> n | (a, _) # _ \<Rightarrow> a)"

definition last_node :: "u32 \<Rightarrow> node list \<Rightarrow> u32" where
  "last_node p ns = (if ns = [] then p else fst (last ns))"

fun chain :: "memory \<Rightarrow> u32 \<Rightarrow> node list \<Rightarrow> u32 \<Rightarrow> bool" where
  "chain m p [] n = True"
| "chain m p ((a, v) # ns) n =
    (node_previous m a = p \<and> node_next m a = first_node ns n \<and> node_value m a = v \<and> chain m a ns n)"

lemma first_node_simps [simp]:
  "first_node [] n = n" "first_node ((a, v) # ns) n = a"
  "first_node (xs @ ys) n = first_node xs (first_node ys n)"
  by (auto simp: first_node_def split: list.splits)

lemma last_node_simps [simp]:
  "last_node p [] = p" "last_node p ((a, v) # ns) = last_node a ns"
  "last_node p (xs @ ys) = last_node (last_node p xs) ys"
  by (auto simp: last_node_def)

lemma chain_append [simp]:
  "chain m p (xs @ ys) n \<longleftrightarrow> chain m p xs (first_node ys n) \<and> chain m (last_node p xs) ys n"
  by (induction xs arbitrary: p) auto

definition list_blocks :: "(u32 \<rightharpoonup> u32) \<Rightarrow> u32 \<Rightarrow> node list \<Rightarrow> bool" where
  "list_blocks L lst ns \<longleftrightarrow> (\<exists>k. L lst = Some k \<and> 8 \<le> k) \<and>
     (\<forall>a \<in> fst ` set ns. \<exists>k. L a = Some k \<and> 12 \<le> k) \<and> distinct (lst # map fst ns)"

definition list_rep :: "kernel \<Rightarrow> u32 set \<Rightarrow> (u32 \<rightharpoonup> u32) \<Rightarrow> u32 \<Rightarrow> node list \<Rightarrow> bool" where
  "list_rep s A L lst ns \<longleftrightarrow> heap_holds s A L \<and> list_blocks L lst ns \<and>
     list_head (mem s) lst = first_node ns 0 \<and> list_length (mem s) lst = word_of_nat (length ns) \<and>
     chain (mem s) 0 ns 0"

text \<open>The blocks of \<open>L\<close> that do not belong to the list.\<close>

definition other_blocks :: "(u32 \<rightharpoonup> u32) \<Rightarrow> u32 \<Rightarrow> node list \<Rightarrow> u32 set" where
  "other_blocks L lst ns = blocks (L |` (- insert lst (fst ` set ns)))"

lemma other_blocksI:
  "L q = Some k \<Longrightarrow> q \<noteq> lst \<Longrightarrow> q \<notin> fst ` set ns \<Longrightarrow> region q (unat k) \<subseteq> other_blocks L lst ns"
  unfolding other_blocks_def by (rule block_subset) (simp add: restrict_map_def)

section \<open>Stores into nodes and list headers\<close>

lemmas node_defs = node_previous_def node_next_def node_value_def set_node_previous_def
  set_node_next_def set_node_value_def list_head_def list_length_def set_list_head_def
  set_list_length_def

lemma node_same [simp]:
  "node_previous (set_node_previous a v m) a = v"
  "node_previous (set_node_next a v m) a = node_previous m a"
  "node_previous (set_node_value a v m) a = node_previous m a"
  "node_next (set_node_previous a v m) a = node_next m a"
  "node_next (set_node_next a v m) a = v"
  "node_next (set_node_value a v m) a = node_next m a"
  "node_value (set_node_previous a v m) a = node_value m a"
  "node_value (set_node_next a v m) a = node_value m a"
  "node_value (set_node_value a v m) a = v"
  "list_head (set_list_head a v m) a = v"
  "list_head (set_list_length a v m) a = list_head m a"
  "list_length (set_list_head a v m) a = list_length m a"
  "list_length (set_list_length a v m) a = v"
  by (simp_all add: node_defs frame_simps)

lemma node_region:
  "region a 4 \<subseteq> region a 12" "region (a + 4) 4 \<subseteq> region a 12" "region (a + 8) 4 \<subseteq> region a 12"
  "region a 4 \<subseteq> region a 8" "region (a + 4) 4 \<subseteq> region a 8"
  using region_shift_subset [of 4 4 12 a] region_shift_subset [of 8 4 12 a]
    region_shift_subset [of 4 4 8 a] region_mono [of 4 12 a] region_mono [of 4 8 a]
  by simp_all

lemma same_on_node:
  assumes "same_on S m m'"
  shows "S \<inter> region a 12 = {} \<Longrightarrow> same_on S m (set_node_previous a v m')"
    and "S \<inter> region a 12 = {} \<Longrightarrow> same_on S m (set_node_next a v m')"
    and "S \<inter> region a 12 = {} \<Longrightarrow> same_on S m (set_node_value a v m')"
    and "S \<inter> region a 8 = {} \<Longrightarrow> same_on S m (set_list_head a v m')"
    and "S \<inter> region a 8 = {} \<Longrightarrow> same_on S m (set_list_length a v m')"
    and "S \<inter> region a 8 = {} \<Longrightarrow> same_on S m (set_node_next a v m')"
    and "S \<inter> region a 8 = {} \<Longrightarrow> same_on S m (set_node_previous a v m')"
proof -
  have "S \<inter> region b 4 = {} \<Longrightarrow> same_on S m (store32 m' b v)" for b
    using same_on_trans [OF assms same_on_store32] by blast
  then show "S \<inter> region a 12 = {} \<Longrightarrow> same_on S m (set_node_previous a v m')"
    and "S \<inter> region a 12 = {} \<Longrightarrow> same_on S m (set_node_next a v m')"
    and "S \<inter> region a 12 = {} \<Longrightarrow> same_on S m (set_node_value a v m')"
    and "S \<inter> region a 8 = {} \<Longrightarrow> same_on S m (set_list_head a v m')"
    and "S \<inter> region a 8 = {} \<Longrightarrow> same_on S m (set_list_length a v m')"
    and "S \<inter> region a 8 = {} \<Longrightarrow> same_on S m (set_node_next a v m')"
    and "S \<inter> region a 8 = {} \<Longrightarrow> same_on S m (set_node_previous a v m')"
    unfolding node_defs using node_region [of a] by blast+
qed

lemma node_cong:
  assumes "same_on (region a 12) m m'"
  shows "node_previous m' a = node_previous m a" "node_next m' a = node_next m a"
    "node_value m' a = node_value m a"
  unfolding node_defs using node_region(1-3) [of a]
  by (auto intro!: load32_cong intro: same_on_mono [OF assms])

lemma list_header_cong:
  assumes "same_on (region a 8) m m'"
  shows "list_head m' a = list_head m a" "list_length m' a = list_length m a"
  unfolding node_defs using node_region(4,5) [of a]
  by (auto intro!: load32_cong intro: same_on_mono [OF assms])

lemma chain_cong:
  assumes "\<And>a. a \<in> fst ` set ns \<Longrightarrow> same_on (region a 12) m m'"
  shows "chain m' p ns n = chain m p ns n"
  using assms
proof (induction ns arbitrary: p)
  case Nil
  then show ?case by simp
next
  case (Cons x ns)
  obtain a v where x: "x = (a, v)" by fastforce
  have "same_on (region a 12) m m'" using Cons.prems x by simp
  then show ?case using Cons x node_cong [of a m m'] by simp
qed

section \<open>Where the parts of a list lie\<close>

lemma list_blocksE:
  assumes "list_blocks L lst ns"
  obtains k where "L lst = Some k" "8 \<le> unat k" "\<And>a. a \<in> fst ` set ns \<Longrightarrow> \<exists>k. L a = Some k \<and> 12 \<le> unat k"
    "lst \<notin> fst ` set ns" "distinct (map fst ns)"
proof -
  obtain k where k: "L lst = Some k" "8 \<le> k" using assms by (auto simp: list_blocks_def)
  have "\<exists>k. L a = Some k \<and> 12 \<le> unat k" if a: "a \<in> fst ` set ns" for a
  proof -
    from assms a obtain j where "L a = Some j" "12 \<le> j" unfolding list_blocks_def by blast
    then show ?thesis by (auto simp: word_le_nat_alt)
  qed
  moreover have "8 \<le> unat k" using k(2) by (simp add: word_le_nat_alt)
  ultimately show ?thesis using that k(1) assms by (auto simp: list_blocks_def)
qed

lemma list_apart:
  assumes h: "heap_holds s A L" and lb: "list_blocks L lst ns"
  shows "region lst 8 \<subseteq> blocks L" and "lst \<noteq> 0" and "region lst 8 \<subseteq> A"
    and "a \<in> fst ` set ns \<Longrightarrow> region a 12 \<subseteq> blocks L" and "a \<in> fst ` set ns \<Longrightarrow> a \<noteq> 0"
    and "a \<in> fst ` set ns \<Longrightarrow> region a 12 \<subseteq> A"
    and "a \<in> fst ` set ns \<Longrightarrow> region lst 8 \<inter> region a 12 = {}"
    and "a \<in> fst ` set ns \<Longrightarrow> b \<in> fst ` set ns \<Longrightarrow> a \<noteq> b \<Longrightarrow> region a 12 \<inter> region b 12 = {}"
proof -
  obtain k where k: "L lst = Some k" "8 \<le> unat k"
    and nodes: "\<And>a. a \<in> fst ` set ns \<Longrightarrow> \<exists>k. L a = Some k \<and> 12 \<le> unat k"
    and lst: "lst \<notin> fst ` set ns"
    using list_blocksE [OF lb] by metis
  note sub = region_mono [OF k(2), of lst]
  show "region lst 8 \<subseteq> blocks L" using sub block_subset [of L lst k] k(1) by blast
  show "lst \<noteq> 0" using h k(1) by (rule kheap.block_nonnull)
  show "region lst 8 \<subseteq> A" using sub kheap.block_range [OF h k(1)] by blast
  show "region a 12 \<subseteq> blocks L" if "a \<in> fst ` set ns"
    using nodes [OF that] block_subset [of L a] region_mono [of 12 _ a] by fastforce
  show "a \<noteq> 0" if "a \<in> fst ` set ns" using nodes [OF that] kheap.block_nonnull [OF h] by blast
  show "region a 12 \<subseteq> A" if "a \<in> fst ` set ns"
    using nodes [OF that] kheap.block_range [OF h, of a] region_mono [of 12 _ a] by fastforce
  show "region lst 8 \<inter> region a 12 = {}" if a: "a \<in> fst ` set ns"
  proof -
    obtain j where j: "L a = Some j" "12 \<le> unat j" using nodes [OF a] by blast
    have "lst \<noteq> a" using lst a by blast
    from kheap.blocks_disjoint [OF h k(1) j(1) this] show ?thesis
      using sub region_mono [OF j(2), of a] by blast
  qed
  show "region a 12 \<inter> region b 12 = {}" if ab: "a \<in> fst ` set ns" "b \<in> fst ` set ns" "a \<noteq> b"
  proof -
    obtain i j where j: "L a = Some i" "12 \<le> unat i" "L b = Some j" "12 \<le> unat j"
      using nodes ab by metis
    from kheap.blocks_disjoint [OF h j(1,3) ab(3)] show ?thesis
      using region_mono [OF j(2), of a] region_mono [OF j(4), of b] by blast
  qed
qed

lemma other_blocks_apart:
  assumes h: "heap_holds s A L" and lb: "list_blocks L lst ns"
  shows "other_blocks L lst ns \<inter> region lst 8 = {}" and "other_blocks L lst ns \<subseteq> blocks L"
    and "a \<in> fst ` set ns \<Longrightarrow> other_blocks L lst ns \<inter> region a 12 = {}"
proof -
  obtain k where k: "L lst = Some k" "8 \<le> unat k"
    and nodes: "\<And>a. a \<in> fst ` set ns \<Longrightarrow> \<exists>k. L a = Some k \<and> 12 \<le> unat k"
    using list_blocksE [OF lb] by metis
  have ob: "\<exists>q j. L q = Some j \<and> q \<noteq> lst \<and> q \<notin> fst ` set ns \<and> x \<in> region q (unat j)"
    if "x \<in> other_blocks L lst ns" for x
  proof -
    obtain q j where "(L |` (- insert lst (fst ` set ns))) q = Some j" "x \<in> region q (unat j)"
      using \<open>x \<in> other_blocks L lst ns\<close> unfolding other_blocks_def in_blocks by blast
    then show ?thesis by (auto simp: restrict_map_def split: if_splits)
  qed
  have away: "x \<notin> region a (unat i)" if "x \<in> other_blocks L lst ns" "L a = Some i" "a = lst \<or> a \<in> fst ` set ns" for x a i
    using ob [OF that(1)] kheap.blocks_disjoint [OF h that(2)] that(3) by blast
  show "other_blocks L lst ns \<inter> region lst 8 = {}"
    using away [of _ lst k] k region_mono [OF k(2), of lst] by blast
  show "other_blocks L lst ns \<subseteq> blocks L"
    unfolding other_blocks_def by (rule blocks_mono) (simp add: map_le_def restrict_map_def dom_def)
  show "other_blocks L lst ns \<inter> region a 12 = {}" if a: "a \<in> fst ` set ns"
  proof -
    obtain j where j: "L a = Some j" "12 \<le> unat j" using nodes [OF a] by blast
    show ?thesis using away [of _ a j] j a region_mono [OF j(2), of a] by blast
  qed
qed

section \<open>Finding\<close>

lemma list_find_node_chain:
  assumes "chain m p ns 0" and "0 \<notin> fst ` set ns"
  shows "list_find_node m v (first_node ns 0) =
    Some (case find (\<lambda>(a, w). w = v) ns of None \<Rightarrow> 0 | Some (a, w) \<Rightarrow> a)"
  using assms
proof (induction ns arbitrary: p)
  case Nil
  then show ?case by (simp add: list_find_node.simps)
next
  case (Cons x ns)
  obtain a w where x: "x = (a, w)" by fastforce
  show ?case
  proof (cases "w = v")
    case True
    with Cons.prems x show ?thesis by (simp add: list_find_node.simps)
  next
    case False
    have "a \<noteq> 0" using Cons.prems x by auto
    with False Cons.prems x Cons.IH [of a] show ?thesis
      by (subst list_find_node.simps) simp
  qed
qed

lemma list_repD:
  assumes "list_rep s A L lst ns"
  shows "heap_holds s A L" and "list_blocks L lst ns" and "list_head (mem s) lst = first_node ns 0"
    and "list_length (mem s) lst = word_of_nat (length ns)" and "chain (mem s) 0 ns 0"
  using assms by (simp_all add: list_rep_def)

lemma list_find_rep:
  assumes "list_rep s A L lst ns" and "v \<noteq> 0"
  shows "list_find lst v s = ret (case find (\<lambda>(a, w). w = v) ns of None \<Rightarrow> 0 | Some (a, w) \<Rightarrow> a) s"
proof -
  note r = list_repD [OF assms(1)]
  have "0 \<notin> fst ` set ns" using list_apart(5) [OF r(1,2)] by blast
  from list_find_node_chain [OF r(5) this, of v] show ?thesis
    using list_apart(2) [OF r(1,2)] assms(2) by (simp add: list_find_def r(3))
qed

section \<open>Insertion\<close>

lemma list_last_chain:
  assumes "chain m p (ns @ [(b, w)]) 0" and "0 \<notin> fst ` set (ns @ [(b, w)])"
  shows "list_last m (first_node (ns @ [(b, w)]) 0) = Some b"
  using assms
proof (induction ns arbitrary: p)
  case Nil
  then show ?case by (simp add: list_last.simps)
next
  case (Cons x ns)
  obtain a v where x: "x = (a, v)" by fastforce
  have "first_node (ns @ [(b, w)]) 0 \<noteq> 0" using Cons.prems(2) by (cases ns) auto
  then show ?case using Cons.prems x Cons.IH [of a] by (subst list_last.simps) auto
qed

text \<open>Fields of one structure after a store into another.\<close>

lemma node_other:
  assumes "region b 12 \<inter> region a 12 = {}"
  shows "node_previous (set_node_previous a v m) b = node_previous m b"
    and "node_previous (set_node_next a v m) b = node_previous m b"
    and "node_previous (set_node_value a v m) b = node_previous m b"
    and "node_next (set_node_previous a v m) b = node_next m b"
    and "node_next (set_node_next a v m) b = node_next m b"
    and "node_next (set_node_value a v m) b = node_next m b"
    and "node_value (set_node_previous a v m) b = node_value m b"
    and "node_value (set_node_next a v m) b = node_value m b"
    and "node_value (set_node_value a v m) b = node_value m b"
  using assms by (intro node_cong same_on_node(1-3) same_on_refl; assumption)+

lemma list_node_other:
  assumes "region l 8 \<inter> region a 12 = {}"
  shows "list_head (set_node_previous a v m) l = list_head m l"
    and "list_head (set_node_next a v m) l = list_head m l"
    and "list_head (set_node_value a v m) l = list_head m l"
    and "list_length (set_node_previous a v m) l = list_length m l"
    and "list_length (set_node_next a v m) l = list_length m l"
    and "list_length (set_node_value a v m) l = list_length m l"
    and "node_previous (set_list_head l v m) a = node_previous m a"
    and "node_previous (set_list_length l v m) a = node_previous m a"
    and "node_next (set_list_head l v m) a = node_next m a"
    and "node_next (set_list_length l v m) a = node_next m a"
    and "node_value (set_list_head l v m) a = node_value m a"
    and "node_value (set_list_length l v m) a = node_value m a"
proof -
  have "region a 12 \<inter> region l 8 = {}" using assms by blast
  note w = same_on_node [OF same_on_refl]
  show "list_head (set_node_previous a v m) l = list_head m l"
    "list_head (set_node_next a v m) l = list_head m l"
    "list_head (set_node_value a v m) l = list_head m l"
    "list_length (set_node_previous a v m) l = list_length m l"
    "list_length (set_node_next a v m) l = list_length m l"
    "list_length (set_node_value a v m) l = list_length m l"
    by (intro list_header_cong w(1-3) assms)+
  show "node_previous (set_list_head l v m) a = node_previous m a"
    "node_previous (set_list_length l v m) a = node_previous m a"
    "node_next (set_list_head l v m) a = node_next m a"
    "node_next (set_list_length l v m) a = node_next m a"
    "node_value (set_list_head l v m) a = node_value m a"
    "node_value (set_list_length l v m) a = node_value m a"
    by (intro node_cong w(4,5) \<open>region a 12 \<inter> region l 8 = {}\<close>)+
qed

definition init_node :: "u32 \<Rightarrow> u32 \<Rightarrow> memory \<Rightarrow> memory" where
  "init_node new val m = set_node_value new val (set_node_next new 0 (set_node_previous new 0 m))"

text \<open>The memory part of an insertion, once the new node is allocated.\<close>

definition link_node :: "u32 \<Rightarrow> u32 \<Rightarrow> u32 \<Rightarrow> node list \<Rightarrow> memory \<Rightarrow> memory" where
  "link_node lst new val ns m =
    (let m = init_node new val m;
         m = (if ns = [] then set_list_head lst new m
              else set_node_previous new (last_node 0 ns) (set_node_next (last_node 0 ns) new m))
     in set_list_length lst (list_length m lst + 1) m)"

lemma last_node_in: "ns \<noteq> [] \<Longrightarrow> last_node p ns \<in> fst ` set ns"
  by (simp add: last_node_def)

lemma link_node_frame:
  assumes "S \<inter> region new 12 = {}" and "S \<inter> region lst 8 = {}"
    and "\<And>a. a \<in> fst ` set ns \<Longrightarrow> S \<inter> region a 12 = {}"
  shows "same_on S m (link_node lst new val ns m)"
  unfolding link_node_def init_node_def Let_def using assms last_node_in [of ns 0]
  by (auto intro!: same_on_node(1-5) split: if_splits)

lemma link_node_rep:
  fixes val :: u32
  assumes rep: "chain m 0 ns 0" "list_head m lst = first_node ns 0" "list_length m lst = word_of_nat (length ns)"
    and lst: "region lst 8 \<inter> region new 12 = {}" "\<And>a. a \<in> fst ` set ns \<Longrightarrow> region lst 8 \<inter> region a 12 = {}"
    and new: "\<And>a. a \<in> fst ` set ns \<Longrightarrow> region new 12 \<inter> region a 12 = {}"
    and apart: "\<And>a b. a \<in> fst ` set ns \<Longrightarrow> b \<in> fst ` set ns \<Longrightarrow> a \<noteq> b \<Longrightarrow> region a 12 \<inter> region b 12 = {}"
    and dist: "distinct (map fst ns)"
  defines "m' \<equiv> link_node lst new val ns m"
  shows "chain m' 0 (ns @ [(new, val)]) 0" and "list_head m' lst = first_node (ns @ [(new, val)]) 0"
    and "list_length m' lst = word_of_nat (length (ns @ [(new, val)]))"
proof -
  have *: "chain m' 0 (ns @ [(new, val)]) 0 \<and> list_head m' lst = first_node (ns @ [(new, val)]) 0 \<and>
    list_length m' lst = word_of_nat (length (ns @ [(new, val)]))"
  proof (cases ns rule: rev_cases)
    case Nil
    then show ?thesis using rep(3)
      by (simp add: m'_def link_node_def init_node_def Let_def list_node_other [OF lst(1)])
  next
    case (snoc xs y)
    obtain b w where y: "y = (b, w)" by fastforce
    have b: "b \<in> fst ` set ns" using snoc y by simp
    have bn: "region b 12 \<inter> region new 12 = {}" using new [OF b] by blast
    have m': "m' = set_list_length lst (list_length m lst + 1)
        (set_node_previous new b (set_node_next b new (init_node new val m)))"
      using snoc y by (simp add: m'_def link_node_def Let_def init_node_def
          list_node_other [OF lst(1)] list_node_other [OF lst(2) [OF b]])
    have "chain m' 0 xs b = chain m 0 xs b"
    proof (rule chain_cong)
      fix a assume a: "a \<in> fst ` set xs"
      then have "a \<in> fst ` set ns" "a \<noteq> b" using snoc y dist by auto
      then have "region a 12 \<inter> region new 12 = {}" "region a 12 \<inter> region b 12 = {}" "region a 12 \<inter> region lst 8 = {}"
        using new [of a] apart [of a b] lst(2) [of a] b by blast+
      then show "same_on (region a 12) m m'"
        unfolding m' init_node_def by (intro same_on_node(1-5) same_on_refl)
    qed
    moreover have "node_previous m' b = last_node 0 xs" "node_next m' b = new" "node_value m' b = w"
      "node_previous m' new = b" "node_next m' new = 0" "node_value m' new = val"
      "list_head m' lst = list_head m lst" "list_length m' lst = list_length m lst + 1"
      using rep(1) snoc y unfolding m' init_node_def
      by (simp_all add: list_node_other [OF lst(1)] list_node_other [OF lst(2) [OF b]]
          node_other [OF bn] node_other [OF new [OF b]])
    ultimately show ?thesis using rep snoc y by simp
  qed
  then show "chain m' 0 (ns @ [(new, val)]) 0" and "list_head m' lst = first_node (ns @ [(new, val)]) 0"
    and "list_length m' lst = word_of_nat (length (ns @ [(new, val)]))"
    by blast+
qed

lemma list_blocks_insert:
  assumes "list_blocks L lst ns" and "L new = None" and "12 \<le> k"
  shows "list_blocks (L(new \<mapsto> k)) lst (ns @ [(new, v)])"
    and "other_blocks (L(new \<mapsto> k)) lst (ns @ [(new, v)]) = other_blocks L lst ns"
proof -
  have ne: "new \<noteq> lst" "new \<notin> fst ` set ns" using assms(1,2) by (auto simp: list_blocks_def)
  then show "list_blocks (L(new \<mapsto> k)) lst (ns @ [(new, v)])"
    using assms unfolding list_blocks_def by auto
  have "L(new \<mapsto> k) |` (- insert lst (fst ` set (ns @ [(new, v)]))) = L |` (- insert lst (fst ` set ns))"
    using assms(2) by (auto simp: restrict_map_def fun_eq_iff)
  then show "other_blocks (L(new \<mapsto> k)) lst (ns @ [(new, v)]) = other_blocks L lst ns"
    by (simp add: other_blocks_def)
qed

lemma list_insert_run:
  assumes run: "malloc 12 s = ret new (s\<lparr>mem := m\<rparr>)" and nz: "new \<noteq> 0" "lst \<noteq> 0" "v \<noteq> 0"
    and rep: "chain m 0 ns 0" "list_head m lst = first_node ns 0"
    and "0 \<notin> fst ` set ns"
    and lst: "region lst 8 \<inter> region new 12 = {}"
    and new: "\<And>a. a \<in> fst ` set ns \<Longrightarrow> region new 12 \<inter> region a 12 = {}"
  shows "list_insert lst v s = ret () (s\<lparr>mem := link_node lst new v ns m\<rparr>)"
proof -
  let ?m = "init_node new v m"
  have hd: "list_head ?m lst = first_node ns 0" using rep(2) by (simp add: init_node_def list_node_other [OF lst])
  show ?thesis
  proof (cases ns rule: rev_cases)
    case Nil
    then show ?thesis using run nz hd by (simp add: list_insert_def link_node_def Let_def flip: init_node_def)
  next
    case (snoc xs y)
    obtain b w where y: "y = (b, w)" by fastforce
    have "chain ?m 0 ns 0"
    proof -
      have "same_on (region a 12) m ?m" if "a \<in> fst ` set ns" for a
        using new [OF that] unfolding init_node_def by (intro same_on_node(1-5) same_on_refl) blast+
      then show ?thesis using rep(1) chain_cong [of ns m ?m] by blast
    qed
    then have "list_last ?m (first_node ns 0) = Some b"
      using list_last_chain [of ?m 0 xs b w] assms(7) snoc y by simp
    moreover have "first_node ns 0 \<noteq> 0" using assms(7) snoc y by (cases xs) auto
    ultimately show ?thesis using run nz hd snoc y
      by (simp add: list_insert_def link_node_def Let_def flip: init_node_def)
  qed
qed

lemma list_insert_rep:
  assumes rep: "list_rep s A L lst ns" and v: "v \<noteq> 0"
  shows "malloc 12 s = halt ''chunk'' \<and> list_insert lst v s = halt ''chunk'' \<or>
    (\<exists>s' new k. list_insert lst v s = ret () s' \<and> s' = s\<lparr>mem := mem s'\<rparr> \<and> L new = None \<and> 12 \<le> k \<and>
       list_rep s' A (L(new \<mapsto> k)) lst (ns @ [(new, v)]) \<and>
       same_on (- A \<union> other_blocks L lst ns) (mem s) (mem s'))"
proof -
  note r = list_repD [OF rep]
  note ap = list_apart [OF r(1,2)]
  have n0: "(12 :: u32) \<noteq> 0" by simp
  show ?thesis
  proof (cases rule: malloc_cases [OF r(1) n0])
    case 1
    then show ?thesis using ap(2) v by (simp add: list_insert_def)
  next
    case block: (2 new k m)
    let ?L = "L(new \<mapsto> k)" and ?ns = "ns @ [(new, v)]" and ?m = "link_node lst new v ns m"
    have keep: "same_on X (mem s) m" if "X \<subseteq> blocks L" for X
      using block(5) by (rule same_on_mono) (use that in blast)
    have m: "chain m 0 ns 0" "list_head m lst = first_node ns 0" "list_length m lst = word_of_nat (length ns)"
      using chain_cong [of ns "mem s" m] list_header_cong [of lst "mem s" m] keep ap(1,4) r(3-5) by simp_all
    note lb = list_blocks_insert [OF r(2) block(3,2), of v]
    note ap' = list_apart [OF block(4) lb(1)]
    have lst: "region lst 8 \<inter> region new 12 = {}" using ap'(7) by simp
    have new: "region new 12 \<inter> region a 12 = {}" if "a \<in> fst ` set ns" for a
      using ap'(8) [of new a] that lb(1) by (auto simp: list_blocks_def)
    have dist: "distinct (map fst ns)" using r(2) by (simp add: list_blocks_def)
    have z: "0 \<notin> fst ` set ns" using ap(5) by blast
    have run: "list_insert lst v s = ret () (s\<lparr>mem := ?m\<rparr>)"
      using block(1,6) ap(2) v m(1,2) z lst new by (rule list_insert_run)
    have frame: "same_on S m ?m" if "\<And>x. x \<in> S \<Longrightarrow> x \<notin> region lst 8"
        "\<And>x a. x \<in> S \<Longrightarrow> a \<in> fst ` set ?ns \<Longrightarrow> x \<notin> region a 12" for S
      using that by (intro link_node_frame) auto
    have "heap_holds (s\<lparr>mem := ?m\<rparr>) A ?L"
    proof -
      have "same_on (A - blocks ?L) m ?m" using ap'(1,4) by (intro frame) blast+
      from kheap.holds_cong [OF block(4), of ?m] this show ?thesis by simp
    qed
    moreover have "chain ?m 0 ?ns 0 \<and> list_head ?m lst = first_node ?ns 0 \<and>
        list_length ?m lst = word_of_nat (length ?ns)"
      using link_node_rep [OF m lst ap(7) new ap(8) dist] by blast
    ultimately have "list_rep (s\<lparr>mem := ?m\<rparr>) A ?L lst ?ns" using lb(1) by (simp add: list_rep_def)
    moreover have "same_on (- A \<union> other_blocks L lst ns) (mem s) ?m"
    proof (rule same_on_trans)
      note ob = other_blocks_apart [OF block(4) lb(1)]
      show "same_on (- A \<union> other_blocks L lst ns) (mem s) m"
        using block(5) by (rule same_on_mono) (use other_blocks_apart(2) [OF r(1,2)] in blast)
      show "same_on (- A \<union> other_blocks L lst ns) m ?m"
        using ob(1,3) ap'(3,6) unfolding lb(2) by (intro frame) blast+
    qed
    ultimately show ?thesis using run block(2,3) by fastforce
  qed
qed

section \<open>Deletion\<close>

text \<open>What a store through a link may touch: the node, or the first bytes of memory.\<close>

definition link_region :: "u32 \<Rightarrow> u32 set" where
  "link_region q = (if q = 0 then region 0 8 else region q 12)"

lemma same_on_link:
  assumes "same_on S m m'" and "S \<inter> link_region q = {}"
  shows "same_on S m (set_node_next q v m')" and "same_on S m (set_node_previous q v m')"
  using assms same_on_node [OF assms(1), of q v] unfolding link_region_def
  by (auto split: if_splits)

lemma chain_relink_next:
  assumes "chain m p xs n" and "distinct (map fst xs)"
    and apart: "\<And>a b. a \<in> fst ` set xs \<Longrightarrow> b \<in> fst ` set xs \<Longrightarrow> a \<noteq> b \<Longrightarrow> region a 12 \<inter> region b 12 = {}"
  shows "chain (set_node_next (last_node p xs) n' m) p xs n'"
proof (cases xs rule: rev_cases)
  case (snoc ys y)
  obtain b w where y: "y = (b, w)" by fastforce
  let ?m = "set_node_next b n' m"
  have "chain ?m p ys b = chain m p ys b"
  proof (rule chain_cong)
    fix a assume "a \<in> fst ` set ys"
    then have "region a 12 \<inter> region b 12 = {}" using apart [of a b] assms(2) snoc y by auto
    then show "same_on (region a 12) m ?m" by (intro same_on_node(1-5) same_on_refl)
  qed
  then show ?thesis using assms(1) snoc y by simp
qed simp

lemma chain_relink_previous:
  assumes "chain m p ys n" and "distinct (map fst ys)"
    and apart: "\<And>a b. a \<in> fst ` set ys \<Longrightarrow> b \<in> fst ` set ys \<Longrightarrow> a \<noteq> b \<Longrightarrow> region a 12 \<inter> region b 12 = {}"
  shows "chain (set_node_previous (first_node ys n) p' m) p' ys n"
proof (cases ys)
  case (Cons y zs)
  obtain b w where y: "y = (b, w)" by fastforce
  let ?m = "set_node_previous b p' m"
  have "chain ?m b zs n = chain m b zs n"
  proof (rule chain_cong)
    fix a assume "a \<in> fst ` set zs"
    then have "region a 12 \<inter> region b 12 = {}" using apart [of a b] assms(2) Cons y by auto
    then show "same_on (region a 12) m ?m" by (intro same_on_node(1-5) same_on_refl)
  qed
  then show ?thesis using assms(1) Cons y by simp
qed simp

text \<open>The memory part of a deletion.\<close>

definition unlink_node :: "u32 \<Rightarrow> u32 \<Rightarrow> memory \<Rightarrow> memory" where
  "unlink_node lst node m =
    (let prev = node_previous m node; nxt = node_next m node;
         m = set_node_previous nxt prev (set_node_next prev nxt m);
         m = (if list_head m lst = node then set_list_head lst nxt m else m)
     in set_list_length lst (list_length m lst - 1) m)"

lemma unlink_node_rep:
  fixes m :: memory
  assumes chain: "chain m 0 (xs @ (a, v) # ys) 0"
    and hd: "list_head m lst = first_node (xs @ (a, v) # ys) 0"
    and len: "list_length m lst = word_of_nat (length (xs @ (a, v) # ys))"
    and dist: "distinct (map fst (xs @ (a, v) # ys))"
    and nz: "0 \<notin> fst ` set (xs @ (a, v) # ys)"
    and lst: "\<And>b. b \<in> fst ` set (xs @ (a, v) # ys) \<Longrightarrow> region lst 8 \<inter> region b 12 = {}"
    and apart: "\<And>b c. b \<in> fst ` set (xs @ (a, v) # ys) \<Longrightarrow> c \<in> fst ` set (xs @ (a, v) # ys) \<Longrightarrow> b \<noteq> c \<Longrightarrow>
      region b 12 \<inter> region c 12 = {}"
    and low: "region lst 8 \<inter> region 0 8 = {}" "\<And>b. b \<in> fst ` set (xs @ (a, v) # ys) \<Longrightarrow> region b 12 \<inter> region 0 8 = {}"
  defines "m' \<equiv> unlink_node lst a m"
  shows "chain m' 0 (xs @ ys) 0" and "list_head m' lst = first_node (xs @ ys) 0"
    and "list_length m' lst = word_of_nat (length (xs @ ys))"
    and "S \<inter> region 0 8 = {} \<Longrightarrow> S \<inter> region lst 8 = {} \<Longrightarrow>
      (\<And>b. b \<in> fst ` set (xs @ ys) \<Longrightarrow> S \<inter> region b 12 = {}) \<Longrightarrow> same_on S m m'"
    and "xs = [] \<Longrightarrow> load32 m' 4 = first_node ys 0" and "ys = [] \<Longrightarrow> load32 m' 0 = last_node 0 xs"
proof -
  define q n where "q = last_node 0 xs" and "n = first_node ys 0"
  have qn: "node_previous m a = q" "node_next m a = n" using chain by (simp_all add: q_def n_def)
  have qin: "xs \<noteq> [] \<Longrightarrow> q \<in> fst ` set xs" using last_node_in [of xs 0] by (simp add: q_def)
  have "0 \<notin> fst ` set xs" using nz by auto
  then have qi: "q = 0 \<longleftrightarrow> xs = []" using qin by (cases "xs = []") (simp add: q_def, metis)
  have ni: "n = 0 \<longleftrightarrow> ys = []" and nin: "ys \<noteq> [] \<Longrightarrow> n \<in> fst ` set ys"
    using nz by (auto simp: n_def first_node_def split: list.splits)
  define m1 where "m1 = set_node_next q n m"
  define m2 where "m2 = set_node_previous n q m1"
  have ql: "link_region q = (if xs = [] then region 0 8 else region q 12)"
    and nl: "link_region n = (if ys = [] then region 0 8 else region n 12)"
    using qi ni by (auto simp: link_region_def)
  have off: "region lst 8 \<inter> link_region q = {}" "region lst 8 \<inter> link_region n = {}"
    using low(1) lst qin nin unfolding ql nl by auto
  have hdr: "list_head m2 lst = list_head m lst" "list_length m2 lst = list_length m lst"
    using list_header_cong [of lst m m2] same_on_link off unfolding m2_def m1_def by (meson same_on_refl)+
  have hd_a: "list_head m2 lst = a \<longleftrightarrow> xs = []"
    using hd hdr dist by (cases xs) (auto simp: first_node_def)
  have m': "m' = set_list_length lst (list_length m lst - 1)
      (if xs = [] then set_list_head lst n m2 else m2)"
    using hd_a hdr by (simp add: m'_def unlink_node_def Let_def qn flip: m1_def m2_def)
  have chx: "chain m1 0 xs n" unfolding m1_def q_def
    using chain dist apart by (intro chain_relink_next) auto
  have chx2: "chain m2 0 xs n"
  proof -
    have "same_on (region b 12) m1 m2" if "b \<in> fst ` set xs" for b
      unfolding m2_def
    proof (intro same_on_link(2) same_on_refl)
      have "n \<in> fst ` set ys \<Longrightarrow> n \<noteq> b" using that dist by auto
      then show "region b 12 \<inter> link_region n = {}"
        unfolding nl using that low(2) [of b] apart [of b n] nin by auto
    qed
    then show ?thesis using chx chain_cong [of xs m1 m2] by blast
  qed
  have chy: "chain m1 a ys 0"
  proof -
    have "same_on (region b 12) m m1" if "b \<in> fst ` set ys" for b
      unfolding m1_def
    proof (intro same_on_link(1) same_on_refl)
      have "q \<in> fst ` set xs \<Longrightarrow> q \<noteq> b" using that dist by auto
      then show "region b 12 \<inter> link_region q = {}"
        unfolding ql using that low(2) [of b] apart [of b q] qin by auto
    qed
    then show ?thesis using chain chain_cong [of ys m m1] by simp
  qed
  have chy2: "chain m2 q ys 0" unfolding m2_def n_def
    using chy dist apart by (intro chain_relink_previous) auto
  have hdr_off: "same_on S m2 m'" if "S \<inter> region lst 8 = {}" for S
    unfolding m' using that by (auto intro!: same_on_node(1-5))
  have "chain m' p zs k = chain m2 p zs k" if "set zs \<subseteq> set (xs @ ys)" for p zs k
    using that by (intro chain_cong hdr_off) (use lst in \<open>auto 4 3\<close>)
  then show "chain m' 0 (xs @ ys) 0" using chx2 chy2 by (simp add: n_def q_def)
  show "list_head m' lst = first_node (xs @ ys) 0"
    using hd hdr by (cases xs) (auto simp: m' n_def first_node_def)
  show "list_length m' lst = word_of_nat (length (xs @ ys))" using len by (simp add: m')
  show "same_on S m m'" if S: "S \<inter> region 0 8 = {}" "S \<inter> region lst 8 = {}"
    "\<And>b. b \<in> fst ` set (xs @ ys) \<Longrightarrow> S \<inter> region b 12 = {}"
  proof (rule same_on_trans [OF _ hdr_off])
    have "S \<inter> link_region q = {}" "S \<inter> link_region n = {}"
      unfolding ql nl using S qin nin by auto
    then show "same_on S m m2" unfolding m2_def m1_def by (intro same_on_link same_on_refl)
  qed (rule S(2))
  have lowm: "same_on (region 0 8) m2 m'" using low(1) by (intro hdr_off) blast
  have low4: "load32 m' 4 = load32 m2 4" "load32 m' 0 = load32 m2 0"
    using region_shift_subset [of 4 4 8 0] region_mono [of 4 8 0]
    by (auto intro!: load32_cong same_on_mono [OF lowm])
  show "load32 m' 4 = first_node ys 0" if "xs = []"
  proof -
    have "node_next m2 q = n"
    proof (cases "ys = []")
      case True
      then show ?thesis using qi ni that by (simp add: m2_def m1_def)
    next
      case False
      then have "region 0 8 \<inter> region n 12 = {}" using low(2) [of n] nin by auto
      then have "same_on (region 0 8) m1 m2" unfolding m2_def by (intro same_on_node(1-5) same_on_refl)
      then have "load32 m2 4 = load32 m1 4"
        using region_shift_subset [of 4 4 8 0] by (auto intro!: load32_cong intro: same_on_mono)
      then show ?thesis using qi that by (simp add: m1_def node_defs)
    qed
    then show ?thesis using low4 qi that by (simp add: node_defs n_def)
  qed
  show "load32 m' 0 = last_node 0 xs" if "ys = []"
    using low4 ni that by (simp add: m2_def node_defs q_def)
qed

lemma find_first:
  "v \<notin> snd ` set xs \<Longrightarrow> find (\<lambda>(a, w). w = v) (xs @ (a, v) # ys) = Some (a, v)"
  by (induction xs) auto

lemma list_blocks_delete:
  assumes "list_blocks L lst (xs @ (a, v) # ys)"
  shows "list_blocks (L(a := None)) lst (xs @ ys)"
    and "other_blocks (L(a := None)) lst (xs @ ys) = other_blocks L lst (xs @ (a, v) # ys)"
proof -
  show "list_blocks (L(a := None)) lst (xs @ ys)"
    using assms unfolding list_blocks_def by (auto simp: rev_image_eqI)
  have "L(a := None) |` (- insert lst (fst ` set (xs @ ys))) = L |` (- insert lst (fst ` set (xs @ (a, v) # ys)))"
    by (auto simp: restrict_map_def fun_eq_iff)
  then show "other_blocks (L(a := None)) lst (xs @ ys) = other_blocks L lst (xs @ (a, v) # ys)"
    by (simp add: other_blocks_def)
qed

lemma list_delete_run:
  assumes "list_find lst v s = ret a s" and "lst \<noteq> 0" and "v \<noteq> 0" and "a \<noteq> 0"
  shows "list_delete lst v s = free a (s\<lparr>mem := unlink_node lst a (mem s)\<rparr>)"
  using assms by (simp add: list_delete_def unlink_node_def Let_def)

lemma list_delete_rep:
  assumes rep: "list_rep s A L lst (xs @ (a, v) # ys)" and v: "v \<noteq> 0" "v \<notin> snd ` set xs"
    and low: "region 0 8 \<inter> A = {}"
  shows "\<exists>m. list_delete lst v s = ret () (s\<lparr>mem := m\<rparr>) \<and>
    list_rep (s\<lparr>mem := m\<rparr>) A (L(a := None)) lst (xs @ ys) \<and>
    same_on ((- A - region 0 8) \<union> other_blocks L lst (xs @ (a, v) # ys)) (mem s) m \<and>
    (xs = [] \<longrightarrow> load32 m 4 = first_node ys 0) \<and> (ys = [] \<longrightarrow> load32 m 0 = last_node 0 xs)"
proof -
  let ?ns = "xs @ (a, v) # ys" and ?m = "unlink_node lst a (mem s)"
  note r = list_repD [OF rep]
  note ap = list_apart [OF r(1,2)]
  have a: "a \<in> fst ` set ?ns" by simp
  have dist: "distinct (map fst ?ns)" using r(2) by (simp add: list_blocks_def)
  have nz: "0 \<notin> fst ` set ?ns" using ap(5) by blast
  have lst0: "region lst 8 \<inter> region 0 8 = {}" using ap(3) low by blast
  have low': "region b 12 \<inter> region 0 8 = {}" if "b \<in> fst ` set ?ns" for b
    using ap(6) [OF that] low by blast
  note un = unlink_node_rep [OF r(5,3,4) dist nz ap(7,8) lst0 low']
  have find: "list_find lst v s = ret a s"
    using list_find_rep [OF rep v(1)] find_first [OF v(2)] by simp
  have run: "list_delete lst v s = free a (s\<lparr>mem := ?m\<rparr>)"
    using find ap(2) v(1) ap(5) [OF a] by (rule list_delete_run)
  have "same_on (A - blocks L) (mem s) ?m" using low ap(1,4) by (intro un(4)) auto
  then have h: "heap_holds (s\<lparr>mem := ?m\<rparr>) A L" using kheap.holds_cong [OF r(1)] by simp
  obtain k where La: "L a = Some k" using list_blocksE [OF r(2)] a by metis
  obtain m where m: "free a (s\<lparr>mem := ?m\<rparr>) = ret () (s\<lparr>mem := m\<rparr>)"
    "heap_holds (s\<lparr>mem := m\<rparr>) A (L(a := None))" "same_on (- A \<union> blocks L) ?m m"
    using h La by (rule free_at)
  have keep: "same_on X ?m m" if "X \<subseteq> - A \<union> blocks L" for X using m(3) that by (rule same_on_mono)
  have "chain m 0 (xs @ ys) 0"
    using un(1) ap(4) chain_cong [of "xs @ ys" ?m m] keep by (simp add: le_supI2)
  moreover have "list_head m lst = first_node (xs @ ys) 0" "list_length m lst = word_of_nat (length (xs @ ys))"
    using list_header_cong [of lst ?m m] keep ap(1) un(2,3) by (simp_all add: le_supI2)
  ultimately have "list_rep (s\<lparr>mem := m\<rparr>) A (L(a := None)) lst (xs @ ys)"
    using m(2) list_blocks_delete [OF r(2)] by (simp add: list_rep_def)
  moreover have "same_on ((- A - region 0 8) \<union> other_blocks L lst ?ns) (mem s) m"
  proof (rule same_on_trans)
    note ob = other_blocks_apart [OF r(1,2)]
    show "same_on ((- A - region 0 8) \<union> other_blocks L lst ?ns) ?m m"
      using ob(2) by (intro keep) blast
    have "other_blocks L lst ?ns \<subseteq> A"
      using ob(2) kheap.block_range [OF r(1)] by (fastforce simp: in_blocks)
    then show "same_on ((- A - region 0 8) \<union> other_blocks L lst ?ns) (mem s) ?m"
    proof (intro un(4))
      show "(- A - region 0 8 \<union> other_blocks L lst ?ns) \<inter> region b 12 = {}" if "b \<in> fst ` set (xs @ ys)" for b
        using ob(3) [of b] ap(6) [of b] that by fastforce
    qed (use ob(1) ap(3) low in blast)+
  qed
  moreover have "load32 m 4 = load32 ?m 4" "load32 m 0 = load32 ?m 0"
    using low region_shift_subset [of 4 4 8 0] region_mono [of 4 8 0]
    by (auto intro!: load32_cong keep)
  ultimately show ?thesis using run m(1) un(5,6) by auto
qed

lemma list_delete_missing:
  assumes "list_rep s A L lst ns" and "v \<noteq> 0" and "v \<notin> snd ` set ns"
  shows "list_delete lst v s = halt ''node''"
proof -
  have "find (\<lambda>(a, w). w = v) ns = None" using assms(3) by (force simp: find_None_iff)
  then have "list_find lst v s = ret 0 s" using list_find_rep [OF assms(1,2)] by simp
  then show ?thesis using list_apart(2) [OF list_repD(1,2) [OF assms(1)]] assms(2)
    by (simp add: list_delete_def)
qed

section \<open>Destruction\<close>

lemma list_destroy_nodes_rep:
  assumes "heap_holds (s\<lparr>mem := m\<rparr>) A L" and "chain m p ns 0" and "distinct (map fst ns)"
    and "\<And>a. a \<in> fst ` set ns \<Longrightarrow> \<exists>k. L a = Some k \<and> 12 \<le> unat k"
  shows "\<exists>m'. list_destroy_nodes (first_node ns 0) (s\<lparr>mem := m\<rparr>) = ret () (s\<lparr>mem := m'\<rparr>) \<and>
    heap_holds (s\<lparr>mem := m'\<rparr>) A (L |` (- fst ` set ns)) \<and>
    same_on (- A \<union> blocks (L |` (- fst ` set ns))) m m'"
  using assms
proof (induction ns arbitrary: L m p)
  case Nil
  then show ?case by (intro exI [of _ m]) (simp add: list_destroy_nodes.simps)
next
  case (Cons x ns)
  obtain a v where x: "x = (a, v)" by fastforce
  obtain k where k: "L a = Some k" "12 \<le> unat k" using Cons.prems(4) x by auto
  have a0: "a \<noteq> 0" using kheap.block_nonnull [OF Cons.prems(1) k(1)] .
  obtain m1 where m1: "free a (s\<lparr>mem := m\<rparr>) = ret () (s\<lparr>mem := m1\<rparr>)"
    "heap_holds (s\<lparr>mem := m1\<rparr>) A (L(a := None))" "same_on (- A \<union> blocks L) m m1"
    using Cons.prems(1) k(1) by (rule free_at)
  have "chain m1 a ns 0 = chain m a ns 0"
  proof (rule chain_cong)
    fix b assume "b \<in> fst ` set ns"
    then obtain j where j: "L b = Some j" "12 \<le> unat j" using Cons.prems(4) [of b] by auto
    show "same_on (region b 12) m m1"
      using m1(3) by (rule same_on_mono) (use block_subset [of L b j] j region_mono [OF j(2), of b] in blast)
  qed
  then have ch: "chain m1 a ns 0" using Cons.prems(2) x by simp
  have dist: "distinct (map fst ns)" using Cons.prems(3) by simp
  have blk: "\<exists>k. (L(a := None)) b = Some k \<and> 12 \<le> unat k" if "b \<in> fst ` set ns" for b
    using Cons.prems(3) Cons.prems(4) [of b] that x by auto
  obtain m' where
    m': "list_destroy_nodes (first_node ns 0) (s\<lparr>mem := m1\<rparr>) = ret () (s\<lparr>mem := m'\<rparr>)"
      "heap_holds (s\<lparr>mem := m'\<rparr>) A (L(a := None) |` (- fst ` set ns))"
      "same_on (- A \<union> blocks (L(a := None) |` (- fst ` set ns))) m1 m'"
    using Cons.IH [OF m1(2) ch dist blk] by blast
  have L: "L(a := None) |` (- fst ` set ns) = L |` (- fst ` set (x # ns))"
    using x by (auto simp: restrict_map_def fun_eq_iff)
  have "blocks (L |` (- fst ` set (x # ns))) \<subseteq> blocks L"
    by (rule blocks_mono) (simp add: map_le_def restrict_map_def dom_def)
  then have "same_on (- A \<union> blocks (L |` (- fst ` set (x # ns)))) m m1"
    by (intro same_on_mono [OF m1(3)]) blast
  then have "same_on (- A \<union> blocks (L |` (- fst ` set (x # ns)))) m m'"
    using m'(3) unfolding L by (rule same_on_trans)
  moreover have "list_destroy_nodes (first_node (x # ns) 0) (s\<lparr>mem := m\<rparr>) = ret () (s\<lparr>mem := m'\<rparr>)"
    using Cons.prems(2) x a0 m1(1) m'(1) by (subst list_destroy_nodes.simps) simp
  ultimately show ?case using m'(2) unfolding L by blast
qed

lemma list_destroy_rep:
  assumes rep: "list_rep s A L lst ns"
  shows "\<exists>m. list_destroy lst s = ret () (s\<lparr>mem := m\<rparr>) \<and>
    heap_holds (s\<lparr>mem := m\<rparr>) A (L |` (- insert lst (fst ` set ns))) \<and>
    same_on (- A \<union> other_blocks L lst ns) (mem s) m"
proof -
  note r = list_repD [OF rep]
  obtain k where k: "L lst = Some k"
    and nodes: "\<And>a. a \<in> fst ` set ns \<Longrightarrow> \<exists>k. L a = Some k \<and> 12 \<le> unat k"
    and lst: "lst \<notin> fst ` set ns" and dist: "distinct (map fst ns)"
    using list_blocksE [OF r(2)] by metis
  have h: "heap_holds (s\<lparr>mem := mem s\<rparr>) A L" using r(1) by simp
  obtain m where m: "list_destroy_nodes (first_node ns 0) s = ret () (s\<lparr>mem := m\<rparr>)"
    "heap_holds (s\<lparr>mem := m\<rparr>) A (L |` (- fst ` set ns))"
    "same_on (- A \<union> blocks (L |` (- fst ` set ns))) (mem s) m"
    using list_destroy_nodes_rep [OF h r(5) dist nodes] by auto
  have Ll: "(L |` (- fst ` set ns)) lst = Some k" using k lst by (simp add: restrict_map_def)
  obtain m' where m': "free lst (s\<lparr>mem := m\<rparr>) = ret () (s\<lparr>mem := m'\<rparr>)"
    "heap_holds (s\<lparr>mem := m'\<rparr>) A ((L |` (- fst ` set ns))(lst := None))"
    "same_on (- A \<union> blocks (L |` (- fst ` set ns))) m m'"
    using m(2) Ll by (rule free_at)
  have L: "(L |` (- fst ` set ns))(lst := None) = L |` (- insert lst (fst ` set ns))"
    by (auto simp: restrict_map_def fun_eq_iff)
  have "other_blocks L lst ns \<subseteq> blocks (L |` (- fst ` set ns))"
    unfolding other_blocks_def by (rule blocks_mono) (simp add: map_le_def restrict_map_def dom_def)
  then have "same_on (- A \<union> other_blocks L lst ns) (mem s) m'"
    by (intro same_on_mono [OF same_on_trans [OF m(3) m'(3)]]) blast
  moreover have "list_destroy lst s = ret () (s\<lparr>mem := m'\<rparr>)"
    using m(1) m'(1) list_apart(2) [OF r(1,2)] r(3) by (simp add: list_destroy_def)
  ultimately show ?thesis using m'(2) unfolding L by blast
qed

section \<open>Properties\<close>

text \<open>A heap with a used block of 16 bytes at 4112, an empty list, and a free chunk after it.\<close>

definition example_list :: kernel where
  "example_list = (boot_state
     (set_chunk_len 4128 256 (set_previous_chunk 4128 4096
     (set_allocated 4096 True (set_chunk_len 4096 16 (set_next_chunk 4096 4128 (\<lambda>_. 0)))))))
     \<lparr>initialized := True, start_chunk := 4096\<rparr>"

abbreviation example_area :: "u32 set" where
  "example_area \<equiv> {x. 4096 \<le> unat x \<and> unat x < 4400}"

lemma example_list_inv:
  "heap_inv example_list
     [\<lparr>c_addr = 4096, c_len = 16, c_used = True\<rparr>, \<lparr>c_addr = 4128, c_len = 256, c_used = False\<rparr>]"
proof -
  have "apart 4128 4096" by (rule apart_less) simp_all
  then show ?thesis
    using apart_sym [OF \<open>apart 4128 4096\<close>]
    by (simp add: heap_inv_def example_list_def boot_state_def header_def chunk_ok_def c_end_def header_other)
qed

lemma example_list_heap: "heap_holds example_list example_area [4112 \<mapsto> 16]"
  by (rule heap_holdsI [OF example_list_inv, of 4400]) (simp_all add: c_end_def example_list_def)

lemma example_list_rep: "list_rep example_list example_area [4112 \<mapsto> 16] 4112 []"
proof -
  have "list_head (mem example_list) 4112 = 0" "list_length (mem example_list) 4112 = 0"
    by (simp_all add: node_defs header_defs example_list_def boot_state_def load32_def store32_def store8_def)
  then show ?thesis using example_list_heap by (simp add: list_rep_def list_blocks_def)
qed

lemma example_low: "region 0 8 \<inter> example_area = {}"
  using in_region_nat [of 0 8] by auto

lemma malloc_12_example: "malloc 12 example_list \<noteq> halt ''chunk''"
proof -
  let ?cs = "[\<lparr>c_addr = 4096, c_len = 16, c_used = True\<rparr>, \<lparr>c_addr = 4128, c_len = 256, c_used = False\<rparr>]"
  have "alloc_list 12 ?cs \<noteq> None" by (simp add: fits_def)
  with example_list_inv show ?thesis by (rule malloc_room) simp
qed

lemma example_insert:
  "\<exists>s new k. list_insert 4112 7 example_list = ret () s \<and>
     list_rep s example_area ([4112 \<mapsto> 16, new \<mapsto> k]) 4112 [(new, 7)]"
  using list_insert_rep [OF example_list_rep, of 7] malloc_12_example by auto

text \<open>C13. \<open>list_insert\<close> appends. On a list in memory it either stops in the allocator's assertion
  or adds a fresh node with the value at the end, keeps the heap and the list well formed, counts the
  node, and leaves all other blocks and all memory outside the heap as they were.\<close>

theorem list_insert_appends:
  assumes "list_rep s A L lst ns" and "v \<noteq> 0"
  shows "list_insert lst v s = halt ''chunk'' \<or>
    (\<exists>s' new k. list_insert lst v s = ret () s' \<and> L new = None \<and>
       list_rep s' A (L(new \<mapsto> k)) lst (ns @ [(new, v)]) \<and>
       same_on (- A \<union> other_blocks L lst ns) (mem s) (mem s'))"
  using list_insert_rep [OF assms] by blast

theorem list_insert_appends_witness:
  "\<exists>s new k. list_insert 4112 7 example_list = ret () s \<and>
     list_rep s example_area ([4112 \<mapsto> 16, new \<mapsto> k]) 4112 [(new, 7)]"
  using list_insert_appends [OF example_list_rep, of 7] example_insert by auto

text \<open>C14. \<open>list_find\<close> and \<open>list_delete\<close> act on the first node with the value. When there is
  none, the search returns null and the deletion stops in its assertion; otherwise the search
  returns the node, and the deletion takes exactly it out of the list and releases its block. At the
  ends of the list the deletion also stores through a null link: deleting the first node writes the
  new head to address 4, deleting the last node writes its predecessor to address 0.\<close>

theorem list_delete_removes:
  assumes "list_rep s A L lst ns" and "v \<noteq> 0" and "region 0 8 \<inter> A = {}"
  shows "if v \<notin> snd ` set ns then list_find lst v s = ret 0 s \<and> list_delete lst v s = halt ''node''
    else \<exists>xs a ys m. ns = xs @ (a, v) # ys \<and> v \<notin> snd ` set xs \<and> list_find lst v s = ret a s \<and>
      list_delete lst v s = ret () (s\<lparr>mem := m\<rparr>) \<and>
      list_rep (s\<lparr>mem := m\<rparr>) A (L(a := None)) lst (xs @ ys) \<and>
      same_on ((- A - region 0 8) \<union> other_blocks L lst ns) (mem s) m \<and>
      (xs = [] \<longrightarrow> load32 m 4 = first_node ys 0) \<and> (ys = [] \<longrightarrow> load32 m 0 = last_node 0 xs)"
proof (cases "v \<in> snd ` set ns")
  case True
  then obtain xs a ys where ns: "ns = xs @ (a, v) # ys" "v \<notin> snd ` set xs"
    using split_list_first_prop [of ns "\<lambda>x. snd x = v"] by force
  have "list_find lst v s = ret a s" using list_find_rep [OF assms(1,2)] find_first [OF ns(2)] ns(1) by simp
  with list_delete_rep [of s A L lst xs a v ys] assms ns True show ?thesis by auto
next
  case False
  then have "find (\<lambda>(a, w). w = v) ns = None" by (force simp: find_None_iff)
  then show ?thesis using False list_find_rep [OF assms(1,2)] list_delete_missing [OF assms(1,2)] by simp
qed

theorem list_delete_removes_witness:
  "\<exists>s new k m. list_insert 4112 7 example_list = ret () s \<and> list_find 4112 7 s = ret new s \<and>
     list_delete 4112 7 s = ret () (s\<lparr>mem := m\<rparr>) \<and>
     list_rep (s\<lparr>mem := m\<rparr>) example_area ([4112 \<mapsto> 16, new \<mapsto> k](new := None)) 4112 []"
proof -
  obtain s new k where s: "list_insert 4112 7 example_list = ret () s"
    "list_rep s example_area ([4112 \<mapsto> 16, new \<mapsto> k]) 4112 [(new, 7)]"
    using example_insert by blast
  obtain xs a ys m where d: "[(new, 7)] = xs @ (a, 7) # ys" "list_find 4112 7 s = ret a s"
    "list_delete 4112 7 s = ret () (s\<lparr>mem := m\<rparr>)"
    "list_rep (s\<lparr>mem := m\<rparr>) example_area ([4112 \<mapsto> 16, new \<mapsto> k](a := None)) 4112 (xs @ ys)"
    using list_delete_removes [OF s(2) _ example_low, of 7] by auto
  from d(1) have "xs = []" "ys = []" "a = new" by (auto simp: Cons_eq_append_conv)
  with s(1) d show ?thesis by fastforce
qed

text \<open>\<open>list_destroy\<close> releases the list and every node, each once, and nothing else.\<close>

theorem list_destroy_releases:
  assumes "list_rep s A L lst ns"
  shows "\<exists>m. list_destroy lst s = ret () (s\<lparr>mem := m\<rparr>) \<and>
    heap_holds (s\<lparr>mem := m\<rparr>) A (L |` (- insert lst (fst ` set ns))) \<and>
    same_on (- A \<union> other_blocks L lst ns) (mem s) m"
  using assms by (rule list_destroy_rep)

theorem list_destroy_releases_witness:
  "\<exists>s m. list_insert 4112 7 example_list = ret () s \<and> list_destroy 4112 s = ret () (s\<lparr>mem := m\<rparr>) \<and>
     heap_holds (s\<lparr>mem := m\<rparr>) example_area Map.empty"
proof -
  obtain s new k where s: "list_insert 4112 7 example_list = ret () s"
    "list_rep s example_area ([4112 \<mapsto> 16, new \<mapsto> k]) 4112 [(new, 7)]"
    using example_insert by blast
  have "[4112 \<mapsto> 16, new \<mapsto> k] |` (- insert 4112 (fst ` set [(new, 7 :: u32)])) = Map.empty"
    by (auto simp: restrict_map_def fun_eq_iff)
  with list_destroy_releases [OF s(2)] s(1) show ?thesis by auto
qed

end
