(* ===== verification/Process.thy ===== *)
theory Process
  imports KList
begin

text \<open>
  Processes and their saved contexts: \<open>execution/process.c\<close>, the register frame \<open>regs\<close> of
  \<open>cpu/irq.h\<close>, and the entry and exit code of \<open>cpu/isr.s\<close> that builds and consumes it. All
  code runs at the same privilege level, so an interrupt pushes only the flags, the code segment
  and the instruction pointer, and \<open>iret\<close> pops the same three.
\<close>

section \<open>The process structure\<close>

definition process_id :: "memory \<Rightarrow> u32 \<Rightarrow> u32" where
  "process_id m process = load32 m process"

definition process_esp :: "memory \<Rightarrow> u32 \<Rightarrow> u32" where
  "process_esp m process = load32 m (process + 4)"

definition process_ebp :: "memory \<Rightarrow> u32 \<Rightarrow> u32" where
  "process_ebp m process = load32 m (process + 8)"

definition process_eip :: "memory \<Rightarrow> u32 \<Rightarrow> u32" where
  "process_eip m process = load32 m (process + 12)"

definition process_state :: "memory \<Rightarrow> u32 \<Rightarrow> u8" where
  "process_state m process = m (process + 16)"

definition process_sleep :: "memory \<Rightarrow> u32 \<Rightarrow> u32" where
  "process_sleep m process = load32 m (process + 20)"

definition set_process_id :: "u32 \<Rightarrow> u32 \<Rightarrow> memory \<Rightarrow> memory" where
  "set_process_id process v m = store32 m process v"

definition set_process_esp :: "u32 \<Rightarrow> u32 \<Rightarrow> memory \<Rightarrow> memory" where
  "set_process_esp process v m = store32 m (process + 4) v"

definition set_process_ebp :: "u32 \<Rightarrow> u32 \<Rightarrow> memory \<Rightarrow> memory" where
  "set_process_ebp process v m = store32 m (process + 8) v"

definition set_process_eip :: "u32 \<Rightarrow> u32 \<Rightarrow> memory \<Rightarrow> memory" where
  "set_process_eip process v m = store32 m (process + 12) v"

definition set_process_state :: "u32 \<Rightarrow> u8 \<Rightarrow> memory \<Rightarrow> memory" where
  "set_process_state process v m = store8 m (process + 16) v"

definition set_process_sleep :: "u32 \<Rightarrow> u32 \<Rightarrow> memory \<Rightarrow> memory" where
  "set_process_sleep process v m = store32 m (process + 20) v"

abbreviation (input) PROCESS_STATE_WAITING :: u8 where
  "PROCESS_STATE_WAITING \<equiv> 0"

abbreviation (input) PROCESS_STATE_RUNNING :: u8 where
  "PROCESS_STATE_RUNNING \<equiv> 1"

abbreviation (input) PROCESS_STATE_SLEEPING :: u8 where
  "PROCESS_STATE_SLEEPING \<equiv> 2"

abbreviation (input) PROCESS_STACK_LENGTH :: u32 where
  "PROCESS_STACK_LENGTH \<equiv> 8192"

section \<open>The register frame\<close>

text \<open>Offsets of the fields of \<open>regs\<close>; the structure is 76 bytes long.\<close>

datatype reg =
    Gs | Fs | Es | Ds | Edi | Esi | Ebp | Esp | Ebx | Edx | Ecx | Eax
  | Irq | Err | Eip | Cs | Eflags | Useresp | Ss

fun reg_offset :: "reg \<Rightarrow> u32" where
  "reg_offset Gs = 0" | "reg_offset Fs = 4" | "reg_offset Es = 8" | "reg_offset Ds = 12"
| "reg_offset Edi = 16" | "reg_offset Esi = 20" | "reg_offset Ebp = 24" | "reg_offset Esp = 28"
| "reg_offset Ebx = 32" | "reg_offset Edx = 36" | "reg_offset Ecx = 40" | "reg_offset Eax = 44"
| "reg_offset Irq = 48" | "reg_offset Err = 52" | "reg_offset Eip = 56" | "reg_offset Cs = 60"
| "reg_offset Eflags = 64" | "reg_offset Useresp = 68" | "reg_offset Ss = 72"

definition frame_reg :: "memory \<Rightarrow> u32 \<Rightarrow> reg \<Rightarrow> u32" where
  "frame_reg m r x = load32 m (r + reg_offset x)"

definition set_frame_reg :: "u32 \<Rightarrow> reg \<Rightarrow> u32 \<Rightarrow> memory \<Rightarrow> memory" where
  "set_frame_reg r x v m = store32 m (r + reg_offset x) v"

section \<open>Creating and destroying a process\<close>

text \<open>The frame a new process starts from.\<close>

definition process_frame :: "u32 \<Rightarrow> memory \<Rightarrow> memory" where
  "process_frame process m =
    (let r = process_esp m process;
         m = set_frame_reg r Gs 16 m;
         m = set_frame_reg r Fs 16 m;
         m = set_frame_reg r Es 16 m;
         m = set_frame_reg r Ds 16 m;
         m = set_frame_reg r Edi 0 m;
         m = set_frame_reg r Esi 0 m;
         m = set_frame_reg r Ebp (process_ebp m process) m;
         m = set_frame_reg r Esp (process_esp m process) m;
         m = set_frame_reg r Ebx 0 m;
         m = set_frame_reg r Edx 0 m;
         m = set_frame_reg r Ecx 0 m;
         m = set_frame_reg r Eax 0 m;
         m = set_frame_reg r Irq 32 m;
         m = set_frame_reg r Err 0 m;
         m = set_frame_reg r Eip (process_eip m process) m;
         m = set_frame_reg r Cs 8 m;
         m = set_frame_reg r Eflags 518 m;
         m = set_frame_reg r Useresp 0 m
     in set_frame_reg r Ss 0 m)"

definition process_fields :: "u32 \<Rightarrow> u32 \<Rightarrow> u32 \<Rightarrow> u32 \<Rightarrow> memory \<Rightarrow> memory" where
  "process_fields process stack ident eip m =
    (let m = set_process_id process ident m;
         m = set_process_ebp process (stack + PROCESS_STACK_LENGTH) m;
         m = set_process_esp process (stack + PROCESS_STACK_LENGTH - 76) m;
         m = set_process_eip process eip m;
         m = set_process_state process PROCESS_STATE_WAITING m
     in set_process_sleep process 0 m)"

definition process_create :: "u32 \<Rightarrow> kernel \<Rightarrow> u32 krun" where
  "process_create eip s =
    (if eip = 0 then halt ''eip''
     else andthen (malloc 24 s) (\<lambda>process s.
       if process = 0 then halt ''process''
       else andthen (malloc PROCESS_STACK_LENGTH s) (\<lambda>stack s.
         if stack = 0 then halt ''stack''
         else
           let ident = next_id s;
               s = s\<lparr>next_id := ident + 1\<rparr>;
               m = process_fields process stack ident eip (mem s)
           in ret process (s\<lparr>mem := process_frame process m\<rparr>))))"

definition process_destroy :: "u32 \<Rightarrow> kernel \<Rightarrow> unit krun" where
  "process_destroy process s =
    (if process = 0 then halt ''process''
     else andthen (free (process_ebp (mem s) process - PROCESS_STACK_LENGTH) s)
            (\<lambda>_ s. free process s))"

section \<open>Interrupt entry and exit\<close>

text \<open>The registers an interrupt saves and restores.\<close>

record cpu =
  cpu_gs :: u32
  cpu_fs :: u32
  cpu_es :: u32
  cpu_ds :: u32
  cpu_edi :: u32
  cpu_esi :: u32
  cpu_ebp :: u32
  cpu_ebx :: u32
  cpu_edx :: u32
  cpu_ecx :: u32
  cpu_eax :: u32
  cpu_eip :: u32
  cpu_cs :: u32
  cpu_eflags :: u32
  cpu_esp :: u32

definition push :: "u32 \<Rightarrow> u32 \<times> memory \<Rightarrow> u32 \<times> memory" where
  "push v = (\<lambda>(esp, m). (esp - 4, store32 m (esp - 4) v))"

definition pop :: "u32 \<times> memory \<Rightarrow> u32 \<times> u32" where
  "pop = (\<lambda>(esp, m). (load32 m esp, esp + 4))"

text \<open>What the processor pushes, then \<open>isr%1\<close> and \<open>isr_common\<close> up to the call of
  \<open>irq_handler\<close>: the frame, and below it the address of the frame as the argument of the handler. The result is that address
  and the memory. The return address of the call and the frames of the C functions, further down, are left out.\<close>

definition isr_common :: "u32 \<Rightarrow> u32 \<Rightarrow> cpu \<Rightarrow> memory \<Rightarrow> u32 \<times> memory" where
  "isr_common vector err c m =
    (let st = push (cpu_eip c) (push (cpu_cs c) (push (cpu_eflags c) (cpu_esp c, m)));
         st = push vector (push err st);
         esp = fst st;
         st = push (cpu_ebx c) (push (cpu_edx c) (push (cpu_ecx c) (push (cpu_eax c) st)));
         st = push (cpu_edi c) (push (cpu_esi c) (push (cpu_ebp c) (push esp st)));
         st = push (cpu_gs c) (push (cpu_fs c) (push (cpu_es c) (push (cpu_ds c) st)));
         eax = fst st
     in (eax, snd (push eax st)))"

definition isr_restore :: "memory \<Rightarrow> u32 \<Rightarrow> cpu" where
  "isr_restore m esp =
    (let (gs, esp) = pop (esp, m);
         (fs, esp) = pop (esp, m);
         (es, esp) = pop (esp, m);
         (ds, esp) = pop (esp, m);
         (edi, esp) = pop (esp, m);
         (esi, esp) = pop (esp, m);
         (ebp, esp) = pop (esp, m);
         (_, esp) = pop (esp, m);
         (ebx, esp) = pop (esp, m);
         (edx, esp) = pop (esp, m);
         (ecx, esp) = pop (esp, m);
         (eax, esp) = pop (esp, m);
         esp = esp + 8;
         (eip, esp) = pop (esp, m);
         (cs, esp) = pop (esp, m);
         (eflags, esp) = pop (esp, m)
     in \<lparr>cpu_gs = gs, cpu_fs = fs, cpu_es = es, cpu_ds = ds, cpu_edi = edi, cpu_esi = esi,
         cpu_ebp = ebp, cpu_ebx = ebx, cpu_edx = edx, cpu_ecx = ecx, cpu_eax = eax,
         cpu_eip = eip, cpu_cs = cs, cpu_eflags = eflags, cpu_esp = esp\<rparr>)"

lemma isr_restore_frame:
  "isr_restore m r =
    \<lparr>cpu_gs = frame_reg m r Gs, cpu_fs = frame_reg m r Fs, cpu_es = frame_reg m r Es,
     cpu_ds = frame_reg m r Ds, cpu_edi = frame_reg m r Edi, cpu_esi = frame_reg m r Esi,
     cpu_ebp = frame_reg m r Ebp, cpu_ebx = frame_reg m r Ebx, cpu_edx = frame_reg m r Edx,
     cpu_ecx = frame_reg m r Ecx, cpu_eax = frame_reg m r Eax, cpu_eip = frame_reg m r Eip,
     cpu_cs = frame_reg m r Cs, cpu_eflags = frame_reg m r Eflags, cpu_esp = r + 68\<rparr>"
  by (simp add: isr_restore_def pop_def frame_reg_def add.assoc)

lemma frame_reg_same [simp]: "frame_reg (set_frame_reg r x v m) r x = v"
  by (simp add: frame_reg_def set_frame_reg_def)

lemma frame_reg_other [simp]:
  "x \<noteq> y \<Longrightarrow> frame_reg (set_frame_reg r x v m) r y = frame_reg m r y"
  unfolding frame_reg_def set_frame_reg_def
  by (rule load32_store32_field; cases x; cases y; simp)

lemma set_frame_reg_same_on:
  assumes "same_on S m m'" and "S \<inter> region r 76 = {}"
  shows "same_on S m (set_frame_reg r x v m')"
proof -
  have "region (r + reg_offset x) 4 \<subseteq> region r 76"
    by (cases x; rule region_shift_subset) simp_all
  then have "S \<inter> region (r + reg_offset x) 4 = {}" using assms(2) by blast
  then show ?thesis unfolding set_frame_reg_def
    by (rule same_on_trans [OF assms(1) same_on_store32])
qed

text \<open>The argument below the frame is no part of it.\<close>

lemma frame_reg_below [simp]:
  "frame_reg (store32 m (r - 4) v) r x = frame_reg m r x" "frame_reg (store32 m (a - 72) v) (a - 68) x = frame_reg m (a - 68) x"
proof -
  have "load32 (store32 m (r - 4 + 0) v) (r - 4 + (4 + reg_offset x)) = load32 m (r - 4 + (4 + reg_offset x))" for r
    by (rule load32_store32_field; cases x; simp)
  then have *: "frame_reg (store32 m (r - 4) v) r x = frame_reg m r x" for r
    by (simp add: frame_reg_def algebra_simps)
  show "frame_reg (store32 m (r - 4) v) r x = frame_reg m r x" by (rule *)
  show "frame_reg (store32 m (a - 72) v) (a - 68) x = frame_reg m (a - 68) x" using * [of "a - 68"] by simp
qed

lemma frame_below: "region r 76 \<subseteq> region (r - 4) 80" "region r 68 \<subseteq> region (r - 4) 80" "region (r - 4) 4 \<subseteq> region (r - 4) 80"
proof -
  show "region r 76 \<subseteq> region (r - 4) 80" using region_shift_subset [of 4 76 80 "r - 4"] by simp
  show "region r 68 \<subseteq> region (r - 4) 80" using region_shift_subset [of 4 68 80 "r - 4"] by simp
  show "region (r - 4) 4 \<subseteq> region (r - 4) 80" by (rule region_mono) simp
qed

lemma isr_common_frame:
  "isr_common vector err c m =
    (cpu_esp c - 68,
     (let r = cpu_esp c - 68 in
      store32 (set_frame_reg r Gs (cpu_gs c) (set_frame_reg r Fs (cpu_fs c) (set_frame_reg r Es (cpu_es c)
      (set_frame_reg r Ds (cpu_ds c) (set_frame_reg r Edi (cpu_edi c) (set_frame_reg r Esi (cpu_esi c)
      (set_frame_reg r Ebp (cpu_ebp c) (set_frame_reg r Esp (cpu_esp c - 20)
      (set_frame_reg r Ebx (cpu_ebx c) (set_frame_reg r Edx (cpu_edx c) (set_frame_reg r Ecx (cpu_ecx c)
      (set_frame_reg r Eax (cpu_eax c) (set_frame_reg r Irq vector (set_frame_reg r Err err
      (set_frame_reg r Eip (cpu_eip c) (set_frame_reg r Cs (cpu_cs c)
      (set_frame_reg r Eflags (cpu_eflags c) m))))))))))))))))) (r - 4) r))"
  by (simp add: isr_common_def push_def set_frame_reg_def Let_def)

lemma isr_restore_cong:
  assumes "same_on (region r 68) m m'"
  shows "isr_restore m' r = isr_restore m r"
proof -
  have "frame_reg m' r x = frame_reg m r x" if "x \<noteq> Useresp" "x \<noteq> Ss" for x
  proof -
    have "region (r + reg_offset x) 4 \<subseteq> region r 68"
      using that by (cases x; intro region_shift_subset) simp_all
    then show ?thesis unfolding frame_reg_def by (intro load32_cong same_on_mono [OF assms])
  qed
  then show ?thesis by (simp add: isr_restore_frame)
qed

lemma isr_restore_common:
  "isr_common vector err c m = (r, m') \<Longrightarrow> isr_restore m' r = c"
  by (auto simp: isr_common_frame isr_restore_frame Let_def)

lemma isr_common_same_on:
  assumes "isr_common vector err c m = (r, m')" and "S \<inter> region (cpu_esp c - 72) 80 = {}"
  shows "same_on S m m'"
proof -
  have S: "S \<inter> region (cpu_esp c - 68) 76 = {}" "S \<inter> region (cpu_esp c - 68 - 4) 4 = {}"
    using assms(2) frame_below [of "cpu_esp c - 68"] by auto
  have m': "m' = snd (isr_common vector err c m)" using assms(1) by simp
  show ?thesis unfolding m' isr_common_frame Let_def snd_conv
    by (rule same_on_trans [OF _ same_on_store32 [OF S(2)]]) (intro set_frame_reg_same_on same_on_refl S(1))
qed

section \<open>Process fields in memory\<close>

lemmas process_defs = process_id_def process_esp_def process_ebp_def process_eip_def
  process_state_def process_sleep_def set_process_id_def set_process_esp_def set_process_ebp_def
  set_process_eip_def set_process_state_def set_process_sleep_def

lemma process_region:
  "region p 4 \<subseteq> region p 24" "region (p + 4) 4 \<subseteq> region p 24" "region (p + 8) 4 \<subseteq> region p 24"
  "region (p + 12) 4 \<subseteq> region p 24" "region (p + 20) 4 \<subseteq> region p 24" "p + 16 \<in> region p 24"
  using region_shift_subset [of 4 4 24 p] region_shift_subset [of 8 4 24 p]
    region_shift_subset [of 12 4 24 p] region_shift_subset [of 20 4 24 p] region_mono [of 4 24 p]
  by (simp_all add: in_region_iff)

lemma process_cong:
  assumes "same_on (region p 24) m m'"
  shows "process_id m' p = process_id m p" "process_esp m' p = process_esp m p"
    "process_ebp m' p = process_ebp m p" "process_eip m' p = process_eip m p"
    "process_state m' p = process_state m p" "process_sleep m' p = process_sleep m p"
  unfolding process_defs using process_region [of p] same_onD [OF assms]
  by (auto intro!: load32_cong intro: same_on_mono [OF assms])

lemma same_on_process:
  assumes "same_on S m m'" and "S \<inter> region p 24 = {}"
  shows "same_on S m (set_process_id p v m')" "same_on S m (set_process_esp p v m')"
    "same_on S m (set_process_ebp p v m')" "same_on S m (set_process_eip p v m')"
    "same_on S m (set_process_state p w m')" "same_on S m (set_process_sleep p v m')"
proof -
  have st: "region a 4 \<subseteq> region p 24 \<Longrightarrow> same_on S m (store32 m' a v)" for a
    using same_on_trans [OF assms(1) same_on_store32] assms(2) by blast
  show "same_on S m (set_process_id p v m')" "same_on S m (set_process_esp p v m')"
    "same_on S m (set_process_ebp p v m')" "same_on S m (set_process_eip p v m')"
    "same_on S m (set_process_sleep p v m')"
    unfolding process_defs using process_region [of p] by (auto intro: st)
  show "same_on S m (set_process_state p w m')"
    unfolding process_defs using process_region(6) [of p] assms(2)
    by (intro same_on_trans [OF assms(1) same_on_store8]) blast
qed

lemma process_same [simp]:
  "process_id (set_process_id p v m) p = v" "process_id (set_process_esp p v m) p = process_id m p"
  "process_id (set_process_state p w m) p = process_id m p" "process_id (set_process_sleep p v m) p = process_id m p"
  "process_esp (set_process_esp p v m) p = v" "process_esp (set_process_state p w m) p = process_esp m p"
  "process_esp (set_process_sleep p v m) p = process_esp m p"
  "process_ebp (set_process_esp p v m) p = process_ebp m p" "process_ebp (set_process_state p w m) p = process_ebp m p"
  "process_ebp (set_process_sleep p v m) p = process_ebp m p"
  "process_eip (set_process_esp p v m) p = process_eip m p" "process_eip (set_process_state p w m) p = process_eip m p"
  "process_eip (set_process_sleep p v m) p = process_eip m p"
  "process_state (set_process_esp p v m) p = process_state m p" "process_state (set_process_state p w m) p = w"
  "process_state (set_process_sleep p v m) p = process_state m p"
  "process_sleep (set_process_esp p v m) p = process_sleep m p" "process_sleep (set_process_state p w m) p = process_sleep m p"
  "process_sleep (set_process_sleep p v m) p = v"
  by (simp_all add: process_defs frame_simps)

lemma process_fields_read:
  fixes p stack ident eip :: u32 and m :: memory
  defines "m' \<equiv> process_fields p stack ident eip m"
  shows "process_id m' p = ident" "process_ebp m' p = stack + 8192" "process_esp m' p = stack + 8116"
    "process_eip m' p = eip" "process_state m' p = 0" "process_sleep m' p = 0"
    and "S \<inter> region p 24 = {} \<Longrightarrow> same_on S m m'"
proof -
  have top: "stack + 8192 - 76 = stack + 8116" by simp
  show "process_id m' p = ident" "process_ebp m' p = stack + 8192" "process_esp m' p = stack + 8116"
    "process_eip m' p = eip" "process_state m' p = 0" "process_sleep m' p = 0"
    unfolding m'_def process_fields_def Let_def process_defs top by (simp_all add: frame_simps)
  show "same_on S m m'" if "S \<inter> region p 24 = {}"
    unfolding m'_def process_fields_def Let_def using that by (intro same_on_process same_on_refl)
qed

text \<open>The registers a new process starts with.\<close>

definition start_cpu :: "u32 \<Rightarrow> u32 \<Rightarrow> cpu" where
  "start_cpu stack eip =
    \<lparr>cpu_gs = 16, cpu_fs = 16, cpu_es = 16, cpu_ds = 16, cpu_edi = 0, cpu_esi = 0,
     cpu_ebp = stack + 8192, cpu_ebx = 0, cpu_edx = 0, cpu_ecx = 0, cpu_eax = 0,
     cpu_eip = eip, cpu_cs = 8, cpu_eflags = 518, cpu_esp = stack + 8184\<rparr>"

lemma process_frame_read:
  fixes p :: u32 and m :: memory
  assumes "region (process_esp m p) 76 \<inter> region p 24 = {}"
  defines "m' \<equiv> process_frame p m"
  shows "same_on (- region (process_esp m p) 76) m m'"
    and "process_ebp m p = stack + 8192 \<Longrightarrow> process_esp m p = stack + 8116 \<Longrightarrow>
      isr_restore m' (stack + 8116) = start_cpu stack (process_eip m p)"
proof -
  define r where "r = process_esp m p"
  have off: "region p 24 \<inter> region r 76 = {}" using assms(1) by (auto simp: r_def)
  have keep: "same_on (region p 24) m x \<Longrightarrow> process_ebp x p = process_ebp m p"
      "same_on (region p 24) m x \<Longrightarrow> process_esp x p = r"
      "same_on (region p 24) m x \<Longrightarrow> process_eip x p = process_eip m p" for x
    using process_cong [of p m x] by (simp_all add: r_def)
  have step: "same_on S m x \<Longrightarrow> S \<inter> region r 76 = {} \<Longrightarrow> same_on S m (set_frame_reg r y v x)" for S x y v
    by (rule set_frame_reg_same_on)
  have m': "m' = (let m = set_frame_reg r Gs 16 m; m = set_frame_reg r Fs 16 m;
      m = set_frame_reg r Es 16 m; m = set_frame_reg r Ds 16 m; m = set_frame_reg r Edi 0 m;
      m = set_frame_reg r Esi 0 m; m = set_frame_reg r Ebp (stack + 8192) m; m = set_frame_reg r Esp r m;
      m = set_frame_reg r Ebx 0 m; m = set_frame_reg r Edx 0 m; m = set_frame_reg r Ecx 0 m;
      m = set_frame_reg r Eax 0 m; m = set_frame_reg r Irq 32 m; m = set_frame_reg r Err 0 m;
      m = set_frame_reg r Eip eip m; m = set_frame_reg r Cs 8 m; m = set_frame_reg r Eflags 518 m;
      m = set_frame_reg r Useresp 0 m in set_frame_reg r Ss 0 m)"
    if "process_ebp m p = stack + 8192" "process_eip m p = eip" for stack eip
    unfolding m'_def process_frame_def Let_def r_def [symmetric]
    by (simp add: keep step off that)
  show "same_on (- region (process_esp m p) 76) m m'"
    unfolding m' [of "process_ebp m p - 8192", OF _ refl, simplified] Let_def r_def [symmetric]
    by (intro set_frame_reg_same_on same_on_refl) simp_all
  show "isr_restore m' (stack + 8116) = start_cpu stack (process_eip m p)"
    if "process_ebp m p = stack + 8192" "process_esp m p = stack + 8116"
    using that by (simp add: m' Let_def isr_restore_frame start_cpu_def r_def)
qed

section \<open>A process in the heap\<close>

text \<open>The two blocks of a process: its structure and its stack.\<close>

definition process_blocks :: "memory \<Rightarrow> (u32 \<rightharpoonup> u32) \<Rightarrow> u32 \<Rightarrow> bool" where
  "process_blocks m L p \<longleftrightarrow> (\<exists>k j. L p = Some k \<and> 24 \<le> k \<and>
     L (process_ebp m p - PROCESS_STACK_LENGTH) = Some j \<and> 8192 \<le> j \<and>
     p \<noteq> process_ebp m p - PROCESS_STACK_LENGTH)"

lemma process_create_rep:
  assumes h: "heap_holds s A L" and eip: "eip \<noteq> 0"
  shows "process_create eip s = halt ''chunk'' \<or>
    (\<exists>p stack k j m. process_create eip s = ret p (s\<lparr>mem := m, next_id := next_id s + 1\<rparr>) \<and>
       p \<noteq> 0 \<and> L p = None \<and> L stack = None \<and> p \<noteq> stack \<and> 24 \<le> k \<and> 8192 \<le> j \<and>
       heap_holds (s\<lparr>mem := m\<rparr>) A (L(p \<mapsto> k, stack \<mapsto> j)) \<and>
       process_id m p = next_id s \<and> process_ebp m p = stack + 8192 \<and> process_esp m p = stack + 8116 \<and>
       process_eip m p = eip \<and> process_state m p = PROCESS_STATE_WAITING \<and> process_sleep m p = 0 \<and>
       isr_restore m (process_esp m p) = start_cpu stack eip \<and>
       same_on (- A \<union> blocks L) (mem s) m)"
proof -
  have n24: "(24 :: u32) \<noteq> 0" and n8192: "(8192 :: u32) \<noteq> 0" by simp_all
  show ?thesis
  proof (cases rule: malloc_cases [OF h n24])
    case 1
    then show ?thesis using eip by (simp add: process_create_def)
  next
    case first: (2 p k m1)
    note h1 = first(4)
    show ?thesis
    proof (cases rule: malloc_cases [OF h1 n8192])
      case 1
      then show ?thesis using eip first by (simp add: process_create_def)
    next
      case second: (2 stack j m2)
      let ?L = "L(p \<mapsto> k, stack \<mapsto> j)"
      have ne: "p \<noteq> stack" "L stack = None" using second(3) by (auto split: if_splits)
      have h2: "heap_holds (s\<lparr>mem := m2\<rparr>) A ?L" using second(4) by simp
      define m3 where "m3 = process_fields p stack (next_id s) eip m2"
      note f = process_fields_read [where p = p and stack = stack and ident = "next_id s" and eip = eip and m = m2,
          folded m3_def]
      define m4 where "m4 = process_frame p m3"
      have k24: "24 \<le> unat k" and j8192: "8192 \<le> unat j"
        using first(2) second(2) by (simp_all add: word_le_nat_alt)
      have rp: "region p 24 \<subseteq> region p (unat k)" using k24 by (rule region_mono)
      have rs: "region (stack + 8116) 76 \<subseteq> region stack (unat j)"
        using j8192 unat_lt32 [of j] by (intro region_shift_subset) simp_all
      have disj: "region p (unat k) \<inter> region stack (unat j) = {}"
        using kheap.blocks_disjoint [OF h2, of p k stack j] ne by simp
      have off: "region (process_esp m3 p) 76 \<inter> region p 24 = {}" using rp rs disj f(3) by auto
      note fr = process_frame_read [OF off, folded m4_def]
      have keep: "same_on S m2 m4" if "S \<inter> region p (unat k) = {}" "S \<inter> region stack (unat j) = {}" for S
      proof (rule same_on_trans)
        show "same_on S m2 m3" using rp that(1) by (intro f(7)) blast
        show "same_on S m3 m4" using fr(1) rs that(2) f(3) by (intro same_on_mono [OF fr(1)]) auto
      qed
      have "same_on (A - blocks ?L) m2 m4"
        using block_subset [of ?L p k] block_subset [of ?L stack j] ne by (intro keep) auto
      then have "heap_holds (s\<lparr>mem := m4\<rparr>) A ?L" using kheap.holds_cong [OF h2, of m4] by simp
      moreover have "same_on (region p 24) m3 m4"
        using off by (intro same_on_mono [OF fr(1)]) blast
      note pc = process_cong [OF this]
      have "process_id m4 p = next_id s \<and> process_ebp m4 p = stack + 8192 \<and> process_esp m4 p = stack + 8116 \<and>
         process_eip m4 p = eip \<and> process_state m4 p = 0 \<and> process_sleep m4 p = 0"
        using pc f by simp
      moreover have "isr_restore m4 (stack + 8116) = start_cpu stack eip" using fr(2) f by simp
      moreover have "same_on (- A \<union> blocks L) (mem s) m4"
      proof (rule same_on_trans [OF first(5) same_on_trans])
        have sub: "blocks L \<subseteq> blocks (L(p \<mapsto> k))"
          using first(3) by (intro blocks_mono) (auto simp: map_le_def)
        have s5: "same_on (- A \<union> blocks (L(p \<mapsto> k))) m1 m2" using second(5) by (simp del: fun_upd_apply)
        show "same_on (- A \<union> blocks L) m1 m2"
          by (rule same_on_mono [OF s5]) (use sub in blast)
        have "L \<subseteq>\<^sub>m ?L" using first(3) ne by (auto simp: map_le_def)
        note away = kheap.fresh_away [OF h2 _ _ this]
        show "same_on (- A \<union> blocks L) m2 m4"
          using away [of p k] away [of stack j] first(3) ne by (intro keep) auto
      qed
      moreover have "process_create eip s = ret p (s\<lparr>mem := m4, next_id := next_id s + 1\<rparr>)"
        using eip first second(1,6) by (simp add: process_create_def Let_def m3_def m4_def)
      ultimately show ?thesis using first(2,3,6) second(2) ne
        by (intro disjI2 exI [of _ p] exI [of _ stack] exI [of _ k] exI [of _ j] exI [of _ m4]) simp
    qed
  qed
qed

lemma process_destroy_rep:
  assumes h: "heap_holds s A L" and p: "process_blocks (mem s) L p"
  defines "stack \<equiv> process_ebp (mem s) p - PROCESS_STACK_LENGTH"
  shows "\<exists>m. process_destroy p s = ret () (s\<lparr>mem := m\<rparr>) \<and>
    heap_holds (s\<lparr>mem := m\<rparr>) A (L(stack := None, p := None)) \<and>
    same_on (- A \<union> blocks (L(stack := None, p := None))) (mem s) m"
proof -
  obtain k j where L: "L p = Some k" "L stack = Some j" "p \<noteq> stack"
    using p by (auto simp: process_blocks_def stack_def)
  have h': "heap_holds (s\<lparr>mem := mem s\<rparr>) A L" using h by simp
  obtain m1 where m1: "free stack s = ret () (s\<lparr>mem := m1\<rparr>)"
    "heap_holds (s\<lparr>mem := m1\<rparr>) A (L(stack := None))" "same_on (- A \<union> blocks L) (mem s) m1"
    using free_at [OF h' L(2)] by auto
  have "(L(stack := None)) p = Some k" using L by simp
  from m1(2) this obtain m2 where m2: "free p (s\<lparr>mem := m1\<rparr>) = ret () (s\<lparr>mem := m2\<rparr>)"
    "heap_holds (s\<lparr>mem := m2\<rparr>) A (L(stack := None, p := None))"
    "same_on (- A \<union> blocks (L(stack := None))) m1 m2"
    by (rule free_at)
  have "blocks (L(stack := None, p := None)) \<subseteq> blocks (L(stack := None))"
    "blocks (L(stack := None)) \<subseteq> blocks L"
    by (rule blocks_mono; simp add: map_le_def)+
  then have "same_on (- A \<union> blocks (L(stack := None, p := None))) (mem s) m2"
    by (intro same_on_trans [OF same_on_mono [OF m1(3)] same_on_mono [OF m2(3)]]) blast+
  then show ?thesis
    using m1(1) m2(1,2) kheap.block_nonnull [OF h L(1)] by (auto simp: process_destroy_def stack_def)
qed

section \<open>Properties\<close>

text \<open>A heap of one free chunk, large enough for a few processes.\<close>

definition example_room :: kernel where
  "example_room = (boot_state (set_chunk_len 4096 65536 (\<lambda>_. 0)))\<lparr>initialized := True, start_chunk := 4096\<rparr>"

abbreviation room_area :: "u32 set" where
  "room_area \<equiv> {x. 4096 \<le> unat x \<and> unat x < 69648}"

lemma example_room_inv: "heap_inv example_room [\<lparr>c_addr = 4096, c_len = 65536, c_used = False\<rparr>]"
  by (simp add: heap_inv_def example_room_def boot_state_def header_def chunk_ok_def c_end_def)

lemma example_room_holds: "heap_holds example_room room_area Map.empty"
  by (rule heap_holdsI [OF example_room_inv, of 69648]) (simp_all add: c_end_def example_room_def)

lemma example_room_create: "process_create 1000 example_room \<noteq> halt ''chunk''"
proof -
  have c: "carve 24 \<lparr>c_addr = 4096, c_len = 65536, c_used = False\<rparr> =
      [\<lparr>c_addr = 4096, c_len = 24, c_used = True\<rparr>, \<lparr>c_addr = 4136, c_len = 65496, c_used = False\<rparr>]"
    by (simp add: carve_def)
  have r: "alloc_list 24 [\<lparr>c_addr = 4096, c_len = 65536, c_used = False\<rparr>] =
      Some (4096, [\<lparr>c_addr = 4096, c_len = 24, c_used = True\<rparr>, \<lparr>c_addr = 4136, c_len = 65496, c_used = False\<rparr>])"
    by (simp add: fits_def c)
  have n: "(24 :: u32) \<noteq> 0" by simp
  obtain m where m: "malloc 24 example_room = ret 4112 (example_room\<lparr>mem := m\<rparr>)"
    and inv: "heap_inv (example_room\<lparr>mem := m\<rparr>)
      [\<lparr>c_addr = 4096, c_len = 24, c_used = True\<rparr>, \<lparr>c_addr = 4136, c_len = 65496, c_used = False\<rparr>]"
    using malloc_refines [OF example_room_inv n, unfolded r option.case prod.case] by auto
  have "malloc 8192 (example_room\<lparr>mem := m\<rparr>) \<noteq> halt ''chunk''"
    using inv by (rule malloc_room) (simp_all add: fits_def)
  then show ?thesis
    using m by (cases "malloc 8192 (example_room\<lparr>mem := m\<rparr>)" rule: run_cases)
      (simp_all add: process_create_def Let_def)
qed

text \<open>C11. An interrupt is transparent. The entry code leaves a frame just below the interrupted
  stack pointer, with its address below it as the argument of the handler, and writes nothing else; as long as the frame is not written, leaving through
  \<open>isr_restore\<close> at its address, now or after any number of switches to other stacks, gives back
  every register, the flags, the instruction pointer and the stack pointer.\<close>

theorem context_restored:
  assumes "isr_common vector err c m = (r, m')" and "same_on (region r 68) m' m''"
  shows "r = cpu_esp c - 68 \<and> isr_restore m'' r = c \<and> same_on (- region (r - 4) 80) m m' \<and>
     frame_reg m' r Irq = vector \<and> frame_reg m' r Err = err \<and> load32 m' (r - 4) = r"
proof -
  have r: "r = cpu_esp c - 68" using assms(1) by (simp add: isr_common_frame)
  moreover have "isr_restore m'' r = c"
    using isr_restore_cong [OF assms(2)] isr_restore_common [OF assms(1)] by simp
  moreover have "same_on (- region (r - 4) 80) m m'"
    using assms(1) by (rule isr_common_same_on) (simp add: r)
  moreover have "load32 m' (r - 4) = r" using assms(1) by (auto simp: isr_common_frame Let_def)
  moreover have "frame_reg m' r Irq = vector" "frame_reg m' r Err = err"
    using assms(1) by (auto simp: isr_common_frame Let_def)
  ultimately show ?thesis by blast
qed

theorem context_restored_witness:
  "isr_restore (snd (isr_common 32 0 (start_cpu 4096 1000) (\<lambda>_. 0))) 12212 = start_cpu 4096 1000"
  using context_restored [of 32 0 "start_cpu 4096 1000" "\<lambda>_. 0" 12212
      "snd (isr_common 32 0 (start_cpu 4096 1000) (\<lambda>_. 0))"
      "snd (isr_common 32 0 (start_cpu 4096 1000) (\<lambda>_. 0))"]
  by (simp add: isr_common_frame start_cpu_def)

text \<open>C12. \<open>process_create\<close> builds a runnable process. It stops in the allocator's assertion, or
  returns a fresh structure with a fresh stack of 8192 bytes: the process is waiting, has the next
  identifier, and its saved frame lies at the top of the stack, so that restoring it starts
  execution at the entry point with interrupts enabled, cleared general registers and the stack
  empty. Every block handed out before and all memory outside the heap are unchanged.\<close>

theorem process_create_runnable:
  assumes "heap_holds s A L" and "eip \<noteq> 0"
  shows "process_create eip s = halt ''chunk'' \<or>
    (\<exists>p stack k j m. process_create eip s = ret p (s\<lparr>mem := m, next_id := next_id s + 1\<rparr>) \<and>
       L p = None \<and> L stack = None \<and> p \<noteq> stack \<and> 24 \<le> k \<and> 8192 \<le> j \<and>
       heap_holds (s\<lparr>mem := m\<rparr>) A (L(p \<mapsto> k, stack \<mapsto> j)) \<and>
       process_id m p = next_id s \<and> process_ebp m p = stack + 8192 \<and>
       process_state m p = PROCESS_STATE_WAITING \<and> process_sleep m p = 0 \<and>
       region (process_esp m p) 76 \<subseteq> region stack 8192 \<and>
       isr_restore m (process_esp m p) = start_cpu stack eip \<and>
       same_on (- A \<union> blocks L) (mem s) m)"
proof -
  have "region (stack + 8116) 76 \<subseteq> region stack 8192" for stack :: u32
    by (rule region_shift_subset) simp_all
  then show ?thesis using process_create_rep [OF assms] by metis
qed

theorem process_create_runnable_witness:
  "\<exists>p stack m. process_create 1000 example_room = ret p (example_room\<lparr>mem := m, next_id := 1\<rparr>) \<and>
     isr_restore m (process_esp m p) = start_cpu stack 1000"
  using process_create_runnable [OF example_room_holds, of 1000] example_room_create
  by (auto simp: example_room_def boot_state_def)

text \<open>\<open>process_destroy\<close> releases both blocks of a process and nothing else.\<close>

theorem process_destroy_releases:
  assumes "heap_holds s A L" and "process_blocks (mem s) L p"
  shows "\<exists>m. process_destroy p s = ret () (s\<lparr>mem := m\<rparr>) \<and>
    heap_holds (s\<lparr>mem := m\<rparr>) A (L(process_ebp (mem s) p - 8192 := None, p := None)) \<and>
    same_on (- A \<union> blocks (L(process_ebp (mem s) p - 8192 := None, p := None))) (mem s) m"
  using assms by (rule process_destroy_rep)

theorem process_destroy_releases_witness:
  "\<exists>p s m. process_create 1000 example_room = ret p s \<and> process_destroy p s = ret () (s\<lparr>mem := m\<rparr>) \<and>
     heap_holds (s\<lparr>mem := m\<rparr>) room_area Map.empty"
proof -
  obtain p stack k j m where c: "process_create 1000 example_room = ret p (example_room\<lparr>mem := m, next_id := 1\<rparr>)"
    and h: "heap_holds (example_room\<lparr>mem := m\<rparr>) room_area [p \<mapsto> k, stack \<mapsto> j]"
    and b: "process_ebp m p = stack + 8192" "24 \<le> k" "8192 \<le> j" "p \<noteq> stack"
    using process_create_rep [OF example_room_holds, of 1000] example_room_create
    by (auto simp: example_room_def boot_state_def)
  have "process_blocks m [p \<mapsto> k, stack \<mapsto> j] p" using b by (simp add: process_blocks_def)
  moreover have "[p \<mapsto> k, stack \<mapsto> j](stack := None, p := None) = Map.empty" by (auto simp: fun_eq_iff)
  moreover have "heap_holds (example_room\<lparr>mem := m, next_id := 1\<rparr>) room_area [p \<mapsto> k, stack \<mapsto> j]" using h by simp
  ultimately show ?thesis
    using process_destroy_releases [of "example_room\<lparr>mem := m, next_id := 1\<rparr>" room_area "[p \<mapsto> k, stack \<mapsto> j]" p]
      c b(1) by auto
qed

end
