(* ===== verification/Scheduler.thy ===== *)
theory Scheduler
  imports Process
begin

text \<open>
  The round robin scheduler of \<open>execution/scheduler.c\<close>. A switch does not return to its caller:
  it loads a stack pointer and leaves through \<open>isr_restore\<close>, so routines that may switch say in
  their result whether they returned or which frame they resumed. The specification works on a
  table of processes read off the scheduler's list.
\<close>

section \<open>The operations\<close>

text \<open>How a routine leaves: to its caller, into the frame at an address, or not at all because it
  stopped the processor with interrupts off.\<close>

datatype control = Return | Resume u32 | Halt

definition scheduler_init :: "kernel \<Rightarrow> unit krun" where
  "scheduler_init s =
    andthen (list_create s) (\<lambda>lst s. ret () (s\<lparr>plist := lst, current := 0, enabled := False\<rparr>))"

fun scheduler_next_loop :: "memory \<Rightarrow> u32 \<Rightarrow> nat \<Rightarrow> u32 \<Rightarrow> u32" where
  "scheduler_next_loop m lst 0 node = 0"
| "scheduler_next_loop m lst (Suc n) node =
    (let node = node_next m node;
         node = (if node = 0 then list_head m lst else node)
     in if process_state m (node_value m node) = PROCESS_STATE_WAITING then node_value m node
        else scheduler_next_loop m lst n node)"

definition scheduler_next :: "kernel \<Rightarrow> u32 krun" where
  "scheduler_next s =
    andthen (if current s \<noteq> 0 then list_find (plist s) (current s) s
             else ret (list_head (mem s) (plist s)) s)
      (\<lambda>node s. ret (scheduler_next_loop (mem s) (plist s)
                      (unat (list_length (mem s) (plist s))) node) s)"

definition scheduler_switch :: "kernel \<Rightarrow> control krun" where
  "scheduler_switch s =
    andthen (scheduler_next s) (\<lambda>process s.
      let s = s\<lparr>current := process\<rparr> in
      if process = 0 then if kesp s = 0 then halt ''esp'' else ret (Resume (kesp s)) s
      else let m = set_process_state process PROCESS_STATE_RUNNING (mem s)
           in ret (Resume (process_esp m process)) (s\<lparr>mem := m\<rparr>))"

definition scheduler_tick_process :: "u32 \<Rightarrow> memory \<Rightarrow> memory" where
  "scheduler_tick_process process m =
    (if process_state m process = PROCESS_STATE_SLEEPING then
       if process_sleep m process = 0 then set_process_state process PROCESS_STATE_WAITING m
       else set_process_sleep process (process_sleep m process - 1) m
     else m)"

partial_function (option) scheduler_tick :: "u32 \<Rightarrow> memory \<Rightarrow> memory option" where
  "scheduler_tick node m =
    (if node = 0 then Some m
     else let m = scheduler_tick_process (node_value m node) m
          in scheduler_tick (node_next m node) m)"

definition scheduler_handle_irq :: "u32 \<Rightarrow> kernel \<Rightarrow> control krun" where
  "scheduler_handle_irq r s =
    (if r = 0 then halt ''r''
     else if \<not> enabled s then ret Return s
     else case scheduler_tick (list_head (mem s) (plist s)) (mem s) of
         None \<Rightarrow> None
       | Some m \<Rightarrow>
           let s = s\<lparr>mem := m\<rparr>;
               s = (if current s = 0 then s\<lparr>kesp := r\<rparr>
                    else s\<lparr>mem := set_process_state (current s) PROCESS_STATE_WAITING
                                    (set_process_esp (current s) r (mem s))\<rparr>)
           in scheduler_switch s)"

definition scheduler_enable :: "kernel \<Rightarrow> unit krun" where
  "scheduler_enable s = ret () (s\<lparr>enabled := True\<rparr>)"

definition scheduler_disable :: "kernel \<Rightarrow> unit krun" where
  "scheduler_disable s = ret () (s\<lparr>enabled := False\<rparr>)"

definition scheduler_process :: "kernel \<Rightarrow> u32" where
  "scheduler_process s = current s"

definition scheduler_start :: "u32 \<Rightarrow> kernel \<Rightarrow> unit krun" where
  "scheduler_start process s =
    (if process = 0 then halt ''process'' else list_insert (plist s) process s)"

definition scheduler_stop :: "u32 \<Rightarrow> kernel \<Rightarrow> control krun" where
  "scheduler_stop process s =
    (if process = 0 then halt ''process''
     else andthen (list_delete (plist s) process s) (\<lambda>_ s.
       andthen (process_destroy process s) (\<lambda>_ s.
         if current s = process then scheduler_switch (s\<lparr>current := 0\<rparr>) else ret Return s)))"

abbreviation (input) PIT_INTERRUPTS_PER_SECOND :: u32 where
  "PIT_INTERRUPTS_PER_SECOND \<equiv> 100"

definition scheduler_sleep :: "u32 \<Rightarrow> u32 \<Rightarrow> u32 \<Rightarrow> kernel \<Rightarrow> control krun" where
  "scheduler_sleep process ms r s =
    (if process = 0 then halt ''process''
     else
       let ticks = ms * PIT_INTERRUPTS_PER_SECOND div 1000;
           s = s\<lparr>mem := set_process_sleep process ticks
                          (set_process_state process PROCESS_STATE_SLEEPING (mem s))\<rparr>
       in if current s = process
          then scheduler_switch (s\<lparr>mem := set_process_esp (current s) r (mem s), current := 0\<rparr>)
          else ret Return s)"

section \<open>The process table\<close>

record proc =
  p_esp :: u32
  p_state :: u8
  p_sleep :: u32

type_synonym ptable = "(u32 \<times> proc) list"

definition proc_at :: "memory \<Rightarrow> u32 \<Rightarrow> proc" where
  "proc_at m v = \<lparr>p_esp = process_esp m v, p_state = process_state m v, p_sleep = process_sleep m v\<rparr>"

definition table :: "memory \<Rightarrow> u32 list \<Rightarrow> ptable" where
  "table m vs = map (\<lambda>v. (v, proc_at m v)) vs"

definition update_proc :: "u32 \<Rightarrow> (proc \<Rightarrow> proc) \<Rightarrow> ptable \<Rightarrow> ptable" where
  "update_proc v f = map (\<lambda>(u, p). (u, if u = v then f p else p))"

definition waiting :: "u32 \<times> proc \<Rightarrow> bool" where
  "waiting = (\<lambda>(v, p). p_state p = PROCESS_STATE_WAITING)"

text \<open>Round robin: the first waiting process after the current one, in list order and around;
  with no current process the search starts after the first.\<close>

definition turn_order :: "u32 \<Rightarrow> ptable \<Rightarrow> ptable" where
  "turn_order cur ps = rotate (if cur = 0 then 1 else Suc (length (takeWhile (\<lambda>(v, p). v \<noteq> cur) ps))) ps"

definition next_turn :: "u32 \<Rightarrow> ptable \<Rightarrow> (u32 \<times> proc) option" where
  "next_turn cur ps = find waiting (turn_order cur ps)"

definition tick_proc :: "proc \<Rightarrow> proc" where
  "tick_proc p =
    (if p_state p = PROCESS_STATE_SLEEPING then
       if p_sleep p = 0 then p\<lparr>p_state := PROCESS_STATE_WAITING\<rparr> else p\<lparr>p_sleep := p_sleep p - 1\<rparr>
     else p)"

definition tick_table :: "ptable \<Rightarrow> ptable" where
  "tick_table = map (\<lambda>(v, p). (v, tick_proc p))"

text \<open>The scheduler's list and processes in memory.\<close>

definition sched_rep :: "kernel \<Rightarrow> u32 set \<Rightarrow> (u32 \<rightharpoonup> u32) \<Rightarrow> node list \<Rightarrow> bool" where
  "sched_rep s A L ns \<longleftrightarrow> list_rep s A L (plist s) ns \<and> distinct (map snd ns) \<and>
     (\<forall>v \<in> snd ` set ns. (\<exists>k. L v = Some k \<and> 24 \<le> k) \<and> v \<noteq> plist s \<and> v \<notin> fst ` set ns) \<and>
     (current s = 0 \<or> current s \<in> snd ` set ns)"

lemma sched_repD:
  assumes "sched_rep s A L ns"
  shows "list_rep s A L (plist s) ns" and "distinct (map snd ns)"
    and "v \<in> snd ` set ns \<Longrightarrow> \<exists>k. L v = Some k \<and> 24 \<le> unat k"
    and "v \<in> snd ` set ns \<Longrightarrow> v \<noteq> plist s" and "v \<in> snd ` set ns \<Longrightarrow> v \<notin> fst ` set ns"
    and "current s = 0 \<or> current s \<in> snd ` set ns"
  using assms unfolding sched_rep_def word_le_nat_alt by (auto; force)+

lemma sched_apart:
  assumes "sched_rep s A L ns" and "v \<in> snd ` set ns"
  shows "region v 24 \<subseteq> blocks L" and "region v 24 \<subseteq> A" and "v \<noteq> 0"
    and "region (plist s) 8 \<inter> region v 24 = {}"
    and "a \<in> fst ` set ns \<Longrightarrow> region a 12 \<inter> region v 24 = {}"
    and "u \<in> snd ` set ns \<Longrightarrow> u \<noteq> v \<Longrightarrow> region u 24 \<inter> region v 24 = {}"
proof -
  note d = sched_repD [OF assms(1)]
  note r = list_repD [OF d(1)]
  obtain k where k: "L v = Some k" "24 \<le> unat k" using d(3) assms(2) by blast
  note sub = region_mono [OF k(2), of v]
  show "region v 24 \<subseteq> blocks L" using sub block_subset [of L v k] k(1) by blast
  show "region v 24 \<subseteq> A" using sub kheap.block_range [OF r(1) k(1)] by blast
  show "v \<noteq> 0" using r(1) k(1) by (rule kheap.block_nonnull)
  have away: "region q n \<inter> region v 24 = {}" if "L q = Some j" "n \<le> unat j" "q \<noteq> v" for q j n
    using kheap.blocks_disjoint [OF r(1) that(1) k(1) that(3)] sub region_mono [OF that(2), of q] by blast
  obtain j where "L (plist s) = Some j" "8 \<le> unat j" using list_blocksE [OF r(2)] by metis
  then show "region (plist s) 8 \<inter> region v 24 = {}" using away d(4) [OF assms(2)] by blast
  show "region a 12 \<inter> region v 24 = {}" if a: "a \<in> fst ` set ns"
  proof -
    obtain i where "L a = Some i" "12 \<le> unat i" using list_blocksE [OF r(2)] a by metis
    moreover have "a \<noteq> v" using d(5) [OF assms(2)] a by blast
    ultimately show ?thesis using away by blast
  qed
  show "region u 24 \<inter> region v 24 = {}" if u: "u \<in> snd ` set ns" "u \<noteq> v"
  proof -
    obtain i where "L u = Some i" "24 \<le> unat i" using d(3) [OF u(1)] by blast
    then show ?thesis using away u(2) by blast
  qed
qed

text \<open>Writes into process structures keep the list and the heap.\<close>

definition process_area :: "u32 list \<Rightarrow> u32 set" where
  "process_area vs = (\<Union>v \<in> set vs. region v 24)"

lemma sched_write:
  assumes rep: "sched_rep s A L ns" and m: "same_on (- process_area (map snd ns)) (mem s) m'"
  shows "sched_rep (s\<lparr>mem := m'\<rparr>) A L ns"
proof -
  note d = sched_repD [OF rep]
  note r = list_repD [OF d(1)]
  note ap = sched_apart [OF rep]
  have keep: "same_on X (mem s) m'" if "\<And>v. v \<in> snd ` set ns \<Longrightarrow> X \<inter> region v 24 = {}" for X
    using m by (rule same_on_mono) (use that in \<open>fastforce simp: process_area_def\<close>)
  have "same_on (A - blocks L) (mem s) m'" using ap(1) by (intro keep) blast
  then have "heap_holds (s\<lparr>mem := m'\<rparr>) A L" using kheap.holds_cong [OF r(1)] by simp
  moreover have "chain m' 0 ns 0" using r(5) chain_cong [of ns "mem s" m'] keep ap(5) by blast
  moreover have "same_on (region (plist s) 8) (mem s) m'" using ap(4) by (intro keep) blast
  ultimately have "list_rep (s\<lparr>mem := m'\<rparr>) A L (plist s) ns"
    using r list_header_cong [of "plist s" "mem s" m'] by (simp add: list_rep_def)
  then show ?thesis using rep by (simp add: sched_rep_def)
qed

lemma sched_rep_cur:
  "sched_rep s A L ns \<Longrightarrow> v = 0 \<or> v \<in> snd ` set ns \<Longrightarrow> sched_rep (s\<lparr>current := v\<rparr>) A L ns"
  by (simp add: sched_rep_def list_rep_def)

lemma current_mem_commute: "s\<lparr>current := v, mem := m\<rparr> = s\<lparr>mem := m, current := v\<rparr>" for s :: kernel
  by (cases s) simp

lemma sched_rep_kesp: "sched_rep (s\<lparr>kesp := v\<rparr>) A L ns = sched_rep s A L ns"
  by (simp add: sched_rep_def list_rep_def)

section \<open>The table and writes to one process\<close>

lemma table_cong:
  "(\<And>v. v \<in> set vs \<Longrightarrow> same_on (region v 24) m m') \<Longrightarrow> table m' vs = table m vs"
  by (auto simp: table_def proc_at_def process_cong)

lemma table_write:
  assumes "same_on (- region v 24) m m'" and "proc_at m' v = f (proc_at m v)"
    and "\<And>u. u \<in> set vs \<Longrightarrow> u \<noteq> v \<Longrightarrow> region u 24 \<inter> region v 24 = {}"
  shows "table m' vs = update_proc v f (table m vs)"
proof -
  have "proc_at m' u = proc_at m u" if "u \<in> set vs" "u \<noteq> v" for u
  proof -
    have "same_on (region u 24) m m'"
      using assms(1) by (rule same_on_mono) (use assms(3) [OF that] in blast)
    then show ?thesis by (simp add: proc_at_def process_cong)
  qed
  then show ?thesis using assms(2) by (auto simp: table_def update_proc_def)
qed

lemma tick_process_at:
  "proc_at (scheduler_tick_process v m) v = tick_proc (proc_at m v)"
  "same_on (- region v 24) m (scheduler_tick_process v m)"
  by (auto simp: scheduler_tick_process_def proc_at_def tick_proc_def intro!: same_on_process)

lemma tick_fold_same_on:
  "same_on (- process_area vs) m (fold scheduler_tick_process vs m)"
proof (induction vs arbitrary: m)
  case Nil
  then show ?case by simp
next
  case (Cons v vs)
  have "same_on (- process_area (v # vs)) m (scheduler_tick_process v m)"
    using tick_process_at(2) by (rule same_on_mono) (auto simp: process_area_def)
  moreover have "same_on (- process_area (v # vs)) (scheduler_tick_process v m) (fold scheduler_tick_process (v # vs) m)"
    using same_on_mono [OF Cons.IH [of "scheduler_tick_process v m"]] by (auto simp: process_area_def)
  ultimately show ?case by (rule same_on_trans)
qed

lemma tick_fold_table:
  assumes "distinct vs" and "\<And>u v. u \<in> set vs \<Longrightarrow> v \<in> set vs \<Longrightarrow> u \<noteq> v \<Longrightarrow> region u 24 \<inter> region v 24 = {}"
  shows "table (fold scheduler_tick_process vs m) vs = tick_table (table m vs)"
  using assms
proof (induction vs arbitrary: m)
  case Nil
  then show ?case by (simp add: table_def tick_table_def)
next
  case (Cons v vs)
  let ?m = "scheduler_tick_process v m"
  have rest: "table (fold scheduler_tick_process vs ?m) vs = tick_table (table ?m vs)"
    using Cons by simp
  have "table ?m vs = table m vs"
  proof (rule table_cong)
    fix u assume "u \<in> set vs"
    then have "region u 24 \<inter> region v 24 = {}" using Cons.prems(1) Cons.prems(2) [of u v] by auto
    then show "same_on (region u 24) m ?m" using tick_process_at(2) by (intro same_on_mono [OF tick_process_at(2)]) blast
  qed
  moreover have "proc_at (fold scheduler_tick_process vs ?m) v = proc_at ?m v"
  proof -
    have "same_on (region v 24) ?m (fold scheduler_tick_process vs ?m)"
    proof (rule same_on_mono [OF tick_fold_same_on])
      have "region v 24 \<inter> region u 24 = {}" if "u \<in> set vs" for u
        using Cons.prems(1) Cons.prems(2) [of v u] that by auto
      then show "region v 24 \<subseteq> - process_area vs" unfolding process_area_def by blast
    qed
    then show ?thesis by (simp add: proc_at_def process_cong)
  qed
  ultimately show ?case using rest tick_process_at(1) [of v m] by (simp add: table_def tick_table_def)
qed

lemma tick_run:
  assumes "chain m p ns 0" and "0 \<notin> fst ` set ns"
    and "\<And>a v. a \<in> fst ` set ns \<Longrightarrow> v \<in> snd ` set ns \<Longrightarrow> region a 12 \<inter> region v 24 = {}"
  shows "scheduler_tick (first_node ns 0) m = Some (fold scheduler_tick_process (map snd ns) m)"
  using assms
proof (induction ns arbitrary: p m)
  case Nil
  then show ?case by (simp add: scheduler_tick.simps)
next
  case (Cons x ns)
  obtain a v where x: "x = (a, v)" by fastforce
  let ?m = "scheduler_tick_process v m"
  have same: "same_on (region b 12) m ?m" if "b \<in> fst ` set (x # ns)" for b
    using tick_process_at(2) by (rule same_on_mono) (use Cons.prems(3) [OF that, of v] x in auto)
  have ch: "node_value m a = v" "node_next m a = first_node ns 0" "chain m a ns 0"
    using Cons.prems(1) x by simp_all
  have "chain ?m a ns 0" using ch(3) chain_cong [of ns m ?m] same by auto
  moreover have "node_next ?m a = first_node ns 0" using ch(2) node_cong(2) [OF same] x by simp
  moreover have "a \<noteq> 0" using Cons.prems(2) x by auto
  ultimately show ?case using Cons.IH [of ?m a] Cons.prems x ch(1)
    by (subst scheduler_tick.simps) simp
qed

section \<open>The choice of the next process\<close>

lemma chain_nth:
  assumes "chain m p ns 0" and "i < length ns"
  shows "node_value m (fst (ns ! i)) = snd (ns ! i)"
    and "node_next m (fst (ns ! i)) = (if Suc i < length ns then fst (ns ! Suc i) else 0)"
proof -
  have "node_value m (fst (ns ! i)) = snd (ns ! i) \<and>
      node_next m (fst (ns ! i)) = (if Suc i < length ns then fst (ns ! Suc i) else 0)"
    using assms
  proof (induction ns arbitrary: p i)
    case (Cons x ns)
    obtain a v where x: "x = (a, v)" by fastforce
    show ?case
    proof (cases i)
      case 0
      with Cons.prems x show ?thesis by (cases ns) (auto simp: first_node_def)
    next
      case (Suc j)
      with Cons.prems x Cons.IH [of a j] show ?thesis by simp
    qed
  qed simp
  then show "node_value m (fst (ns ! i)) = snd (ns ! i)"
    and "node_next m (fst (ns ! i)) = (if Suc i < length ns then fst (ns ! Suc i) else 0)"
    by blast+
qed

lemma take_rotate:
  assumes "Suc n \<le> length xs"
  shows "take (Suc n) (rotate k xs) = xs ! (k mod length xs) # take n (rotate (Suc k) xs)"
proof (rule nth_equalityI)
  fix i assume "i < length (take (Suc n) (rotate k xs))"
  then have i: "i < Suc n" by simp
  show "take (Suc n) (rotate k xs) ! i = (xs ! (k mod length xs) # take n (rotate (Suc k) xs)) ! i"
  proof (cases i)
    case 0
    have "0 < length xs" using assms by linarith
    with 0 show ?thesis using nth_rotate [of 0 xs k] by simp
  next
    case (Suc j)
    with i assms have "j < length xs" "j < n" by simp_all
    with Suc i assms show ?thesis
      using nth_rotate [of i xs k] nth_rotate [of j xs "Suc k"] by (simp del: rotate_Suc)
  qed
qed (use assms in auto)

lemma next_loop_rotate:
  assumes "chain m 0 ns 0" and "list_head m lst = first_node ns 0" and "0 \<notin> fst ` set ns"
    and "i < length ns" and "n \<le> length ns"
  shows "scheduler_next_loop m lst n (fst (ns ! i)) =
    (case find (\<lambda>x. process_state m (snd x) = 0) (take n (rotate (Suc i) ns)) of None \<Rightarrow> 0 | Some x \<Rightarrow> snd x)"
  using assms(4,5)
proof (induction n arbitrary: i)
  case 0
  then show ?case by simp
next
  case (Suc n)
  let ?j = "Suc i mod length ns"
  have "0 < length ns" using Suc.prems(1) by linarith
  then have j: "?j < length ns" by (rule mod_less_divisor)
  have head: "list_head m lst = fst (ns ! 0)"
    using assms(2) Suc.prems(1) by (cases ns) (auto simp: first_node_def)
  have nz: "fst (ns ! k) \<noteq> 0" if "k < length ns" for k
    using assms(3) that by (metis image_eqI nth_mem)
  have node: "(if node_next m (fst (ns ! i)) = 0 then list_head m lst else node_next m (fst (ns ! i))) = fst (ns ! ?j)"
  proof (cases "Suc i < length ns")
    case True
    then show ?thesis using chain_nth(2) [OF assms(1) Suc.prems(1)] nz [of "Suc i"] by simp
  next
    case False
    then have "Suc i = length ns" using Suc.prems(1) by simp
    then show ?thesis using chain_nth(2) [OF assms(1) Suc.prems(1)] head by simp
  qed
  have rot: "rotate (Suc ?j) ns = rotate (Suc (Suc i)) ns"
    by (metis mod_Suc_eq rotate_conv_mod)
  have val: "node_value m (fst (ns ! ?j)) = snd (ns ! ?j)" using assms(1) j by (rule chain_nth)
  have "scheduler_next_loop m lst n (fst (ns ! ?j)) =
    (case find (\<lambda>x. process_state m (snd x) = 0) (take n (rotate (Suc (Suc i)) ns)) of None \<Rightarrow> 0 | Some x \<Rightarrow> snd x)"
    using Suc.IH [OF j] Suc.prems(2) rot by simp
  then show ?case
    using take_rotate [OF Suc.prems(2), of "Suc i"] node val
    by (simp add: Let_def)
qed

lemma find_nth:
  "find P xs = (let i = length (takeWhile (\<lambda>x. \<not> P x) xs) in if i < length xs then Some (xs ! i) else None)"
  by (induction xs) (auto simp: Let_def)

lemma takeWhile_short: "\<exists>x \<in> set xs. \<not> P x \<Longrightarrow> length (takeWhile P xs) < length xs"
  by (induction xs) auto

lemma list_rep_length:
  assumes "list_rep s A L lst ns"
  shows "unat (list_length (mem s) lst) = length ns"
proof -
  note r = list_repD [OF assms]
  have "0 \<notin> fst ` set ns" using list_apart(5) [OF r(1,2)] by blast
  then have "insert 0 (fst ` set ns) \<subseteq> UNIV" "0 \<notin> set (map fst ns)" by auto
  have "Suc (length ns) = card (insert 0 (set (map fst ns)))"
    using r(2) \<open>0 \<notin> set (map fst ns)\<close> distinct_card [of "map fst ns"] by (simp add: list_blocks_def)
  also have "\<dots> \<le> card (UNIV :: u32 set)" by (rule card_mono) simp_all
  finally have "length ns < 2 ^ 32" by (simp add: card_word)
  then show ?thesis using r(4) by (simp add: unat_of_nat_eq)
qed

lemma table_nodes: "table m (map snd ns) = map (\<lambda>x. (snd x, proc_at m (snd x))) ns"
  by (simp add: table_def)

lemma scheduler_next_rep:
  assumes rep: "sched_rep s A L ns"
  shows "scheduler_next s =
    ret (case next_turn (current s) (table (mem s) (map snd ns)) of None \<Rightarrow> 0 | Some (v, p) \<Rightarrow> v) s"
proof (cases "ns = []")
  case True
  have "current s = 0" using sched_repD(6) [OF rep] True by simp
  then show ?thesis
    using list_rep_length [OF sched_repD(1) [OF rep]] True
    by (simp add: scheduler_next_def next_turn_def turn_order_def table_def)
next
  case False
  note d = sched_repD [OF rep]
  note r = list_repD [OF d(1)]
  let ?f = "\<lambda>x. (snd x, proc_at (mem s) (snd x))"
  define i where "i = (if current s = 0 then 0 else length (takeWhile (\<lambda>x. snd x \<noteq> current s) ns))"
  have i: "i < length ns"
  proof (cases "current s = 0")
    case True
    then show ?thesis using False by (simp add: i_def)
  next
    case cur: False
    then have "\<exists>x \<in> set ns. \<not> snd x \<noteq> current s" using d(6) by force
    then show ?thesis unfolding i_def using cur by (simp only: if_False) (rule takeWhile_short)
  qed
  have z: "0 \<notin> fst ` set ns" using list_apart(5) [OF r(1,2)] by blast
  have start: "(if current s \<noteq> 0 then list_find (plist s) (current s) s else ret (list_head (mem s) (plist s)) s)
      = ret (fst (ns ! i)) s"
  proof (cases "current s = 0")
    case True
    then show ?thesis using False r(3) by (cases ns) (auto simp: i_def first_node_def)
  next
    case cur: False
    have "find (\<lambda>(a, w). w = current s) ns = Some (ns ! i)"
      using i cur by (simp add: find_nth i_def Let_def case_prod_beta)
    then show ?thesis using list_find_rep [OF d(1) cur] cur by (simp add: case_prod_beta)
  qed
  have order: "turn_order (current s) (map ?f ns) = map ?f (rotate (Suc i) ns)"
    by (simp add: turn_order_def i_def takeWhile_map comp_def rotate_map del: rotate_Suc)
  have "scheduler_next s = ret (case find (\<lambda>x. process_state (mem s) (snd x) = 0) (rotate (Suc i) ns) of
      None \<Rightarrow> 0 | Some x \<Rightarrow> snd x) s"
    using next_loop_rotate [OF r(5,3) z i order_refl] list_rep_length [OF d(1)]
    by (simp add: scheduler_next_def start del: rotate_Suc)
  then show ?thesis unfolding next_turn_def table_nodes order find_map
    by (simp add: waiting_def proc_at_def option.case_eq_if option.map_sel)
qed

section \<open>Switching and the timer interrupt\<close>

lemma find_SomeD: "find P xs = Some x \<Longrightarrow> x \<in> set xs \<and> P x"
  by (induction xs) (auto split: if_splits)

lemma next_turn_in:
  "next_turn cur (table m vs) = Some (v, p) \<Longrightarrow> v \<in> set vs \<and> p = proc_at m v \<and> process_state m v = 0"
  using find_SomeD [of waiting "turn_order cur (table m vs)" "(v, p)"]
  by (auto simp: next_turn_def turn_order_def waiting_def proc_at_def table_def simp del: rotate_Suc)

lemma sched_regions:
  "sched_rep s A L ns \<Longrightarrow> u \<in> set (map snd ns) \<Longrightarrow> v \<in> set (map snd ns) \<Longrightarrow> u \<noteq> v \<Longrightarrow>
   region u 24 \<inter> region v 24 = {}"
  using sched_apart(6) [of s A L ns v u] by auto

lemma scheduler_switch_rep:
  assumes rep: "sched_rep s A L ns"
  defines "T \<equiv> table (mem s) (map snd ns)"
  shows "case next_turn (current s) T of
      None \<Rightarrow> scheduler_switch s =
        (if kesp s = 0 then halt ''esp'' else ret (Resume (kesp s)) (s\<lparr>current := 0\<rparr>))
    | Some (v, p) \<Rightarrow> \<exists>m. scheduler_switch s = ret (Resume (p_esp p)) (s\<lparr>current := v, mem := m\<rparr>) \<and>
        sched_rep (s\<lparr>current := v, mem := m\<rparr>) A L ns \<and>
        table m (map snd ns) = update_proc v (\<lambda>p. p\<lparr>p_state := PROCESS_STATE_RUNNING\<rparr>) T \<and>
        same_on (- process_area (map snd ns)) (mem s) m"
proof (cases "next_turn (current s) T")
  case None
  then show ?thesis using scheduler_next_rep [OF rep]
    by (simp add: scheduler_switch_def T_def Let_def)
next
  case (Some x)
  obtain v p where x: "x = (v, p)" by fastforce
  note nx = next_turn_in [OF Some [unfolded x T_def]]
  let ?m = "set_process_state v PROCESS_STATE_RUNNING (mem s)"
  have v: "v \<in> snd ` set ns" using nx by auto
  have w: "same_on (- region v 24) (mem s) ?m" by (intro same_on_process same_on_refl) simp
  then have w': "same_on (- process_area (map snd ns)) (mem s) ?m"
    by (rule same_on_mono) (use v in \<open>auto simp: process_area_def\<close>)
  have "table ?m (map snd ns) = update_proc v (\<lambda>p. p\<lparr>p_state := PROCESS_STATE_RUNNING\<rparr>) T"
    unfolding T_def using w
    by (rule table_write) (use nx sched_regions [OF rep] in \<open>auto simp: proc_at_def\<close>)
  moreover have "sched_rep (s\<lparr>mem := ?m, current := v\<rparr>) A L ns"
    using sched_write [OF rep w'] v by (rule sched_rep_cur [OF _ disjI2])
  then have "sched_rep (s\<lparr>current := v, mem := ?m\<rparr>) A L ns" by (simp only: current_mem_commute)
  moreover have "scheduler_switch s = ret (Resume (p_esp p)) (s\<lparr>current := v, mem := ?m\<rparr>)"
    using scheduler_next_rep [OF rep] Some x sched_apart(3) [OF rep v] nx
    by (simp add: scheduler_switch_def T_def Let_def proc_at_def)
  ultimately show ?thesis using w' Some x by (auto intro!: exI [of _ ?m])
qed

text \<open>The table a timer interrupt chooses from: sleepers counted down, the interrupted process
  waiting with its frame.\<close>

definition irq_table :: "u32 \<Rightarrow> u32 \<Rightarrow> ptable \<Rightarrow> ptable" where
  "irq_table cur r T =
    (let T = tick_table T
     in if cur = 0 then T
        else update_proc cur (\<lambda>p. p\<lparr>p_esp := r, p_state := PROCESS_STATE_WAITING\<rparr>) T)"

lemma update_proc_fst [simp]: "map fst (update_proc v f T) = map fst T"
  by (auto simp: update_proc_def)

lemma tick_table_fst [simp]: "map fst (tick_table T) = map fst T"
  by (auto simp: tick_table_def)

lemma irq_table_fst [simp]: "map fst (irq_table cur r T) = map fst T"
  by (simp add: irq_table_def Let_def)

lemma table_fst [simp]: "map fst (table m vs) = vs"
  by (simp add: table_def comp_def)

lemma irq_table_none:
  assumes "next_turn cur (irq_table cur r T) = None" and "cur = 0 \<or> cur \<in> fst ` set T"
  shows "cur = 0"
proof (rule ccontr)
  assume "cur \<noteq> 0"
  then have "cur \<in> set (map fst (tick_table T))" using assms(2) by (simp only: tick_table_fst) simp
  then obtain p where "(cur, p) \<in> set (tick_table T)" unfolding set_map by auto
  then have "\<exists>x \<in> set (irq_table cur r T). waiting x"
    using \<open>cur \<noteq> 0\<close> by (force simp: irq_table_def update_proc_def waiting_def Let_def)
  then show False using assms(1) by (auto simp: next_turn_def turn_order_def find_None_iff)
qed

lemma handle_irq_rep:
  assumes rep: "sched_rep s A L ns" and on: "enabled s" and r: "r \<noteq> 0"
  defines "T \<equiv> irq_table (current s) r (table (mem s) (map snd ns))"
  shows "\<exists>s'. scheduler_handle_irq r s =
      ret (Resume (case next_turn (current s) T of None \<Rightarrow> r | Some (v, p) \<Rightarrow> p_esp p)) s' \<and>
    sched_rep s' A L ns \<and> enabled s' \<and>
    current s' = (case next_turn (current s) T of None \<Rightarrow> 0 | Some (v, p) \<Rightarrow> v) \<and>
    table (mem s') (map snd ns) = (case next_turn (current s) T of None \<Rightarrow> T
      | Some (v, p) \<Rightarrow> update_proc v (\<lambda>p. p\<lparr>p_state := PROCESS_STATE_RUNNING\<rparr>) T) \<and>
    same_on (- process_area (map snd ns)) (mem s) (mem s')"
proof -
  note d = sched_repD [OF rep]
  note rl = list_repD [OF d(1)]
  let ?vs = "map snd ns" and ?cur = "current s"
  define m where "m = fold scheduler_tick_process ?vs (mem s)"
  have "scheduler_tick (list_head (mem s) (plist s)) (mem s) = Some m"
    unfolding m_def rl(3)
    by (rule tick_run [OF rl(5)]) (use list_apart(5) [OF rl(1,2)] sched_apart(5) [OF rep] in blast)+
  note tick = this
  have fr: "same_on (- process_area ?vs) (mem s) m" unfolding m_def by (rule tick_fold_same_on)
  have tab: "table m ?vs = tick_table (table (mem s) ?vs)"
    unfolding m_def using d(2) sched_regions [OF rep] by (rule tick_fold_table)
  have rep1: "sched_rep (s\<lparr>mem := m\<rparr>) A L ns" using rep fr by (rule sched_write)
  define m2 where "m2 = (if ?cur = 0 then m else set_process_state ?cur 0 (set_process_esp ?cur r m))"
  define s2 where "s2 = (if ?cur = 0 then s\<lparr>mem := m2, kesp := r\<rparr> else s\<lparr>mem := m2\<rparr>)"
  have fr2: "same_on (- process_area ?vs) m m2"
  proof (cases "?cur = 0")
    case False
    then have "region ?cur 24 \<subseteq> process_area ?vs" using d(6) by (force simp: process_area_def)
    then show ?thesis unfolding m2_def using False by (auto intro!: same_on_process)
  qed (simp add: m2_def)
  have rep2: "sched_rep s2 A L ns"
    using sched_write [OF rep1, of m2] fr2 by (simp add: s2_def sched_rep_kesp)
  have tab2: "table m2 ?vs = T"
  proof (cases "?cur = 0")
    case True
    then show ?thesis by (simp add: m2_def T_def irq_table_def Let_def tab)
  next
    case False
    have "table m2 ?vs = update_proc ?cur (\<lambda>p. p\<lparr>p_esp := r, p_state := 0\<rparr>) (table m ?vs)"
    proof (rule table_write)
      show "same_on (- region ?cur 24) m m2"
        unfolding m2_def by (auto intro!: same_on_process)
      show "region u 24 \<inter> region ?cur 24 = {}" if "u \<in> set ?vs" "u \<noteq> ?cur" for u
        using that d(6) False by (intro sched_regions [OF rep]) auto
    qed (use False in \<open>simp add: m2_def proc_at_def\<close>)
    then show ?thesis using False by (simp add: T_def irq_table_def Let_def tab)
  qed
  have run: "scheduler_handle_irq r s = scheduler_switch s2"
    using r on tick by (simp add: scheduler_handle_irq_def s2_def m2_def Let_def)
  have s2: "mem s2 = m2" "current s2 = ?cur" "enabled s2" "?cur = 0 \<Longrightarrow> kesp s2 = r"
    using on by (simp_all add: s2_def)
  note sw = scheduler_switch_rep [OF rep2, unfolded s2(1,2) tab2]
  have frame: "same_on (- process_area ?vs) (mem s) m2" using fr fr2 by (rule same_on_trans)
  show ?thesis
  proof (cases "next_turn ?cur T")
    case None
    moreover have "fst ` set (table (mem s) ?vs) = snd ` set ns" by (force simp: table_def)
    ultimately have "?cur = 0" using d(6) irq_table_none [of ?cur r "table (mem s) ?vs"]
      by (simp add: T_def)
    with None show ?thesis using sw r s2 run rep2 sched_rep_cur [OF rep2, of 0] tab2 frame by simp
  next
    case (Some x)
    obtain v p where x: "x = (v, p)" by fastforce
    obtain m3 where m3: "scheduler_switch s2 = ret (Resume (p_esp p)) (s2\<lparr>current := v, mem := m3\<rparr>)"
      "sched_rep (s2\<lparr>current := v, mem := m3\<rparr>) A L ns"
      "table m3 ?vs = update_proc v (\<lambda>p. p\<lparr>p_state := PROCESS_STATE_RUNNING\<rparr>) T"
      "same_on (- process_area ?vs) m2 m3"
      using sw Some x by auto
    show ?thesis
      using m3 Some x run s2(3) same_on_trans [OF frame m3(4)]
      by (intro exI [of _ "s2\<lparr>current := v, mem := m3\<rparr>"]) simp
  qed
qed

section \<open>Fairness\<close>

text \<open>One timer interrupt on the table.\<close>

definition sched_step :: "u32 \<Rightarrow> u32 \<times> ptable \<Rightarrow> u32 \<times> ptable" where
  "sched_step r = (\<lambda>(cur, T).
     let T = irq_table cur r T in
     case next_turn cur T of None \<Rightarrow> (0, T)
     | Some (v, p) \<Rightarrow> (v, update_proc v (\<lambda>p. p\<lparr>p_state := PROCESS_STATE_RUNNING\<rparr>) T))"

definition turn_index :: "u32 \<Rightarrow> u32 list \<Rightarrow> nat" where
  "turn_index cur vs = (if cur = 0 then 0 else length (takeWhile (\<lambda>v. v \<noteq> cur) vs))"

lemma turn_order_index: "turn_order cur T = rotate (Suc (turn_index cur (map fst T))) T"
  by (simp add: turn_order_def turn_index_def takeWhile_map comp_def case_prod_unfold)

lemma turn_index_nth:
  assumes "distinct vs" and "j < length vs" and "vs ! j \<noteq> 0"
  shows "turn_index (vs ! j) vs = j"
  using assms
proof -
  have "length (takeWhile (\<lambda>v. v \<noteq> vs ! j) vs) = j" using assms(1,2)
  proof (induction vs arbitrary: j)
    case (Cons a vs)
    then show ?case by (cases j) auto
  qed simp
  then show ?thesis using assms(3) by (simp add: turn_index_def)
qed

lemma map_of_update_proc:
  "map_of (update_proc u f T) v = (if u = v then map_option f (map_of T v) else map_of T v)"
  by (induction T) (auto simp: update_proc_def)

lemma map_of_tick_table: "map_of (tick_table T) v = map_option tick_proc (map_of T v)"
  by (induction T) (auto simp: tick_table_def)

lemma map_of_irq_table:
  "map_of (irq_table cur r T) v = (if cur \<noteq> 0 \<and> v = cur
     then map_option (\<lambda>p. (tick_proc p)\<lparr>p_esp := r, p_state := PROCESS_STATE_WAITING\<rparr>) (map_of T v)
     else map_option tick_proc (map_of T v))"
  by (auto simp: irq_table_def Let_def map_of_update_proc map_of_tick_table option.map_comp comp_def)

lemma sched_step_fst [simp]: "map fst (snd (sched_step r (cur, T))) = map fst T"
  by (auto simp: sched_step_def Let_def split: option.splits)

lemma takeWhile_length_le: "d < length xs \<Longrightarrow> \<not> P (xs ! d) \<Longrightarrow> length (takeWhile P xs) \<le> d"
proof (induction xs arbitrary: d)
  case (Cons x xs)
  then show ?case by (cases d) auto
qed simp

text \<open>A waiting process at distance \<open>d\<close> is chosen now, or is nearer after the interrupt.\<close>

lemma step_progress:
  fixes T :: ptable and cur r :: u32
  defines "vs \<equiv> map fst T"
  assumes vs: "distinct vs" "0 \<notin> set vs" and d: "d < length vs"
    and at: "vs ! ((Suc (turn_index cur vs) + d) mod length vs) = v"
    and w: "map_of T v = Some p" "p_state p = PROCESS_STATE_WAITING"
  shows "fst (sched_step r (cur, T)) = v \<or>
    (\<exists>d' < d. vs ! ((Suc (turn_index (fst (sched_step r (cur, T))) vs) + d') mod length vs) = v \<and>
       (\<exists>q. map_of (snd (sched_step r (cur, T))) v = Some q \<and> p_state q = PROCESS_STATE_WAITING))"
proof -
  let ?T = "irq_table cur r T" and ?n = "length vs"
  let ?i = "Suc (turn_index cur vs)"
  have n: "length ?T = ?n" "map fst ?T = vs"
    using map_eq_imp_length_eq [OF irq_table_fst [of cur r T]] by (simp_all add: vs_def)
  have n0: "0 < ?n" using d by linarith
  obtain q where q: "map_of ?T v = Some q" "p_state q = 0"
    using w that by (cases "cur \<noteq> 0 \<and> v = cur") (auto simp: map_of_irq_table tick_proc_def)
  let ?order = "rotate ?i ?T"
  have order: "turn_order cur ?T = ?order" unfolding turn_order_index n(2) ..
  have nth: "?order ! k = ?T ! ((?i + k) mod ?n)" if "k < ?n" for k
    using nth_rotate [of k ?T ?i] that n(1) by simp
  have fst_nth: "fst (?order ! k) = vs ! ((?i + k) mod ?n)" if "k < ?n" for k
    using nth [OF that] n n0 by (metis mod_less_divisor nth_map)
  have "?order ! d = (v, q)"
  proof -
    have "?order ! d \<in> set ?T" using d n(1) by (metis length_rotate nth_mem set_rotate)
    moreover have "fst (?order ! d) = v" using fst_nth [OF d] at by simp
    ultimately have "(v, snd (?order ! d)) \<in> set ?T" by (metis prod.collapse)
    then have "map_of ?T v = Some (snd (?order ! d))" using vs(1) n(2) by simp
    then show ?thesis using q(1) \<open>fst (?order ! d) = v\<close> by (metis option.inject prod.collapse)
  qed
  then have wd: "waiting (?order ! d)" using q(2) by (simp add: waiting_def)
  define t where "t = length (takeWhile (\<lambda>x. \<not> waiting x) ?order)"
  have t: "t \<le> d" unfolding t_def using d wd n(1) by (intro takeWhile_length_le) simp_all
  have nx: "next_turn cur ?T = Some (?order ! t)"
    using t d n(1) unfolding next_turn_def order find_nth by (simp add: t_def Let_def)
  let ?c = "fst (?order ! t)"
  have c: "?c = vs ! ((?i + t) mod ?n)" using t d by (intro fst_nth) simp
  have step: "fst (sched_step r (cur, T)) = ?c"
      "snd (sched_step r (cur, T)) = update_proc ?c (\<lambda>p. p\<lparr>p_state := PROCESS_STATE_RUNNING\<rparr>) ?T"
    by (simp_all add: sched_step_def Let_def nx case_prod_beta)
  show ?thesis
  proof (cases "?c = v")
    case True
    then show ?thesis using step by simp
  next
    case False
    then have "t < d" using t \<open>?order ! d = (v, q)\<close> by (cases "t = d") auto
    have "(?i + t) mod ?n < ?n" using n0 by (rule mod_less_divisor)
    moreover from this have "?c \<noteq> 0" using vs(2) c by (metis nth_mem)
    ultimately have "turn_index ?c vs = (?i + t) mod ?n" using vs(1) c by (metis turn_index_nth)
    then have "(Suc (turn_index ?c vs) + (d - t - 1)) mod ?n = (?i + t + Suc (d - t - 1)) mod ?n"
      by (metis add_Suc add_Suc_right mod_add_left_eq)
    then have "vs ! ((Suc (turn_index ?c vs) + (d - t - 1)) mod ?n) = v"
      using \<open>t < d\<close> at by simp
    moreover have "map_of (snd (sched_step r (cur, T))) v = Some q"
      using step False q(1) by (simp add: map_of_update_proc)
    ultimately show ?thesis using step q(2) \<open>t < d\<close> by (intro disjI2 exI [of _ "d - t - 1"]) simp
  qed
qed

lemma turn_index_less: "cur = 0 \<or> cur \<in> set vs \<Longrightarrow> vs \<noteq> [] \<Longrightarrow> turn_index cur vs < length vs"
  by (auto simp: turn_index_def intro: takeWhile_short)

lemma fair_steps:
  fixes st :: "nat \<Rightarrow> u32 \<times> ptable"
  assumes step: "\<And>k. k \<le> n + d \<Longrightarrow> st (Suc k) = sched_step (r k) (st k)"
    and vs: "\<And>k. map fst (snd (st k)) = vs" "distinct vs" "0 \<notin> set vs"
    and d: "d < length vs" "vs ! ((Suc (turn_index (fst (st n)) vs) + d) mod length vs) = v"
    and w: "map_of (snd (st n)) v = Some p" "p_state p = PROCESS_STATE_WAITING"
  shows "\<exists>k \<le> n + d. fst (st (Suc k)) = v"
  using step d w
proof (induction d arbitrary: n p rule: less_induct)
  case (less d)
  obtain cur T where st: "st n = (cur, T)" by fastforce
  have vsT: "map fst T = vs" using vs(1) [of n] st by simp
  have sn: "st (Suc n) = sched_step (r n) (cur, T)" using less.prems(1) [of n] st by simp
  show ?case
  proof (cases "fst (st (Suc n)) = v")
    case True
    then show ?thesis by (intro exI [of _ n]) simp
  next
    case False
    then obtain d' q where d': "d' < d" "vs ! ((Suc (turn_index (fst (st (Suc n))) vs) + d') mod length vs) = v"
      "map_of (snd (st (Suc n))) v = Some q" "p_state q = PROCESS_STATE_WAITING"
      using step_progress [of T d cur v p "r n"] vs(2,3) vsT less.prems(2-5) st sn by auto
    have "\<And>k. k \<le> Suc n + d' \<Longrightarrow> st (Suc k) = sched_step (r k) (st k)"
      using less.prems(1) d'(1) by simp
    from less.IH [OF d'(1) this _ d'(2-4)] show ?thesis using d'(1) less.prems(2)
      by (metis add_Suc add_Suc_right le_trans less_imp_le less_trans Suc_leI add_le_mono1 add.commute)
  qed
qed

section \<open>Starting, stopping and sleeping\<close>

lemma sched_other_blocks:
  assumes "sched_rep s A L ns" and "v \<in> snd ` set ns"
  shows "region v 24 \<subseteq> other_blocks L (plist s) ns"
proof -
  note d = sched_repD [OF assms(1)]
  obtain k where k: "L v = Some k" "24 \<le> unat k" using d(3) assms(2) by blast
  show ?thesis
    using other_blocksI [of L v k "plist s" ns] k region_mono [OF k(2), of v] d(4,5) assms(2) by blast
qed

lemma scheduler_start_rep:
  assumes rep: "sched_rep s A L ns" and v: "L v = Some j" "24 \<le> j" "v \<noteq> plist s" "v \<notin> fst ` set ns" "v \<notin> snd ` set ns"
  shows "malloc 12 s = halt ''chunk'' \<and> scheduler_start v s = halt ''chunk'' \<or>
    (\<exists>new k m. scheduler_start v s = ret () (s\<lparr>mem := m\<rparr>) \<and> L new = None \<and>
       sched_rep (s\<lparr>mem := m\<rparr>) A (L(new \<mapsto> k)) (ns @ [(new, v)]) \<and>
       table m (map snd ns @ [v]) = table (mem s) (map snd ns @ [v]) \<and>
       same_on (- A \<union> other_blocks L (plist s) ns) (mem s) m)"
proof -
  note d = sched_repD [OF rep]
  have v0: "v \<noteq> 0" using kheap.block_nonnull [OF list_repD(1) [OF d(1)] v(1)] .
  have run: "scheduler_start v s = list_insert (plist s) v s" using v0 by (simp add: scheduler_start_def)
  consider "malloc 12 s = halt ''chunk''" "list_insert (plist s) v s = halt ''chunk''" | s' new k where
    "list_insert (plist s) v s = ret () s'" "s' = s\<lparr>mem := mem s'\<rparr>" "L new = None"
    "list_rep s' A (L(new \<mapsto> k)) (plist s) (ns @ [(new, v)])"
    "same_on (- A \<union> other_blocks L (plist s) ns) (mem s) (mem s')"
    using list_insert_rep [OF d(1) v0] by blast
  then show ?thesis
  proof cases
    case 1
    then show ?thesis using run by simp
  next
    case 2
    have sub: "region u 24 \<subseteq> other_blocks L (plist s) ns" if "u \<in> set (map snd ns @ [v])" for u
    proof (cases "u = v")
      case True
      have "24 \<le> unat j" using v(2) by (simp add: word_le_nat_alt)
      then show ?thesis
        using other_blocksI [of L v j "plist s" ns] v region_mono [of 24 "unat j" v] True by blast
    next
      case False
      then show ?thesis using sched_other_blocks [OF rep, of u] that by auto
    qed
    have "table (mem s') (map snd ns @ [v]) = table (mem s) (map snd ns @ [v])"
      by (rule table_cong) (use sub in \<open>blast intro: same_on_mono [OF 2(5)]\<close>)
    moreover have ps: "plist s' = plist s" "current s' = current s" by (subst 2(2), simp)+
    have fresh: "new \<noteq> u" if "u \<in> snd ` set ns \<or> u = v" for u
      using 2(3) d(3) [of u] v(1) that by (metis option.distinct(1))
    have "sched_rep s' A (L(new \<mapsto> k)) (ns @ [(new, v)])"
      unfolding sched_rep_def ps
    proof (intro conjI ballI)
      fix u assume "u \<in> snd ` set (ns @ [(new, v)])"
      then have u: "u \<in> snd ` set ns \<or> u = v" by auto
      have "(\<exists>k. L u = Some k \<and> 24 \<le> k) \<and> u \<noteq> plist s \<and> u \<notin> fst ` set ns"
        using rep v u unfolding sched_rep_def by blast
      then show "\<exists>k'. (L(new \<mapsto> k)) u = Some k' \<and> 24 \<le> k'" "u \<noteq> plist s" "u \<notin> fst ` set (ns @ [(new, v)])"
        using fresh [OF u] by auto
    qed (use 2(4) d(2,6) v(5) in auto)
    ultimately show ?thesis using run 2(1-3,5)
      by (intro disjI2 exI [of _ new] exI [of _ k] exI [of _ "mem s'"]) simp
  qed
qed

lemma scheduler_stop_rep:
  assumes rep: "sched_rep s A L (xs @ (a, v) # ys)" and low: "region 0 8 \<inter> A = {}"
    and p: "process_blocks (mem s) L v"
    and st: "stack = process_ebp (mem s) v - 8192" "stack \<noteq> plist s"
      "stack \<notin> fst ` set (xs @ (a, v) # ys)" "stack \<notin> snd ` set (xs @ (a, v) # ys)"
  shows "\<exists>m. scheduler_stop v s =
      (if current s = v then scheduler_switch (s\<lparr>mem := m, current := 0\<rparr>) else ret Return (s\<lparr>mem := m\<rparr>)) \<and>
    sched_rep (s\<lparr>mem := m, current := (if current s = v then 0 else current s)\<rparr>) A
      (L(a := None, stack := None, v := None)) (xs @ ys) \<and>
    table m (map snd (xs @ ys)) = table (mem s) (map snd (xs @ ys))"
proof -
  let ?ns = "xs @ (a, v) # ys" and ?L1 = "L(a := None)"
  let ?L2 = "?L1(stack := None, v := None)"
  note d = sched_repD [OF rep]
  have vin: "v \<in> snd ` set ?ns" by simp
  have vx: "v \<notin> snd ` set xs" "v \<notin> snd ` set ys" using d(2) by auto
  have va: "v \<noteq> a" "v \<notin> fst ` set (xs @ ys)" "v \<noteq> plist s" using d(4,5) [OF vin] by auto
  obtain m1 where m1: "list_delete (plist s) v s = ret () (s\<lparr>mem := m1\<rparr>)"
    "list_rep (s\<lparr>mem := m1\<rparr>) A ?L1 (plist s) (xs @ ys)"
    "same_on ((- A - region 0 8) \<union> other_blocks L (plist s) ?ns) (mem s) m1"
    using list_delete_rep [OF d(1) sched_apart(3) [OF rep vin] vx(1) low] by blast
  have keep1: "same_on (region u 24) (mem s) m1" if "u \<in> snd ` set ?ns" for u
    using sched_other_blocks [OF rep that] by (intro same_on_mono [OF m1(3)]) blast
  have ebp: "process_ebp m1 v = process_ebp (mem s) v" using process_cong(3) [OF keep1 [OF vin]] .
  have "process_blocks m1 ?L1 v"
    using p va(1) st unfolding process_blocks_def ebp by auto
  then obtain m2 where m2: "process_destroy v (s\<lparr>mem := m1\<rparr>) = ret () (s\<lparr>mem := m2\<rparr>)"
    "heap_holds (s\<lparr>mem := m2\<rparr>) A ?L2" "same_on (- A \<union> blocks ?L2) m1 m2"
    using process_destroy_rep [OF list_repD(1) [OF m1(2)], of v] ebp st(1) by (auto simp del: fun_upd_apply)
  note r1 = list_repD [OF m1(2)]
  have L2: "?L2 q = ?L1 q" if "q = plist s \<or> q \<in> fst ` set (xs @ ys)" for q
  proof -
    have "q \<noteq> stack" "q \<noteq> v" using that st(2,3) va by auto
    then show ?thesis by simp
  qed
  have lb2: "list_blocks ?L2 (plist s) (xs @ ys)"
    using r1(2) unfolding list_blocks_def using L2 by metis
  note ap2 = list_apart [OF m2(2) lb2]
  have keep2: "same_on X m1 m2" if "X \<subseteq> blocks ?L2" for X
    using m2(3) by (rule same_on_mono) (use that in blast)
  have "list_rep (s\<lparr>mem := m2\<rparr>) A ?L2 (plist s) (xs @ ys)"
    using m2(2) lb2 r1(3-5) chain_cong [of "xs @ ys" m1 m2] list_header_cong [of "plist s" m1 m2]
      keep2 ap2(1,4) by (simp add: list_rep_def)
  moreover have val: "(\<exists>k. ?L2 u = Some k \<and> 24 \<le> k) \<and> u \<noteq> plist s \<and> u \<notin> fst ` set (xs @ ys)"
    if "u \<in> snd ` set (xs @ ys)" for u
  proof -
    have u: "u \<in> snd ` set ?ns" "u \<noteq> v" using that vx by auto
    moreover have "u \<noteq> a" "u \<noteq> stack" using d(5) [OF u(1)] u(1) st(4) by auto
    moreover have "(\<exists>k. L u = Some k \<and> 24 \<le> k) \<and> u \<noteq> plist s \<and> u \<notin> fst ` set ?ns"
      using rep u(1) unfolding sched_rep_def by blast
    ultimately show ?thesis by simp
  qed
  moreover have "current s \<noteq> v \<Longrightarrow> current s = 0 \<or> current s \<in> snd ` set (xs @ ys)" using d(6) by auto
  moreover have "distinct (map snd (xs @ ys))" using d(2) by simp
  ultimately have "sched_rep (s\<lparr>mem := m2, current := (if current s = v then 0 else current s)\<rparr>) A ?L2 (xs @ ys)"
    unfolding sched_rep_def list_rep_def by (simp add: image_Un)
  moreover have "table m2 (map snd (xs @ ys)) = table (mem s) (map snd (xs @ ys))"
  proof (rule table_cong)
    fix u assume "u \<in> set (map snd (xs @ ys))"
    then have u: "u \<in> snd ` set (xs @ ys)" by (simp add: image_Un)
    then obtain k where k: "?L2 u = Some k" "24 \<le> k" using val by blast
    have "24 \<le> unat k" using k(2) by (simp add: word_le_nat_alt)
    then have "region u 24 \<subseteq> blocks ?L2"
      using block_subset [of ?L2 u k] k(1) region_mono [of 24 "unat k" u] by blast
    then show "same_on (region u 24) (mem s) m2"
      using u by (intro same_on_trans [OF keep1 keep2]) (auto simp: image_Un)
  qed
  moreover have "scheduler_stop v s =
      (if current s = v then scheduler_switch (s\<lparr>mem := m2, current := 0\<rparr>) else ret Return (s\<lparr>mem := m2\<rparr>))"
    using m1(1) m2(1) sched_apart(3) [OF rep vin] by (simp add: scheduler_stop_def)
  ultimately show ?thesis by blast
qed

lemma scheduler_sleep_rep:
  fixes ms r :: u32
  assumes rep: "sched_rep s A L ns" and v: "v \<in> snd ` set ns"
  defines "T \<equiv> update_proc v (\<lambda>p. p\<lparr>p_state := PROCESS_STATE_SLEEPING, p_sleep := ms * 100 div 1000\<rparr>)
      (table (mem s) (map snd ns))"
  shows "if current s = v
    then \<exists>m. scheduler_sleep v ms r s = scheduler_switch (s\<lparr>mem := m, current := 0\<rparr>) \<and>
      sched_rep (s\<lparr>mem := m, current := 0\<rparr>) A L ns \<and>
      table m (map snd ns) = update_proc v (\<lambda>p. p\<lparr>p_esp := r\<rparr>) T
    else \<exists>m. scheduler_sleep v ms r s = ret Return (s\<lparr>mem := m\<rparr>) \<and>
      sched_rep (s\<lparr>mem := m\<rparr>) A L ns \<and> table m (map snd ns) = T"
proof -
  let ?vs = "map snd ns"
  let ?m1 = "set_process_sleep v (ms * 100 div 1000) (set_process_state v 2 (mem s))"
  let ?m2 = "set_process_esp v r ?m1"
  have v0: "v \<noteq> 0" using sched_apart(3) [OF rep v] .
  have w: "same_on (- region v 24) (mem s) ?m1" "same_on (- region v 24) ?m1 ?m2"
    by (intro same_on_process same_on_refl; simp)+
  have sub: "region v 24 \<subseteq> process_area ?vs" using v by (force simp: process_area_def)
  have rep1: "sched_rep (s\<lparr>mem := ?m1\<rparr>) A L ns"
    using rep by (rule sched_write) (rule same_on_mono [OF w(1)], use sub in blast)
  have "sched_rep (s\<lparr>mem := ?m1, mem := ?m2\<rparr>) A L ns"
    using rep1 by (rule sched_write) (rule same_on_mono, simp, rule w(2), use sub in blast)
  then have rep2: "sched_rep (s\<lparr>mem := ?m2, current := 0\<rparr>) A L ns"
    using sched_rep_cur [of "s\<lparr>mem := ?m2\<rparr>" A L ns 0] by simp
  have reg: "region u 24 \<inter> region v 24 = {}" if "u \<in> set ?vs" "u \<noteq> v" for u
    using that v by (intro sched_regions [OF rep]) auto
  have t1: "table ?m1 ?vs = T" unfolding T_def using w(1) _ reg
    by (rule table_write) (simp add: proc_at_def)
  have t2: "table ?m2 ?vs = update_proc v (\<lambda>p. p\<lparr>p_esp := r\<rparr>) T" unfolding t1 [symmetric] using w(2) _ reg
    by (rule table_write) (simp add: proc_at_def)
  show ?thesis
  proof (cases "current s = v")
    case True
    then show ?thesis using v0 rep2 t2 by (auto simp: scheduler_sleep_def Let_def intro!: exI [of _ ?m2])
  next
    case False
    then show ?thesis using v0 rep1 t1 by (auto simp: scheduler_sleep_def Let_def intro!: exI [of _ ?m1])
  qed
qed

section \<open>Histories of timer interrupts\<close>

text \<open>
  \<open>N\<close> timer interrupts: the \<open>k\<close>th comes in state \<open>s k\<close> with its frame at \<open>r k\<close> and
  leaves state \<open>s' k\<close>. Between two interrupts the running code may do what it likes to memory, as long
  as the scheduler's list, its processes and the current process stay as the interrupt left them.
\<close>

definition sched_run ::
  "nat \<Rightarrow> (nat \<Rightarrow> kernel) \<Rightarrow> (nat \<Rightarrow> kernel) \<Rightarrow> (nat \<Rightarrow> u32) \<Rightarrow> u32 set \<Rightarrow> (u32 \<rightharpoonup> u32) \<Rightarrow> node list \<Rightarrow> bool" where
  "sched_run N s s' r A L ns \<longleftrightarrow>
     (\<forall>k < N. enabled (s k) \<and> r k \<noteq> 0 \<and> sched_rep (s k) A L ns \<and>
        (\<exists>f. scheduler_handle_irq (r k) (s k) = ret f (s' k))) \<and>
     (\<forall>k. Suc k < N \<longrightarrow> current (s (Suc k)) = current (s' k) \<and>
        table (mem (s (Suc k))) (map snd ns) = table (mem (s' k)) (map snd ns))"

lemma sched_run_step:
  assumes "sched_run N s s' r A L ns" and "k < N"
  shows "(current (s' k), table (mem (s' k)) (map snd ns)) =
      sched_step (r k) (current (s k), table (mem (s k)) (map snd ns))"
    and "next_turn (current (s k)) (irq_table (current (s k)) (r k) (table (mem (s k)) (map snd ns))) = Some (v, p) \<Longrightarrow>
      scheduler_handle_irq (r k) (s k) = ret (Resume (p_esp p)) (s' k)"
    and "sched_rep (s' k) A L ns"
proof -
  obtain f where k: "enabled (s k)" "r k \<noteq> 0" "sched_rep (s k) A L ns"
    "scheduler_handle_irq (r k) (s k) = ret f (s' k)"
    using assms by (auto simp: sched_run_def)
  note h = handle_irq_rep [OF k(3,1,2)]
  show "(current (s' k), table (mem (s' k)) (map snd ns)) =
      sched_step (r k) (current (s k), table (mem (s k)) (map snd ns))"
    using h k(4) by (auto simp: sched_step_def Let_def split: option.splits)
  show "scheduler_handle_irq (r k) (s k) = ret (Resume (p_esp p)) (s' k)"
    if "next_turn (current (s k)) (irq_table (current (s k)) (r k) (table (mem (s k)) (map snd ns))) = Some (v, p)"
    using h k(4) that by auto
  show "sched_rep (s' k) A L ns" using h k(4) by auto
qed

lemma circular_distance:
  fixes a j n :: nat
  assumes "j < n"
  obtains d where "d < n" "(a + d) mod n = j"
proof -
  have le: "a mod n \<le> n" using assms by (simp add: less_imp_le)
  have "(a + (j + n - a mod n) mod n) mod n = (a mod n + (j + n - a mod n)) mod n"
    by (metis mod_add_left_eq mod_add_right_eq)
  also have "a mod n + (j + n - a mod n) = j + n" using le by linarith
  also have "(j + n) mod n = j" using assms by simp
  finally show ?thesis using that [of "(j + n - a mod n) mod n"] assms by simp
qed

lemma map_of_table: "v \<in> set vs \<Longrightarrow> map_of (table m vs) v = Some (proc_at m v)"
  by (induction vs) (auto simp: table_def)

lemma sched_run_fair:
  assumes run: "sched_run (length ns) s s' r A L ns" and v: "v \<in> snd ` set ns"
    and w: "process_state (mem (s 0)) v = PROCESS_STATE_WAITING"
  shows "\<exists>k < length ns. current (s' k) = v \<and>
    scheduler_handle_irq (r k) (s k) = ret (Resume (process_esp (mem (s' k)) v)) (s' k)"
proof -
  let ?vs = "map snd ns" and ?N = "length ns"
  define st where "st k = (if k = 0 then (current (s 0), table (mem (s 0)) ?vs)
      else (current (s' (k - 1)), table (mem (s' (k - 1))) ?vs))" for k
  have N: "0 < ?N" using v by (cases ns) auto
  have st: "st k = (current (s k), table (mem (s k)) ?vs)" if "k < ?N" for k
    using run that by (cases k) (auto simp: sched_run_def st_def)
  have rep: "sched_rep (s 0) A L ns" using run N by (simp add: sched_run_def)
  have dist: "distinct ?vs" "0 \<notin> set ?vs"
    using sched_repD(2) [OF rep] sched_apart(3) [OF rep] by auto
  obtain j where j: "j < length ?vs" "?vs ! j = v" using v by (metis in_set_conv_nth list.set_map)
  obtain d where d: "d < length ?vs" "(Suc (turn_index (fst (st 0)) ?vs) + d) mod length ?vs = j"
    using j(1) by (rule circular_distance)
  have step: "st (Suc k) = sched_step (r k) (st k)" if "k \<le> 0 + d" for k
    using sched_run_step(1) [OF run, of k] st [of k] that d(1) by (simp add: st_def)
  have "\<exists>k \<le> 0 + d. fst (st (Suc k)) = v"
  proof (rule fair_steps [where n = 0 and st = st and r = r and vs = "?vs" and p = "proc_at (mem (s 0)) v"])
    show "map fst (snd (st k)) = ?vs" for k by (simp add: st_def)
    show "?vs ! ((Suc (turn_index (fst (st 0)) ?vs) + d) mod length ?vs) = v" using d(2) j(2) by simp
    show "map_of (snd (st 0)) v = Some (proc_at (mem (s 0)) v)" using v by (simp add: st_def map_of_table)
  qed (use d(1) w dist step in \<open>simp_all add: proc_at_def\<close>)
  then obtain k where k: "k \<le> d" "current (s' k) = v" by (auto simp: st_def)
  then have kN: "k < ?N" using d(1) by simp
  let ?T = "irq_table (current (s k)) (r k) (table (mem (s k)) ?vs)"
  note sk = sched_run_step [OF run kN]
  have v0: "v \<noteq> 0" using v dist(2) by auto
  obtain p where nx: "next_turn (current (s k)) ?T = Some (v, p)"
    using sk(1) k(2) v0 by (auto simp: sched_step_def Let_def split: option.splits prod.splits)
  have tab: "table (mem (s' k)) ?vs = update_proc v (\<lambda>p. p\<lparr>p_state := PROCESS_STATE_RUNNING\<rparr>) ?T"
    using sk(1) nx by (simp add: sched_step_def)
  have "(v, p) \<in> set ?T"
    using find_SomeD [of waiting "turn_order (current (s k)) ?T" "(v, p)"] nx
    by (simp add: next_turn_def turn_order_def del: rotate_Suc)
  moreover have "distinct (map fst ?T)" using dist(1) by simp
  ultimately have "map_of ?T v = Some p" by simp
  then have "proc_at (mem (s' k)) v = p\<lparr>p_state := PROCESS_STATE_RUNNING\<rparr>"
    using map_of_table [of v ?vs "mem (s' k)"] v tab by (simp add: map_of_update_proc)
  from arg_cong [OF this, of p_esp] have "process_esp (mem (s' k)) v = p_esp p" by (simp add: proc_at_def)
  then show ?thesis using kN k(2) sk(2) [OF nx] by auto
qed

section \<open>Sleeping processes over several interrupts\<close>

lemma step_sleeping:
  assumes p: "map_of T v = Some p" "p_state p = PROCESS_STATE_SLEEPING" and cur: "v \<noteq> cur" "v \<noteq> 0"
    and T: "distinct (map fst T)"
  shows "if p_sleep p = 0
    then \<exists>q. map_of (snd (sched_step r (cur, T))) v = Some q \<and>
      p_state q = (if fst (sched_step r (cur, T)) = v then PROCESS_STATE_RUNNING else PROCESS_STATE_WAITING)
    else fst (sched_step r (cur, T)) \<noteq> v \<and>
      map_of (snd (sched_step r (cur, T))) v = Some (p\<lparr>p_sleep := p_sleep p - 1\<rparr>)"
proof -
  let ?T = "irq_table cur r T"
  have q: "map_of ?T v = Some (tick_proc p)" using p cur by (simp add: map_of_irq_table)
  show ?thesis
  proof (cases "next_turn cur ?T")
    case None
    then show ?thesis using q p cur by (auto simp: sched_step_def Let_def tick_proc_def)
  next
    case (Some x)
    obtain u w where x: "x = (u, w)" by fastforce
    have "(u, w) \<in> set ?T" "p_state w = 0"
      using find_SomeD [of waiting "turn_order cur ?T" x] Some x
      by (simp_all add: next_turn_def turn_order_def waiting_def del: rotate_Suc)
    then have "map_of ?T u = Some w" using T by simp
    then have "u \<noteq> v" if "p_sleep p \<noteq> 0" using q \<open>p_state w = 0\<close> that p by (auto simp: tick_proc_def)
    then show ?thesis using q p Some x
      by (auto simp: sched_step_def Let_def map_of_update_proc tick_proc_def)
  qed
qed

lemma sched_run_sleep:
  assumes run: "sched_run N s s' r A L ns" and v: "v \<in> snd ` set ns"
    and z: "process_state (mem (s 0)) v = PROCESS_STATE_SLEEPING" "current (s 0) \<noteq> v"
    and k: "k \<le> unat (process_sleep (mem (s 0)) v)" "k < N"
  shows "proc_at (mem (s k)) v = (proc_at (mem (s 0)) v)\<lparr>p_sleep := process_sleep (mem (s 0)) v - word_of_nat k\<rparr> \<and>
    current (s k) \<noteq> v"
  using k
proof (induction k)
  case 0
  then show ?case using z by (simp add: proc_at_def)
next
  case (Suc k)
  let ?vs = "map snd ns" and ?c = "process_sleep (mem (s 0)) v"
  have kN: "k < N" using Suc.prems by simp
  have IH: "proc_at (mem (s k)) v = (proc_at (mem (s 0)) v)\<lparr>p_sleep := ?c - word_of_nat k\<rparr>" "current (s k) \<noteq> v"
    using Suc by simp_all
  have rep: "sched_rep (s k) A L ns" using run kN by (simp add: sched_run_def)
  have uk: "unat (word_of_nat k :: u32) = k" using Suc.prems(1) unat_lt32 [of ?c] by (intro unat_of_nat_eq) simp
  have nz: "?c - word_of_nat k \<noteq> 0"
  proof
    assume "?c - word_of_nat k = 0"
    then have "?c = word_of_nat k" by simp
    with uk Suc.prems(1) show False by simp
  qed
  have link: "current (s (Suc k)) = current (s' k)" "table (mem (s (Suc k))) ?vs = table (mem (s' k)) ?vs"
    using run Suc.prems(2) by (simp_all add: sched_run_def)
  have "map_of (table (mem (s k)) ?vs) v = Some (proc_at (mem (s k)) v)" using v by (simp add: map_of_table)
  note ss = step_sleeping [OF this, of "current (s k)" "r k"]
  have "p_state (proc_at (mem (s k)) v) = 2" "p_sleep (proc_at (mem (s k)) v) \<noteq> 0"
    using IH(1) z(1) nz by (simp_all add: proc_at_def)
  then have "current (s' k) \<noteq> v \<and> map_of (table (mem (s' k)) ?vs) v =
      Some ((proc_at (mem (s k)) v)\<lparr>p_sleep := p_sleep (proc_at (mem (s k)) v) - 1\<rparr>)"
    using ss IH(2) sched_apart(3) [OF rep v] sched_repD(2) [OF rep] sched_run_step(1) [OF run kN, symmetric] by simp
  then show ?case using link v IH(1) map_of_table [of v ?vs "mem (s (Suc k))"]
    by (simp add: algebra_simps)
qed

end
