(* ===== verification/Ports.thy ===== *)
theory Ports
  imports Kernel_State
begin

text \<open>
  Port input and output, \<open>cpu/io.h\<close>. A write extends the history of accesses; a read asks the
  environment for the value, given the history so far, and extends the history with it. The
  \<open>wait\<close> of that file is two jumps and changes no state.
\<close>

section \<open>The operations\<close>

definition outb :: "u16 \<Rightarrow> u8 \<Rightarrow> kernel \<Rightarrow> kernel" where
  "outb port data s = s\<lparr>io := Out8 port data # io s\<rparr>"

definition outw :: "u16 \<Rightarrow> u16 \<Rightarrow> kernel \<Rightarrow> kernel" where
  "outw port data s = s\<lparr>io := Out16 port data # io s\<rparr>"

definition outl :: "u16 \<Rightarrow> u32 \<Rightarrow> kernel \<Rightarrow> kernel" where
  "outl port data s = s\<lparr>io := Out32 port data # io s\<rparr>"

definition inb :: "environment \<Rightarrow> u16 \<Rightarrow> kernel \<Rightarrow> u8 \<times> kernel" where
  "inb env port s =
    (let data = ucast (env (io s) port) in (data, s\<lparr>io := In8 port data # io s\<rparr>))"

definition inw :: "environment \<Rightarrow> u16 \<Rightarrow> kernel \<Rightarrow> u16 \<times> kernel" where
  "inw env port s =
    (let data = ucast (env (io s) port) in (data, s\<lparr>io := In16 port data # io s\<rparr>))"

definition inl :: "environment \<Rightarrow> u16 \<Rightarrow> kernel \<Rightarrow> u32 \<times> kernel" where
  "inl env port s =
    (let data = env (io s) port in (data, s\<lparr>io := In32 port data # io s\<rparr>))"

section \<open>Writes in a row\<close>

text \<open>The state after writing a sequence of bytes to ports, oldest first.\<close>

definition sent :: "(u16 \<times> u8) list \<Rightarrow> kernel \<Rightarrow> kernel" where
  "sent ws s = s\<lparr>io := rev (map (\<lambda>(p, v). Out8 p v) ws) @ io s\<rparr>"

lemma sent_Nil [simp]: "sent [] s = s"
  by (simp add: sent_def)

lemma outb_sent: "outb p v s = sent [(p, v)] s"
  by (simp add: outb_def sent_def)

lemma sent_sent [simp]: "sent ws (sent vs s) = sent (vs @ ws) s"
  by (simp add: sent_def)

lemma io_sent [simp]: "io (sent ws s) = rev (map (\<lambda>(p, v). Out8 p v) ws) @ io s"
  by (simp add: sent_def)

lemma io_out [simp]:
  "io (outb p b s) = Out8 p b # io s" "io (outw p w s) = Out16 p w # io s"
  "io (outl p l s) = Out32 p l # io s"
  by (simp_all add: outb_def outw_def outl_def)

text \<open>Only the history changes.\<close>

lemma out_state [simp]:
  "mem (outb p b s) = mem s" "mem (outl p l s) = mem s" "mem (outw p w s) = mem s" "mem (sent ws s) = mem s"
  "cursor (outb p b s) = cursor s" "cursor (outl p l s) = cursor s" "cursor (sent ws s) = cursor s"
  "handlers (outb p b s) = handlers s" "entries (outb p b s) = entries s"
  by (simp_all add: outb_def outw_def outl_def sent_def)

lemma in_state [simp]:
  "mem (snd (inb env p s)) = mem s" "mem (snd (inw env p s)) = mem s" "mem (snd (inl env p s)) = mem s"
  "cursor (snd (inb env p s)) = cursor s"
  by (simp_all add: inb_def inw_def inl_def Let_def)

end
