(* ===== verification/Display.thy ===== *)
theory Display
  imports CString Ports
begin

text \<open>
  The text display, \<open>display/display.c\<close>: a buffer of 25 rows of 80 cells at a fixed address, two
  bytes a cell (the character, then foreground in the low and background in the high half), and a
  cursor. The specification is a terminal: a list of cells and a position, with a line feed and a
  scroll. String literals, which the compiler puts into read-only data, are lists of characters.
\<close>

section \<open>The operations\<close>

record text_attribute =
  background :: u8
  foreground :: u8

abbreviation (input) DISPLAY_MEMORY :: u32 where
  "DISPLAY_MEMORY \<equiv> 753664"

abbreviation (input) DISPLAY_WIDTH :: u32 where
  "DISPLAY_WIDTH \<equiv> 80"

abbreviation (input) DISPLAY_HEIGHT :: u32 where
  "DISPLAY_HEIGHT \<equiv> 25"

definition default_attribute :: text_attribute where
  "default_attribute = \<lparr>background = 0, foreground = 7\<rparr>"

definition text_data :: "u32 \<Rightarrow> u32" where
  "text_data i = DISPLAY_MEMORY + 2 * i"

definition set_code :: "u32 \<Rightarrow> u8 \<Rightarrow> memory \<Rightarrow> memory" where
  "set_code i c m = store8 m (text_data i) c"

definition set_foreground :: "u32 \<Rightarrow> u8 \<Rightarrow> memory \<Rightarrow> memory" where
  "set_foreground i v m =
    store8 m (text_data i + 1) ((m (text_data i + 1) AND 240) OR (v AND 15))"

definition set_background :: "u32 \<Rightarrow> u8 \<Rightarrow> memory \<Rightarrow> memory" where
  "set_background i v m =
    store8 m (text_data i + 1) ((m (text_data i + 1) AND 15) OR push_bit 4 (v AND 15))"

definition set_cell :: "u32 \<Rightarrow> u8 \<Rightarrow> text_attribute \<Rightarrow> memory \<Rightarrow> memory" where
  "set_cell i c attr m =
    set_background i (background attr) (set_foreground i (foreground attr) (set_code i c m))"

definition copy_cell :: "u32 \<Rightarrow> u32 \<Rightarrow> memory \<Rightarrow> memory" where
  "copy_cell i j m = store8 (store8 m (text_data i) (m (text_data j)))
     (text_data i + 1) (m (text_data j + 1))"

definition clear_cells :: "nat \<Rightarrow> nat \<Rightarrow> memory \<Rightarrow> memory" where
  "clear_cells i j m = fold (\<lambda>i. set_cell (word_of_nat i) 0 default_attribute) [i..<j] m"

definition display_clear :: "kernel \<Rightarrow> kernel" where
  "display_clear s = s\<lparr>mem := clear_cells 0 2000 (mem s), cursor := 0\<rparr>"

definition display_init :: "environment \<Rightarrow> kernel \<Rightarrow> kernel" where
  "display_init env s =
    (let s = outb 980 10 s;
         (v, s) = inb env 981 s;
         s = outb 981 ((v AND 192) OR 0) s;
         s = outb 980 11 s;
         (v, s) = inb env 981 s;
         s = outb 981 ((v AND 224) OR 15) s
     in display_clear s)"

definition display_destroy :: "kernel \<Rightarrow> kernel" where
  "display_destroy s = outb 981 32 (outb 980 10 s)"

definition display_scroll :: "memory \<Rightarrow> memory" where
  "display_scroll m =
    clear_cells 1920 2000
      (fold (\<lambda>i. copy_cell (word_of_nat i) (word_of_nat i + DISPLAY_WIDTH)) [0..<1920] m)"

definition display_update_cursor :: "kernel \<Rightarrow> kernel" where
  "display_update_cursor s =
    (let s = (if DISPLAY_WIDTH * DISPLAY_HEIGHT \<le> cursor s
              then s\<lparr>cursor := DISPLAY_WIDTH * (DISPLAY_HEIGHT - 1), mem := display_scroll (mem s)\<rparr>
              else s);
         s = outb 980 15 s;
         s = outb 981 (ucast (cursor s AND 255)) s;
         s = outb 980 14 s
     in outb 981 (ucast (drop_bit 8 (cursor s) AND 255)) s)"

definition putcf :: "u8 \<Rightarrow> text_attribute \<Rightarrow> kernel \<Rightarrow> kernel" where
  "putcf c attr s =
    (if c = 0 then s
     else if c = 10 then
       display_update_cursor (s\<lparr>cursor := cursor s + (DISPLAY_WIDTH - cursor s mod DISPLAY_WIDTH)\<rparr>)
     else
       display_update_cursor
         (s\<lparr>mem := set_cell (cursor s) c attr (mem s), cursor := cursor s + 1\<rparr>))"

definition put_counted :: "u32 \<Rightarrow> nat \<Rightarrow> text_attribute \<Rightarrow> kernel \<Rightarrow> kernel" where
  "put_counted str n attr s = fold (\<lambda>i s. putcf (mem s (str + word_of_nat i)) attr s) [0..<n] s"

definition putsf :: "u32 \<Rightarrow> text_attribute \<Rightarrow> kernel \<Rightarrow> unit krun" where
  "putsf str attr s =
    (case strlen (mem s) str of
       None \<Rightarrow> None
     | Some len \<Rightarrow> ret () (put_counted str (unat len) attr s))"

definition putc :: "u8 \<Rightarrow> kernel \<Rightarrow> kernel" where
  "putc c s = putcf c default_attribute s"

definition puts :: "u32 \<Rightarrow> kernel \<Rightarrow> unit krun" where
  "puts str s = putsf str default_attribute s"

text \<open>Printing a string literal.\<close>

definition put_literal :: "u8 list \<Rightarrow> text_attribute \<Rightarrow> kernel \<Rightarrow> kernel" where
  "put_literal cs attr s = fold (\<lambda>c. putcf c attr) cs s"

definition put_hex :: "u32 \<Rightarrow> kernel \<Rightarrow> kernel" where
  "put_hex count s =
    fold (\<lambda>_. putc 48) [0..<unat count] (put_literal [48, 120] default_attribute s)"

section \<open>Formatted output\<close>

text \<open>
  Arguments are the 32-bit slots of the caller's stack; a 64-bit argument takes two, low half
  first, and \<open>itoa\<close> keeps the low half. Taking an argument that was not passed is undefined
  in C. \<open>buf\<close> is the address of the 32-byte buffers of the conversions.
\<close>

definition put_decimal :: "u32 \<Rightarrow> u32 \<Rightarrow> text_attribute \<Rightarrow> kernel \<Rightarrow> unit krun" where
  "put_decimal buf arg attr s =
    (case itoa arg buf 10 (mem s) of
       None \<Rightarrow> None
     | Some m \<Rightarrow> putsf buf attr (s\<lparr>mem := m\<rparr>))"

definition put_hexadecimal :: "u32 \<Rightarrow> u32 \<Rightarrow> u32 \<Rightarrow> text_attribute \<Rightarrow> kernel \<Rightarrow> unit krun" where
  "put_hexadecimal buf width arg attr s =
    (case itoa arg buf 16 (mem s) of
       None \<Rightarrow> None
     | Some m \<Rightarrow>
         (case strlen m buf of
            None \<Rightarrow> None
          | Some len \<Rightarrow> putsf buf attr (put_hex (width - len) (s\<lparr>mem := m\<rparr>))))"

definition attribute_of :: "u32 \<Rightarrow> text_attribute" where
  "attribute_of arg = \<lparr>background = ucast arg, foreground = ucast (drop_bit 8 arg)\<rparr>"

text \<open>The inner switch, on the character after \<open>%l\<close>.\<close>

definition printf_long ::
  "u32 \<Rightarrow> u8 \<Rightarrow> text_attribute \<Rightarrow> u32 list \<Rightarrow> kernel \<Rightarrow> (u32 list) krun" where
  "printf_long buf c attr ap s =
    (if c = 100 then
       (case ap of
          lo # hi # ap \<Rightarrow> andthen (put_decimal buf lo attr s) (\<lambda>_ s. ret ap s)
        | _ \<Rightarrow> fail Out_of_bounds)
     else if c = 120 then
       (case ap of
          lo # hi # ap \<Rightarrow> andthen (put_hexadecimal buf 16 lo attr s) (\<lambda>_ s. ret ap s)
        | _ \<Rightarrow> fail Out_of_bounds)
     else ret ap s)"

text \<open>The switch on \<open>str[i + 1]\<close>; the result is the index at its end, the attribute and the
  remaining arguments.\<close>

definition printf_directive ::
  "u32 \<Rightarrow> u32 \<Rightarrow> u32 \<Rightarrow> u32 \<Rightarrow> text_attribute \<Rightarrow> u32 list \<Rightarrow> kernel \<Rightarrow>
   (u32 \<times> text_attribute \<times> u32 list) krun" where
  "printf_directive buf str len i attr ap s =
    (let c = mem s (str + (i + 1)) in
     if c = 115 then
       (case ap of
          arg # ap \<Rightarrow> andthen (putsf arg attr s) (\<lambda>_ s. ret (i, attr, ap) s)
        | _ \<Rightarrow> fail Out_of_bounds)
     else if c = 100 then
       (case ap of
          arg # ap \<Rightarrow> andthen (put_decimal buf arg attr s) (\<lambda>_ s. ret (i, attr, ap) s)
        | _ \<Rightarrow> fail Out_of_bounds)
     else if c = 120 then
       (case ap of
          arg # ap \<Rightarrow> andthen (put_hexadecimal buf 8 arg attr s) (\<lambda>_ s. ret (i, attr, ap) s)
        | _ \<Rightarrow> fail Out_of_bounds)
     else if c = 108 then
       if i + 2 < len then
         andthen (printf_long buf (mem s (str + (i + 2))) attr ap s) (\<lambda>ap s. ret (i + 1, attr, ap) s)
       else ret (i, attr, ap) s
     else if c = 102 then
       (case ap of
          arg # ap \<Rightarrow> ret (i, attribute_of arg, ap) s
        | _ \<Rightarrow> fail Out_of_bounds)
     else ret (i, attr, ap) s)"

partial_function (option) printf_loop ::
  "u32 \<Rightarrow> u32 \<Rightarrow> u32 \<Rightarrow> u32 \<Rightarrow> text_attribute \<Rightarrow> u32 list \<Rightarrow> kernel \<Rightarrow> unit krun" where
  "printf_loop buf str len i attr ap s =
    (if i < len then
       let c = mem s (str + i) in
       if c = 37 \<and> i + 1 < len then
         andthen (printf_directive buf str len i attr ap s) (\<lambda>st s.
           case st of (i, attr, ap) \<Rightarrow> printf_loop buf str len (i + 1 + 1) attr ap s)
       else printf_loop buf str len (i + 1) attr ap (putcf c attr s)
     else ret () s)"

definition printf :: "u32 \<Rightarrow> u32 \<Rightarrow> u32 list \<Rightarrow> kernel \<Rightarrow> unit krun" where
  "printf buf str ap s =
    (case strlen (mem s) str of
       None \<Rightarrow> None
     | Some len \<Rightarrow> printf_loop buf str len 0 default_attribute ap s)"

section \<open>The screen\<close>

type_synonym cell = "u8 \<times> u8"

definition cell_at :: "memory \<Rightarrow> nat \<Rightarrow> cell" where
  "cell_at m i = (m (text_data (word_of_nat i)), m (text_data (word_of_nat i) + 1))"

definition screen :: "memory \<Rightarrow> cell list" where
  "screen m = map (cell_at m) [0..<2000]"

definition display_area :: "u32 set" where
  "display_area = region DISPLAY_MEMORY 4000"

definition attribute_byte :: "text_attribute \<Rightarrow> u8" where
  "attribute_byte attr = (foreground attr AND 15) OR push_bit 4 (background attr AND 15)"

lemma length_screen [simp]: "length (screen m) = 2000"
  by (simp add: screen_def)

lemma nth_screen: "i < 2000 \<Longrightarrow> screen m ! i = cell_at m i"
  by (simp add: screen_def)

lemma unat_text_data: "i < 2000 \<Longrightarrow> unat (text_data (word_of_nat i)) = 753664 + 2 * i"
  by (simp add: text_data_def unat_word_ariths unat_of_nat)

lemma unat_text_data_1: "i < 2000 \<Longrightarrow> unat (text_data (word_of_nat i) + 1) = 753665 + 2 * i"
  by (simp add: text_data_def unat_word_ariths unat_of_nat)

lemma text_data_distinct:
  assumes "i < 2000" and "j < 2000"
  shows "text_data (word_of_nat i) = text_data (word_of_nat j) \<longleftrightarrow> i = j"
    and "text_data (word_of_nat i) + 1 = text_data (word_of_nat j) + 1 \<longleftrightarrow> i = j"
    and "text_data (word_of_nat i) \<noteq> text_data (word_of_nat j) + 1"
    and "text_data (word_of_nat j) + 1 \<noteq> text_data (word_of_nat i)"
proof -
  note u = unat_text_data [OF assms(1)] unat_text_data [OF assms(2)]
    unat_text_data_1 [OF assms(1)] unat_text_data_1 [OF assms(2)]
  show "text_data (word_of_nat i) = text_data (word_of_nat j) \<longleftrightarrow> i = j"
    and "text_data (word_of_nat i) + 1 = text_data (word_of_nat j) + 1 \<longleftrightarrow> i = j"
    unfolding word_unat_eq_iff u by simp_all
  have "753664 + 2 * i \<noteq> 753665 + 2 * j" by presburger
  then show "text_data (word_of_nat i) \<noteq> text_data (word_of_nat j) + 1"
    and "text_data (word_of_nat j) + 1 \<noteq> text_data (word_of_nat i)"
    unfolding word_unat_eq_iff u by simp_all
qed

lemma text_data_in_area:
  "i < 2000 \<Longrightarrow> text_data (word_of_nat i) \<in> display_area"
  "i < 2000 \<Longrightarrow> text_data (word_of_nat i) + 1 \<in> display_area"
  unfolding display_area_def
  by (subst in_region_nat; simp add: unat_text_data unat_text_data_1)+

definition put_cell :: "nat \<Rightarrow> cell \<Rightarrow> memory \<Rightarrow> memory" where
  "put_cell i v m = m(text_data (word_of_nat i) := fst v, text_data (word_of_nat i) + 1 := snd v)"

lemma set_cell_put: "set_cell (word_of_nat i) c attr m = put_cell i (c, attribute_byte attr) m"
proof -
  have merge: "((x AND 240) OR (f AND 15)) AND 15 = f AND 15" for x f :: u8
    by (simp add: bit.conj_disj_distrib2 and.assoc)
  then show ?thesis
    by (auto simp: set_cell_def set_background_def set_foreground_def set_code_def store8_def
        attribute_byte_def put_cell_def merge)
qed

lemma cell_at_put:
  "i < 2000 \<Longrightarrow> j < 2000 \<Longrightarrow> cell_at (put_cell i v m) j = (if i = j then v else cell_at m j)"
  by (simp add: cell_at_def put_cell_def text_data_distinct)

lemma screen_put: "i < 2000 \<Longrightarrow> screen (put_cell i v m) = (screen m)[i := v]"
  by (rule nth_equalityI) (simp_all add: nth_screen cell_at_put nth_list_update)

lemma same_on_put: "i < 2000 \<Longrightarrow> same_on (- display_area) m (put_cell i v m)"
  using text_data_in_area [of i] by (auto simp: same_on_def put_cell_def)

definition blank :: cell where
  "blank = (0, 7)"

lemma clear_cells_screen:
  assumes "i \<le> j" and "j \<le> 2000"
  shows "k < 2000 \<Longrightarrow> cell_at (clear_cells i j m) k = (if i \<le> k \<and> k < j then blank else cell_at m k)"
    and "same_on (- display_area) m (clear_cells i j m)"
proof -
  have "(\<forall>k < 2000. cell_at (clear_cells i (i + n) m) k = (if i \<le> k \<and> k < i + n then blank else cell_at m k)) \<and>
      same_on (- display_area) m (clear_cells i (i + n) m)" if "i + n \<le> 2000" for n
    using that
  proof (induction n)
    case 0
    then show ?case by (auto simp: clear_cells_def)
  next
    case (Suc n)
    have "clear_cells i (i + Suc n) m = put_cell (i + n) blank (clear_cells i (i + n) m)"
      using set_cell_put [of "i + n"]
      by (simp add: clear_cells_def attribute_byte_def default_attribute_def blank_def)
    then show ?case
      using Suc same_on_trans [OF _ same_on_put [of "i + n"], of m]
      by (auto simp: cell_at_put)
  qed
  from this [of "j - i"] assms
  have *: "(\<forall>k < 2000. cell_at (clear_cells i j m) k = (if i \<le> k \<and> k < j then blank else cell_at m k)) \<and>
      same_on (- display_area) m (clear_cells i j m)" by simp
  then show "k < 2000 \<Longrightarrow> cell_at (clear_cells i j m) k = (if i \<le> k \<and> k < j then blank else cell_at m k)"
    and "same_on (- display_area) m (clear_cells i j m)" by blast+
qed

lemma copy_cell_put:
  "copy_cell (word_of_nat i) (word_of_nat i + 80) m = put_cell i (cell_at m (i + 80)) m"
  if "i + 80 < 2000"
proof -
  have "word_of_nat (i + 80) = word_of_nat i + (80 :: u32)" by simp
  then show ?thesis
    using text_data_distinct [of i "i + 80"] that
    by (auto simp: copy_cell_def cell_at_def store8_def put_cell_def)
qed

lemma copy_rows:
  assumes "n \<le> 1920"
  defines "c \<equiv> \<lambda>n m. fold (\<lambda>i. copy_cell (word_of_nat i) (word_of_nat i + DISPLAY_WIDTH)) [0..<n] m"
  shows "(\<forall>k < 2000. cell_at (c n m) k = (if k < n then cell_at m (k + 80) else cell_at m k)) \<and>
    same_on (- display_area) m (c n m)"
  using assms(1)
proof (induction n)
  case 0
  then show ?case by (simp add: c_def)
next
  case (Suc n)
  have IH: "\<forall>k < 2000. cell_at (c n m) k = (if k < n then cell_at m (k + 80) else cell_at m k)"
    and same: "same_on (- display_area) m (c n m)" using Suc by simp_all
  have "cell_at (c n m) (n + 80) = cell_at m (n + 80)" using IH Suc.prems by simp
  then have "c (Suc n) m = put_cell n (cell_at m (n + 80)) (c n m)"
    using copy_cell_put [of n "c n m"] Suc.prems by (simp add: c_def)
  then show ?case
    using IH Suc.prems same_on_trans [OF same same_on_put [of n "c n m"]]
    by (auto simp: cell_at_put less_Suc_eq)
qed

lemma display_scroll_screen:
  "screen (display_scroll m) = drop 80 (screen m) @ replicate 80 blank"
  "same_on (- display_area) m (display_scroll m)"
proof -
  let ?c = "fold (\<lambda>i. copy_cell (word_of_nat i) (word_of_nat i + DISPLAY_WIDTH)) [0..<1920] m"
  note c = copy_rows [of 1920 m]
  show "screen (display_scroll m) = drop 80 (screen m) @ replicate 80 blank"
    using c clear_cells_screen(1) [of 1920 2000 _ ?c]
    by (intro nth_equalityI) (auto simp: nth_screen nth_append display_scroll_def add.commute)
  show "same_on (- display_area) m (display_scroll m)"
    unfolding display_scroll_def
    using c by (intro same_on_trans [OF _ clear_cells_screen(2)]) simp_all
qed

section \<open>The terminal\<close>

record terminal =
  cells :: "cell list"
  pos :: nat

definition terminal_of :: "kernel \<Rightarrow> terminal" where
  "terminal_of s = \<lparr>cells = screen (mem s), pos = unat (cursor s)\<rparr>"

lemma terminal_cong:
  assumes "same_on display_area (mem s) (mem s')" and "cursor s' = cursor s"
  shows "terminal_of s' = terminal_of s"
proof -
  have "cell_at (mem s') i = cell_at (mem s) i" if "i < 2000" for i
    using same_onD [OF assms(1) text_data_in_area(1) [OF that]] same_onD [OF assms(1) text_data_in_area(2) [OF that]]
    by (simp add: cell_at_def)
  then show ?thesis using assms(2) by (simp add: terminal_of_def screen_def)
qed

definition term_scroll :: "terminal \<Rightarrow> terminal" where
  "term_scroll t =
    (if 2000 \<le> pos t then \<lparr>cells = drop 80 (cells t) @ replicate 80 blank, pos = 1920\<rparr> else t)"

definition term_put :: "u8 \<times> text_attribute \<Rightarrow> terminal \<Rightarrow> terminal" where
  "term_put = (\<lambda>(c, attr) t.
    if c = 0 then t
    else if c = 10 then term_scroll (t\<lparr>pos := 80 * (pos t div 80 + 1)\<rparr>)
    else term_scroll \<lparr>cells = (cells t)[pos t := (c, attribute_byte attr)], pos = pos t + 1\<rparr>)"

lemma term_put_text_pos:
  "0 \<notin> fst ` set cas \<Longrightarrow> 10 \<notin> fst ` set cas \<Longrightarrow> pos t + length cas < 2000 \<Longrightarrow>
   pos (fold term_put cas t) = pos t + length cas"
proof (induction cas arbitrary: t)
  case (Cons x cas)
  then have "pos (term_put x t) = pos t + 1" by (auto simp: term_put_def term_scroll_def split: prod.split)
  then show ?case using Cons by simp
qed simp

text \<open>A state whose cursor is on the screen.\<close>

definition display_ok :: "kernel \<Rightarrow> bool" where
  "display_ok s \<longleftrightarrow> cursor s < 2000"

text \<open>What output keeps: everything but the display memory, the cursor and the port history.\<close>

definition display_events :: "port_event set" where
  "display_events = {e. \<exists>v. e = Out8 980 v \<or> e = Out8 981 v \<or> e = In8 981 v}"

definition kept :: "u32 set \<Rightarrow> kernel \<Rightarrow> kernel \<Rightarrow> bool" where
  "kept X s s' \<longleftrightarrow> same_on (- (display_area \<union> X)) (mem s) (mem s') \<and> (\<exists>h. io s' = h @ io s \<and> set h \<subseteq> display_events) \<and>
     s'\<lparr>mem := mem s, cursor := cursor s, io := io s\<rparr> = s"

text \<open>\<open>prints cas X s s'\<close>: the characters \<open>cas\<close> went to the terminal, and besides only \<open>X\<close> was
  written.\<close>

definition prints :: "(u8 \<times> text_attribute) list \<Rightarrow> u32 set \<Rightarrow> kernel \<Rightarrow> kernel \<Rightarrow> bool" where
  "prints cas X s s' \<longleftrightarrow> terminal_of s' = fold term_put cas (terminal_of s) \<and> display_ok s' \<and> kept X s s'"

lemma kept_refl [simp]: "kept X s s"
  by (simp add: kept_def)

lemma kept_trans:
  assumes "kept X s s'" and "kept X s' s''"
  shows "kept X s s''"
proof -
  obtain h h' where "io s' = h @ io s" "set h \<subseteq> display_events" "io s'' = h' @ io s'" "set h' \<subseteq> display_events"
    using assms by (auto simp: kept_def)
  then have "\<exists>h. io s'' = h @ io s \<and> set h \<subseteq> display_events" by (intro exI [of _ "h' @ h"]) simp
  moreover have "s''\<lparr>mem := mem s, cursor := cursor s, io := io s\<rparr> =
      (s''\<lparr>mem := mem s', cursor := cursor s', io := io s'\<rparr>)\<lparr>mem := mem s, cursor := cursor s, io := io s\<rparr>"
    by simp
  ultimately show ?thesis using assms same_on_trans unfolding kept_def by metis
qed

lemma kept_mono: "kept X s s' \<Longrightarrow> X \<subseteq> Y \<Longrightarrow> kept Y s s'"
  unfolding kept_def by (meson Compl_anti_mono Un_mono order_refl same_on_mono)

lemma prints_Nil: "display_ok s \<Longrightarrow> prints [] X s s"
  by (simp add: prints_def)

lemma prints_append: "prints xs X s s' \<Longrightarrow> prints ys X s' s'' \<Longrightarrow> prints (xs @ ys) X s s''"
  using kept_trans by (auto simp: prints_def)

lemma prints_mono: "prints cas X s s' \<Longrightarrow> X \<subseteq> Y \<Longrightarrow> prints cas Y s s'"
  using kept_mono by (auto simp: prints_def)

lemma prints_same_on:
  "prints cas X s s' \<Longrightarrow> S \<inter> display_area = {} \<Longrightarrow> S \<inter> X = {} \<Longrightarrow> same_on S (mem s) (mem s')"
  unfolding prints_def kept_def by (elim conjE, erule same_on_mono) blast

lemma prints_display_ok: "prints cas X s s' \<Longrightarrow> display_ok s'"
  by (simp add: prints_def)

lemma update_cursor_terminal:
  assumes "cursor s \<le> 2000"
  shows "terminal_of (display_update_cursor s) = term_scroll (terminal_of s)"
    and "display_ok (display_update_cursor s)" and "kept X s (display_update_cursor s)"
proof -
  have u: "2000 \<le> cursor s \<longleftrightarrow> 2000 \<le> unat (cursor s)" by (simp add: word_le_nat_alt)
  show "terminal_of (display_update_cursor s) = term_scroll (terminal_of s)"
    by (simp add: display_update_cursor_def Let_def terminal_of_def term_scroll_def u display_scroll_screen)
  show "display_ok (display_update_cursor s)"
    using assms by (auto simp: display_update_cursor_def Let_def display_ok_def)
  have "same_on (- (display_area \<union> X)) (mem s) (mem (display_update_cursor s))"
    using same_on_mono [OF display_scroll_screen(2) [of "mem s"], of "- (display_area \<union> X)"]
    by (auto simp: display_update_cursor_def Let_def)
  then show "kept X s (display_update_cursor s)"
    by (simp add: kept_def) (simp add: display_update_cursor_def Let_def outb_def display_events_def)
qed

lemma display_init_kept: "kept X s (display_init env s)" "display_ok (display_init env s)"
proof -
  have "same_on (- (display_area \<union> X)) (mem s) (clear_cells 0 2000 (mem s))"
    using same_on_mono [OF clear_cells_screen(2) [of 0 2000 "mem s"], of "- (display_area \<union> X)"] by auto
  then show "kept X s (display_init env s)"
    by (simp add: kept_def) (simp add: display_init_def display_clear_def outb_def inb_def Let_def display_events_def)
  show "display_ok (display_init env s)" by (simp add: display_init_def display_clear_def display_ok_def Let_def split: prod.split)
qed

lemma putcf_prints:
  assumes "display_ok s"
  shows "prints [(c, attr)] X s (putcf c attr s)"
proof -
  have lt: "unat (cursor s) < 2000" using assms by (simp add: display_ok_def word_less_nat_alt)
  consider "c = 0" | "c = 10" | "c \<noteq> 0" "c \<noteq> 10" by blast
  then show ?thesis
  proof cases
    case 1
    then show ?thesis using assms by (simp add: prints_def putcf_def term_put_def)
  next
    case 2
    let ?s = "s\<lparr>cursor := cursor s + (80 - cursor s mod 80)\<rparr>"
    have m: "unat (80 - cursor s mod 80) = 80 - unat (cursor s) mod 80"
      by (subst unat_sub_exact) (simp_all add: word_le_nat_alt unat_mod less_imp_le)
    have c: "unat (cursor s + (80 - cursor s mod 80)) = 80 * (unat (cursor s) div 80 + 1)"
    proof -
      have "unat (cursor s + (80 - cursor s mod 80)) = unat (cursor s) + (80 - unat (cursor s) mod 80)"
        using lt by (subst unat_add_exact) (simp_all add: m)
      also have "\<dots> = 80 * (unat (cursor s) div 80 + 1)"
        by presburger
      finally show ?thesis .
    qed
    have "unat (cursor s) div 80 < 25" using lt by simp
    then have le: "cursor ?s \<le> 2000" using c by (simp add: word_le_nat_alt)
    have "kept X s ?s" by (simp add: kept_def)
    then show ?thesis
      using update_cursor_terminal [OF le] kept_trans 2 c
      by (auto simp: prints_def putcf_def term_put_def terminal_of_def)
  next
    case 3
    let ?s = "s\<lparr>mem := set_cell (cursor s) c attr (mem s), cursor := cursor s + 1\<rparr>"
    have put: "set_cell (cursor s) c attr (mem s) = put_cell (unat (cursor s)) (c, attribute_byte attr) (mem s)"
      using set_cell_put [of "unat (cursor s)"] by simp
    have c: "unat (cursor s + 1) = unat (cursor s) + 1"
      using lt by (subst unat_add_exact) simp_all
    then have le: "cursor ?s \<le> 2000" using lt by (simp add: word_le_nat_alt)
    have "kept X s ?s"
      using same_on_mono [OF same_on_put [OF lt, of "mem s"], of "- (display_area \<union> X)"]
      by (auto simp: kept_def put)
    then show ?thesis
      using update_cursor_terminal [OF le] kept_trans 3 c put screen_put [OF lt]
      by (auto simp: prints_def putcf_def term_put_def terminal_of_def)
  qed
qed

lemma put_literal_prints:
  "display_ok s \<Longrightarrow> prints (map (\<lambda>c. (c, attr)) cs) X s (put_literal cs attr s)"
proof (induction cs arbitrary: s)
  case Nil
  then show ?case by (simp add: put_literal_def prints_Nil)
next
  case (Cons c cs)
  have p: "prints [(c, attr)] X s (putcf c attr s)" using Cons.prems by (rule putcf_prints)
  show ?case
    using prints_append [OF p Cons.IH [OF prints_display_ok [OF p]]] by (simp add: put_literal_def)
qed

lemma put_counted_prints:
  assumes "display_ok s" and "bytes_at (mem s) str n = cs" and "n < 2 ^ 32"
    and "region str n \<inter> display_area = {}"
  shows "prints (map (\<lambda>c. (c, attr)) cs) {} s (put_counted str n attr s)"
  using assms(2-4)
proof (induction n arbitrary: cs)
  case 0
  then show ?case using assms(1) by (auto simp: put_counted_def prints_Nil)
next
  case (Suc n)
  let ?s = "put_counted str n attr s" and ?c = "mem s (str + word_of_nat n)"
  have "region str n \<inter> display_area = {}" using Suc.prems(3) region_mono [of n "Suc n" str] by auto
  then have p: "prints (map (\<lambda>c. (c, attr)) (bytes_at (mem s) str n)) {} s ?s"
    using Suc.IH Suc.prems(2) by simp
  have "str + word_of_nat n \<in> region str (Suc n)"
    using Suc.prems(2) by (simp add: region_offset unat_of_nat)
  then have "mem ?s (str + word_of_nat n) = ?c"
    using prints_same_on [OF p, of "{str + word_of_nat n}"] Suc.prems(3) by (auto simp: same_on_def)
  moreover have "prints [(?c, attr)] {} ?s (putcf ?c attr ?s)"
    using p by (intro putcf_prints prints_display_ok)
  ultimately show ?case using prints_append [OF p] Suc.prems(1)
    by (auto simp: put_counted_def bytes_at_Suc)
qed

lemma putsf_prints:
  assumes "display_ok s" and "cstr (mem s) str cs" and "region str (length cs) \<inter> display_area = {}"
  shows "\<exists>s'. putsf str attr s = ret () s' \<and> prints (map (\<lambda>c. (c, attr)) cs) {} s s'"
proof -
  have len: "length cs < 2 ^ 32" "bytes_at (mem s) str (length cs) = cs"
    using assms(2) by (simp_all add: cstr_def)
  then show ?thesis
    using strlen_cstr [OF assms(2)] put_counted_prints [OF assms(1) len(2,1) assms(3), of attr]
    by (simp add: putsf_def unat_of_nat_eq)
qed

end
