(* ===== verification/Printf.thy ===== *)
theory Printf
  imports Display
begin

text \<open>
  What \<open>printf\<close> of \<open>display/display.c\<close> shows: the expansion of a format string as a list of
  characters with their attributes, and the proof that the routine sends exactly that list to the
  terminal.
\<close>

section \<open>The expansion\<close>

definition decimal_out :: "u32 \<Rightarrow> text_attribute \<Rightarrow> (u8 \<times> text_attribute) list" where
  "decimal_out arg attr = map (\<lambda>c. (c, attr)) (itoa_string arg 10)"

definition hex_out :: "nat \<Rightarrow> u32 \<Rightarrow> text_attribute \<Rightarrow> (u8 \<times> text_attribute) list" where
  "hex_out width arg attr =
    map (\<lambda>c. (c, default_attribute)) ([48, 120] @ replicate (width - length (itoa_string arg 16)) 48) @
    map (\<lambda>c. (c, attr)) (itoa_string arg 16)"

fun printf_out ::
  "strings \<Rightarrow> u8 list \<Rightarrow> text_attribute \<Rightarrow> u32 list \<Rightarrow> (u8 \<times> text_attribute) list option" where
  "printf_out strings [] attr ap = Some []"
| "printf_out strings [c] attr ap = Some [(c, attr)]"
| "printf_out strings (c # d # cs) attr ap =
    (if c \<noteq> 37 then map_option (Cons (c, attr)) (printf_out strings (d # cs) attr ap)
     else if d = 115 then
       (case ap of
          [] \<Rightarrow> None
        | a # ap \<Rightarrow>
            (case strings a of
               None \<Rightarrow> None
             | Some t \<Rightarrow> map_option (append (map (\<lambda>c. (c, attr)) t)) (printf_out strings cs attr ap)))
     else if d = 100 then
       (case ap of
          [] \<Rightarrow> None
        | a # ap \<Rightarrow> map_option (append (decimal_out a attr)) (printf_out strings cs attr ap))
     else if d = 120 then
       (case ap of
          [] \<Rightarrow> None
        | a # ap \<Rightarrow> map_option (append (hex_out 8 a attr)) (printf_out strings cs attr ap))
     else if d = 108 then
       (case cs of
          [] \<Rightarrow> Some []
        | e # cs \<Rightarrow>
            if e = 100 then
              (case ap of
                 lo # hi # ap \<Rightarrow> map_option (append (decimal_out lo attr)) (printf_out strings cs attr ap)
               | _ \<Rightarrow> None)
            else if e = 120 then
              (case ap of
                 lo # hi # ap \<Rightarrow> map_option (append (hex_out 16 lo attr)) (printf_out strings cs attr ap)
               | _ \<Rightarrow> None)
            else printf_out strings cs attr ap)
     else if d = 102 then
       (case ap of
          [] \<Rightarrow> None
        | a # ap \<Rightarrow> printf_out strings cs (attribute_of a) ap)
     else printf_out strings cs attr ap)"

section \<open>The conversions\<close>

text \<open>The format and the strings lie in memory, apart from the display and the buffer.\<close>

definition printf_ready :: "u32 \<Rightarrow> u32 \<Rightarrow> u8 list \<Rightarrow> strings \<Rightarrow> kernel \<Rightarrow> bool" where
  "printf_ready buf str fmt strings s \<longleftrightarrow> display_ok s \<and> region buf 12 \<inter> display_area = {} \<and>
     cstr (mem s) str fmt \<and> region str (Suc (length fmt)) \<inter> (display_area \<union> region buf 12) = {} \<and>
     (\<forall>a t. strings a = Some t \<longrightarrow>
        cstr (mem s) a t \<and> region a (Suc (length t)) \<inter> (display_area \<union> region buf 12) = {})"

lemma printf_readyD:
  assumes "printf_ready buf str fmt strings s"
  shows "display_ok s" and "region buf 12 \<inter> display_area = {}" and "cstr (mem s) str fmt"
    and "strings a = Some t \<Longrightarrow> cstr (mem s) a t \<and> region a (length t) \<inter> display_area = {}"
proof -
  show "display_ok s" "region buf 12 \<inter> display_area = {}" "cstr (mem s) str fmt"
    using assms by (simp_all add: printf_ready_def)
  assume "strings a = Some t"
  then have "cstr (mem s) a t" "region a (Suc (length t)) \<inter> display_area = {}"
    using assms unfolding printf_ready_def by (metis, metis Int_Un_distrib Un_empty)
  then show "cstr (mem s) a t \<and> region a (length t) \<inter> display_area = {}"
    using region_mono [of "length t" "Suc (length t)" a] by auto
qed

lemma printf_ready_prints:
  assumes "printf_ready buf str fmt strings s" and "prints cas (region buf 12) s s'"
  shows "printf_ready buf str fmt strings s'"
proof -
  have keep: "same_on (region a n) (mem s) (mem s')" if "region a n \<inter> (display_area \<union> region buf 12) = {}" for a n
    using prints_same_on [OF assms(2)] that by blast
  have "cstr (mem s') a t" if "cstr (mem s) a t" "region a (Suc (length t)) \<inter> (display_area \<union> region buf 12) = {}" for a t
    using cstr_cong [OF keep [OF that(2)] that(1)] .
  then show ?thesis using assms by (auto simp: printf_ready_def prints_def)
qed

text \<open>Writing digits to the buffer prints nothing.\<close>

lemma buffer_prints:
  assumes "display_ok s" and "same_on (- region buf 12) (mem s) m" and "region buf 12 \<inter> display_area = {}"
  shows "prints [] (region buf 12) s (s\<lparr>mem := m\<rparr>)"
proof -
  have "same_on display_area (mem s) m" using assms(2) by (rule same_on_mono) (use assms(3) in blast)
  then have "cell_at m i = cell_at (mem s) i" if "i < 2000" for i
    using text_data_in_area [OF that] by (simp add: cell_at_def same_on_def)
  then have "screen m = screen (mem s)" by (simp add: screen_def)
  moreover have "kept (region buf 12) s (s\<lparr>mem := m\<rparr>)"
    using same_on_mono [OF assms(2), of "- (display_area \<union> region buf 12)"] by (auto simp: kept_def)
  ultimately show ?thesis using assms(1) by (simp add: prints_def terminal_of_def display_ok_def)
qed

lemma put_hex_prints:
  assumes "display_ok s"
  shows "prints (map (\<lambda>c. (c, default_attribute)) ([48, 120] @ replicate (unat n) 48)) X s (put_hex n s)"
proof -
  have "fold (\<lambda>_. putc 48) [0..<k] s = put_literal (replicate k 48) default_attribute s" for k and s :: kernel
    by (induction k arbitrary: s) (simp_all add: put_literal_def putc_def fun_eq_iff replicate_append_same [symmetric] del: replicate_Suc)
  then have "put_hex n s = put_literal ([48, 120] @ replicate (unat n) 48) default_attribute s"
    by (simp add: put_hex_def put_literal_def)
  then show ?thesis using put_literal_prints [OF assms] by metis
qed

lemma put_decimal_prints:
  assumes "printf_ready buf str fmt strings s"
  shows "\<exists>s'. put_decimal buf arg attr s = ret () s' \<and> prints (decimal_out arg attr) (region buf 12) s s'"
proof -
  note r = printf_readyD [OF assms]
  obtain m where m: "itoa arg buf 10 (mem s) = Some m" "cstr m buf (itoa_string arg 10)"
    "same_on (- region buf 12) (mem s) m" using itoa_short [of 10] by blast
  note p = buffer_prints [OF r(1) m(3) r(2)]
  have "region buf (length (itoa_string arg 10)) \<inter> display_area = {}"
    using r(2) region_mono [of "length (itoa_string arg 10)" 12 buf] itoa_string_short(1) [of 10 arg] by auto
  then obtain s' where "putsf buf attr (s\<lparr>mem := m\<rparr>) = ret () s'"
    "prints (decimal_out arg attr) {} (s\<lparr>mem := m\<rparr>) s'"
    using putsf_prints [OF prints_display_ok [OF p], of buf "itoa_string arg 10" attr] m(2)
    by (auto simp: decimal_out_def)
  then show ?thesis
    using m(1) prints_append [OF p prints_mono [of "decimal_out arg attr" "{}"]] by (simp add: put_decimal_def)
qed

lemma put_hexadecimal_prints:
  assumes "printf_ready buf str fmt strings s" and "8 \<le> unat width"
  shows "\<exists>s'. put_hexadecimal buf width arg attr s = ret () s' \<and>
    prints (hex_out (unat width) arg attr) (region buf 12) s s'"
proof -
  note r = printf_readyD [OF assms(1)]
  let ?cs = "itoa_string arg 16" and ?X = "region buf 12"
  have len: "length ?cs \<le> 8" using itoa_string_short(1) [of 16 arg] by simp
  obtain m where m: "itoa arg buf 16 (mem s) = Some m" "cstr m buf ?cs"
    "same_on (- ?X) (mem s) m" using itoa_short [of 16] by blast
  let ?s = "s\<lparr>mem := m\<rparr>" and ?n = "width - word_of_nat (length ?cs)"
  have n: "unat ?n = unat width - length ?cs"
    using len assms(2) by (subst unat_sub_exact) (simp_all add: word_le_nat_alt unat_of_nat)
  note p = buffer_prints [OF r(1) m(3) r(2)]
  have p2: "prints (map (\<lambda>c. (c, default_attribute)) ([48, 120] @ replicate (unat width - length ?cs) 48)) ?X ?s (put_hex ?n ?s)"
    using put_hex_prints [OF prints_display_ok [OF p], of ?n] by (simp only: n)
  have "cstr (mem (put_hex ?n ?s)) buf ?cs"
  proof (rule cstr_cong)
    have sub: "region buf (Suc (length ?cs)) \<inter> display_area = {}"
      using r(2) region_mono [of "Suc (length ?cs)" 12 buf] len by auto
    show "same_on (region buf (Suc (length ?cs))) m (mem (put_hex ?n ?s))"
      using prints_same_on [OF put_hex_prints [OF prints_display_ok [OF p], of ?n "{}"] sub] by simp
    show "cstr m buf ?cs" by (fact m(2))
  qed
  moreover have "region buf (length ?cs) \<inter> display_area = {}"
    using r(2) region_mono [of "length ?cs" 12 buf] len by auto
  ultimately obtain s' where s': "putsf buf attr (put_hex ?n ?s) = ret () s'"
    "prints (map (\<lambda>c. (c, attr)) ?cs) {} (put_hex ?n ?s) s'"
    using putsf_prints [OF prints_display_ok [OF p2]] by blast
  have "prints (hex_out (unat width) arg attr) ?X s s'"
    using prints_append [OF prints_append [OF p p2] prints_mono [OF s'(2)]]
    by (simp add: hex_out_def)
  then show ?thesis using s'(1) m(1) strlen_cstr [OF m(2)] by (simp add: put_hexadecimal_def)
qed

section \<open>The loop\<close>

lemma drop_at: "i < length xs \<Longrightarrow> drop i xs = xs ! i # drop (Suc i) xs"
  by (simp add: Cons_nth_drop_Suc)

lemma format_char:
  "cstr m str fmt \<Longrightarrow> i < length fmt \<Longrightarrow> m (str + word_of_nat i) = fmt ! i"
  by (rule cstr_nth)

lemma printf_long_out:
  assumes "printf_ready buf str fmt strings s"
    and "printf_out strings (37 # 108 # e # cs) attr ap = Some out"
  shows "\<exists>ap' s1 o1 o2. printf_long buf e attr ap s = ret ap' s1 \<and> prints o1 (region buf 12) s s1 \<and>
    printf_out strings cs attr ap' = Some o2 \<and> out = o1 @ o2"
proof -
  note r = printf_readyD [OF assms(1)]
  consider "e = 100" | "e = 120" | "e \<noteq> 100" "e \<noteq> 120" by blast
  then show ?thesis
  proof cases
    case 1
    then obtain lo hi ap' where "ap = lo # hi # ap'" using assms(2) by (auto split: list.splits)
    with 1 put_decimal_prints [OF assms(1), of lo attr] assms(2) show ?thesis
      by (auto simp: printf_long_def)
  next
    case 2
    then obtain lo hi ap' where "ap = lo # hi # ap'" using assms(2) by (auto split: list.splits)
    with 2 put_hexadecimal_prints [OF assms(1), of 16 lo attr] assms(2) show ?thesis
      by (auto simp: printf_long_def)
  next
    case 3
    then show ?thesis using assms(2) prints_Nil [OF r(1)] by (auto simp: printf_long_def)
  qed
qed

lemma printf_directive_out:
  assumes ready: "printf_ready buf str fmt strings s" and i: "Suc i < length fmt" "fmt ! i = 37"
    and out: "printf_out strings (drop i fmt) attr ap = Some out"
  shows "\<exists>i' attr' ap' s1 o1 o2.
    printf_directive buf str (word_of_nat (length fmt)) (word_of_nat i) attr ap s = ret (word_of_nat i', attr', ap') s1 \<and>
    prints o1 (region buf 12) s s1 \<and> (i' = i \<or> i' = Suc i) \<and> i' + 2 \<le> length fmt \<and>
    printf_out strings (drop (i' + 2) fmt) attr' ap' = Some o2 \<and> out = o1 @ o2"
proof -
  note r = printf_readyD [OF ready]
  let ?d = "fmt ! Suc i" and ?cs = "drop (Suc (Suc i)) fmt" and ?X = "region buf 12"
  have len: "length fmt < 2 ^ 32" using r(3) by (simp add: cstr_def)
  have fmt: "drop i fmt = 37 # ?d # ?cs" using i by (simp add: drop_at)
  note out = out [unfolded fmt]
  have d: "mem s (str + (word_of_nat i + 1)) = ?d"
    using format_char [OF r(3) i(1)] by (simp add: add.commute)
  have done0: "?thesis" if "printf_directive buf str (word_of_nat (length fmt)) (word_of_nat i) attr ap s =
      ret (word_of_nat i, attr', ap') s1" "prints o1 ?X s s1" "printf_out strings ?cs attr' ap' = Some o2" "out = o1 @ o2"
    for attr' ap' s1 o1 o2
    using that i by (intro exI [of _ i] exI [of _ attr'] exI [of _ ap'] exI [of _ s1] exI [of _ o1] exI [of _ o2]) simp
  note none = prints_Nil [OF r(1), of ?X]
  consider "?d = 115" | "?d = 100" | "?d = 120" | "?d = 108" | "?d = 102"
    | "?d \<noteq> 115" "?d \<noteq> 100" "?d \<noteq> 120" "?d \<noteq> 108" "?d \<noteq> 102" by blast
  then show ?thesis
  proof cases
    case 1
    then obtain a ap' t o2 where ap: "ap = a # ap'" "strings a = Some t"
      "printf_out strings ?cs attr ap' = Some o2" "out = map (\<lambda>c. (c, attr)) t @ o2"
      using out by (auto split: list.splits option.splits)
    have "cstr (mem s) a t \<and> region a (length t) \<inter> display_area = {}" using r(4) [OF ap(2)] .
    then obtain s1 where "putsf a attr s = ret () s1" "prints (map (\<lambda>c. (c, attr)) t) {} s s1"
      using putsf_prints [OF r(1)] by blast
    then show ?thesis using 1 ap d prints_mono [of _ "{}" s s1 ?X]
      by (intro done0 [of attr ap' s1]) (auto simp: printf_directive_def)
  next
    case 2
    then obtain a ap' o2 where ap: "ap = a # ap'" "printf_out strings ?cs attr ap' = Some o2"
      "out = decimal_out a attr @ o2" using out by (auto split: list.splits)
    obtain s1 where "put_decimal buf a attr s = ret () s1" "prints (decimal_out a attr) ?X s s1"
      using put_decimal_prints [OF ready] by blast
    then show ?thesis using 2 ap d by (intro done0 [of attr ap' s1]) (auto simp: printf_directive_def)
  next
    case 3
    then obtain a ap' o2 where ap: "ap = a # ap'" "printf_out strings ?cs attr ap' = Some o2"
      "out = hex_out 8 a attr @ o2" using out by (auto split: list.splits)
    obtain s1 where "put_hexadecimal buf 8 a attr s = ret () s1" "prints (hex_out 8 a attr) ?X s s1"
      using put_hexadecimal_prints [OF ready, of 8] by auto
    then show ?thesis using 3 ap d by (intro done0 [of attr ap' s1]) (auto simp: printf_directive_def)
  next
    case 4
    show ?thesis
    proof (cases "Suc (Suc i) < length fmt")
      case True
      let ?e = "fmt ! Suc (Suc i)"
      have e: "?cs = ?e # drop (Suc (Suc (Suc i))) fmt" using True by (simp add: drop_at)
      have m: "mem s (str + (word_of_nat i + 2)) = ?e"
        using format_char [OF r(3) True] by (simp add: add.commute)
      have lt: "word_of_nat i + 2 < (word_of_nat (length fmt) :: u32)"
        using True len by (simp add: word_less_nat_alt unat_of_nat unat_word_ariths)
      obtain ap' s1 o1 o2 where l: "printf_long buf ?e attr ap s = ret ap' s1" "prints o1 ?X s s1"
        "printf_out strings (drop (Suc (Suc (Suc i))) fmt) attr ap' = Some o2" "out = o1 @ o2"
        using printf_long_out [OF ready] out 4 e by metis
      have "word_of_nat (Suc i) = word_of_nat i + (1 :: u32)" by simp
      then have "printf_directive buf str (word_of_nat (length fmt)) (word_of_nat i) attr ap s =
          ret (word_of_nat (Suc i), attr, ap') s1"
        using 4 d m lt l(1) by (simp only: printf_directive_def Let_def) simp
      with l(2-4) True show ?thesis
        by (intro exI [of _ "Suc i"] exI [of _ attr] exI [of _ ap'] exI [of _ s1] exI [of _ o1] exI [of _ o2]) simp
    next
      case False
      then have "?cs = []" by simp
      moreover have "\<not> word_of_nat i + 2 < (word_of_nat (length fmt) :: u32)"
      proof -
        have "length fmt = Suc (Suc i)" using False i by simp
        then show ?thesis by (simp add: add.commute)
      qed
      ultimately show ?thesis using out 4 d none
        by (intro done0 [of attr ap s "[]" "[]"]) (simp_all add: printf_directive_def)
    qed
  next
    case 5
    then obtain a ap' where ap: "ap = a # ap'" "printf_out strings ?cs (attribute_of a) ap' = Some out"
      using out by (auto split: list.splits)
    then show ?thesis using 5 d none
      by (intro done0 [of "attribute_of a" ap' s "[]" out]) (simp_all add: printf_directive_def)
  next
    case 6
    then show ?thesis using out d none
      by (intro done0 [of attr ap s "[]" out]) (simp_all add: printf_directive_def)
  qed
qed

lemma printf_loop_out:
  assumes "printf_ready buf str fmt strings s" and "i \<le> length fmt"
    and "printf_out strings (drop i fmt) attr ap = Some out"
  shows "\<exists>s'. printf_loop buf str (word_of_nat (length fmt)) (word_of_nat i) attr ap s = ret () s' \<and>
    prints out (region buf 12) s s'"
  using assms
proof (induction "length fmt - i" arbitrary: i attr ap s out rule: less_induct)
  case less
  note r = printf_readyD [OF less.prems(1)]
  let ?n = "word_of_nat (length fmt) :: u32" and ?X = "region buf 12"
  have len: "length fmt < 2 ^ 32" using r(3) by (simp add: cstr_def)
  show ?case
  proof (cases "i < length fmt")
    case False
    then have i: "i = length fmt" using less.prems(2) by simp
    then have "out = []" using less.prems(3) by simp
    then show ?thesis unfolding i by (subst printf_loop.simps) (simp add: prints_Nil [OF r(1)])
  next
    case True
    have lt: "word_of_nat i < ?n" using True len by (simp add: word_less_nat_alt unat_of_nat)
    have lt1: "word_of_nat i + 1 < ?n \<longleftrightarrow> Suc i < length fmt"
      using True len by (simp add: word_less_nat_alt unat_of_nat unat_word_ariths)
    have c: "mem s (str + word_of_nat i) = fmt ! i" using format_char [OF r(3) True] .
    show ?thesis
    proof (cases "fmt ! i = 37 \<and> Suc i < length fmt")
      case dir: True
      then obtain i' attr' ap' s1 o1 o2 where d:
        "printf_directive buf str ?n (word_of_nat i) attr ap s = ret (word_of_nat i', attr', ap') s1"
        "prints o1 ?X s s1" "i' = i \<or> i' = Suc i" "i' + 2 \<le> length fmt"
        "printf_out strings (drop (i' + 2) fmt) attr' ap' = Some o2" "out = o1 @ o2"
        using printf_directive_out [OF less.prems(1) _ _ less.prems(3)] by blast
      have "length fmt - (i' + 2) < length fmt - i" using d(3,4) by auto
      from less.hyps [OF this printf_ready_prints [OF less.prems(1) d(2)] d(4,5)]
      obtain s' where s': "printf_loop buf str ?n (word_of_nat (i' + 2)) attr' ap' s1 = ret () s'" "prints o2 ?X s1 s'"
        by blast
      have "printf_loop buf str ?n (word_of_nat i) attr ap s = printf_loop buf str ?n (word_of_nat i' + 1 + 1) attr' ap' s1"
        using lt lt1 c dir d(1) by (subst printf_loop.simps) simp
      also have "word_of_nat i' + 1 + 1 = (word_of_nat (i' + 2) :: u32)" by simp
      finally show ?thesis using s' prints_append [OF d(2) s'(2)] d(6) by auto
    next
      case plain: False
      let ?s = "putcf (fmt ! i) attr s"
      have p: "prints [(fmt ! i, attr)] ?X s ?s" using putcf_prints [OF r(1)] .
      obtain o2 where o2: "printf_out strings (drop (Suc i) fmt) attr ap = Some o2" "out = (fmt ! i, attr) # o2"
      proof (cases "Suc i < length fmt")
        case True
        then have "drop i fmt = fmt ! i # fmt ! Suc i # drop (Suc (Suc i)) fmt"
          "drop (Suc i) fmt = fmt ! Suc i # drop (Suc (Suc i)) fmt" by (simp_all add: drop_at)
        then show ?thesis using that less.prems(3) plain True by auto
      next
        case False
        then have "drop i fmt = [fmt ! i]" "drop (Suc i) fmt = []" using \<open>i < length fmt\<close> by (simp_all add: drop_at)
        then show ?thesis using that less.prems(3) by auto
      qed
      have "length fmt - Suc i < length fmt - i" "Suc i \<le> length fmt" using True by simp_all
      from less.hyps [OF this(1) printf_ready_prints [OF less.prems(1) p] this(2) o2(1)]
      obtain s' where s': "printf_loop buf str ?n (word_of_nat (Suc i)) attr ap ?s = ret () s'" "prints o2 ?X ?s s'"
        by blast
      have "word_of_nat (Suc i) = word_of_nat i + (1 :: u32)" by simp
      then have "printf_loop buf str ?n (word_of_nat i + 1) attr ap ?s = ret () s'" using s'(1) by metis
      then have "printf_loop buf str ?n (word_of_nat i) attr ap s = ret () s'"
        using lt lt1 c plain by (subst printf_loop.simps) auto
      then show ?thesis using prints_append [OF p s'(2)] o2(2) by auto
    qed
  qed
qed

lemma printf_prints:
  assumes "printf_ready buf str fmt strings s" and "printf_out strings fmt default_attribute ap = Some out"
  shows "\<exists>s'. printf buf str ap s = ret () s' \<and> prints out (region buf 12) s s'"
proof -
  have "strlen (mem s) str = Some (word_of_nat (length fmt))"
    using printf_readyD(3) [OF assms(1)] by (rule strlen_cstr)
  moreover obtain s' where "printf_loop buf str (word_of_nat (length fmt)) 0 default_attribute ap s = ret () s'"
    "prints out (region buf 12) s s'"
    using printf_loop_out [OF assms(1), of 0 default_attribute ap out] assms(2) by auto
  ultimately show ?thesis by (simp add: printf_def)
qed

section \<open>Properties\<close>

text \<open>C23. \<open>putcf\<close> drives a terminal. With the cursor on the screen, a character lands in the cell at the
  cursor with its colours, a line feed moves to the next row, a position past the last row scrolls
  the screen by one, and a null does nothing; the cursor stays on the screen and no memory outside the
  display is written.\<close>

theorem putcf_terminal:
  assumes "cursor s < 2000"
  shows "terminal_of (putcf c attr s) = term_put (c, attr) (terminal_of s) \<and>
    cursor (putcf c attr s) < 2000 \<and> same_on (- display_area) (mem s) (mem (putcf c attr s))"
  using putcf_prints [of s c attr "{}"] assms by (simp_all add: prints_def kept_def display_ok_def)

text \<open>C20. \<open>printf\<close> shows the expansion of its format. When the format and the strings it names lie in
  memory apart from the display and the conversion buffer, and every directive has its arguments, the
  routine returns, the terminal has received exactly the characters and attributes of the expansion,
  and besides the display only twelve bytes of the buffer were written.\<close>

theorem printf_shows:
  assumes "printf_ready buf str fmt strings s" and "printf_out strings fmt default_attribute ap = Some out"
  shows "\<exists>s'. printf buf str ap s = ret () s' \<and> terminal_of s' = fold term_put out (terminal_of s) \<and>
    cursor s' < 2000 \<and> same_on (- (display_area \<union> region buf 12)) (mem s) (mem s')"
  using printf_prints [OF assms] by (auto simp: prints_def display_ok_def kept_def)

text \<open>A format \<open>%s%d\<close> and a line feed, with the string \<open>ab\<close>.\<close>

definition example_format :: memory where
  "example_format = (\<lambda>_. 0)(100 := 37, 101 := 115, 102 := 37, 103 := 100, 104 := 10, 200 := 97, 201 := 98)"

lemma low_area:
  assumes "unat a + n \<le> 753664"
  shows "region a n \<inter> display_area = {}"
proof -
  have "unat a + n \<le> unat DISPLAY_MEMORY" using assms by simp
  then show ?thesis unfolding display_area_def by (rule region_disjoint) simp
qed

lemma example_format_ready:
  "printf_ready 300 100 [37, 115, 37, 100, 10] [200 \<mapsto> [97, 98]] (boot_state example_format)"
proof -
  have *: "region (100 :: u32) (Suc (Suc (Suc (Suc (Suc (Suc 0)))))) \<inter> region 300 12 = {}"
    "region (200 :: u32) (Suc (Suc (Suc 0))) \<inter> region 300 12 = {}"
    by (rule region_disjoint; simp)+
  show ?thesis
    by (simp add: printf_ready_def boot_state_def display_ok_def low_area cstr_def bytes_at_def upt_rec
        example_format_def Int_Un_distrib *)
qed

theorem putcf_terminal_witness:
  "pos (terminal_of (putcf 10 default_attribute (boot_state example_format))) = 80"
  using putcf_terminal [of "boot_state example_format" 10 default_attribute]
  by (simp add: boot_state_def term_put_def term_scroll_def terminal_of_def)

theorem printf_shows_witness:
  "\<exists>s'. printf 300 100 [200, 7] (boot_state example_format) = ret () s' \<and>
     terminal_of s' = fold term_put (map (\<lambda>c. (c, default_attribute)) [97, 98, 55, 10]) (terminal_of (boot_state example_format))"
proof -
  have "itoa_string 7 10 = [55]"
    by (simp add: itoa_string_def digit_string_def digit_char_def digits.simps)
  then have "printf_out [200 \<mapsto> [97, 98]] [37, 115, 37, 100, 10] default_attribute [200, 7] =
      Some (map (\<lambda>c. (c, default_attribute)) [97, 98, 55, 10])"
    by (simp add: decimal_out_def)
  from printf_shows [OF example_format_ready this] show ?thesis by blast
qed

end
