(* ===== verification/Interrupts.thy ===== *)
theory Interrupts
  imports Scheduler Printf
begin

text \<open>
  Interrupt handling: the interrupt controller (\<open>cpu/pic.c\<close>), the descriptor table and the dispatch
  to handlers (\<open>cpu/irq.c\<close>), processor exceptions (\<open>cpu/exceptions.c\<close>), the timer
  (\<open>drivers/pit.c\<close>), the keyboard (\<open>drivers/keyboard.c\<close>) and system calls
  (\<open>execution/syscall.c\<close>). Enabling and disabling interrupts changes the flags register of the processor only.
\<close>

section \<open>The interrupt controller\<close>

definition pic_init :: "kernel \<Rightarrow> kernel" where
  "pic_init s =
    (let s = outb 32 (16 OR 1) s;
         s = outb 160 (16 OR 1) s;
         s = outb 33 32 s;
         s = outb 161 40 s;
         s = outb 33 2 s;
         s = outb 161 4 s;
         s = outb 33 1 s;
         s = outb 161 1 s;
         s = outb 33 0 s
     in outb 161 0 s)"

definition pic_eoi :: "u8 \<Rightarrow> kernel \<Rightarrow> kernel" where
  "pic_eoi irq s =
    (if 32 \<le> irq \<and> irq \<le> 40 + 7 then
       let s = outb 32 32 s in
       if 40 \<le> irq then outb 160 32 s else s
     else s)"

section \<open>The descriptor table\<close>

abbreviation (input) IDT_SIZE :: nat where
  "IDT_SIZE \<equiv> 255"

abbreviation (input) IDT_GATE_TYPE_INTERRUPT_32 :: u8 where
  "IDT_GATE_TYPE_INTERRUPT_32 \<equiv> 14"

definition irq_init_idt :: "u8 \<Rightarrow> u32 \<Rightarrow> u8 \<Rightarrow> u8 \<Rightarrow> idt_entry" where
  "irq_init_idt sel handler access type =
    (let address = handler in
     \<lparr>offset0_15 = ucast (address AND 65535), selector = ucast sel, reserved = 0,
      flags = (128 OR type) OR push_bit 5 (access AND 3),
      offset16_31 = ucast (drop_bit 16 address AND 65535)\<rparr>)"

text \<open>
  The entry points of \<open>isr.s\<close> are addresses the linker fixes: \<open>isr n\<close> and \<open>isr_ignore\<close>. The
  result is the limit that is loaded into the processor's table register.
\<close>

definition set_gate :: "nat \<Rightarrow> u32 \<Rightarrow> kernel \<Rightarrow> kernel" where
  "set_gate i handler s =
    s\<lparr>entries := (entries s)(i := irq_init_idt 8 handler 0 IDT_GATE_TYPE_INTERRUPT_32)\<rparr>"

definition irq_init :: "(nat \<Rightarrow> u32) \<Rightarrow> u32 \<Rightarrow> kernel \<Rightarrow> u16 \<times> kernel" where
  "irq_init isr isr_ignore s =
    (let s = fold (\<lambda>i. set_gate i isr_ignore) [0..<IDT_SIZE] s;
         s = fold (\<lambda>i. set_gate i (isr i)) [0..<48] s;
         s = set_gate 128 (isr 128) s
     in (word_of_nat (IDT_SIZE * 8 - 1), s))"

text \<open>The handler table has 255 places; vector 255 lies behind its end.\<close>

definition irq_init_handler :: "u8 \<Rightarrow> handler \<Rightarrow> kernel \<Rightarrow> unit krun" where
  "irq_init_handler irq h s =
    (if unat irq < IDT_SIZE then ret () (s\<lparr>handlers := (handlers s)(unat irq := Some h)\<rparr>)
     else fail Out_of_bounds)"

definition irq_terminate_handler :: "u8 \<Rightarrow> kernel \<Rightarrow> unit krun" where
  "irq_terminate_handler irq s =
    (if unat irq < IDT_SIZE then ret () (s\<lparr>handlers := (handlers s)(unat irq := None)\<rparr>)
     else fail Out_of_bounds)"

text \<open>The interrupt flag, bit 9 of the flags register.\<close>

definition irq_enable :: "u32 \<Rightarrow> u32" where
  "irq_enable eflags = eflags OR 512"

definition irq_disable :: "u32 \<Rightarrow> u32" where
  "irq_disable eflags = eflags AND NOT 512"

section \<open>Exceptions\<close>

definition messages :: "string list" where
  "messages = [''divide by zero'', ''debug'', ''non maskable interrupt'', ''breakpoint'',
     ''overflow'', ''out of bounds'', ''invalid opcode'', ''device not available'',
     ''double fault'', ''reserved'', ''invalid tss'', ''invalid segment'',
     ''stack fault'', ''general protection fault'', ''page fault'', ''reserved'',
     ''x87 floating-point'', ''alignment check'', ''machine check'', ''SIMD floating-point'',
     ''virtualization'', ''reserved'', ''reserved'', ''reserved'',
     ''reserved'', ''reserved'', ''reserved'', ''reserved'',
     ''reserved'', ''reserved'', ''security'', ''reserved'']"

text \<open>The display shows the reason in white on red, which \<open>0x0F04\<close> encodes for \<open>printf\<close>; then the
  processor halts, with interrupts off since every gate is an interrupt gate. The string literals lie at the addresses
  \<open>lit\<close>, the conversion buffers of \<open>printf\<close> at \<open>buf\<close>.\<close>

definition exceptions_handle_irq :: "(string \<Rightarrow> u32) \<Rightarrow> u32 \<Rightarrow> u32 \<Rightarrow> kernel \<Rightarrow> control krun" where
  "exceptions_handle_irq lit buf r s =
    (let irq = unat (frame_reg (mem s) r Irq) in
     if irq < length messages then
       let reason = lit (messages ! irq) in
       andthen (printf buf (lit ''%fhalt, reason=%s'') [0x0F04, reason] s) (\<lambda>_. ret Halt)
     else fail Out_of_bounds)"

fun init_handlers :: "u8 list \<Rightarrow> handler \<Rightarrow> kernel \<Rightarrow> unit krun" where
  "init_handlers [] h s = ret () s"
| "init_handlers (i # is) h s = andthen (irq_init_handler i h s) (\<lambda>_. init_handlers is h)"

definition exceptions_init :: "kernel \<Rightarrow> unit krun" where
  "exceptions_init s = init_handlers (map word_of_nat [0..<32]) Exceptions_handle_irq s"

section \<open>The timer\<close>

definition pit_handle_irq :: "u32 \<Rightarrow> kernel \<Rightarrow> control krun" where
  "pit_handle_irq r s = scheduler_handle_irq r (s\<lparr>ticks := ticks s + 1\<rparr>)"

definition pit_init :: "kernel \<Rightarrow> unit krun" where
  "pit_init s =
    (let s = outb 67 54 s;
         data = 1193182 div PIT_INTERRUPTS_PER_SECOND;
         s = outb 64 (ucast (data AND 255)) s;
         s = outb 64 (ucast (drop_bit 8 data)) s
     in irq_init_handler 32 Pit_handle_irq s)"

section \<open>System calls\<close>

definition syscall_handle_irq :: "u32 \<Rightarrow> kernel \<Rightarrow> control krun" where
  "syscall_handle_irq r s =
    (if frame_reg (mem s) r Irq \<noteq> 128 then halt ''r->irq == 0x80''
     else
       let process = scheduler_process s;
           eax = frame_reg (mem s) r Eax;
           ebx = frame_reg (mem s) r Ebx
       in if eax = 1 \<or> eax = 60 then scheduler_stop process s
          else if eax = 35 then scheduler_sleep process ebx r s
          else if eax = 255 then ret Return (s\<lparr>mem := store32 (mem s) ebx 4660\<rparr>)
          else ret Return s)"

definition syscall_init :: "kernel \<Rightarrow> unit krun" where
  "syscall_init s = irq_init_handler 128 Syscall_handle_irq s"

end
