(* ===== verification/Keyboard.thy ===== *)
theory Keyboard
  imports Interrupts
begin

text \<open>
  The keyboard driver, \<open>drivers/keyboard.c\<close>: from scan codes to key codes to characters, the
  interrupt handler, which shows the character of a pressed key, and the initialisation of the
  controller.
\<close>

section \<open>The operations\<close>

datatype key_code =
    NONE | RETURN | SPACE | LEFT_SHIFT | RIGHT_SHIFT | PERIOD | COMMA | DASH | KEY_A | KEY_B |
    KEY_C | KEY_D | KEY_E | KEY_F | KEY_G | KEY_H | KEY_I | KEY_J | KEY_K | KEY_L | KEY_M |
    KEY_N | KEY_O | KEY_P | KEY_Q | KEY_R | KEY_S | KEY_T | KEY_U | KEY_V | KEY_W | KEY_X |
    KEY_Y | KEY_Z | NUM_0 | NUM_1 | NUM_2 | NUM_3 | NUM_4 | NUM_5 | NUM_6 | NUM_7 | NUM_8 |
    NUM_9 | ARROW_LEFT | ARROW_RIGHT | ARROW_UP | ARROW_DOWN

definition get_char :: "key_code \<Rightarrow> bool \<Rightarrow> u8" where
  "get_char kc upper =
    (case kc of
       PERIOD \<Rightarrow> 46
     | COMMA \<Rightarrow> 44
     | DASH \<Rightarrow> 45
     | SPACE \<Rightarrow> 32
     | RETURN \<Rightarrow> 10
     | KEY_Q \<Rightarrow> (if upper then 81 else 113)
     | KEY_W \<Rightarrow> (if upper then 87 else 119)
     | KEY_E \<Rightarrow> (if upper then 69 else 101)
     | KEY_R \<Rightarrow> (if upper then 82 else 114)
     | KEY_T \<Rightarrow> (if upper then 84 else 116)
     | KEY_Y \<Rightarrow> (if upper then 89 else 121)
     | KEY_U \<Rightarrow> (if upper then 85 else 117)
     | KEY_I \<Rightarrow> (if upper then 73 else 105)
     | KEY_O \<Rightarrow> (if upper then 79 else 111)
     | KEY_P \<Rightarrow> (if upper then 80 else 112)
     | KEY_A \<Rightarrow> (if upper then 65 else 97)
     | KEY_S \<Rightarrow> (if upper then 83 else 115)
     | KEY_D \<Rightarrow> (if upper then 68 else 100)
     | KEY_F \<Rightarrow> (if upper then 70 else 102)
     | KEY_G \<Rightarrow> (if upper then 71 else 103)
     | KEY_H \<Rightarrow> (if upper then 72 else 104)
     | KEY_J \<Rightarrow> (if upper then 74 else 106)
     | KEY_K \<Rightarrow> (if upper then 75 else 107)
     | KEY_L \<Rightarrow> (if upper then 76 else 108)
     | KEY_Z \<Rightarrow> (if upper then 90 else 122)
     | KEY_X \<Rightarrow> (if upper then 88 else 120)
     | KEY_C \<Rightarrow> (if upper then 67 else 99)
     | KEY_V \<Rightarrow> (if upper then 86 else 118)
     | KEY_B \<Rightarrow> (if upper then 66 else 98)
     | KEY_N \<Rightarrow> (if upper then 78 else 110)
     | KEY_M \<Rightarrow> (if upper then 77 else 109)
     | NUM_1 \<Rightarrow> 49
     | NUM_2 \<Rightarrow> 50
     | NUM_3 \<Rightarrow> 51
     | NUM_4 \<Rightarrow> 52
     | NUM_5 \<Rightarrow> 53
     | NUM_6 \<Rightarrow> 54
     | NUM_7 \<Rightarrow> 55
     | NUM_8 \<Rightarrow> 56
     | NUM_9 \<Rightarrow> 57
     | NUM_0 \<Rightarrow> 48
     | _ \<Rightarrow> 0)"

text \<open>The switch of \<open>handle_irq\<close>, its cases in the order of the scan codes; three of them are ignored
  explicitly.\<close>

definition scan_codes :: "(u8 \<times> key_code) list" where
  "scan_codes =
   [(2, NUM_1), (3, NUM_2), (4, NUM_3), (5, NUM_4), (6, NUM_5), (7, NUM_6), (8, NUM_7),
    (9, NUM_8), (10, NUM_9), (11, NUM_0), (16, KEY_Q), (17, KEY_W), (18, KEY_E), (19, KEY_R),
    (20, KEY_T), (21, KEY_Y), (22, KEY_U), (23, KEY_I), (24, KEY_O), (25, KEY_P), (28, RETURN),
    (30, KEY_A), (31, KEY_S), (32, KEY_D), (33, KEY_F), (34, KEY_G), (35, KEY_H), (36, KEY_J),
    (37, KEY_K), (38, KEY_L), (44, KEY_Z), (45, KEY_X), (46, KEY_C), (47, KEY_V), (48, KEY_B),
    (49, KEY_N), (50, KEY_M), (51, COMMA), (52, PERIOD), (53, DASH), (57, SPACE), (69, NONE),
    (72, ARROW_UP), (75, ARROW_LEFT), (77, ARROW_RIGHT), (80, ARROW_DOWN), (197, NONE),
    (250, NONE)]"

definition scan_code :: "u8 \<Rightarrow> key_code" where
  "scan_code key = (case map_of scan_codes key of None \<Rightarrow> NONE | Some kc \<Rightarrow> kc)"

definition handle_irq :: "environment \<Rightarrow> u32 \<Rightarrow> kernel \<Rightarrow> control krun" where
  "handle_irq env r s =
    (case inb env 96 s of (key, s) \<Rightarrow> ret Return (putc (get_char (scan_code key) False) s))"

text \<open>Reading away what the controller still holds; it need not end.\<close>

partial_function (option) keyboard_drain :: "environment \<Rightarrow> kernel \<Rightarrow> kernel option" where
  "keyboard_drain env s =
    (case inb env 100 s of (status, s) \<Rightarrow>
       if status AND 1 \<noteq> 0 then (case inb env 96 s of (_, s) \<Rightarrow> keyboard_drain env s) else Some s)"

definition keyboard_init :: "environment \<Rightarrow> kernel \<Rightarrow> unit krun" where
  "keyboard_init env s =
    andthen (irq_init_handler 33 Keyboard_handle_irq s) (\<lambda>_ s.
      case keyboard_drain env s of
        None \<Rightarrow> None
      | Some s \<Rightarrow>
          let s = outb 100 174 s;
              s = outb 100 32 s;
              (v, s) = inb env 96 s;
              status = (v OR 1) AND NOT 16;
              s = outb 100 96 s;
              s = outb 96 status s
          in ret () (outb 96 244 s))"

section \<open>The layout\<close>

text \<open>The keys of a keyboard, row by row, with the scan code of the first key of each row.\<close>

definition key_rows :: "(nat \<times> string) list" where
  "key_rows = [(2, ''1234567890''), (16, ''qwertyuiop''), (28, [CHR 0x0A]), (30, ''asdfghjkl''),
     (44, ''zxcvbnm,.-''), (57, '' '')]"

definition layout_table :: "(u8 \<times> u8) list" where
  "layout_table =
     concat (map (\<lambda>(b, cs). zip (map word_of_nat [b..<b + length cs]) (char_codes cs)) key_rows)"

definition layout :: "u8 \<Rightarrow> u8" where
  "layout k = (case map_of layout_table k of None \<Rightarrow> 0 | Some c \<Rightarrow> c)"

text \<open>The driver's table with characters in place of key codes, without the keys that show nothing.\<close>

definition shown_codes :: "(u8 \<times> u8) list" where
  "shown_codes = filter (\<lambda>(k, c). c \<noteq> 0) (map (\<lambda>(k, kc). (k, get_char kc False)) scan_codes)"

lemma scan_codes_distinct: "distinct (map fst scan_codes)"
proof -
  have "successively (<) (map unat (map fst scan_codes))"
    unfolding scan_codes_def list.map fst_conv by simp
  then have "distinct (map unat (map fst scan_codes))"
    by (simp add: successively_conv_sorted_wrt strict_sorted_iff)
  then show ?thesis by (simp only: distinct_map)
qed

lemma map_of_filter_values:
  "distinct (map fst xs) \<Longrightarrow> map_of (filter (\<lambda>(k, c). c \<noteq> z) xs) k = (if map_of xs k = Some z then None else map_of xs k)"
proof (induction xs)
  case (Cons x xs)
  have "map_of xs (fst x) = None" using Cons.prems by (simp add: map_of_eq_None_iff)
  then show ?case using Cons by (cases x) auto
qed simp

lemma get_char_shown:
  "get_char (scan_code k) False = (case map_of shown_codes k of None \<Rightarrow> 0 | Some c \<Rightarrow> c)"
proof -
  let ?xs = "map (\<lambda>(k, kc). (k, get_char kc False)) scan_codes"
  have "map fst ?xs = map fst scan_codes" by (induction scan_codes) auto
  then have d: "distinct (map fst ?xs)" using scan_codes_distinct by (simp only:)
  have m: "map_of ?xs k = map_option (\<lambda>kc. get_char kc False) (map_of scan_codes k)"
    by (simp add: map_of_map)
  have "get_char NONE False = 0" by (simp add: get_char_def)
  then show ?thesis
    unfolding shown_codes_def map_of_filter_values [OF d] m by (auto simp: scan_code_def split: option.split)
qed

lemma shown_codes_layout: "shown_codes = layout_table"
  by (simp add: shown_codes_def scan_codes_def get_char_def layout_table_def key_rows_def char_codes_def upt_rec)

lemma get_char_layout: "get_char (scan_code k) False = layout k"
  by (simp only: get_char_shown shown_codes_layout layout_def)

end
