(* ===== verification/Scheduler_Properties.thy ===== *)
theory Scheduler_Properties
  imports Scheduler
begin

text \<open>
  The properties of the scheduler: the timer interrupt as a step of round robin, fairness, the length
  of a sleep, and the end of a process, each with an instance on a small heap.
\<close>

section \<open>Properties\<close>

text \<open>A list at 4112, a waiting process at 4144 with its stack at 4184, and a free chunk.\<close>

definition example_sched :: kernel where
  "example_sched = (boot_state
     (set_process_ebp 4144 12376
     (set_chunk_len 12376 256 (set_previous_chunk 12376 4168
     (set_next_chunk 4168 12376 (set_chunk_len 4168 8192 (set_allocated 4168 True (set_previous_chunk 4168 4128
     (set_next_chunk 4128 4168 (set_chunk_len 4128 24 (set_allocated 4128 True (set_previous_chunk 4128 4096
     (set_next_chunk 4096 4128 (set_chunk_len 4096 16 (set_allocated 4096 True (\<lambda>_. 0))))))))))))))))
     \<lparr>initialized := True, start_chunk := 4096, plist := 4112, enabled := True, kesp := 512\<rparr>"

abbreviation sched_chunks :: "chunk list" where
  "sched_chunks \<equiv>
     [\<lparr>c_addr = 4096, c_len = 16, c_used = True\<rparr>, \<lparr>c_addr = 4128, c_len = 24, c_used = True\<rparr>,
      \<lparr>c_addr = 4168, c_len = 8192, c_used = True\<rparr>, \<lparr>c_addr = 12376, c_len = 256, c_used = False\<rparr>]"

abbreviation sched_area :: "u32 set" where
  "sched_area \<equiv> {x. 4096 \<le> unat x \<and> unat x < 12648}"

definition sched_live :: "u32 \<rightharpoonup> u32" where
  "sched_live = [4184 \<mapsto> 8192, 4144 \<mapsto> 24, 4112 \<mapsto> 16]"

lemma sched_live_simps [simp]:
  "sched_live 4184 = Some 8192" "sched_live 4144 = Some 24" "sched_live 4112 = Some 16"
  by (simp_all add: sched_live_def)

lemma example_sched_inv: "heap_inv example_sched sched_chunks"
  by (simp add: heap_inv_def example_sched_def boot_state_def header_def chunk_ok_def c_end_def
      header_defs process_defs load32_def store32_def store8_def)

lemma example_sched_heap: "heap_holds example_sched sched_area sched_live"
  by (rule heap_holdsI [OF example_sched_inv, of 12648]) (simp_all add: c_end_def example_sched_def sched_live_def)

lemma example_sched_rep: "sched_rep example_sched sched_area sched_live []"
proof -
  have "list_head (mem example_sched) 4112 = 0" "list_length (mem example_sched) 4112 = 0"
    by (simp_all add: node_defs example_sched_def boot_state_def header_defs process_defs
        load32_def store32_def store8_def)
  moreover have "plist example_sched = 4112" "current example_sched = 0"
    by (simp_all add: example_sched_def boot_state_def)
  ultimately show ?thesis using example_sched_heap
    by (simp add: sched_rep_def list_rep_def list_blocks_def)
qed

text \<open>The process put on the list.\<close>

lemma example_started:
  "\<exists>s L new. scheduler_start 4144 example_sched = ret () s \<and>
     sched_rep s sched_area L [(new, 4144)] \<and>
     table (mem s) [4144] = table (mem example_sched) [4144] \<and>
     process_blocks (mem s) L 4144 \<and> process_ebp (mem s) 4144 = 12376 \<and> new \<noteq> 4184 \<and>
     enabled s \<and> kesp s = 512 \<and> current s = 0 \<and> plist s = 4112"
proof -
  have fields: "plist example_sched = 4112" "current example_sched = 0" "enabled example_sched" "kesp example_sched = 512"
    by (simp_all add: example_sched_def boot_state_def)
  have full: "malloc 12 example_sched \<noteq> halt ''chunk''"
    using example_sched_inv by (rule malloc_room) (simp_all add: fits_def)
  have "24 \<le> (24 :: u32)" "(4144 :: u32) \<noteq> plist example_sched" using fields by simp_all
  note st = scheduler_start_rep [OF example_sched_rep sched_live_simps(2) this]
  obtain new k m where st: "scheduler_start 4144 example_sched = ret () (example_sched\<lparr>mem := m\<rparr>)"
    "sched_live new = None" "sched_rep (example_sched\<lparr>mem := m\<rparr>) sched_area (sched_live(new \<mapsto> k)) [(new, 4144)]"
    "table m [4144] = table (mem example_sched) [4144]"
    "same_on (- sched_area \<union> other_blocks sched_live 4112 []) (mem example_sched) m"
    using st full by (simp add: fields del: fun_upd_apply) blast
  have "region 4144 24 \<subseteq> other_blocks sched_live 4112 []"
    using other_blocksI [of sched_live 4144 24 4112 "[]"] by simp
  then have "same_on (region 4144 24) (mem example_sched) m" by (intro same_on_mono [OF st(5)]) blast
  then have "process_ebp m 4144 = process_ebp (mem example_sched) 4144" by (rule process_cong)
  moreover have "process_ebp (mem example_sched) 4144 = 12376"
    by (simp add: example_sched_def boot_state_def process_defs)
  moreover have ne: "new \<noteq> 4184" "new \<noteq> 4144" using st(2) by auto
  ultimately have "process_blocks m (sched_live(new \<mapsto> k)) 4144" by (simp add: process_blocks_def)
  then show ?thesis using st(1,3,4) fields ne(1) \<open>process_ebp m 4144 = _\<close> \<open>_ = 12376\<close>
    by (intro exI [of _ "example_sched\<lparr>mem := m\<rparr>"] exI [of _ "sched_live(new \<mapsto> k)"] exI [of _ new]) simp
qed

lemma example_waiting: "proc_at (mem example_sched) 4144 = \<lparr>p_esp = 0, p_state = 0, p_sleep = 0\<rparr>"
  by (simp add: proc_at_def example_sched_def boot_state_def process_defs header_defs
      load32_def store32_def store8_def)

text \<open>C9. A timer interrupt is one step of round robin on the process table. While the scheduler is
  disabled the routine returns and changes nothing. Otherwise it counts the sleepers down and wakes
  those whose count was zero, saves the interrupted context in the current process, which becomes
  waiting, and resumes the first waiting process after it in list order and around, which becomes
  the running one; with no waiting process it resumes the interrupted context. It never fails, keeps the
  list and the heap, and writes nothing but process structures.\<close>

theorem timer_interrupt_round_robin:
  assumes "sched_rep s A L ns" and "r \<noteq> 0"
  defines "T \<equiv> irq_table (current s) r (table (mem s) (map snd ns))"
  shows "if \<not> enabled s then scheduler_handle_irq r s = ret Return s
    else \<exists>s'. scheduler_handle_irq r s =
        ret (Resume (case next_turn (current s) T of None \<Rightarrow> r | Some (v, p) \<Rightarrow> p_esp p)) s' \<and>
      sched_rep s' A L ns \<and>
      current s' = (case next_turn (current s) T of None \<Rightarrow> 0 | Some (v, p) \<Rightarrow> v) \<and>
      table (mem s') (map snd ns) = (case next_turn (current s) T of None \<Rightarrow> T
        | Some (v, p) \<Rightarrow> update_proc v (\<lambda>p. p\<lparr>p_state := PROCESS_STATE_RUNNING\<rparr>) T) \<and>
      same_on (- process_area (map snd ns)) (mem s) (mem s')"
proof (cases "enabled s")
  case True
  then show ?thesis using handle_irq_rep [OF assms(1) True assms(2)] unfolding T_def by auto
next
  case False
  then show ?thesis using assms(2) by (simp add: scheduler_handle_irq_def)
qed

theorem timer_interrupt_round_robin_witness:
  "\<exists>s s'. scheduler_handle_irq 600 s = ret (Resume 0) s' \<and> current s = 0 \<and> current s' = 4144"
proof -
  obtain s L new where s: "sched_rep s sched_area L [(new, 4144)]"
    "table (mem s) [4144] = table (mem example_sched) [4144]" "enabled s" "current s = 0"
    using example_started by (elim exE conjE) blast
  have "(600 :: u32) \<noteq> 0" by simp
  note t = timer_interrupt_round_robin [OF s(1) this]
  have "table (mem s) (map snd [(new, 4144)]) = [(4144, \<lparr>p_esp = 0, p_state = 0, p_sleep = 0\<rparr>)]"
    using s(2) example_waiting by (simp add: table_def)
  moreover have "next_turn 0 (irq_table 0 600 [(4144, \<lparr>p_esp = 0, p_state = 0, p_sleep = 0\<rparr>)]) =
      Some (4144, \<lparr>p_esp = 0, p_state = 0, p_sleep = 0\<rparr>)"
    by (simp add: irq_table_def tick_table_def tick_proc_def next_turn_def turn_order_def waiting_def)
  ultimately have "\<exists>s'. scheduler_handle_irq 600 s = ret (Resume 0) s' \<and> current s' = 4144"
    using t s(3,4) by auto
  then show ?thesis using s(4) by blast
qed




text \<open>C15. A process put to sleep with a count of \<open>c\<close> sleeps through the next \<open>c\<close> timer interrupts,
  never running, and the interrupt after those wakes it: it is then waiting for its turn, or already runs when that interrupt
  chooses it. A sleep takes one tick more than the count.\<close>

theorem sleeping_process_wakes:
  assumes "sched_run N s s' r A L ns" and "v \<in> snd ` set ns"
    and "process_state (mem (s 0)) v = PROCESS_STATE_SLEEPING" and "current (s 0) \<noteq> v"
    and "unat (process_sleep (mem (s 0)) v) < N"
  shows "(\<forall>k \<le> unat (process_sleep (mem (s 0)) v).
      process_state (mem (s k)) v = PROCESS_STATE_SLEEPING \<and> current (s k) \<noteq> v) \<and>
    process_state (mem (s' (unat (process_sleep (mem (s 0)) v)))) v =
      (if current (s' (unat (process_sleep (mem (s 0)) v))) = v then PROCESS_STATE_RUNNING else PROCESS_STATE_WAITING)"
proof -
  let ?c = "unat (process_sleep (mem (s 0)) v)" and ?vs = "map snd ns"
  note sl = sched_run_sleep [OF assms(1-4)]
  have st: "process_state (mem (s k)) v = 2 \<and> current (s k) \<noteq> v" if "k \<le> ?c" for k
    using sl [OF that] that assms(3,5) by (simp add: proc_at_def)
  have rep: "sched_rep (s ?c) A L ns" using assms(1,5) by (simp add: sched_run_def)
  have c: "map_of (table (mem (s ?c)) ?vs) v = Some (proc_at (mem (s ?c)) v)"
    using assms(2) by (simp add: map_of_table)
  have "p_sleep (proc_at (mem (s ?c)) v) = 0" using sl [of ?c] assms(5) by simp
  moreover have "p_state (proc_at (mem (s ?c)) v) = 2" using st [of ?c] by (simp add: proc_at_def)
  moreover have "v \<noteq> current (s ?c)" using st [of ?c] by auto
  ultimately have "\<exists>q. map_of (table (mem (s' ?c)) ?vs) v = Some q \<and> p_state q = (if current (s' ?c) = v then 1 else 0)"
    using step_sleeping [OF c, of "current (s ?c)" "r ?c"] sched_apart(3) [OF rep assms(2)]
      sched_repD(2) [OF rep] sched_run_step(1) [OF assms(1,5), symmetric] by simp
  then have "process_state (mem (s' ?c)) v = (if current (s' ?c) = v then 1 else 0)"
    using map_of_table [of v ?vs "mem (s' ?c)"] assms(2) by (auto simp: proc_at_def)
  then show ?thesis using st by blast
qed

lemma example_sleeping:
  "\<exists>s s' L new. sched_run 1 (\<lambda>_. s) (\<lambda>_. s') (\<lambda>_. 600) sched_area L [(new, 4144)] \<and>
     process_state (mem s) 4144 = 2 \<and> process_sleep (mem s) 4144 = 0 \<and> current s = 0"
proof -
  obtain s L new where s: "sched_rep s sched_area L [(new, 4144)]" "enabled s" "current s = 0"
    using example_started by (elim exE conjE) blast
  have v: "4144 \<in> snd ` set [(new, 4144 :: u32)]" by simp
  have "current s \<noteq> 4144" using s(3) by simp
  from scheduler_sleep_rep [OF s(1) v, of 5 0, unfolded if_not_P [OF this]]
  obtain m where m: "sched_rep (s\<lparr>mem := m\<rparr>) sched_area L [(new, 4144)]"
    "table m [4144] = update_proc 4144 (\<lambda>p. p\<lparr>p_state := 2, p_sleep := 5 * 100 div 1000\<rparr>) (table (mem s) [4144])"
    by auto
  have "proc_at m 4144 = (proc_at (mem s) 4144)\<lparr>p_state := 2, p_sleep := 0\<rparr>"
    using m(2) by (simp add: table_def update_proc_def)
  then have sl: "process_state m 4144 = 2" "process_sleep m 4144 = 0" by (simp_all add: proc_at_def)
  have on: "enabled (s\<lparr>mem := m\<rparr>)" using s(2) by simp
  have r: "(600 :: u32) \<noteq> 0" by simp
  obtain s' f where "scheduler_handle_irq 600 (s\<lparr>mem := m\<rparr>) = ret f s'"
    using handle_irq_rep [OF m(1) on r] by blast
  then have "sched_run 1 (\<lambda>_. s\<lparr>mem := m\<rparr>) (\<lambda>_. s') (\<lambda>_. 600) sched_area L [(new, 4144)]"
    using m(1) on r unfolding sched_run_def by blast
  then show ?thesis using sl s(3) by (intro exI [of _ "s\<lparr>mem := m\<rparr>"] exI [of _ s'] exI [of _ L] exI [of _ new]) simp
qed

theorem sleeping_process_wakes_witness:
  "\<exists>s f s'. scheduler_handle_irq 600 s = ret f s' \<and> process_state (mem s) 4144 = 2 \<and>
    process_state (mem s') 4144 = (if current s' = 4144 then 1 else 0)"
proof -
  obtain s s' L new where run: "sched_run 1 (\<lambda>_. s) (\<lambda>_. s') (\<lambda>_. 600) sched_area L [(new, 4144)]"
    and s: "process_state (mem s) 4144 = 2" "process_sleep (mem s) 4144 = 0" "current s = 0"
    using example_sleeping by (elim exE conjE) blast
  have "\<exists>f. scheduler_handle_irq 600 s = ret f s'" using run by (auto simp: sched_run_def)
  moreover have "process_state (mem s') 4144 = (if current s' = 4144 then 1 else 0)"
    using sleeping_process_wakes [OF run, of 4144] s by simp
  ultimately show ?thesis using s(1) by blast
qed

text \<open>\<open>scheduler_sleep\<close> turns milliseconds into ticks of ten milliseconds, rounding down, as long
  as the time is below about twelve hours, so that the product fits 32 bits. The process is sleeping
  with that count and is not current afterwards; when it was the current process its context is saved and
  another one is resumed, otherwise the routine returns.\<close>

theorem scheduler_sleep_counts:
  assumes "sched_rep s A L ns" and "v \<in> snd ` set ns" and "kesp s \<noteq> 0" and "unat ms * 100 < 2 ^ 32"
  shows "\<exists>c s'. scheduler_sleep v ms r s = ret c s' \<and> sched_rep s' A L ns \<and>
    process_state (mem s') v = PROCESS_STATE_SLEEPING \<and> unat (process_sleep (mem s') v) = unat ms div 10 \<and>
    current s' \<noteq> v \<and> (if current s = v then c \<noteq> Return \<and> process_esp (mem s') v = r else c = Return)"
proof -
  let ?vs = "map snd ns" and ?n = "ms * 100 div 1000"
  let ?T = "update_proc v (\<lambda>p. p\<lparr>p_state := 2, p_sleep := ?n\<rparr>) (table (mem s) ?vs)"
  have "unat (ms * 100) = unat ms * 100" using assms(4) by (simp add: unat_word_ariths)
  then have n: "unat ?n = unat ms div 10" by (simp add: unat_div)
  have vs: "v \<in> set ?vs" using assms(2) by simp
  note rep = scheduler_sleep_rep [OF assms(1,2), of ms r]
  show ?thesis
  proof (cases "current s = v")
    case False
    then obtain m where m: "scheduler_sleep v ms r s = ret Return (s\<lparr>mem := m\<rparr>)"
      "sched_rep (s\<lparr>mem := m\<rparr>) A L ns" "table m ?vs = ?T"
      using rep by auto
    have "proc_at m v = (proc_at (mem s) v)\<lparr>p_state := 2, p_sleep := ?n\<rparr>"
      using map_of_table [OF vs, of m] map_of_table [OF vs, of "mem s"] m(3) by (simp add: map_of_update_proc)
    then show ?thesis using m False n by (auto simp: proc_at_def)
  next
    case True
    then obtain m where m: "scheduler_sleep v ms r s = scheduler_switch (s\<lparr>mem := m, current := 0\<rparr>)"
      "sched_rep (s\<lparr>mem := m, current := 0\<rparr>) A L ns" "table m ?vs = update_proc v (\<lambda>p. p\<lparr>p_esp := r\<rparr>) ?T"
      using rep by auto
    have pv: "proc_at m v = (proc_at (mem s) v)\<lparr>p_state := 2, p_sleep := ?n, p_esp := r\<rparr>"
      using map_of_table [OF vs, of m] map_of_table [OF vs, of "mem s"] m(3) by (simp add: map_of_update_proc)
    have v0: "v \<noteq> 0" using sched_apart(3) [OF assms(1,2)] .
    show ?thesis
    proof (cases "next_turn 0 (table m ?vs)")
      case None
      then have "scheduler_switch (s\<lparr>mem := m, current := 0\<rparr>) = ret (Resume (kesp s)) (s\<lparr>mem := m, current := 0\<rparr>)"
        using scheduler_switch_rep [OF m(2)] assms(3) by simp
      then show ?thesis using m pv n True v0 by (auto simp: proc_at_def)
    next
      case (Some x)
      obtain u p where x: "x = (u, p)" by fastforce
      obtain m' where m': "scheduler_switch (s\<lparr>mem := m, current := 0\<rparr>) =
          ret (Resume (p_esp p)) (s\<lparr>mem := m', current := u\<rparr>)" "sched_rep (s\<lparr>mem := m', current := u\<rparr>) A L ns"
        "table m' ?vs = update_proc u (\<lambda>p. p\<lparr>p_state := 1\<rparr>) (table m ?vs)"
        using scheduler_switch_rep [OF m(2)] Some x by (auto simp: current_mem_commute)
      have "process_state m u = 0" using next_turn_in Some x by blast
      then have "u \<noteq> v" using pv by (auto simp: proc_at_def)
      then have "proc_at m' v = proc_at m v"
        using map_of_table [OF vs, of m'] map_of_table [OF vs, of m] m'(3) by (simp add: map_of_update_proc)
      then show ?thesis using m m' pv n True \<open>u \<noteq> v\<close> by (auto simp: proc_at_def)
    qed
  qed
qed

theorem scheduler_sleep_counts_witness:
  "\<exists>s s'. scheduler_sleep 4144 1000 0 s = ret Return s' \<and> process_state (mem s') 4144 = 2 \<and>
     process_sleep (mem s') 4144 = 100"
proof -
  obtain s L new where s: "sched_rep s sched_area L [(new, 4144)]" "kesp s = 512" "current s = 0"
    using example_started by (elim exE conjE) blast
  have v: "4144 \<in> snd ` set [(new, 4144 :: u32)]" and k: "kesp s \<noteq> 0" and ms: "unat (1000 :: u32) * 100 < 2 ^ 32"
    using s(2) by simp_all
  obtain c s' where c: "scheduler_sleep 4144 1000 0 s = ret c s'" "process_state (mem s') 4144 = 2"
    "unat (process_sleep (mem s') 4144) = unat (1000 :: u32) div 10" "if current s = 4144 then c \<noteq> Return \<and> process_esp (mem s') 4144 = 0 else c = Return"
    using scheduler_sleep_counts [OF s(1) v k ms, of 0] by blast
  have "unat (process_sleep (mem s') 4144) = unat (100 :: u32)" using c(3) by simp
  then have "process_sleep (mem s') 4144 = 100" by (simp only: word_unat_eq_iff)
  then show ?thesis using c s(3) by (intro exI [of _ s] exI [of _ s']) simp
qed

text \<open>C16. \<open>scheduler_stop\<close> removes a process for good. It takes the process off the list and releases its
  node, its structure and its stack, so that no later switch can choose it; the other processes keep
  their contexts. Stopping the current process resumes another context, stopping another one returns.\<close>

theorem scheduler_stop_removes:
  assumes "sched_rep s A L ns" and "v \<in> snd ` set ns" and "region 0 8 \<inter> A = {}" and "kesp s \<noteq> 0"
    and "process_blocks (mem s) L v" and "process_ebp (mem s) v - 8192 \<noteq> plist s"
    and "process_ebp (mem s) v - 8192 \<notin> fst ` set ns" and "process_ebp (mem s) v - 8192 \<notin> snd ` set ns"
  shows "\<exists>c s' xs a ys. ns = xs @ (a, v) # ys \<and> scheduler_stop v s = ret c s' \<and>
    sched_rep s' A (L(a := None, process_ebp (mem s) v - 8192 := None, v := None)) (xs @ ys) \<and>
    v \<notin> snd ` set (xs @ ys) \<and> current s' \<noteq> v \<and> (c = Return \<longleftrightarrow> current s \<noteq> v) \<and>
    map (\<lambda>(u, p). (u, p_esp p)) (table (mem s') (map snd (xs @ ys))) =
      map (\<lambda>(u, p). (u, p_esp p)) (table (mem s) (map snd (xs @ ys)))"
proof -
  obtain a where "(a, v) \<in> set ns" using assms(2) by auto
  then obtain xs ys where ns: "ns = xs @ (a, v) # ys" by (meson split_list)
  let ?vs = "map snd (xs @ ys)"
  have v: "v \<notin> snd ` set (xs @ ys)" "v \<noteq> 0"
    using sched_repD(2) [OF assms(1)] sched_apart(3) [OF assms(1,2)] ns by auto
  let ?L = "L(a := None, process_ebp (mem s) v - 8192 := None, v := None)"
  obtain m where m: "scheduler_stop v s =
      (if current s = v then scheduler_switch (s\<lparr>mem := m, current := 0\<rparr>) else ret Return (s\<lparr>mem := m\<rparr>))"
    "sched_rep (s\<lparr>mem := m, current := (if current s = v then 0 else current s)\<rparr>) A ?L (xs @ ys)"
    "table m ?vs = table (mem s) ?vs"
    using scheduler_stop_rep [OF assms(1) [unfolded ns] assms(3,5) refl] assms(6-8) ns by auto
  have "\<exists>c s'. scheduler_stop v s = ret c s' \<and> sched_rep s' A ?L (xs @ ys) \<and> current s' \<noteq> v \<and>
    (c = Return \<longleftrightarrow> current s \<noteq> v) \<and>
    map (\<lambda>(u, p). (u, p_esp p)) (table (mem s') ?vs) = map (\<lambda>(u, p). (u, p_esp p)) (table (mem s) ?vs)"
  proof (cases "current s = v")
    case False
    then show ?thesis using m by simp
  next
    case True
    note rep = m(2) [unfolded if_P [OF True]]
    show ?thesis
    proof (cases "next_turn 0 (table m ?vs)")
      case None
      then have "scheduler_switch (s\<lparr>mem := m, current := 0\<rparr>) = ret (Resume (kesp s)) (s\<lparr>mem := m, current := 0\<rparr>)"
        using scheduler_switch_rep [OF rep] assms(4) by simp
      then show ?thesis using m(1,3) rep True v(2) by auto
    next
      case (Some x)
      obtain u p where x: "x = (u, p)" by fastforce
      obtain m' where m': "scheduler_switch (s\<lparr>mem := m, current := 0\<rparr>) =
          ret (Resume (p_esp p)) (s\<lparr>mem := m', current := u\<rparr>)" "sched_rep (s\<lparr>mem := m', current := u\<rparr>) A ?L (xs @ ys)"
        "table m' ?vs = update_proc u (\<lambda>p. p\<lparr>p_state := 1\<rparr>) (table m ?vs)"
        using scheduler_switch_rep [OF rep] Some x by (auto simp: current_mem_commute)
      have "u \<noteq> v" using next_turn_in [of 0 m ?vs u p] Some x v(1) by auto
      moreover have "map (\<lambda>(u, p). (u, p_esp p)) (update_proc u (\<lambda>p. p\<lparr>p_state := 1\<rparr>) T) = map (\<lambda>(u, p). (u, p_esp p)) T" for T
        by (auto simp: update_proc_def)
      ultimately show ?thesis using m(1,3) m' True by auto
    qed
  qed
  then show ?thesis using ns v(1) by blast
qed

theorem scheduler_stop_removes_witness:
  "\<exists>s s' L. scheduler_stop 4144 s = ret Return s' \<and> sched_rep s' sched_area L []"
proof -
  obtain s L new where s: "sched_rep s sched_area L [(new, 4144)]" "process_blocks (mem s) L 4144"
    "process_ebp (mem s) 4144 = 12376" "new \<noteq> 4184" "kesp s = 512" "current s = 0" "plist s = 4112"
    using example_started by (elim exE conjE) blast
  have v: "4144 \<in> snd ` set [(new, 4144 :: u32)]" and k: "kesp s \<noteq> 0" using s(5) by simp_all
  have low: "region 0 8 \<inter> sched_area = {}" using in_region_nat [of 0 8] by auto
  have e: "process_ebp (mem s) 4144 - 8192 \<noteq> plist s"
    "process_ebp (mem s) 4144 - 8192 \<notin> fst ` set [(new, 4144 :: u32)]"
    "process_ebp (mem s) 4144 - 8192 \<notin> snd ` set [(new, 4144)]"
    using s(3,4,7) by simp_all
  obtain c s' xs a ys where c: "[(new, 4144)] = xs @ (a, 4144) # ys" "scheduler_stop 4144 s = ret c s'"
    "sched_rep s' sched_area (L(a := None, process_ebp (mem s) 4144 - 8192 := None, 4144 := None)) (xs @ ys)"
    "c = Return \<longleftrightarrow> current s \<noteq> 4144"
    using scheduler_stop_removes [OF s(1) v low k s(2) e] by blast
  have "xs = []" "ys = []" using c(1) by (auto simp: Cons_eq_append_conv)
  then have "sched_rep s' sched_area (L(a := None, process_ebp (mem s) 4144 - 8192 := None, 4144 := None)) []"
    using c(3) by simp
  moreover have "scheduler_stop 4144 s = ret Return s'" using c(2,4) s(6) by simp
  ultimately show ?thesis by blast
qed

end
