(* ===== verification/Dispatch.thy ===== *)
theory Dispatch
  imports Keyboard Scheduler_Properties
begin

text \<open>
  The path of an interrupt: \<open>irq_handler\<close> of \<open>cpu/irq.c\<close> acknowledges it and calls the registered
  handler, between the entry and exit code of \<open>cpu/isr.s\<close>. The handler of the exceptions prints: the string literals are
  at \<open>lit\<close>, the conversion buffers of \<open>printf\<close> at \<open>buf\<close>. The properties follow one interrupt of
  each kind from the interrupted registers to the resumed ones.
\<close>

section \<open>The operations\<close>

definition run_handler ::
  "environment \<Rightarrow> (string \<Rightarrow> u32) \<Rightarrow> u32 \<Rightarrow> handler \<Rightarrow> u32 \<Rightarrow> kernel \<Rightarrow> control krun" where
  "run_handler env lit buf h r s =
    (case h of
       Exceptions_handle_irq \<Rightarrow> exceptions_handle_irq lit buf r s
     | Pit_handle_irq \<Rightarrow> pit_handle_irq r s
     | Keyboard_handle_irq \<Rightarrow> handle_irq env r s
     | Syscall_handle_irq \<Rightarrow> syscall_handle_irq r s)"

definition irq_handler :: "environment \<Rightarrow> (string \<Rightarrow> u32) \<Rightarrow> u32 \<Rightarrow> u32 \<Rightarrow> kernel \<Rightarrow> control krun" where
  "irq_handler env lit buf r s =
    (let irq = frame_reg (mem s) r Irq;
         s = pic_eoi (ucast irq) s
     in if unat irq < IDT_SIZE then
          (case handlers s (unat irq) of
             None \<Rightarrow> ret Return s
           | Some h \<Rightarrow> run_handler env lit buf h r s)
        else fail Out_of_bounds)"

text \<open>A whole interrupt: the registers it leaves with, or \<open>None\<close> when the processor stopped.\<close>

definition interrupt ::
  "environment \<Rightarrow> (string \<Rightarrow> u32) \<Rightarrow> u32 \<Rightarrow> u32 \<Rightarrow> u32 \<Rightarrow> cpu \<Rightarrow> kernel \<Rightarrow> cpu option krun" where
  "interrupt env lit buf vector err c s =
    (case isr_common vector err c (mem s) of (r, m) \<Rightarrow>
       andthen (irq_handler env lit buf r (s\<lparr>mem := m\<rparr>)) (\<lambda>ctl s.
         case ctl of
           Return \<Rightarrow> ret (Some (isr_restore (mem s) r)) s
         | Resume r' \<Rightarrow> ret (Some (isr_restore (mem s) r')) s
         | Halt \<Rightarrow> ret None s))"

section \<open>Writes to a stack\<close>

text \<open>The memory a stack may use: outside the heap, or in blocks that hold neither the scheduler's list
  nor its processes.\<close>

definition stack_space :: "kernel \<Rightarrow> u32 set \<Rightarrow> (u32 \<rightharpoonup> u32) \<Rightarrow> node list \<Rightarrow> u32 set" where
  "stack_space s A L ns = (- A \<union> other_blocks L (plist s) ns) - process_area (map snd ns)"

lemma sched_stack_write:
  assumes rep: "sched_rep s A L ns" and m: "same_on (- stack_space s A L ns) (mem s) m"
  shows "sched_rep (s\<lparr>mem := m\<rparr>) A L ns"
    and "table m (map snd ns) = table (mem s) (map snd ns)"
proof -
  note r = list_repD [OF sched_repD(1) [OF rep]]
  note o = other_blocks_apart [OF r(1,2)]
  have keep: "same_on X (mem s) m" if "X \<inter> stack_space s A L ns = {}" for X
    using m by (rule same_on_mono) (use that in blast)
  have "same_on (A - blocks L) (mem s) m" using o(2) by (intro keep) (auto simp: stack_space_def)
  then have "heap_holds (s\<lparr>mem := m\<rparr>) A L" using kheap.holds_cong [OF r(1)] by simp
  moreover have "chain m 0 ns 0"
  proof -
    have "same_on (region a 12) (mem s) m" if "a \<in> fst ` set ns" for a
      using o(3) [OF that] list_apart(6) [OF r(1,2) that] by (intro keep) (auto simp: stack_space_def)
    then show ?thesis using r(5) chain_cong [of ns "mem s" m] by blast
  qed
  moreover have "same_on (region (plist s) 8) (mem s) m"
    using o(1) list_apart(3) [OF r(1,2)] by (intro keep) (auto simp: stack_space_def)
  ultimately have "list_rep (s\<lparr>mem := m\<rparr>) A L (plist s) ns"
    using r list_header_cong [of "plist s" "mem s" m] by (simp add: list_rep_def)
  then show "sched_rep (s\<lparr>mem := m\<rparr>) A L ns" using rep by (simp add: sched_rep_def)
  show "table m (map snd ns) = table (mem s) (map snd ns)"
    by (rule table_cong, rule keep) (auto simp: stack_space_def process_area_def)
qed

lemma sched_rep_other:
  "sched_rep (s\<lparr>io := h\<rparr>) A L ns = sched_rep s A L ns"
  "sched_rep (s\<lparr>ticks := n\<rparr>) A L ns = sched_rep s A L ns"
  "sched_rep (s\<lparr>handlers := f\<rparr>) A L ns = sched_rep s A L ns"
  by (simp_all add: sched_rep_def list_rep_def heap_holds_def heap_inv_def)

section \<open>What the timer keeps\<close>

text \<open>The scheduler touches no port and no timer count.\<close>

lemma list_find_same: "list_find lst v s = ret x s' \<Longrightarrow> s' = s"
  by (auto simp: list_find_def split: if_splits option.splits)

lemma scheduler_switch_keeps:
  "scheduler_switch s = ret x s' \<Longrightarrow> io s' = io s \<and> ticks s' = ticks s"
  by (auto simp: scheduler_switch_def scheduler_next_def andthen_eq_ret Let_def
      dest!: list_find_same split: if_splits)

lemma scheduler_handle_irq_keeps:
  "scheduler_handle_irq r s = ret x s' \<Longrightarrow> io s' = io s \<and> ticks s' = ticks s"
  by (auto simp: scheduler_handle_irq_def Let_def dest!: scheduler_switch_keeps split: if_splits option.splits)

lemma irq_handler_run:
  assumes "frame_reg (mem s) r Irq = vector" and "unat vector < 255" and "handlers s (unat vector) = Some h"
  shows "irq_handler env lit buf r s = run_handler env lit buf h r (pic_eoi (ucast vector) s)"
  using assms by (simp add: irq_handler_def pic_eoi_def Let_def)

lemma isr_common_facts:
  assumes "isr_common vector err c m = (r, m')"
  shows "frame_reg m' r Irq = vector" and "same_on (- region (r - 4) 80) m m'"
    and "same_on (region r 68) m' m'' \<Longrightarrow> isr_restore m'' r = c"
proof -
  have r: "r = cpu_esp c - 68" using assms by (simp add: isr_common_frame)
  show "frame_reg m' r Irq = vector" using assms by (auto simp: isr_common_frame Let_def)
  show "same_on (- region (r - 4) 80) m m'" using assms by (rule isr_common_same_on) (simp add: r)
  show "isr_restore m'' r = c" if "same_on (region r 68) m' m''"
    using isr_restore_cong [OF that] isr_restore_common [OF assms] by simp
qed

lemma interrupt_run:
  assumes "isr_common vector err c (mem s) = (r, m)" and "unat vector < 255" and "handlers s (unat vector) = Some h"
  shows "interrupt env lit buf vector err c s =
    andthen (run_handler env lit buf h r (pic_eoi (ucast vector) (s\<lparr>mem := m\<rparr>))) (\<lambda>ctl s.
      case ctl of
        Return \<Rightarrow> ret (Some (isr_restore (mem s) r)) s
      | Resume r' \<Rightarrow> ret (Some (isr_restore (mem s) r')) s
      | Halt \<Rightarrow> ret None s)"
proof -
  have "frame_reg m r Irq = vector" using isr_common_facts(1) [OF assms(1)] .
  then show ?thesis using assms irq_handler_run [of "s\<lparr>mem := m\<rparr>" r vector h env lit buf]
    by (simp add: interrupt_def)
qed

section \<open>The descriptor table\<close>

text \<open>The entry point a descriptor holds, as the processor puts it together.\<close>

definition gate_address :: "idt_entry \<Rightarrow> u32" where
  "gate_address e = ucast (offset0_15 e) OR push_bit 16 (ucast (offset16_31 e))"

lemma gate_address_init: "gate_address (irq_init_idt sel handler access type) = handler"
proof -
  have m: "(65535 :: u32) = mask 16" by (simp add: mask_eq_exp_minus_1)
  show ?thesis unfolding gate_address_def irq_init_idt_def Let_def idt_entry.simps m
    by (rule bit_eqI) (auto simp: bit_simps)
qed

lemma set_gate_fold:
  "entries (fold (\<lambda>i. set_gate i (f i)) [0..<n] s) j =
    (if j < n then irq_init_idt 8 (f j) 0 IDT_GATE_TYPE_INTERRUPT_32 else entries s j)"
  by (induction n) (auto simp: set_gate_def)

lemma init_handlers_run:
  "\<forall>i \<in> set is. unat i < 255 \<Longrightarrow>
   init_handlers is h s = ret () (s\<lparr>handlers := (\<lambda>n. if n \<in> unat ` set is then Some h else handlers s n)\<rparr>)"
proof (induction "is" arbitrary: s)
  case (Cons i "is")
  then have "init_handlers (i # is) h s = init_handlers is h (s\<lparr>handlers := (handlers s)(unat i := Some h)\<rparr>)"
    by (simp add: irq_init_handler_def)
  also have "\<dots> = ret () (s\<lparr>handlers := (\<lambda>n. if n \<in> unat ` set is then Some h
      else ((handlers s)(unat i := Some h)) n)\<rparr>)" using Cons by (simp cong: if_cong)
  also have "(\<lambda>n. if n \<in> unat ` set is then Some h else ((handlers s)(unat i := Some h)) n) =
      (\<lambda>n. if n \<in> unat ` set (i # is) then Some h else handlers s n)" by (auto simp: fun_eq_iff)
  finally show ?case .
qed simp

lemma exceptions_init_run:
  "exceptions_init s =
    ret () (s\<lparr>handlers := (\<lambda>n. if n < 32 then Some Exceptions_handle_irq else handlers s n)\<rparr>)"
proof -
  have "unat ` set (map word_of_nat [0..<32] :: u8 list) = {0..<32}"
    by (force simp: image_iff unat_of_nat)
  moreover have "\<forall>i \<in> set (map word_of_nat [0..<32] :: u8 list). unat i < 255"
    by (auto simp: unat_of_nat)
  ultimately show ?thesis unfolding exceptions_init_def by (simp add: init_handlers_run)
qed

section \<open>Properties\<close>

text \<open>C19. A timer interrupt switches processes. The registers of the interrupted code go to a frame on its
  stack, the controller is acknowledged, the timer count grows, and the processor leaves with the registers
  saved in the frame of the next process in turn. The frame of the interrupted code is intact and is where its
  process structure points, so that resuming that process later gives back exactly the registers.\<close>

theorem timer_interrupt_switches:
  assumes rep: "sched_rep s A L ns" and on: "enabled s" and h: "handlers s 32 = Some Pit_handle_irq"
    and entry: "isr_common 32 0 c (mem s) = (r, m)" and r: "r \<noteq> 0" "region (r - 4) 80 \<subseteq> stack_space s A L ns"
  defines "T \<equiv> irq_table (current s) r (table (mem s) (map snd ns))"
  shows "\<exists>s'. interrupt env lit buf 32 0 c s = ret (Some (isr_restore (mem s')
        (case next_turn (current s) T of None \<Rightarrow> r | Some (v, p) \<Rightarrow> p_esp p))) s' \<and>
    sched_rep s' A L ns \<and> current s' = (case next_turn (current s) T of None \<Rightarrow> 0 | Some (v, p) \<Rightarrow> v) \<and>
    io s' = Out8 32 32 # io s \<and> ticks s' = ticks s + 1 \<and> isr_restore (mem s') r = c \<and>
    (current s \<noteq> 0 \<longrightarrow> process_esp (mem s') (current s) = r)"
proof -
  let ?vs = "map snd ns" and ?s = "s\<lparr>mem := m, io := Out8 32 32 # io s, ticks := ticks s + 1\<rparr>"
  note d = sched_repD [OF rep]
  have "same_on (- stack_space s A L ns) (mem s) m"
    using isr_common_facts(2) [OF entry] by (rule same_on_mono) (use r(2) in blast)
  note w = sched_stack_write [OF rep this]
  have rep1: "sched_rep ?s A L ns"
    using w(1) sched_rep_other(1) [where s = "s\<lparr>mem := m\<rparr>"] sched_rep_other(2) [where s = "s\<lparr>mem := m, io := Out8 32 32 # io s\<rparr>"]
    by simp
  have on1: "enabled ?s" using on by simp
  have sel: "current ?s = current s" "mem ?s = m" by simp_all
  obtain s' where s': "scheduler_handle_irq r ?s =
      ret (Resume (case next_turn (current s) T of None \<Rightarrow> r | Some (v, p) \<Rightarrow> p_esp p)) s'"
    "sched_rep s' A L ns" "current s' = (case next_turn (current s) T of None \<Rightarrow> 0 | Some (v, p) \<Rightarrow> v)"
    "table (mem s') ?vs = (case next_turn (current s) T of None \<Rightarrow> T
      | Some (v, p) \<Rightarrow> update_proc v (\<lambda>p. p\<lparr>p_state := PROCESS_STATE_RUNNING\<rparr>) T)"
    "same_on (- process_area ?vs) m (mem s')"
    using handle_irq_rep [OF rep1 on1 r(1), unfolded sel w(2), folded T_def] by blast
  have run: "interrupt env lit buf 32 0 c s = ret (Some (isr_restore (mem s')
      (case next_turn (current s) T of None \<Rightarrow> r | Some (v, p) \<Rightarrow> p_esp p))) s'"
    using interrupt_run [OF entry, of Pit_handle_irq env lit buf] h s'(1)
    by (simp add: run_handler_def pit_handle_irq_def pic_eoi_def outb_def)
  have "same_on (region r 68) m (mem s')"
    using s'(5) by (rule same_on_mono) (use r(2) frame_below(2) [of r] in \<open>auto simp: stack_space_def\<close>)
  then have restored: "isr_restore (mem s') r = c" using isr_common_facts(3) [OF entry] by blast
  have "process_esp (mem s') (current s) = r" if cur: "current s \<noteq> 0"
  proof -
    have in_vs: "current s \<in> set ?vs" using d(6) cur by simp
    then have "map_of T (current s) = Some ((tick_proc (proc_at (mem s) (current s)))\<lparr>p_esp := r, p_state := 0\<rparr>)"
      using cur by (simp add: T_def irq_table_def Let_def map_of_update_proc map_of_tick_table map_of_table)
    then have "map_option p_esp (map_of (table (mem s') ?vs) (current s)) = Some r"
      unfolding s'(4) by (auto simp: map_of_update_proc split: option.split)
    then show ?thesis using map_of_table [OF in_vs, of "mem s'"] by (simp add: proc_at_def)
  qed
  moreover have "io s' = Out8 32 32 # io s" "ticks s' = ticks s + 1"
    using scheduler_handle_irq_keeps [OF s'(1)] by simp_all
  ultimately show ?thesis using run s'(2,3) restored by blast
qed

text \<open>The state of the scheduler's example with the timer registered, interrupted on a stack below the heap.\<close>

lemma example_timer:
  "\<exists>s L new. sched_rep s sched_area L [(new, 4144)] \<and> enabled s \<and> handlers s 32 = Some Pit_handle_irq \<and>
     io s = [] \<and> current s = 0 \<and> table (mem s) [4144] = [(4144, \<lparr>p_esp = 0, p_state = 0, p_sleep = 0\<rparr>)]"
proof -
  obtain s L new where s: "scheduler_start 4144 example_sched = ret () s" "sched_rep s sched_area L [(new, 4144)]"
    "enabled s" "current s = 0" "table (mem s) [4144] = table (mem example_sched) [4144]"
    using example_started by (elim exE conjE) blast
  have "table (mem s) [4144] = [(4144, \<lparr>p_esp = 0, p_state = 0, p_sleep = 0\<rparr>)]"
    using s(5) example_waiting by (simp add: table_def)
  moreover let ?s = "s\<lparr>handlers := (\<lambda>_. Some Pit_handle_irq), io := []\<rparr>"
  have "sched_rep ?s sched_area L [(new, 4144)]"
    using s(2) sched_rep_other(3) [where s = s] sched_rep_other(1) [where s = "s\<lparr>handlers := (\<lambda>_. Some Pit_handle_irq)\<rparr>"] by simp
  ultimately show ?thesis using s(3,4)
    by (intro exI [of _ ?s] exI [of _ L] exI [of _ new]) simp
qed

lemma low_stack_space:
  assumes "sched_rep s sched_area L ns" and "4 \<le> unat r" and "unat r + 76 \<le> 4096"
  shows "region (r - 4) 80 \<subseteq> stack_space s sched_area L ns"
proof -
  have "unat (r - 4) = unat r - 4" using assms(2) by (simp add: unat_sub word_le_nat_alt)
  then have out: "x \<notin> sched_area" if "x \<in> region (r - 4) 80" for x
    using that assms(2,3) by (subst (asm) in_region_nat) auto
  have "process_area (map snd ns) \<subseteq> sched_area"
    using sched_apart(2) [OF assms(1)] by (auto simp: process_area_def)
  then show ?thesis using out by (auto simp: stack_space_def)
qed

theorem timer_interrupt_switches_witness:
  "\<exists>s c s'. interrupt (\<lambda>_ _. 0) (\<lambda>_. 0) 0 32 0 (start_cpu (- 4116) 9) s = ret (Some c) s' \<and> current s = 0 \<and>
     current s' = 4144 \<and> io s' = [Out8 32 32] \<and> isr_restore (mem s') 4000 = start_cpu (- 4116) 9"
proof -
  obtain s L new where s: "sched_rep s sched_area L [(new, 4144)]" "enabled s"
    "handlers s 32 = Some Pit_handle_irq" "io s = []" "current s = 0"
    "table (mem s) [4144] = [(4144, \<lparr>p_esp = 0, p_state = 0, p_sleep = 0\<rparr>)]"
    using example_timer by (elim exE conjE) blast
  obtain m where m: "isr_common 32 0 (start_cpu (- 4116) 9) (mem s) = (4000, m)"
    by (simp add: isr_common_frame start_cpu_def)
  have "region (4000 - 4) 80 \<subseteq> stack_space s sched_area L [(new, 4144)]"
    using s(1) by (rule low_stack_space) simp_all
  moreover have "(4000 :: u32) \<noteq> 0" by simp
  moreover have "next_turn 0 (irq_table 0 4000 [(4144, \<lparr>p_esp = 0, p_state = 0, p_sleep = 0\<rparr>)]) =
      Some (4144, \<lparr>p_esp = 0, p_state = 0, p_sleep = 0\<rparr>)"
    by (simp add: irq_table_def tick_table_def tick_proc_def next_turn_def turn_order_def waiting_def)
  ultimately show ?thesis
    using timer_interrupt_switches [OF s(1-3) m, where env = "\<lambda>_ _. 0" and lit = "\<lambda>_. 0" and buf = 0] s(4-6)
    by (intro exI [of _ s]) auto
qed

text \<open>C24. A key press is shown and the interrupted code does not notice. When the keyboard's handler is
  registered and the interrupted stack lies apart from the display, the interrupt acknowledges the
  controller, shows the character of the scan code in the keyboard's layout (nothing for keys without
  one, for releases and for unknown codes) and resumes the interrupted registers; besides the
  display only the frame on the stack was written.\<close>

theorem key_press_shown:
  assumes "cursor s < 2000" and "handlers s 33 = Some Keyboard_handle_irq"
    and entry: "isr_common 33 0 c (mem s) = (r, m)" and "region (r - 4) 80 \<inter> display_area = {}"
  shows "\<exists>s'. interrupt env lit buf 33 0 c s = ret (Some c) s' \<and>
    terminal_of s' = term_put (layout (ucast (env (Out8 32 32 # io s) 96)), default_attribute) (terminal_of s) \<and>
    (\<exists>h. io s' = h @ Out8 32 32 # io s) \<and> same_on (- (display_area \<union> region (r - 4) 80)) (mem s) (mem s')"
proof -
  let ?k = "ucast (env (Out8 32 32 # io s) 96) :: u8"
  let ?s = "s\<lparr>mem := m, io := In8 96 ?k # Out8 32 32 # io s\<rparr>"
  note frame = isr_common_facts(2) [OF entry]
  have "same_on display_area (mem s) m"
    using frame by (rule same_on_mono) (use assms(4) in blast)
  then have "cell_at m i = cell_at (mem s) i" if "i < 2000" for i
    using text_data_in_area [OF that] by (simp add: cell_at_def same_on_def)
  then have scr: "terminal_of ?s = terminal_of s" by (simp add: terminal_of_def screen_def)
  have p: "prints [(layout ?k, default_attribute)] {} ?s (putc (layout ?k) ?s)"
    unfolding putc_def using assms(1) by (intro putcf_prints) (simp add: display_ok_def)
  have "run_handler env lit buf Keyboard_handle_irq r (pic_eoi 33 (s\<lparr>mem := m\<rparr>)) = ret Return (putc (layout ?k) ?s)"
    by (simp add: run_handler_def handle_irq_def pic_eoi_def inb_def outb_def get_char_layout Let_def)
  moreover have "isr_restore (mem (putc (layout ?k) ?s)) r = c"
  proof (rule isr_common_facts(3) [OF entry])
    show "same_on (region r 68) m (mem (putc (layout ?k) ?s))"
      using prints_same_on [OF p, of "region r 68"] assms(4) frame_below(2) [of r] by auto
  qed
  ultimately have "interrupt env lit buf 33 0 c s = ret (Some c) (putc (layout ?k) ?s)"
    using interrupt_run [OF entry, of Keyboard_handle_irq env lit buf] assms(2) by simp
  moreover have "same_on (- (display_area \<union> region (r - 4) 80)) (mem s) (mem (putc (layout ?k) ?s))"
  proof (rule same_on_trans)
    show "same_on (- (display_area \<union> region (r - 4) 80)) (mem s) m" using frame by (rule same_on_mono) blast
    have "- (display_area \<union> region (r - 4) 80) \<inter> display_area = {}" by blast
    from prints_same_on [OF p this] show "same_on (- (display_area \<union> region (r - 4) 80)) m (mem (putc (layout ?k) ?s))"
      by simp
  qed
  ultimately show ?thesis using p scr by (auto simp: prints_def kept_def)
qed

theorem key_press_shown_witness:
  "\<exists>s s'. interrupt (\<lambda>_ _. 30) (\<lambda>_. 0) 0 33 0 (start_cpu (- 4116) 9) s = ret (Some (start_cpu (- 4116) 9)) s' \<and>
     fst (cells (terminal_of s') ! 0) = 97"
proof -
  let ?s = "boot_state (\<lambda>_. 0)\<lparr>handlers := [33 \<mapsto> Keyboard_handle_irq]\<rparr>"
  obtain m where m: "isr_common 33 0 (start_cpu (- 4116) 9) (mem ?s) = (4000, m)"
    by (simp add: isr_common_frame start_cpu_def)
  have s: "cursor ?s < 2000" "handlers ?s 33 = Some Keyboard_handle_irq" by (simp_all add: boot_state_def)
  have "region (4000 - 4) 80 \<inter> display_area = {}" by (rule low_area) simp
  from key_press_shown [OF s m this, where env = "\<lambda>_ _. 30" and lit = "\<lambda>_. 0" and buf = 0] obtain s' where s':
    "interrupt (\<lambda>_ _. 30) (\<lambda>_. 0) 0 33 0 (start_cpu (- 4116) 9) ?s = ret (Some (start_cpu (- 4116) 9)) s'"
    "terminal_of s' = term_put (layout 30, default_attribute) (terminal_of ?s)" by auto
  have "layout 30 = 97"
    by (simp add: get_char_layout [symmetric] scan_code_def scan_codes_def get_char_def)
  moreover have "pos (terminal_of ?s) = 0" "length (cells (terminal_of ?s)) = 2000"
    by (simp_all add: terminal_of_def boot_state_def)
  ultimately have "fst (cells (terminal_of s') ! 0) = 97"
    unfolding s'(2) by (simp add: term_put_def term_scroll_def)
  with s'(1) show ?thesis by blast
qed

text \<open>The memory of a string literal.\<close>

definition literal_area :: "(string \<Rightarrow> u32) \<Rightarrow> string \<Rightarrow> u32 set" where
  "literal_area lit x = region (lit x) (Suc (length x))"

abbreviation (input) halt_format :: string where
  "halt_format \<equiv> ''%fhalt, reason=%s''"

abbreviation (input) reason_at :: "(string \<Rightarrow> u32) \<Rightarrow> string \<Rightarrow> strings" where
  "reason_at lit x \<equiv> [lit x \<mapsto> char_codes x]"

lemma halt_format_out:
  assumes "strings a = Some t"
  shows "printf_out strings (char_codes halt_format) default_attribute [0x0F04, a] =
    Some (map (\<lambda>c. (c, \<lparr>background = 4, foreground = 15\<rparr>)) (char_codes ''halt, reason='' @ t))"
proof -
  have "attribute_of 0x0F04 = \<lparr>background = 4, foreground = 15\<rparr>" by (simp add: attribute_of_def drop_bit_eq_div)
  then show ?thesis using assms by (simp add: char_codes_def)
qed

lemma printf_ready_write:
  assumes "printf_ready buf str fmt strings s" and "same_on (- X) (mem s) m" and "X \<inter> region str (Suc (length fmt)) = {}"
    and "\<And>a t. strings a = Some t \<Longrightarrow> X \<inter> region a (Suc (length t)) = {}"
  shows "printf_ready buf str fmt strings (s\<lparr>mem := m\<rparr>)"
proof -
  have keep: "cstr m a t" if "cstr (mem s) a t" "X \<inter> region a (Suc (length t)) = {}" for a t
    by (rule cstr_cong [OF same_on_mono [OF assms(2)] that(1)]) (use that(2) in blast)
  then show ?thesis using assms(1,3,4) by (simp add: printf_ready_def display_ok_def)
qed

lemma exception_shown:
  assumes "frame_reg (mem s) r Irq = vector" and "unat vector < 32" and "messages ! unat vector = x"
    and "printf_ready buf (lit halt_format) (char_codes halt_format) (reason_at lit x) s"
  shows "\<exists>s'. exceptions_handle_irq lit buf r s = ret Halt s' \<and>
    prints (map (\<lambda>c. (c, \<lparr>background = 4, foreground = 15\<rparr>)) (char_codes ''halt, reason='' @ char_codes x)) (region buf 12) s s'"
proof -
  have len: "length messages = 32" by (simp add: messages_def)
  from printf_prints [OF assms(4) halt_format_out [where a = "lit x" and t = "char_codes x"]] show ?thesis
    using assms(1-3) by (auto simp: exceptions_handle_irq_def len Let_def)
qed

text \<open>C25. A processor exception stops the kernel with its reason on the display. After
  \<open>exceptions_init\<close>, when one of the vectors 0 to 31 comes on a stack that lies apart from the display and from the format and
  the reason, which lie in memory as \<open>printf\<close> needs them, the interrupt ends in the halted processor: the display
  has received the reason of this vector in white on red, and besides it only the conversion buffers and the stack were written.\<close>

theorem exception_halts:
  assumes "vector < 32" and x: "messages ! unat vector = x"
    and ready: "printf_ready buf (lit ''%fhalt, reason=%s'') (char_codes ''%fhalt, reason=%s'') [lit x \<mapsto> char_codes x] s"
    and apart: "region (cpu_esp c - 72) 80 \<inter> (display_area \<union> literal_area lit ''%fhalt, reason=%s'' \<union> literal_area lit x) = {}"
  shows "\<exists>s1 s'. exceptions_init s = ret () s1 \<and> interrupt env lit buf vector err c s1 = ret None s' \<and>
    terminal_of s' = fold term_put (map (\<lambda>ch. (ch, \<lparr>background = 4, foreground = 15\<rparr>))
      (char_codes (''halt, reason='' @ x))) (terminal_of s) \<and>
    same_on (- (display_area \<union> region buf 12 \<union> region (cpu_esp c - 72) 80)) (mem s) (mem s')"
proof -
  let ?s1 = "s\<lparr>handlers := (\<lambda>n. if n < 32 then Some Exceptions_handle_irq else handlers s n)\<rparr>"
    and ?X = "region (cpu_esp c - 72) 80"
  obtain r m where e: "isr_common vector err c (mem s) = (r, m)" by fastforce
  then have entry: "isr_common vector err c (mem ?s1) = (r, m)" by simp
  have same: "same_on (- ?X) (mem s) m" using e by (rule isr_common_same_on) simp
  have v: "unat vector < 32" using assms(1) by (simp add: word_less_nat_alt)
  have scr: "terminal_of (?s1\<lparr>mem := m\<rparr>) = terminal_of s"
    by (rule terminal_cong) (use same_on_mono [OF same, of display_area] apart in auto)
  have ready1: "printf_ready buf (lit halt_format) (char_codes halt_format) (reason_at lit x) (?s1\<lparr>mem := m\<rparr>)"
  proof (rule printf_ready_write)
    show "printf_ready buf (lit halt_format) (char_codes halt_format) (reason_at lit x) ?s1"
      using ready by (simp add: printf_ready_def display_ok_def)
    show "same_on (- ?X) (mem ?s1) m" using same by simp
    show "?X \<inter> region (lit halt_format) (Suc (length (char_codes halt_format))) = {}"
      using apart unfolding literal_area_def char_codes_def length_map by blast
    show "?X \<inter> region a (Suc (length t)) = {}" if "(reason_at lit x) a = Some t" for a t
      using that apart unfolding literal_area_def by (auto simp: char_codes_def length_map split: if_splits)
  qed
  have "\<not> 32 \<le> (ucast vector :: u8)"
    using v by (simp add: word_le_nat_alt unsigned_ucast_eq take_bit_nat_eq_self)
  then have eoi: "pic_eoi (ucast vector) (?s1\<lparr>mem := m\<rparr>) = ?s1\<lparr>mem := m\<rparr>" by (simp add: pic_eoi_def)
  have irq: "frame_reg (mem (?s1\<lparr>mem := m\<rparr>)) r Irq = vector" using isr_common_facts(1) [OF entry] by simp
  obtain s' where s': "exceptions_handle_irq lit buf r (?s1\<lparr>mem := m\<rparr>) = ret Halt s'"
      "prints (map (\<lambda>c. (c, \<lparr>background = 4, foreground = 15\<rparr>)) (char_codes ''halt, reason='' @ char_codes x)) (region buf 12)
        (?s1\<lparr>mem := m\<rparr>) s'"
    using exception_shown [OF irq v x ready1] by blast
  have "interrupt env lit buf vector err c ?s1 = ret None s'"
    using interrupt_run [OF entry, of Exceptions_handle_irq env lit buf] v s'(1) by (simp add: run_handler_def eoi)
  moreover have "same_on (- (display_area \<union> region buf 12 \<union> ?X)) (mem s) (mem s')"
    using s'(2) by (intro same_on_trans [OF same_on_mono [OF same] same_on_mono]) (auto simp: prints_def kept_def)
  ultimately show ?thesis using s'(2) exceptions_init_run [of s] unfolding prints_def scr
    by (auto simp: char_codes_def)
qed

text \<open>The format at 100 and a reason at 200.\<close>

definition reason_lit :: "string \<Rightarrow> u32" where
  "reason_lit x = (if x = halt_format then 100 else 200)"

definition reason_memory :: memory where
  "reason_memory a =
    (if 100 \<le> a \<and> a < 117 then char_codes halt_format ! unat (a - 100)
     else if 200 \<le> a \<and> a < 210 then char_codes ''page fault'' ! unat (a - 200)
     else 0)"

lemma reason_ready:
  "printf_ready 300 (reason_lit halt_format) (char_codes halt_format) (reason_at reason_lit ''page fault'') (boot_state reason_memory)"
proof -
  have len: "length (char_codes halt_format) = 17" "length (char_codes ''page fault'') = 10" by (simp_all add: char_codes_def)
  have nz: "0 \<notin> set (char_codes halt_format)" "0 \<notin> set (char_codes ''page fault'')" by (simp_all add: char_codes_def)
  have "reason_memory (100 + word_of_nat i) = char_codes halt_format ! i" if "i < 17" for i
    using that by (simp add: reason_memory_def word_le_nat_alt word_less_nat_alt unat_word_ariths unat_of_nat)
  then have "bytes_at reason_memory 100 17 = char_codes halt_format" by (intro nth_equalityI) (simp_all add: bytes_at_def len)
  then have f: "cstr reason_memory 100 (char_codes halt_format)" using nz(1) len(1) by (simp add: cstr_def) (simp add: reason_memory_def)
  have "reason_memory (200 + word_of_nat i) = char_codes ''page fault'' ! i" if "i < 10" for i
    using that by (simp add: reason_memory_def word_le_nat_alt word_less_nat_alt unat_word_ariths unat_of_nat)
  then have "bytes_at reason_memory 200 10 = char_codes ''page fault''" by (intro nth_equalityI) (simp_all add: bytes_at_def len)
  then have p: "cstr reason_memory 200 (char_codes ''page fault'')" using nz(2) len(2) by (simp add: cstr_def) (simp add: reason_memory_def)
  have low: "region 100 18 \<inter> display_area = {}" "region 200 11 \<inter> display_area = {}" "region 300 12 \<inter> display_area = {}"
    by (rule low_area, simp)+
  have buf: "region 100 18 \<inter> region (300 :: u32) 12 = {}" "region 200 11 \<inter> region (300 :: u32) 12 = {}"
    by (rule region_disjoint; simp)+
  have "display_ok (boot_state reason_memory)" "mem (boot_state reason_memory) = reason_memory"
    by (simp_all add: display_ok_def boot_state_def)
  moreover have "reason_lit halt_format = 100" "reason_lit ''page fault'' = 200" by (simp_all add: reason_lit_def)
  ultimately show ?thesis using f p low buf
    by (simp add: printf_ready_def len Int_Un_distrib)
qed

theorem exception_halts_witness:
  "\<exists>s1 s'. exceptions_init (boot_state reason_memory) = ret () s1 \<and>
     interrupt (\<lambda>_ _. 0) reason_lit 300 14 0 (start_cpu (- 4116) 9) s1 = ret None s' \<and> pos (terminal_of s') = 23"
proof -
  have area: "literal_area reason_lit halt_format = region 100 18" "literal_area reason_lit ''page fault'' = region 200 11"
    unfolding literal_area_def by (simp_all add: reason_lit_def eval_nat_numeral)
  have esp: "cpu_esp (start_cpu (- 4116) 9) - 72 = 3996" by (simp add: start_cpu_def)
  have "region (100 :: u32) 18 \<inter> region 3996 80 = {}" "region (200 :: u32) 11 \<inter> region 3996 80 = {}"
    by (rule region_disjoint; simp)+
  moreover have "region 3996 80 \<inter> display_area = {}" by (rule low_area) simp
  ultimately have apart: "region (cpu_esp (start_cpu (- 4116) 9) - 72) 80 \<inter>
      (display_area \<union> literal_area reason_lit halt_format \<union> literal_area reason_lit ''page fault'') = {}"
    unfolding area esp by blast
  have "(14 :: u32) < 32" "messages ! unat (14 :: u32) = ''page fault''" by (simp_all add: messages_def)
  from exception_halts [OF this reason_ready apart, where env = "\<lambda>_ _. 0" and err = 0]
  obtain s1 s' where s': "exceptions_init (boot_state reason_memory) = ret () s1"
    "interrupt (\<lambda>_ _. 0) reason_lit 300 14 0 (start_cpu (- 4116) 9) s1 = ret None s'"
    "terminal_of s' = fold term_put (map (\<lambda>ch. (ch, \<lparr>background = 4, foreground = 15\<rparr>))
      (char_codes (''halt, reason='' @ ''page fault''))) (terminal_of (boot_state reason_memory))"
    by (elim exE conjE)
  have "char_codes (''halt, reason='' @ ''page fault'') =
      [104, 97, 108, 116, 44, 32, 114, 101, 97, 115, 111, 110, 61, 112, 97, 103, 101, 32, 102, 97, 117, 108, 116]"
    by (simp add: char_codes_def)
  then have "pos (terminal_of s') = 23"
    unfolding s'(3) by (subst term_put_text_pos) (simp_all add: terminal_of_def boot_state_def)
  with s'(1,2) show ?thesis by blast
qed

text \<open>\<open>irq_init\<close> fills the descriptor table. Every one of the 255 descriptors is a present 32-bit
  interrupt gate of the kernel's code segment; the processor reads from it the entry point of its
  vector for the exceptions, the hardware interrupts and the system call, and that of \<open>isr_ignore\<close>
  for all others; the limit loaded is the size of the table less one.\<close>

theorem irq_init_gates:
  assumes "irq_init isr isr_ignore s = (limit, s')" and "n < 255"
  shows "gate_address (entries s' n) = (if n < 48 \<or> n = 128 then isr n else isr_ignore) \<and>
    selector (entries s' n) = 8 \<and> flags (entries s' n) = 142 \<and> reserved (entries s' n) = 0 \<and> unat limit + 1 = 255 * 8"
proof -
  have s': "s' = set_gate 128 (isr 128) (fold (\<lambda>i. set_gate i (isr i)) [0..<48]
      (fold (\<lambda>i. set_gate i isr_ignore) [0..<255] s))" and l: "limit = 2039"
    using assms(1) by (auto simp: irq_init_def)
  have "entries s' n = irq_init_idt 8 (if n < 48 \<or> n = 128 then isr n else isr_ignore) 0 IDT_GATE_TYPE_INTERRUPT_32"
    using assms(2) set_gate_fold [of "\<lambda>_. isr_ignore" 255 s] unfolding s'
    by (auto simp: set_gate_def [of 128] set_gate_fold)
  then show ?thesis using l by (simp add: gate_address_init) (simp add: irq_init_idt_def Let_def)
qed

theorem irq_init_gates_witness:
  "gate_address (entries (snd (irq_init (\<lambda>n. word_of_nat (n + 74565)) 99 (boot_state (\<lambda>_. 0)))) 33) = 74598 \<and>
   gate_address (entries (snd (irq_init (\<lambda>n. word_of_nat (n + 74565)) 99 (boot_state (\<lambda>_. 0)))) 200) = 99"
  using irq_init_gates [of "\<lambda>n. word_of_nat (n + 74565)" 99 "boot_state (\<lambda>_. 0)" _ _ 33, OF prod.collapse [symmetric]]
    irq_init_gates [of "\<lambda>n. word_of_nat (n + 74565)" 99 "boot_state (\<lambda>_. 0)" _ _ 200, OF prod.collapse [symmetric]]
  by simp

end
