(* ===== verification/Applications.thy ===== *)
theory Applications
  imports Dispatch
begin

text \<open>
  The library of the applications (\<open>libc/src/syscall.c\<close> and \<open>libc/src/stdlib.c\<close>) and the test program \<open>apps/src/test.c\<close>. A
  system call is the interrupt with vector 128, taken with the registers of the application; the registers it leaves with are
  those of the process that runs next.
\<close>

section \<open>The library\<close>

text \<open>The local variable of \<open>syscall_test\<close> lies at the address \<open>cell\<close>.\<close>

definition syscall_test :: "environment \<Rightarrow> (string \<Rightarrow> u32) \<Rightarrow> u32 \<Rightarrow> u32 \<Rightarrow> cpu \<Rightarrow> kernel \<Rightarrow> (u32 \<times> cpu) option krun" where
  "syscall_test env lit buf cell c s =
    andthen (interrupt env lit buf 128 0 (c\<lparr>cpu_eax := 255, cpu_ebx := cell\<rparr>) (s\<lparr>mem := store32 (mem s) cell 0\<rparr>)) (\<lambda>r s.
      ret (case r of None \<Rightarrow> None | Some c \<Rightarrow> Some (load32 (mem s) cell, c)) s)"

definition syscall_exit :: "environment \<Rightarrow> (string \<Rightarrow> u32) \<Rightarrow> u32 \<Rightarrow> u32 \<Rightarrow> cpu \<Rightarrow> kernel \<Rightarrow> cpu option krun" where
  "syscall_exit env lit buf status c s = interrupt env lit buf 128 0 (c\<lparr>cpu_eax := 60, cpu_ebx := status\<rparr>) s"

definition lib_test :: "environment \<Rightarrow> (string \<Rightarrow> u32) \<Rightarrow> u32 \<Rightarrow> u32 \<Rightarrow> cpu \<Rightarrow> kernel \<Rightarrow> (u32 \<times> cpu) option krun" where
  "lib_test env lit buf cell c s = syscall_test env lit buf cell c s"

definition lib_exit :: "environment \<Rightarrow> (string \<Rightarrow> u32) \<Rightarrow> u32 \<Rightarrow> u32 \<Rightarrow> cpu \<Rightarrow> kernel \<Rightarrow> cpu option krun" where
  "lib_exit env lit buf status c s = syscall_exit env lit buf status c s"

section \<open>The test program\<close>

text \<open>Its format is at \<open>str\<close>, the buffer of \<open>printf\<close> at \<open>buf\<close>; \<open>None\<close> when the processor halts.\<close>

definition test_main :: "environment \<Rightarrow> (string \<Rightarrow> u32) \<Rightarrow> u32 \<Rightarrow> u32 \<Rightarrow> u32 \<Rightarrow> cpu \<Rightarrow> kernel \<Rightarrow> u32 option krun" where
  "test_main env lit buf str cell c s =
    andthen (lib_test env lit buf cell c s) (\<lambda>r s.
      case r of
        None \<Rightarrow> ret None s
      | Some (data, c) \<Rightarrow> andthen (printf buf str [data] (display_clear s)) (\<lambda>_. ret (Some 0)))"

section \<open>What they do\<close>

lemma syscall_test_run:
  assumes h: "handlers s 128 = Some Syscall_handle_irq" and apart: "region cell 4 \<inter> region (cpu_esp c - 72) 80 = {}"
  shows "\<exists>m. syscall_test env lit buf cell c s = ret (Some (4660, c\<lparr>cpu_eax := 255, cpu_ebx := cell\<rparr>)) (s\<lparr>mem := m\<rparr>) \<and>
    same_on (- (region cell 4 \<union> region (cpu_esp c - 72) 80)) (mem s) m"
proof -
  let ?c = "c\<lparr>cpu_eax := 255, cpu_ebx := cell\<rparr>" and ?s = "s\<lparr>mem := store32 (mem s) cell 0\<rparr>"
  obtain r m where e: "isr_common 128 0 ?c (mem ?s) = (r, m)" by fastforce
  have r: "r = cpu_esp c - 68" using e by (simp add: isr_common_frame)
  note facts = isr_common_facts [OF e]
  have regs: "frame_reg m r Eax = 255" "frame_reg m r Ebx = cell"
    using e by (auto simp: isr_common_frame Let_def)
  let ?m = "store32 m cell 4660"
  have "same_on (region r 68) m ?m"
    using apart frame_below(2) [of r] unfolding r by (intro same_on_store32) auto
  then have restored: "isr_restore ?m r = ?c" by (rule facts(3))
  have "handlers ?s (unat (128 :: u32)) = Some Syscall_handle_irq" "unat (128 :: u32) < 255" using h by simp_all
  note run = interrupt_run [OF e this(2,1)]
  have "syscall_test env lit buf cell c s = ret (Some (4660, ?c)) (s\<lparr>mem := ?m\<rparr>)"
    unfolding syscall_test_def run using facts(1) regs restored
    by (simp add: run_handler_def syscall_handle_irq_def pic_eoi_def Let_def)
  moreover have "same_on (- (region cell 4 \<union> region (r - 4) 80)) (mem s) ?m"
  proof (rule same_on_trans [OF same_on_trans])
    show "same_on (- (region cell 4 \<union> region (r - 4) 80)) (mem s) (store32 (mem s) cell 0)" by (intro same_on_store32) blast
    show "same_on (- (region cell 4 \<union> region (r - 4) 80)) (store32 (mem s) cell 0) m"
      using facts(2) by (simp add: same_on_def)
    show "same_on (- (region cell 4 \<union> region (r - 4) 80)) m ?m" by (intro same_on_store32) blast
  qed
  moreover have "r - 4 = cpu_esp c - 72" by (simp add: r)
  ultimately show ?thesis by metis
qed

lemma display_clear_terminal: "terminal_of (display_clear s) = \<lparr>cells = replicate 2000 blank, pos = 0\<rparr>"
proof -
  have "screen (clear_cells 0 2000 (mem s)) = replicate 2000 blank"
    using clear_cells_screen(1) [of 0 2000] unfolding screen_def by (intro nth_equalityI) simp_all
  then show ?thesis by (simp add: terminal_of_def display_clear_def)
qed

lemma printf_ready_cong:
  assumes "printf_ready buf str fmt (\<lambda>_. None) s" and "same_on (region str (Suc (length fmt))) (mem s) (mem s')" and "display_ok s'"
  shows "printf_ready buf str fmt (\<lambda>_. None) s'"
  using assms cstr_cong [OF assms(2)] by (simp add: printf_ready_def)

lemma test_program_shows:
  assumes h: "handlers s 128 = Some Syscall_handle_irq" and apart: "region cell 4 \<inter> region (cpu_esp c - 72) 80 = {}"
    and ready: "printf_ready buf str (char_codes ''Hi! %x'') (\<lambda>_. None) s"
    and str: "region str 8 \<inter> (region cell 4 \<union> region (cpu_esp c - 72) 80) = {}"
  shows "\<exists>s'. test_main env lit buf str cell c s = ret (Some 0) s' \<and>
    terminal_of s' = fold term_put (map (\<lambda>ch. (ch, default_attribute)) (char_codes ''Hi! 0x00001234''))
      \<lparr>cells = replicate 2000 blank, pos = 0\<rparr> \<and>
    same_on (- (display_area \<union> region buf 12 \<union> region cell 4 \<union> region (cpu_esp c - 72) 80)) (mem s) (mem s')"
proof -
  let ?fmt = "char_codes ''Hi! %x''" and ?W = "region cell 4 \<union> region (cpu_esp c - 72) 80"
  have len: "Suc (length ?fmt) = 7" by (simp add: char_codes_def)
  obtain m where t: "syscall_test env lit buf cell c s = ret (Some (4660, c\<lparr>cpu_eax := 255, cpu_ebx := cell\<rparr>)) (s\<lparr>mem := m\<rparr>)"
      "same_on (- ?W) (mem s) m" using syscall_test_run [OF h apart] by blast
  let ?s = "display_clear (s\<lparr>mem := m\<rparr>)"
  have clr: "same_on (- display_area) m (mem ?s)" using clear_cells_screen(2) [of 0 2000 m] by (simp add: display_clear_def)
  have away: "region str 7 \<inter> display_area = {}" using ready unfolding printf_ready_def len by blast
  have "region str 7 \<subseteq> - ?W" using str region_mono [of 7 8 str] by auto
  then have "same_on (region str 7) (mem s) (mem ?s)"
    using same_on_trans [OF same_on_mono [OF t(2)] same_on_mono [OF clr]] away by blast
  then have "printf_ready buf str ?fmt (\<lambda>_. None) ?s"
    using printf_ready_cong [OF ready] unfolding len by (simp add: display_ok_def display_clear_def)
  moreover have zeros: "replicate 4 48 = [48, 48, 48, 48 :: u8]" by (simp add: numeral_eq_Suc)
  have "itoa_string 4660 16 = [49, 50, 51, 52]"
    by (simp add: itoa_string_def digit_string_def digit_char_def digits.simps word_le_nat_alt)
  then have "printf_out (\<lambda>_. None) ?fmt default_attribute [4660] = Some (map (\<lambda>ch. (ch, default_attribute)) (char_codes ''Hi! 0x00001234''))"
    using zeros by (simp add: char_codes_def hex_out_def)
  ultimately obtain s' where p: "printf buf str [4660] ?s = ret () s'"
      "prints (map (\<lambda>ch. (ch, default_attribute)) (char_codes ''Hi! 0x00001234'')) (region buf 12) ?s s'"
    using printf_prints by blast
  have "same_on (- (display_area \<union> region buf 12)) (mem ?s) (mem s')" using p(2) by (simp add: prints_def kept_def)
  then have "same_on (- (display_area \<union> region buf 12 \<union> ?W)) (mem ?s) (mem s')" by (rule same_on_mono) blast
  moreover have "same_on (- (display_area \<union> region buf 12 \<union> ?W)) (mem s) (mem ?s)"
    by (rule same_on_trans [OF same_on_mono [OF t(2)] same_on_mono [OF clr]]) blast+
  ultimately have "same_on (- (display_area \<union> region buf 12 \<union> ?W)) (mem s) (mem s')" by (rule same_on_trans [rotated])
  moreover have "test_main env lit buf str cell c s = ret (Some 0) s'" using t(1) p(1) by (simp add: test_main_def lib_test_def)
  ultimately show ?thesis using p(2) display_clear_terminal by (auto simp: prints_def Un_assoc)
qed

end
