(* ===== verification/Format.thy ===== *)
theory Format
  imports CString
begin

text \<open>
  Formatted output to memory: \<open>sprintf\<close> and \<open>sprintf_va\<close> of \<open>string.c\<close>. As in \<open>printf\<close>, arguments
  are the 32-bit slots of the caller's stack, a 64-bit argument takes two, and \<open>buf\<close> is the
  address of the 32-byte buffers of the conversions. The specification expands the format to a list
  of bytes; the proof shows that the routine stores exactly these bytes and a terminator.
\<close>

section \<open>The routines\<close>

text \<open>Text is written at \<open>str + j\<close>; each step returns the next \<open>j\<close>.\<close>

partial_function (option) sprintf_copy ::
  "u32 \<Rightarrow> u32 \<Rightarrow> u32 \<Rightarrow> u32 \<Rightarrow> u32 \<Rightarrow> memory \<Rightarrow> (u32 \<times> u32, memory) run" where
  "sprintf_copy str format len i j m =
    (if m (format + i) \<noteq> 37 \<and> i < len
     then sprintf_copy str format len (i + 1) (j + 1) (store8 m (str + j) (m (format + i)))
     else ret (i, j) m)"

definition sprintf_string :: "u32 \<Rightarrow> u32 \<Rightarrow> u32 \<Rightarrow> memory \<Rightarrow> (u32, memory) run" where
  "sprintf_string str arg j m =
    (case strlen m arg of
       None \<Rightarrow> None
     | Some arg_len \<Rightarrow> ret (j + arg_len) (strcpy arg (str + j) arg_len m))"

definition sprintf_decimal :: "u32 \<Rightarrow> u32 \<Rightarrow> u32 \<Rightarrow> u32 \<Rightarrow> memory \<Rightarrow> (u32, memory) run" where
  "sprintf_decimal buf str arg j m =
    (case itoa arg buf 10 (strset buf 0 32 m) of
       None \<Rightarrow> None
     | Some m \<Rightarrow>
         (case strlen m buf of
            None \<Rightarrow> None
          | Some arg_len \<Rightarrow> ret (j + arg_len) (strcpy buf (str + j) arg_len m)))"

definition sprintf_hexadecimal :: "u32 \<Rightarrow> u32 \<Rightarrow> u32 \<Rightarrow> u32 \<Rightarrow> memory \<Rightarrow> (u32, memory) run" where
  "sprintf_hexadecimal buf str arg j m =
    (case itoa arg buf 16 (strset buf 0 32 m) of
       None \<Rightarrow> None
     | Some m \<Rightarrow>
         (case strlen m buf of
            None \<Rightarrow> None
          | Some arg_len \<Rightarrow>
              ret (j + (arg_len + 2))
                (strcpy buf (str + (j + 2)) arg_len (store_bytes m (str + j) [48, 120]))))"

text \<open>The inner switch, on the character after \<open>%l\<close>.\<close>

definition sprintf_long ::
  "u32 \<Rightarrow> u32 \<Rightarrow> u8 \<Rightarrow> u32 \<Rightarrow> u32 list \<Rightarrow> memory \<Rightarrow> (u32 \<times> u32 list, memory) run" where
  "sprintf_long buf str c j ap m =
    (if c = 100 then
       (case ap of
          lo # hi # ap \<Rightarrow> andthen (sprintf_decimal buf str lo j m) (\<lambda>j m. ret (j, ap) m)
        | _ \<Rightarrow> fail Out_of_bounds)
     else if c = 120 then
       (case ap of
          lo # hi # ap \<Rightarrow> andthen (sprintf_hexadecimal buf str lo j m) (\<lambda>j m. ret (j, ap) m)
        | _ \<Rightarrow> fail Out_of_bounds)
     else ret (j, ap) m)"

text \<open>The switch on \<open>format[i]\<close>; the result is the index at its end, the position in the output and
  the remaining arguments.\<close>

definition sprintf_directive ::
  "u32 \<Rightarrow> u32 \<Rightarrow> u32 \<Rightarrow> u32 \<Rightarrow> u32 \<Rightarrow> u32 \<Rightarrow> u32 list \<Rightarrow> memory \<Rightarrow>
   (u32 \<times> u32 \<times> u32 list, memory) run" where
  "sprintf_directive buf str format len i j ap m =
    (let c = m (format + i) in
     if c = 99 then
       (case ap of
          arg # ap \<Rightarrow> ret (i, j + 1, ap) (store8 m (str + j) (ucast arg))
        | _ \<Rightarrow> fail Out_of_bounds)
     else if c = 115 then
       (case ap of
          arg # ap \<Rightarrow> andthen (sprintf_string str arg j m) (\<lambda>j m. ret (i, j, ap) m)
        | _ \<Rightarrow> fail Out_of_bounds)
     else if c = 100 then
       (case ap of
          arg # ap \<Rightarrow> andthen (sprintf_decimal buf str arg j m) (\<lambda>j m. ret (i, j, ap) m)
        | _ \<Rightarrow> fail Out_of_bounds)
     else if c = 120 then
       (case ap of
          arg # ap \<Rightarrow> andthen (sprintf_hexadecimal buf str arg j m) (\<lambda>j m. ret (i, j, ap) m)
        | _ \<Rightarrow> fail Out_of_bounds)
     else if c = 108 then
       let i = i + 1 in
       if len \<le> i then ret (i, j, ap) m
       else andthen (sprintf_long buf str (m (format + i)) j ap m) (\<lambda>(j, ap) m. ret (i, j, ap) m)
     else ret (i, j, ap) m)"

partial_function (option) sprintf_loop ::
  "u32 \<Rightarrow> u32 \<Rightarrow> u32 \<Rightarrow> u32 \<Rightarrow> u32 \<Rightarrow> u32 \<Rightarrow> u32 list \<Rightarrow> memory \<Rightarrow> (u32, memory) run" where
  "sprintf_loop buf str format len i j ap m =
    (if i < len then
       andthen (sprintf_copy str format len i j m) (\<lambda>st m.
         case st of (i, j) \<Rightarrow>
           if len \<le> i + 1 then sprintf_loop buf str format len (i + 1 + 1) j ap m
           else andthen (sprintf_directive buf str format len (i + 1) j ap m) (\<lambda>st m.
             case st of (i, j, ap) \<Rightarrow> sprintf_loop buf str format len (i + 1) j ap m))
     else ret j m)"

definition sprintf_va :: "u32 \<Rightarrow> u32 \<Rightarrow> u32 \<Rightarrow> u32 list \<Rightarrow> memory \<Rightarrow> (unit, memory) run" where
  "sprintf_va buf str format ap m =
    (case strlen m format of
       None \<Rightarrow> None
     | Some len \<Rightarrow>
         andthen (sprintf_loop buf str format len 0 0 ap m) (\<lambda>j m. ret () (store8 m (str + j) 0)))"

definition sprintf :: "u32 \<Rightarrow> u32 \<Rightarrow> u32 \<Rightarrow> u32 list \<Rightarrow> memory \<Rightarrow> (unit, memory) run" where
  "sprintf buf str format ap m = sprintf_va buf str format ap m"

section \<open>The expansion\<close>

definition hex_text :: "u32 \<Rightarrow> u8 list" where
  "hex_text arg = [48, 120] @ itoa_string arg 16"

text \<open>What one directive prints, from the character after \<open>%\<close> on: the text, the rest of the format
  and the remaining arguments.\<close>

definition directive_out ::
  "strings \<Rightarrow> u8 \<Rightarrow> u8 list \<Rightarrow> u32 list \<Rightarrow> (u8 list \<times> u8 list \<times> u32 list) option" where
  "directive_out strings d cs ap =
    (if d = 99 then (case ap of a # ap \<Rightarrow> Some ([ucast a], cs, ap) | _ \<Rightarrow> None)
     else if d = 115 then
       (case ap of a # ap \<Rightarrow> map_option (\<lambda>t. (t, cs, ap)) (strings a) | _ \<Rightarrow> None)
     else if d = 100 then (case ap of a # ap \<Rightarrow> Some (itoa_string a 10, cs, ap) | _ \<Rightarrow> None)
     else if d = 120 then (case ap of a # ap \<Rightarrow> Some (hex_text a, cs, ap) | _ \<Rightarrow> None)
     else if d = 108 then
       (case cs of
          [] \<Rightarrow> Some ([], [], ap)
        | e # cs \<Rightarrow>
            if e = 100 then
              (case ap of lo # hi # ap \<Rightarrow> Some (itoa_string lo 10, cs, ap) | _ \<Rightarrow> None)
            else if e = 120 then
              (case ap of lo # hi # ap \<Rightarrow> Some (hex_text lo, cs, ap) | _ \<Rightarrow> None)
            else Some ([], cs, ap))
     else Some ([], cs, ap))"

lemma directive_out_shorter:
  "directive_out strings d cs ap = Some (t, cs', ap') \<Longrightarrow> length cs' \<le> length cs"
  by (auto simp: directive_out_def split: if_splits list.splits)

function sprintf_out :: "strings \<Rightarrow> u8 list \<Rightarrow> u32 list \<Rightarrow> u8 list option" where
  "sprintf_out strings [] ap = Some []"
| "c \<noteq> 37 \<Longrightarrow> sprintf_out strings (c # cs) ap = map_option (Cons c) (sprintf_out strings cs ap)"
| "sprintf_out strings [37] ap = Some []"
| "sprintf_out strings (37 # d # cs) ap =
    (case directive_out strings d cs ap of
       None \<Rightarrow> None
     | Some (t, cs, ap) \<Rightarrow> map_option (append t) (sprintf_out strings cs ap))"
  by (atomize_elim, metis list.exhaust surj_pair) simp_all
termination
  by (relation "measure (\<lambda>(strings, cs, ap). length cs)") (auto dest: directive_out_shorter)

section \<open>The conversions\<close>

text \<open>\<open>emits buf str n t j m m'\<close>: from position \<open>j\<close> on the text \<open>t\<close> was appended to the output, which has
  room for \<open>n\<close> bytes and a terminator, and only the output and the buffer were written.\<close>

definition output_area :: "u32 \<Rightarrow> u32 \<Rightarrow> nat \<Rightarrow> u32 set" where
  "output_area buf str n = region str (Suc n) \<union> region buf 32"

definition emits :: "u32 \<Rightarrow> u32 \<Rightarrow> nat \<Rightarrow> u8 list \<Rightarrow> nat \<Rightarrow> memory \<Rightarrow> memory \<Rightarrow> bool" where
  "emits buf str n t j m m' \<longleftrightarrow> bytes_at m' str (j + length t) = bytes_at m str j @ t \<and>
     same_on (- output_area buf str n) m m'"

definition sprintf_ready :: "u32 \<Rightarrow> u32 \<Rightarrow> nat \<Rightarrow> u32 \<Rightarrow> u8 list \<Rightarrow> strings \<Rightarrow> memory \<Rightarrow> bool" where
  "sprintf_ready buf str n format fmt strings m \<longleftrightarrow> n < 2 ^ 32 - 2 \<and> length fmt < 2 ^ 32 - 2 \<and>
     region str (Suc n) \<inter> region buf 32 = {} \<and>
     cstr m format fmt \<and> region format (Suc (length fmt)) \<inter> output_area buf str n = {} \<and>
     (\<forall>a t. strings a = Some t \<longrightarrow> cstr m a t \<and> region a (Suc (length t)) \<inter> output_area buf str n = {})"

lemma emits_Nil [simp]: "emits buf str n [] j m m"
  by (simp add: emits_def)

lemma emits_append:
  "emits buf str n t j m m' \<Longrightarrow> emits buf str n u (j + length t) m' m'' \<Longrightarrow> emits buf str n (t @ u) j m m''"
  using same_on_trans by (auto simp: emits_def add.assoc)

lemma sprintf_ready_emits:
  assumes "sprintf_ready buf str n format fmt strings m" and "emits buf str n t j m m'"
  shows "sprintf_ready buf str n format fmt strings m'"
proof -
  have same: "same_on (- output_area buf str n) m m'" using assms(2) by (simp add: emits_def)
  have keep: "cstr m' a u" if "cstr m a u" "region a (Suc (length u)) \<inter> output_area buf str n = {}" for a u
  proof (rule cstr_cong [OF _ that(1)])
    show "same_on (region a (Suc (length u))) m m'"
      using same by (rule same_on_mono) (use that(2) in blast)
  qed
  show ?thesis using assms(1) keep unfolding sprintf_ready_def by blast
qed

text \<open>Storing a text at the end of the output, possibly after work in the buffer.\<close>

lemma emits_store:
  assumes "region str (Suc n) \<inter> region buf 32 = {}" and "j + length t \<le> n" and "n < 2 ^ 32 - 2"
    and "same_on (- region buf 32) m m1"
  shows "emits buf str n t j m (store_bytes m1 (str + word_of_nat j) t)"
proof -
  let ?m = "store_bytes m1 (str + word_of_nat j) t"
  have lt: "j < 2 ^ 32" "length t \<le> 2 ^ 32" using assms(2,3) by simp_all
  have uj: "unat (word_of_nat j :: u32) = j" using lt(1) by (simp add: unat_of_nat_eq)
  have sub: "region (str + word_of_nat j) (length t) \<subseteq> region str (Suc n)"
    using assms(2,3) uj by (intro region_shift_subset) simp_all
  have out: "region str j \<inter> region (str + word_of_nat j) (length t) = {}"
  proof -
    have wrap: "length t \<le> unat (0 - (word_of_nat j :: u32)) \<or> j = 0"
      using assms(2,3) uj by (simp only: unat_sub_if') auto
    have "region (str + 0) j \<inter> region (str + word_of_nat j) (length t) = {}" if "j \<noteq> 0"
      using wrap uj that by (intro region_offset_disjoint) (simp, metis)
    then show ?thesis by (cases "j = 0") simp_all
  qed
  have "same_on (region str j) m m1"
    using assms(4) by (rule same_on_mono) (use assms(1) region_mono [of j "Suc n" str] assms(2) in auto)
  then have "same_on (region str j) m ?m"
    using same_on_store_bytes [OF lt(2) out] by (rule same_on_trans)
  then have 1: "bytes_at ?m str j = bytes_at m str j" using lt by (intro bytes_at_cong) simp_all
  have 2: "bytes_at ?m (str + word_of_nat j) (length t) = t" using lt(2) by (rule bytes_at_store_bytes)
  have "bytes_at ?m str (j + length t) = bytes_at ?m str j @ bytes_at ?m (str + word_of_nat j) (length t)"
    by (rule bytes_at_append)
  moreover have "same_on (- output_area buf str n) m ?m"
  proof (rule same_on_trans)
    show "same_on (- output_area buf str n) m m1"
      using assms(4) by (rule same_on_mono) (auto simp: output_area_def)
    show "same_on (- output_area buf str n) m1 ?m"
      using lt(2) sub by (intro same_on_store_bytes) (auto simp: output_area_def)
  qed
  ultimately show ?thesis by (simp add: emits_def 1 2)
qed

lemma copy_text:
  assumes "cstr m src t" and "region dest (length t) \<inter> region src (length t) = {}"
  shows "strcpy src dest (word_of_nat (length t)) m = store_bytes m dest t"
proof -
  have t: "length t < 2 ^ 32" "bytes_at m src (length t) = t" using assms(1) by (simp_all add: cstr_def)
  then have "strcpy src dest (word_of_nat (length t)) m = copy_up dest src (length t) m"
    by (simp add: strcpy_def unat_of_nat_eq)
  also have "\<dots> = store_bytes m dest t"
    using copy_up_bytes [OF copy_safe_disjoint [OF assms(2)], of m] t by simp
  finally show ?thesis .
qed

lemma output_sub:
  assumes "j + k \<le> n" and "n < 2 ^ 32 - 2"
  shows "region (str + word_of_nat j) k \<subseteq> region str (Suc n)"
  using assms by (intro region_shift_subset) (simp_all add: unat_of_nat_eq)

lemma sprintf_string_emits:
  assumes "sprintf_ready buf str n format fmt strings m" and "strings a = Some t" and "j + length t \<le> n"
  shows "\<exists>m'. sprintf_string str a (word_of_nat j) m = ret (word_of_nat (j + length t)) m' \<and> emits buf str n t j m m'"
proof -
  have r: "n < 2 ^ 32 - 2" "region str (Suc n) \<inter> region buf 32 = {}" "cstr m a t"
    "region a (Suc (length t)) \<inter> output_area buf str n = {}"
    using assms(1,2) by (auto simp: sprintf_ready_def)
  have "region (str + word_of_nat j) (length t) \<inter> region a (length t) = {}"
    using r(4) output_sub [OF assms(3) r(1), of str] region_mono [of "length t" "Suc (length t)" a]
    by (auto simp: output_area_def)
  with strlen_cstr [OF r(3)] have "sprintf_string str a (word_of_nat j) m =
      ret (word_of_nat (j + length t)) (store_bytes m (str + word_of_nat j) t)"
    by (simp add: sprintf_string_def copy_text [OF r(3)])
  then show ?thesis using emits_store [OF r(2) assms(3) r(1), of m m] by simp
qed

lemma number_text:
  assumes "base = 10 \<or> base = 16"
  obtains m1 where "itoa arg buf base (strset buf 0 32 m) = Some m1" "cstr m1 buf (itoa_string arg base)"
    "same_on (- region buf 32) m m1"
proof -
  obtain m1 where m1: "itoa arg buf base (strset buf 0 32 m) = Some m1" "cstr m1 buf (itoa_string arg base)"
    "same_on (- region buf 12) (strset buf 0 32 m) m1" using itoa_short [OF assms] by metis
  have "same_on (- region buf 32) m (strset buf 0 32 m)"
    unfolding strset_bytes by (rule same_on_store_bytes) simp_all
  moreover have "same_on (- region buf 32) (strset buf 0 32 m) m1"
    using m1(3) by (rule same_on_mono) (use region_mono [of 12 32 buf] in auto)
  ultimately show ?thesis using that m1 same_on_trans by blast
qed

lemma sprintf_decimal_emits:
  assumes "sprintf_ready buf str n format fmt strings m" and "j + length (itoa_string a 10) \<le> n"
  shows "\<exists>m'. sprintf_decimal buf str a (word_of_nat j) m = ret (word_of_nat (j + length (itoa_string a 10))) m' \<and>
    emits buf str n (itoa_string a 10) j m m'"
proof -
  let ?t = "itoa_string a 10"
  have r: "n < 2 ^ 32 - 2" "region str (Suc n) \<inter> region buf 32 = {}"
    using assms(1) by (auto simp: sprintf_ready_def)
  obtain m1 where m1: "itoa a buf 10 (strset buf 0 32 m) = Some m1" "cstr m1 buf ?t"
    "same_on (- region buf 32) m m1" using number_text [of 10] by blast
  have "length ?t \<le> 32" using itoa_string_short(1) [of 10 a] by simp
  then have "region (str + word_of_nat j) (length ?t) \<inter> region buf (length ?t) = {}"
    using r(2) output_sub [OF assms(2) r(1), of str] region_mono [of "length ?t" 32 buf] by auto
  then have "sprintf_decimal buf str a (word_of_nat j) m =
      ret (word_of_nat (j + length ?t)) (store_bytes m1 (str + word_of_nat j) ?t)"
    using m1(1) strlen_cstr [OF m1(2)] copy_text [OF m1(2)] by (simp add: sprintf_decimal_def)
  then show ?thesis using emits_store [OF r(2) assms(2) r(1) m1(3)] by simp
qed

lemma sprintf_hexadecimal_emits:
  assumes "sprintf_ready buf str n format fmt strings m" and "j + length (hex_text a) \<le> n"
  shows "\<exists>m'. sprintf_hexadecimal buf str a (word_of_nat j) m = ret (word_of_nat (j + length (hex_text a))) m' \<and>
    emits buf str n (hex_text a) j m m'"
proof -
  let ?t = "itoa_string a 16" and ?p = "str + word_of_nat j"
  have r: "n < 2 ^ 32 - 2" "region str (Suc n) \<inter> region buf 32 = {}"
    using assms(1) by (auto simp: sprintf_ready_def)
  have len: "length (hex_text a) = length ?t + 2" "length ?t \<le> 8"
    using itoa_string_short(1) [of 16 a] by (simp_all add: hex_text_def)
  obtain m1 where m1: "itoa a buf 16 (strset buf 0 32 m) = Some m1" "cstr m1 buf ?t"
    "same_on (- region buf 32) m m1" using number_text [of 16] by blast
  let ?m2 = "store_bytes m1 ?p [48, 120]"
  have room: "j + 2 \<le> n" "(j + 2) + length ?t \<le> n" using assms(2) len by simp_all
  have dis: "region ?p 2 \<inter> region buf 32 = {}" "region (str + word_of_nat (j + 2)) (length ?t) \<inter> region buf 32 = {}"
    using r(2) output_sub [OF room(1) r(1), of str] output_sub [OF room(2) r(1), of str] by auto
  have sub: "region buf (Suc (length ?t)) \<subseteq> region buf 32" "region buf (length ?t) \<subseteq> region buf 32"
    using len by (auto intro!: region_mono)
  have "region buf (Suc (length ?t)) \<inter> region ?p (length [48, 120 :: u8]) = {}"
    using dis(1) sub(1) by (auto simp: numeral_2_eq_2)
  then have "same_on (region buf (Suc (length ?t))) m1 ?m2" by (intro same_on_store_bytes) simp_all
  then have c2: "cstr ?m2 buf ?t" using m1(2) by (rule cstr_cong)
  have "region (str + (word_of_nat j + 2)) (length ?t) \<inter> region buf (length ?t) = {}"
    using dis(2) sub(2) by (auto simp: add.commute)
  from copy_text [OF c2 this] have "strcpy buf (str + (word_of_nat j + 2)) (word_of_nat (length ?t)) ?m2 =
      store_bytes m1 ?p (hex_text a)"
    by (simp add: hex_text_def add.assoc)
  then have "sprintf_hexadecimal buf str a (word_of_nat j) m =
      ret (word_of_nat (j + length (hex_text a))) (store_bytes m1 ?p (hex_text a))"
    using m1(1) strlen_cstr [OF m1(2)] len(1) by (simp add: sprintf_hexadecimal_def ac_simps)
  then show ?thesis using emits_store [OF r(2) assms(2) r(1) m1(3)] by simp
qed

section \<open>The loop\<close>

lemma sprintf_copy_emits:
  assumes "sprintf_ready buf str n format fmt strings m" and "i \<le> length fmt"
    and "j + length (takeWhile (\<lambda>c. c \<noteq> 37) (drop i fmt)) \<le> n"
  shows "\<exists>m'. sprintf_copy str format (word_of_nat (length fmt)) (word_of_nat i) (word_of_nat j) m =
      ret (word_of_nat (i + length (takeWhile (\<lambda>c. c \<noteq> 37) (drop i fmt))),
           word_of_nat (j + length (takeWhile (\<lambda>c. c \<noteq> 37) (drop i fmt)))) m' \<and>
    emits buf str n (takeWhile (\<lambda>c. c \<noteq> 37) (drop i fmt)) j m m'"
  using assms
proof (induction "length fmt - i" arbitrary: i j m)
  case 0
  then have "i = length fmt" by simp
  then show ?case by (subst sprintf_copy.simps) simp
next
  case (Suc k)
  have i: "i < length fmt" using Suc.hyps(2) by simp
  have r: "n < 2 ^ 32 - 2" "length fmt < 2 ^ 32 - 2" "region str (Suc n) \<inter> region buf 32 = {}" "cstr m format fmt"
    using Suc.prems(1) by (auto simp: sprintf_ready_def)
  have lt: "word_of_nat i < (word_of_nat (length fmt) :: u32)"
    using i r(2) by (simp add: word_less_nat_alt unat_of_nat)
  have c: "m (format + word_of_nat i) = fmt ! i" using cstr_nth [OF r(4) i] .
  have drop: "drop i fmt = fmt ! i # drop (Suc i) fmt" using i by (simp add: Cons_nth_drop_Suc)
  show ?case
  proof (cases "fmt ! i = 37")
    case True
    then show ?thesis using c drop by (subst sprintf_copy.simps) simp
  next
    case False
    let ?w = "takeWhile (\<lambda>c. c \<noteq> 37) (drop (Suc i) fmt)"
    have w: "takeWhile (\<lambda>c. c \<noteq> 37) (drop i fmt) = fmt ! i # ?w" using False drop by simp
    let ?m = "store8 m (str + word_of_nat j) (fmt ! i)"
    have "j + length [fmt ! i] \<le> n" using Suc.prems(3) w by simp
    from emits_store [OF r(3) this r(1), of m m]
    have e: "emits buf str n [fmt ! i] j m ?m" by (simp add: store8_def)
    have "k = length fmt - Suc i" "Suc i \<le> length fmt" "Suc j + length ?w \<le> n"
      using Suc.hyps(2) i Suc.prems(3) w by simp_all
    from Suc.hyps(1) [OF this(1) sprintf_ready_emits [OF Suc.prems(1) e] this(2,3)] obtain m' where m':
      "sprintf_copy str format (word_of_nat (length fmt)) (word_of_nat (Suc i)) (word_of_nat (Suc j)) ?m =
         ret (word_of_nat (Suc i + length ?w), word_of_nat (Suc j + length ?w)) m'"
      "emits buf str n ?w (Suc j) ?m m'" by blast
    have "sprintf_copy str format (word_of_nat (length fmt)) (word_of_nat i) (word_of_nat j) m =
        ret (word_of_nat (Suc i + length ?w), word_of_nat (Suc j + length ?w)) m'"
      using m'(1) c lt False by (subst sprintf_copy.simps) (simp add: add.commute)
    then show ?thesis using emits_append [OF e] m'(2) w by simp
  qed
qed

lemma sprintf_directive_emits:
  assumes ready: "sprintf_ready buf str n format fmt strings m" and i: "i < length fmt"
    and out: "directive_out strings (fmt ! i) (drop (Suc i) fmt) ap = Some (t, cs, ap')"
    and room: "j + length t \<le> n"
  shows "\<exists>i' m'. sprintf_directive buf str format (word_of_nat (length fmt)) (word_of_nat i) (word_of_nat j) ap m =
      ret (word_of_nat i', word_of_nat (j + length t), ap') m' \<and>
    emits buf str n t j m m' \<and> i \<le> i' \<and> i' \<le> length fmt \<and> cs = drop (Suc i') fmt"
proof -
  have r: "n < 2 ^ 32 - 2" "length fmt < 2 ^ 32 - 2" "region str (Suc n) \<inter> region buf 32 = {}" "cstr m format fmt"
    using ready by (auto simp: sprintf_ready_def)
  let ?d = "fmt ! i" and ?i = "word_of_nat i :: u32" and ?j = "word_of_nat j :: u32"
  have d: "m (format + ?i) = ?d" using cstr_nth [OF r(4) i] .
  have at: ?thesis if "sprintf_directive buf str format (word_of_nat (length fmt)) ?i ?j ap m =
      ret (?i, word_of_nat (j + length t), ap') m'" "emits buf str n t j m m'" "cs = drop (Suc i) fmt" for m'
    using that i by (intro exI [of _ i] exI [of _ m']) simp
  consider "?d = 99" | "?d = 115" | "?d = 100" | "?d = 120" | "?d = 108"
    | "?d \<noteq> 99" "?d \<noteq> 115" "?d \<noteq> 100" "?d \<noteq> 120" "?d \<noteq> 108" by blast
  then show ?thesis
  proof cases
    case 1
    then obtain a where ap: "ap = a # ap'" "t = [ucast a]" "cs = drop (Suc i) fmt"
      using out by (auto simp: directive_out_def split: list.splits)
    then show ?thesis
      using d 1 emits_store [OF r(3) room r(1), of m m] by (intro at) (simp_all add: sprintf_directive_def store8_def add.commute)
  next
    case 2
    then obtain a where ap: "ap = a # ap'" "strings a = Some t" "cs = drop (Suc i) fmt"
      using out by (auto simp: directive_out_def split: list.splits)
    obtain m' where "sprintf_string str a ?j m = ret (word_of_nat (j + length t)) m'" "emits buf str n t j m m'"
      using sprintf_string_emits [OF ready ap(2) room] by blast
    then show ?thesis using d 2 ap by (intro at [of m']) (simp_all add: sprintf_directive_def)
  next
    case 3
    then obtain a where ap: "ap = a # ap'" "t = itoa_string a 10" "cs = drop (Suc i) fmt"
      using out by (auto simp: directive_out_def split: list.splits)
    obtain m' where "sprintf_decimal buf str a ?j m = ret (word_of_nat (j + length t)) m'" "emits buf str n t j m m'"
      using sprintf_decimal_emits [OF ready] room ap(2) by blast
    then show ?thesis using d 3 ap by (intro at [of m']) (simp_all add: sprintf_directive_def)
  next
    case 4
    then obtain a where ap: "ap = a # ap'" "t = hex_text a" "cs = drop (Suc i) fmt"
      using out by (auto simp: directive_out_def split: list.splits)
    obtain m' where "sprintf_hexadecimal buf str a ?j m = ret (word_of_nat (j + length t)) m'" "emits buf str n t j m m'"
      using sprintf_hexadecimal_emits [OF ready] room ap(2) by blast
    then show ?thesis using d 4 ap by (intro at [of m']) (simp_all add: sprintf_directive_def)
  next
    case 5
    show ?thesis
    proof (cases "Suc i < length fmt")
      case False
      then have len: "length fmt = Suc i" using i by simp
      then have t: "t = []" "cs = []" "ap' = ap" using out 5 by (auto simp: directive_out_def)
      have "word_of_nat (Suc i) = ?i + 1" by simp
      then have "sprintf_directive buf str format (word_of_nat (length fmt)) ?i ?j ap m =
          ret (word_of_nat (Suc i), word_of_nat j, ap) m"
        using d 5 len by (simp only: sprintf_directive_def Let_def) simp
      then show ?thesis using t len by (intro exI [of _ "Suc i"] exI [of _ m]) simp
    next
      case True
      let ?e = "fmt ! Suc i" and ?cs = "drop (Suc (Suc i)) fmt"
      have e: "drop (Suc i) fmt = ?e # ?cs" using True by (simp add: Cons_nth_drop_Suc)
      have me: "m (format + (?i + 1)) = ?e" using cstr_nth [OF r(4) True] by (simp add: add.commute)
      have lt: "\<not> word_of_nat (length fmt) \<le> ?i + 1"
        using True r(2) by (simp add: word_le_nat_alt unat_of_nat unat_word_ariths)
      have long: ?thesis if "sprintf_long buf str ?e ?j ap m = ret (word_of_nat (j + length t), ap') m'"
          "emits buf str n t j m m'" "cs = ?cs" for m'
      proof -
        have "word_of_nat (Suc i) = ?i + 1" by simp
        then have "sprintf_directive buf str format (word_of_nat (length fmt)) ?i ?j ap m =
            ret (word_of_nat (Suc i), word_of_nat (j + length t), ap') m'"
          using that(1) d 5 me lt by (simp only: sprintf_directive_def Let_def) simp
        then show ?thesis using that True by (intro exI [of _ "Suc i"] exI [of _ m']) simp
      qed
      consider "?e = 100" | "?e = 120" | "?e \<noteq> 100" "?e \<noteq> 120" by blast
      then show ?thesis
      proof cases
        case 1
        then obtain lo hi where ap: "ap = lo # hi # ap'" "t = itoa_string lo 10" "cs = ?cs"
          using out 5 e by (auto simp: directive_out_def split: list.splits)
        obtain m' where "sprintf_decimal buf str lo ?j m = ret (word_of_nat (j + length t)) m'" "emits buf str n t j m m'"
          using sprintf_decimal_emits [OF ready] room ap(2) by blast
        then show ?thesis using 1 ap by (intro long [of m']) (simp_all add: sprintf_long_def)
      next
        case 2
        then obtain lo hi where ap: "ap = lo # hi # ap'" "t = hex_text lo" "cs = ?cs"
          using out 5 e by (auto simp: directive_out_def split: list.splits)
        obtain m' where "sprintf_hexadecimal buf str lo ?j m = ret (word_of_nat (j + length t)) m'" "emits buf str n t j m m'"
          using sprintf_hexadecimal_emits [OF ready] room ap(2) by blast
        then show ?thesis using 2 ap by (intro long [of m']) (simp_all add: sprintf_long_def)
      next
        case 3
        then show ?thesis using out 5 e by (intro long [of m]) (auto simp: directive_out_def sprintf_long_def)
      qed
    qed
  next
    case 6
    then show ?thesis using d out by (intro at [of m]) (auto simp: directive_out_def sprintf_directive_def)
  qed
qed

lemma sprintf_out_split:
  "sprintf_out strings cs ap = map_option (append (takeWhile (\<lambda>c. c \<noteq> 37) cs))
     (sprintf_out strings (dropWhile (\<lambda>c. c \<noteq> 37) cs) ap)"
proof (induction cs)
  case (Cons c cs)
  then show ?case by (cases "c = 37") (simp_all add: option.map_comp comp_def option.map_ident)
qed simp

lemma sprintf_loop_emits:
  assumes "sprintf_ready buf str n format fmt strings m" and "i \<le> length fmt + 2"
    and "sprintf_out strings (drop i fmt) ap = Some t" and "j + length t \<le> n"
  shows "\<exists>m'. sprintf_loop buf str format (word_of_nat (length fmt)) (word_of_nat i) (word_of_nat j) ap m =
      ret (word_of_nat (j + length t)) m' \<and> emits buf str n t j m m'"
  using assms
proof (induction "length fmt - i" arbitrary: i j ap t m rule: less_induct)
  case less
  have r: "length fmt < 2 ^ 32 - 2" using less.prems(1) by (auto simp: sprintf_ready_def)
  let ?n = "word_of_nat (length fmt) :: u32" and ?L = "sprintf_loop buf str format (word_of_nat (length fmt))"
  have lt: "word_of_nat i < ?n \<longleftrightarrow> i < length fmt"
    using less.prems(2) r by (simp add: word_less_nat_alt unat_of_nat)
  show ?case
  proof (cases "i < length fmt")
    case False
    then have "t = []" using less.prems(3) by simp
    then show ?thesis using False lt by (subst sprintf_loop.simps) (simp add: lt)
  next
    case True
    let ?w = "takeWhile (\<lambda>c. c \<noteq> 37) (drop i fmt)" and ?r = "dropWhile (\<lambda>c. c \<noteq> 37) (drop i fmt)"
    define k where "k = i + length ?w"
    have rest: "?r = drop k fmt" by (simp add: k_def dropWhile_eq_drop add.commute)
    have k: "k \<le> length fmt" using True length_takeWhile_le [of "\<lambda>c. c \<noteq> 37" "drop i fmt"] by (simp add: k_def)
    obtain u where u: "sprintf_out strings (drop k fmt) ap = Some u" "t = ?w @ u"
      using less.prems(3) sprintf_out_split [of strings "drop i fmt" ap] rest by auto
    have "i \<le> length fmt" "j + length ?w \<le> n" using True less.prems(4) u(2) by simp_all
    from sprintf_copy_emits [OF less.prems(1) this] obtain m1 where m1:
      "sprintf_copy str format ?n (word_of_nat i) (word_of_nat j) m =
         ret (word_of_nat k, word_of_nat (j + length ?w)) m1" "emits buf str n ?w j m m1"
      unfolding k_def by blast
    note ready1 = sprintf_ready_emits [OF less.prems(1) m1(2)]
    let ?j = "j + length ?w"
    have wk: "word_of_nat k + 1 = (word_of_nat (Suc k) :: u32)" by simp
    have le: "?n \<le> word_of_nat k + 1 \<longleftrightarrow> length fmt \<le> Suc k"
      using k r unat_of_nat_eq [of "Suc k", where 'a = 32] unat_of_nat_eq [of "length fmt", where 'a = 32]
      unfolding wk word_le_nat_alt by (simp del: of_nat_Suc)
    show ?thesis
    proof (cases "length fmt \<le> Suc k")
      case fin: True
      have "u = []"
      proof (cases "k = length fmt")
        case False
        then have "drop k fmt = [fmt ! k]" using fin k by (simp add: Cons_nth_drop_Suc [symmetric])
        moreover have "?r \<noteq> []" using rest False k by simp
        then have "hd ?r = 37" using hd_dropWhile by fast
        ultimately show ?thesis using u(1) rest by simp
      qed (use u(1) in simp)
      have "length fmt - (k + 2) < length fmt - i" "k + 2 \<le> length fmt + 2"
        "sprintf_out strings (drop (k + 2) fmt) ap = Some []" "?j + length [] \<le> n"
        using True k fin less.prems(4) u(2) by simp_all
      from less.hyps [OF this(1) ready1 this(2,3,4)] obtain m' where m':
        "?L (word_of_nat (k + 2)) (word_of_nat ?j) ap m1 = ret (word_of_nat ?j) m'" "emits buf str n [] ?j m1 m'"
        by auto
      have w2: "word_of_nat k + 1 + 1 = (word_of_nat (k + 2) :: u32)" by simp
      have "?L (word_of_nat i) (word_of_nat j) ap m = ret (word_of_nat ?j) m'"
        using m'(1) m1(1) True fin by (subst sprintf_loop.simps) (simp only: lt le w2 andthen_ret prod.case if_True simp_thms list.size add_0_right)
      then show ?thesis using emits_append [OF m1(2) m'(2)] u(2) \<open>u = []\<close> by simp
    next
      case False
      then have kk: "Suc k < length fmt" by simp
      have fk: "drop k fmt = fmt ! k # fmt ! Suc k # drop (Suc (Suc k)) fmt"
        using kk by (simp add: Cons_nth_drop_Suc)
      have "?r \<noteq> []" using rest kk by simp
      then have "fmt ! k = 37" using hd_dropWhile [of "\<lambda>c. c \<noteq> 37" "drop i fmt"] rest fk by simp
      then obtain v cs ap' u' where v: "directive_out strings (fmt ! Suc k) (drop (Suc (Suc k)) fmt) ap = Some (v, cs, ap')"
        "sprintf_out strings cs ap' = Some u'" "u = v @ u'"
        using u(1) fk by (auto split: option.splits prod.splits)
      have room: "?j + length v \<le> n" using less.prems(4) u(2) v(3) by simp
      from sprintf_directive_emits [OF ready1 kk v(1) room] obtain i' m2 where m2:
        "sprintf_directive buf str format ?n (word_of_nat (Suc k)) (word_of_nat ?j) ap m1 =
           ret (word_of_nat i', word_of_nat (?j + length v), ap') m2"
        "emits buf str n v ?j m1 m2" "Suc k \<le> i'" "i' \<le> length fmt" "cs = drop (Suc i') fmt" by blast
      have "length fmt - Suc i' < length fmt - i" "Suc i' \<le> length fmt + 2"
        "sprintf_out strings (drop (Suc i') fmt) ap' = Some u'" "(?j + length v) + length u' \<le> n"
        using True m2 v less.prems(4) u(2) by (simp_all add: k_def)
      from less.hyps [OF this(1) sprintf_ready_emits [OF ready1 m2(2)] this(2,3,4)] obtain m' where m':
        "?L (word_of_nat (Suc i')) (word_of_nat (?j + length v)) ap' m2 = ret (word_of_nat (?j + length v + length u')) m'"
        "emits buf str n u' (?j + length v) m2 m'" by blast
      have wi: "word_of_nat i' + 1 = (word_of_nat (Suc i') :: u32)" by simp
      have "?L (word_of_nat i) (word_of_nat j) ap m = ret (word_of_nat (?j + length v + length u')) m'"
        using m'(1) m1(1) m2(1) True False
        by (subst sprintf_loop.simps) (simp only: lt le [unfolded wk] wk wi andthen_ret prod.case if_True if_False simp_thms)
      then show ?thesis
        using emits_append [OF m1(2) emits_append [OF m2(2) m'(2)]] u(2) v(3) by (simp add: add.assoc)
    qed
  qed
qed

lemma sprintf_stores:
  assumes "sprintf_ready buf str n format fmt strings m" and "sprintf_out strings fmt ap = Some t"
    and "length t \<le> n"
  shows "\<exists>m'. sprintf buf str format ap m = ret () m' \<and> bytes_at m' str (length t) = t \<and>
    m' (str + word_of_nat (length t)) = 0 \<and> same_on (- (region str (Suc n) \<union> region buf 32)) m m'"
proof -
  have r: "n < 2 ^ 32 - 2" "cstr m format fmt" using assms(1) by (auto simp: sprintf_ready_def)
  obtain m' where m': "sprintf_loop buf str format (word_of_nat (length fmt)) 0 0 ap m = ret (word_of_nat (length t)) m'"
    "emits buf str n t 0 m m'"
    using sprintf_loop_emits [OF assms(1), of 0 ap t 0] assms(2,3) by auto
  let ?e = "str + word_of_nat (length t)" and ?m = "store8 m' (str + word_of_nat (length t)) 0"
  have u: "unat (word_of_nat (length t) :: u32) = length t" using assms(3) r(1) by (simp add: unat_of_nat_eq)
  have "?e \<notin> region str (length t)" by (simp add: in_region_iff u)
  then have "same_on (region str (length t)) m' ?m" by (rule same_on_store8)
  then have "bytes_at ?m str (length t) = t"
    using m'(2) bytes_at_cong [of str "length t" m' ?m] assms(3) r(1) by (simp add: emits_def)
  moreover have "same_on (- output_area buf str n) m ?m"
  proof (rule same_on_trans)
    show "same_on (- output_area buf str n) m m'" using m'(2) by (simp add: emits_def)
    have "?e \<in> region str (Suc n)" using assms(3) u by (intro region_offset) simp
    then show "same_on (- output_area buf str n) m' ?m"
      by (intro same_on_store8) (simp add: output_area_def)
  qed
  moreover have "sprintf buf str format ap m = ret () ?m"
    using m'(1) strlen_cstr [OF r(2)] by (simp add: sprintf_def sprintf_va_def)
  ultimately show ?thesis by (simp add: output_area_def)
qed

section \<open>Properties\<close>

text \<open>C21. \<open>sprintf\<close> writes the expansion of its format. When the format and the strings it names lie
  apart from the output and the conversion buffer, every directive has its arguments and the
  expansion \<open>t\<close> has no more than \<open>n\<close> bytes, where the output has room for \<open>n + 1\<close>, the routine returns with
  \<open>t\<close> and a null in the output, and nothing else was written but the buffer.\<close>

theorem sprintf_writes:
  assumes "sprintf_ready buf str n format fmt strings m" and "sprintf_out strings fmt ap = Some t"
    and "length t \<le> n"
  shows "\<exists>m'. sprintf buf str format ap m = ret () m' \<and> bytes_at m' str (length t) = t \<and>
    m' (str + word_of_nat (length t)) = 0 \<and> same_on (- (region str (Suc n) \<union> region buf 32)) m m'"
  using assms by (rule sprintf_stores)

text \<open>The format \<open>%s:%x\<close> with the string \<open>ab\<close>.\<close>

definition sprintf_example :: memory where
  "sprintf_example = (\<lambda>_. 0)(100 := 37, 101 := 115, 102 := 58, 103 := 37, 104 := 120, 200 := 97, 201 := 98)"

theorem sprintf_writes_witness:
  "\<exists>m'. sprintf 300 400 100 [200, 255] sprintf_example = ret () m' \<and>
     bytes_at m' 400 7 = [97, 98, 58, 48, 120, 70, 70] \<and> m' 407 = 0"
proof -
  let ?strings = "[200 \<mapsto> [97, 98]] :: strings"
  have away: "region (100 :: u32) (Suc (Suc (Suc (Suc (Suc (Suc 0)))))) \<inter> output_area 300 400 7 = {}"
    "region (200 :: u32) (Suc (Suc (Suc 0))) \<inter> output_area 300 400 7 = {}"
    unfolding output_area_def Int_Un_distrib Un_empty by (intro conjI region_disjoint; simp)+
  have "region (400 :: u32) (Suc 7) \<inter> region 300 32 = {}"
    by (rule region_disjoint') simp_all
  then have ready: "sprintf_ready 300 400 7 100 [37, 115, 58, 37, 120] ?strings sprintf_example"
    unfolding sprintf_ready_def using away
    by (simp add: cstr_def bytes_at_def upt_rec sprintf_example_def)
  have "itoa_string 255 16 = [70, 70]"
    by (simp add: itoa_string_def digit_string_def digit_char_def digits.simps)
  then have "sprintf_out ?strings [37, 115, 58, 37, 120] [200, 255] = Some [97, 98, 58, 48, 120, 70, 70]"
    by (simp add: directive_out_def hex_text_def)
  moreover have len: "length [97, 98, 58, 48, 120, 70, 70 :: u8] = 7" by simp
  ultimately show ?thesis using sprintf_writes [OF ready, of "[200, 255]" "[97, 98, 58, 48, 120, 70, 70]"]
    unfolding len by auto
qed

end
