(* ===== verification/Mutex.thy ===== *)
theory Mutex
  imports Memory
begin

text \<open>
  The spin lock of \<open>execution/mutex.c\<close>. Taking the lock repeats an atomic compare and swap; many
  threads may do so at once, so besides the routines the theory has a step relation in which the
  atomic actions of any number of threads interleave.
\<close>

section \<open>The operations\<close>

definition mutex_init :: "u32 \<Rightarrow> memory \<Rightarrow> memory" where
  "mutex_init mutex m = store32 m mutex 0"

text \<open>\<open>__sync_bool_compare_and_swap(mutex, 0, 1)\<close>.\<close>

definition mutex_swap :: "u32 \<Rightarrow> memory \<Rightarrow> bool \<times> memory" where
  "mutex_swap mutex m = (if load32 m mutex = 0 then (True, store32 m mutex 1) else (False, m))"

text \<open>The loop as one thread runs it alone.\<close>

partial_function (option) mutex_lock :: "u32 \<Rightarrow> memory \<Rightarrow> memory option" where
  "mutex_lock mutex m =
    (case mutex_swap mutex m of (done, m) \<Rightarrow> if done then Some m else mutex_lock mutex m)"

definition mutex_unlock :: "u32 \<Rightarrow> memory \<Rightarrow> memory" where
  "mutex_unlock mutex m = store32 m mutex 0"

lemma mutex_swap_free: "load32 m mutex = 0 \<Longrightarrow> mutex_swap mutex m = (True, store32 m mutex 1)"
  by (simp add: mutex_swap_def)

lemma mutex_swap_held: "load32 m mutex \<noteq> 0 \<Longrightarrow> mutex_swap mutex m = (False, m)"
  by (simp add: mutex_swap_def)

lemma mutex_lock_free: "load32 m mutex = 0 \<Longrightarrow> mutex_lock mutex m = Some (store32 m mutex 1)"
  by (subst mutex_lock.simps) (simp add: mutex_swap_free)

section \<open>Threads\<close>

text \<open>A thread is outside its critical section, in the loop of \<open>mutex_lock\<close>, or inside.\<close>

datatype phase = Outside | Spinning | Inside

record threads =
  phase_of :: "nat \<Rightarrow> phase"
  memory_of :: memory

inductive mutex_step :: "u32 \<Rightarrow> threads \<Rightarrow> threads \<Rightarrow> bool" for mutex where
  enter: "phase_of c t = Outside \<Longrightarrow> mutex_step mutex c (c\<lparr>phase_of := (phase_of c)(t := Spinning)\<rparr>)"
| acquire: "phase_of c t = Spinning \<Longrightarrow> mutex_swap mutex (memory_of c) = (True, m) \<Longrightarrow>
    mutex_step mutex c (c\<lparr>phase_of := (phase_of c)(t := Inside), memory_of := m\<rparr>)"
| spin: "phase_of c t = Spinning \<Longrightarrow> mutex_swap mutex (memory_of c) = (False, m) \<Longrightarrow>
    mutex_step mutex c (c\<lparr>memory_of := m\<rparr>)"
| release: "phase_of c t = Inside \<Longrightarrow>
    mutex_step mutex c (c\<lparr>phase_of := (phase_of c)(t := Outside), memory_of := mutex_unlock mutex (memory_of c)\<rparr>)"
| other: "same_on (region mutex 4) (memory_of c) m \<Longrightarrow> mutex_step mutex c (c\<lparr>memory_of := m\<rparr>)"

inductive_cases mutex_stepE: "mutex_step mutex c c'"

definition mutex_start :: "u32 \<Rightarrow> memory \<Rightarrow> threads" where
  "mutex_start mutex m = \<lparr>phase_of = (\<lambda>_. Outside), memory_of = mutex_init mutex m\<rparr>"

text \<open>The word is 0 when the critical section is empty and 1 when one thread is inside.\<close>

definition inside :: "threads \<Rightarrow> nat set" where
  "inside c = {t. phase_of c t = Inside}"

definition mutex_inv :: "u32 \<Rightarrow> threads \<Rightarrow> bool" where
  "mutex_inv mutex c \<longleftrightarrow>
    (load32 (memory_of c) mutex = 0 \<and> inside c = {}) \<or>
    (load32 (memory_of c) mutex = 1 \<and> (\<exists>t. inside c = {t}))"

lemma inside_memory [simp]: "inside (c\<lparr>memory_of := m\<rparr>) = inside c"
  by (simp add: inside_def)

lemma inside_update:
  "inside (c\<lparr>phase_of := (phase_of c)(t := p)\<rparr>) = (if p = Inside then insert t (inside c) else inside c - {t})"
  "inside (c\<lparr>phase_of := (phase_of c)(t := p), memory_of := m\<rparr>) =
    (if p = Inside then insert t (inside c) else inside c - {t})"
  by (simp_all add: inside_def set_eq_iff)

lemma mutex_inv_start: "mutex_inv mutex (mutex_start mutex m)"
  by (simp add: mutex_inv_def mutex_start_def mutex_init_def inside_def)

lemma mutex_inv_step:
  assumes "mutex_step mutex c c'" and "mutex_inv mutex c"
  shows "mutex_inv mutex c'"
  using assms(1)
proof (cases rule: mutex_step.cases)
  case (enter t)
  then have "inside c' = inside c" "memory_of c' = memory_of c"
    using inside_update(1) [of c t Spinning] by (simp_all add: inside_def)
  then show ?thesis using assms(2) by (simp only: mutex_inv_def)
next
  case (acquire t m)
  then have l: "load32 (memory_of c) mutex = 0" "m = store32 (memory_of c) mutex 1"
    by (simp_all add: mutex_swap_def split: if_splits)
  then have "inside c = {}" using assms(2) by (simp add: mutex_inv_def)
  then show ?thesis using acquire(1) l(2) by (simp add: mutex_inv_def inside_update del: fun_upd_apply)
next
  case (spin t m)
  then have "m = memory_of c" by (simp add: mutex_swap_def split: if_splits)
  then show ?thesis using assms(2) spin(1) by simp
next
  case (release t)
  then have "t \<in> inside c" by (simp add: inside_def)
  then have "inside c - {t} = {}" using assms(2) by (auto simp: mutex_inv_def)
  then show ?thesis using release(1)
    by (simp add: mutex_inv_def inside_update mutex_unlock_def del: fun_upd_apply)
next
  case (other m)
  then show ?thesis using assms(2) load32_cong [of mutex "memory_of c" m] by (simp add: mutex_inv_def)
qed

lemma mutex_inv_reachable:
  "(mutex_step mutex)\<^sup>*\<^sup>* (mutex_start mutex m) c \<Longrightarrow> mutex_inv mutex c"
  by (induction rule: rtranclp_induct) (auto intro: mutex_inv_start mutex_inv_step)

section \<open>Properties\<close>

text \<open>C22. The lock excludes. From an initialised mutex, however the atomic actions of any number of threads
  interleave with writes elsewhere, at most one thread is inside its critical section; and whenever
  none is inside, the next compare and swap of a thread waiting for the lock succeeds.\<close>

theorem mutex_excludes:
  assumes "(mutex_step mutex)\<^sup>*\<^sup>* (mutex_start mutex m) c"
  shows "(\<forall>t u. phase_of c t = Inside \<and> phase_of c u = Inside \<longrightarrow> t = u) \<and>
    ((\<forall>t. phase_of c t \<noteq> Inside) \<longrightarrow> mutex_lock mutex (memory_of c) = Some (store32 (memory_of c) mutex 1)) \<and>
    ((\<exists>t. phase_of c t = Inside) \<longrightarrow> mutex_swap mutex (memory_of c) = (False, memory_of c))"
proof -
  have "mutex_inv mutex c" using mutex_inv_reachable [OF assms] .
  then show ?thesis unfolding mutex_inv_def
  proof (elim disjE conjE exE)
    assume "load32 (memory_of c) mutex = 0" "inside c = {}"
    then show ?thesis using mutex_lock_free by (auto simp: inside_def)
  next
    fix t assume l: "load32 (memory_of c) mutex = 1" and i: "inside c = {t}"
    have "phase_of c u = Inside \<longleftrightarrow> u = t" for u using i by (simp add: inside_def set_eq_iff)
    moreover have "mutex_swap mutex (memory_of c) = (False, memory_of c)" using l by (simp add: mutex_swap_held)
    ultimately show ?thesis by simp
  qed
qed

text \<open>A run in which a first thread enters the critical section while a second one waits.\<close>

lemma mutex_run:
  "(mutex_step 64)\<^sup>*\<^sup>* (mutex_start 64 (\<lambda>_. 0)) \<lparr>phase_of = (\<lambda>_. Outside)(0 := Inside, 1 := Spinning),
     memory_of = store32 (mutex_init 64 (\<lambda>_. 0)) 64 1\<rparr>"
proof -
  define m where "m = mutex_init 64 (\<lambda>_. 0)"
  have m: "mutex_swap 64 m = (True, store32 m 64 1)" by (simp add: m_def mutex_swap_def mutex_init_def)
  let ?c0 = "\<lparr>phase_of = \<lambda>_. Outside, memory_of = m\<rparr>"
  let ?c1 = "\<lparr>phase_of = (\<lambda>_. Outside)(0 := Spinning), memory_of = m\<rparr>"
  let ?c2 = "\<lparr>phase_of = (\<lambda>_. Outside)(0 := Inside), memory_of = store32 m 64 1\<rparr>"
  let ?c3 = "\<lparr>phase_of = (\<lambda>_. Outside)(0 := Inside, 1 := Spinning), memory_of = store32 m 64 1\<rparr>"
  have 1: "mutex_step 64 ?c0 ?c1" using mutex_step.enter [of ?c0 0 64] by simp
  have 2: "mutex_step 64 ?c1 ?c2" using mutex_step.acquire [of ?c1 0 64] m by simp
  have 3: "mutex_step 64 ?c2 ?c3" using mutex_step.enter [of ?c2 1 64] by simp
  show ?thesis using 1 2 3 unfolding mutex_start_def m_def [symmetric]
    by (meson rtranclp.rtrancl_into_rtrancl rtranclp.rtrancl_refl)
qed

theorem mutex_excludes_witness:
  "mutex_swap 64 (store32 (mutex_init 64 (\<lambda>_. 0)) 64 1) = (False, store32 (mutex_init 64 (\<lambda>_. 0)) 64 1)"
proof -
  have "((\<lambda>_. Outside)(0 := Inside, 1 := Spinning)) (0 :: nat) = Inside" by simp
  then show ?thesis
    using mutex_excludes [OF mutex_run, THEN conjunct2, THEN conjunct2] by (simp only: threads.simps) blast
qed

end
