(* ===== verification/Serial.thy ===== *)
theory Serial
  imports CString Ports
begin

text \<open>
  The serial line, \<open>drivers/serial.c\<close>. Sending a character waits, without a bound, for the line
  to be ready; the properties hold for any line that becomes ready at some time.
\<close>

section \<open>The operations\<close>

text \<open>A port is passed as a 32-bit number and cut to 16 bits where it is used.\<close>

definition serial_init :: "u32 \<Rightarrow> kernel \<Rightarrow> kernel" where
  "serial_init port s =
    (let s = outb (ucast (port + 1)) 0 s;
         s = outb (ucast (port + 3)) 128 s;
         s = outb (ucast (port + 0)) 3 s;
         s = outb (ucast (port + 1)) 0 s
     in outb (ucast (port + 3)) 3 s)"

definition serial_ready :: "environment \<Rightarrow> u16 \<Rightarrow> kernel \<Rightarrow> bool \<times> kernel" where
  "serial_ready env port s = (case inb env (port + 5) s of (v, s) \<Rightarrow> (v AND 32 \<noteq> 0, s))"

partial_function (option) serial_wait :: "environment \<Rightarrow> u32 \<Rightarrow> kernel \<Rightarrow> kernel option" where
  "serial_wait env port s =
    (case serial_ready env (ucast port) s of (ready, s) \<Rightarrow> if ready then Some s else serial_wait env port s)"

definition serial_putc :: "environment \<Rightarrow> u32 \<Rightarrow> u8 \<Rightarrow> kernel \<Rightarrow> unit krun" where
  "serial_putc env port c s =
    (case serial_wait env port s of
       None \<Rightarrow> None
     | Some s \<Rightarrow> ret () (outb (ucast port) c s))"

definition serial_puts :: "environment \<Rightarrow> u32 \<Rightarrow> u32 \<Rightarrow> kernel \<Rightarrow> unit krun" where
  "serial_puts env port str s =
    (case strlen (mem s) str of
       None \<Rightarrow> None
     | Some len \<Rightarrow>
         for_each [0..<unat len] (\<lambda>i s. serial_putc env port (mem s (str + word_of_nat i)) s) s)"

section \<open>The line\<close>

text \<open>The characters sent on a line, oldest first.\<close>

fun sent_on :: "u16 \<Rightarrow> history \<Rightarrow> u8 list" where
  "sent_on port [] = []"
| "sent_on port (Out8 p v # h) = (if p = port then sent_on port h @ [v] else sent_on port h)"
| "sent_on port (_ # h) = sent_on port h"

text \<open>Every character was sent directly after the line had said that it was ready.\<close>

fun sent_when_ready :: "u16 \<Rightarrow> history \<Rightarrow> bool" where
  "sent_when_ready port [] = True"
| "sent_when_ready port (Out8 p v # h) =
    ((p = port \<longrightarrow> (case h of In8 q w # _ \<Rightarrow> q = port + 5 \<and> w AND 32 \<noteq> 0 | _ \<Rightarrow> False)) \<and> sent_when_ready port h)"
| "sent_when_ready port (_ # h) = sent_when_ready port h"

text \<open>A line that is ready for good after some number of port accesses.\<close>

definition serial_line :: "environment \<Rightarrow> u32 \<Rightarrow> nat \<Rightarrow> bool" where
  "serial_line env port n \<longleftrightarrow>
    (\<forall>h. n \<le> length h \<longrightarrow> ucast (env h (ucast port + 5)) AND (32 :: u8) \<noteq> 0)"

text \<open>\<open>sends env port cs s s'\<close>: the characters \<open>cs\<close> went out, and only the port history changed.\<close>

definition sends :: "u32 \<Rightarrow> u8 list \<Rightarrow> kernel \<Rightarrow> kernel \<Rightarrow> bool" where
  "sends port cs s s' \<longleftrightarrow> s'\<lparr>io := io s\<rparr> = s \<and>
     sent_on (ucast port) (io s') = sent_on (ucast port) (io s) @ cs \<and>
     (sent_when_ready (ucast port) (io s) \<longrightarrow> sent_when_ready (ucast port) (io s'))"

lemma sends_Nil [simp]: "sends port [] s s"
  by (simp add: sends_def)

lemma sends_append:
  assumes "sends port cs s s'" and "sends port ds s' s''"
  shows "sends port (cs @ ds) s s''"
proof -
  have "s''\<lparr>io := io s\<rparr> = (s''\<lparr>io := io s'\<rparr>)\<lparr>io := io s\<rparr>" by simp
  with assms show ?thesis by (simp add: sends_def)
qed

lemma sends_mem: "sends port cs s s' \<Longrightarrow> mem s' = mem s"
  unfolding sends_def by (metis kernel.select_convs(1) kernel.surjective kernel.update_convs(2))

lemma serial_wait_returns:
  assumes "serial_line env port n"
  shows "\<exists>s' v h. serial_wait env port s = Some s' \<and> sends port [] s s' \<and>
    io s' = In8 (ucast port + 5) v # h \<and> v AND 32 \<noteq> 0"
proof (induction "n - length (io s)" arbitrary: s rule: less_induct)
  case less
  let ?v = "ucast (env (io s) (ucast port + 5)) :: u8"
  let ?s = "s\<lparr>io := In8 (ucast port + 5) ?v # io s\<rparr>"
  have r: "serial_ready env (ucast port) s = (?v AND 32 \<noteq> 0, ?s)"
    by (simp add: serial_ready_def inb_def Let_def)
  have step: "sends port [] s ?s" by (simp add: sends_def)
  show ?case
  proof (cases "?v AND 32 \<noteq> 0")
    case True
    then show ?thesis using r step by (subst serial_wait.simps) auto
  next
    case False
    then have "length (io s) < n" using assms by (metis not_le serial_line_def)
    then have "n - length (io ?s) < n - length (io s)" by simp
    from less.hyps [OF this] obtain s' v h where s': "serial_wait env port ?s = Some s'" "sends port [] ?s s'"
      "io s' = In8 (ucast port + 5) v # h" "v AND 32 \<noteq> 0" by blast
    have "serial_wait env port s = Some s'" using r False s'(1) by (subst serial_wait.simps) simp
    then show ?thesis using sends_append [OF step s'(2)] s'(3,4) by auto
  qed
qed

lemma serial_putc_sends:
  assumes "serial_line env port n"
  shows "\<exists>s'. serial_putc env port c s = ret () s' \<and> sends port [c] s s'"
proof -
  obtain s1 v h where s1: "serial_wait env port s = Some s1" "sends port [] s s1"
    "io s1 = In8 (ucast port + 5) v # h" "v AND 32 \<noteq> 0"
    using serial_wait_returns [OF assms] by blast
  have "sends port [c] s1 (outb (ucast port) c s1)"
    using s1(3,4) by (simp add: sends_def outb_def)
  from sends_append [OF s1(2) this] show ?thesis using s1(1) by (auto simp: serial_putc_def)
qed

lemma serial_put_counted:
  assumes "serial_line env port n"
  shows "\<exists>s'. for_each [i..<i + k] (\<lambda>i s. serial_putc env port (mem s (str + word_of_nat i)) s) s = ret () s' \<and>
    sends port (map (\<lambda>i. mem s (str + word_of_nat i)) [i..<i + k]) s s'"
proof (induction k)
  case (Suc k)
  then obtain s1 where s1:
    "for_each [i..<i + k] (\<lambda>i s. serial_putc env port (mem s (str + word_of_nat i)) s) s = ret () s1"
    "sends port (map (\<lambda>i. mem s (str + word_of_nat i)) [i..<i + k]) s s1" by blast
  obtain s2 where s2: "serial_putc env port (mem s (str + word_of_nat (i + k))) s1 = ret () s2"
    "sends port [mem s (str + word_of_nat (i + k))] s1 s2"
    using serial_putc_sends [OF assms] by blast
  show ?case using s1(1) s2(1) sends_append [OF s1(2) s2(2)] sends_mem [OF s1(2)]
    by (simp add: for_each_append)
qed simp

lemma serial_puts_sends:
  assumes "serial_line env port n" and "cstr (mem s) str cs"
  shows "\<exists>s'. serial_puts env port str s = ret () s' \<and> sends port cs s s'"
proof -
  have len: "length cs < 2 ^ 32" "bytes_at (mem s) str (length cs) = cs" using assms(2) by (simp_all add: cstr_def)
  obtain s' where "for_each [0..<length cs] (\<lambda>i s. serial_putc env port (mem s (str + word_of_nat i)) s) s = ret () s'"
    "sends port cs s s'"
    using serial_put_counted [OF assms(1), of 0 "length cs" str s] len(2) by (auto simp: bytes_at_def)
  then show ?thesis using strlen_cstr [OF assms(2)] len(1) by (auto simp: serial_puts_def unat_of_nat_eq)
qed

section \<open>Properties\<close>

text \<open>\<open>serial_puts\<close> sends the string. On a line that becomes ready at some time it returns; exactly the
  characters of the string have gone out, in order, each directly after the line reported that it was
  ready, and nothing but the port history changed.\<close>

theorem serial_puts_delivers:
  assumes "serial_line env port n" and "cstr (mem s) str cs"
  shows "\<exists>s'. serial_puts env port str s = ret () s' \<and> s'\<lparr>io := io s\<rparr> = s \<and>
    sent_on (ucast port) (io s') = sent_on (ucast port) (io s) @ cs \<and>
    (sent_when_ready (ucast port) (io s) \<longrightarrow> sent_when_ready (ucast port) (io s'))"
  using serial_puts_sends [OF assms] by (auto simp: sends_def)

theorem serial_puts_delivers_witness:
  "\<exists>s'. serial_puts (\<lambda>h _. if length h < 5 then 0 else 32) 1016 100 (boot_state example_string) = ret () s' \<and>
     sent_on 1016 (io s') = [97, 98]"
proof -
  have "serial_line (\<lambda>h _. if length h < 5 then 0 else 32) 1016 5" by (simp add: serial_line_def)
  from serial_puts_delivers [OF this, of "boot_state example_string" 100 "[97, 98]"]
  show ?thesis using example_string_cstr(1) by (auto simp: boot_state_def)
qed

end
