(* ===== verification/Cmos.thy ===== *)
theory Cmos
  imports Ports
begin

text \<open>
  The real-time clock, \<open>drivers/cmos.c\<close>. The specification is a clock chip that keeps its
  registers in binary or in BCD and its hours in 24-hour or in 12-hour form; \<open>reported_hour\<close> is what the code makes of an
  hour, which is another one for noon and midnight in the 12-hour form.
\<close>

section \<open>The operations\<close>

record time =
  time_second :: u8
  time_minute :: u8
  time_hour :: u8
  time_day :: u8
  time_month :: u8
  time_year :: u8

definition cmos_wait :: "environment \<Rightarrow> kernel \<Rightarrow> bool \<times> kernel" where
  "cmos_wait env s =
    (let s = outb 112 10 s;
         (v, s) = inb env 113 s
     in (v AND 128 \<noteq> 0, s))"

definition cmos_read :: "environment \<Rightarrow> u32 \<Rightarrow> kernel \<Rightarrow> u8 \<times> kernel" where
  "cmos_read env offset s = (let s = outb 112 (ucast offset) s in inb env 113 s)"

definition cmos_write :: "u32 \<Rightarrow> u8 \<Rightarrow> kernel \<Rightarrow> kernel" where
  "cmos_write offset value s = outb 113 value (outb 112 (ucast offset) s)"

partial_function (option) cmos_poll :: "environment \<Rightarrow> kernel \<Rightarrow> kernel option" where
  "cmos_poll env s =
    (case cmos_wait env s of (busy, s) \<Rightarrow> if busy then cmos_poll env s else Some s)"

definition from_bcd :: "u8 \<Rightarrow> u8" where
  "from_bcd v = (v AND 15) + (v div 16) * 10"

definition hour_from_bcd :: "u8 \<Rightarrow> u8" where
  "hour_from_bcd v = ((v AND 15) + ((v AND 112) div 16) * 10) + (v AND 128)"

text \<open>The two conversions, for the value of status register B.\<close>

definition cmos_convert :: "u8 \<Rightarrow> time \<Rightarrow> time" where
  "cmos_convert status time =
    (let time = (if status AND 4 = 0
                 then \<lparr>time_second = from_bcd (time_second time), time_minute = from_bcd (time_minute time),
                       time_hour = hour_from_bcd (time_hour time), time_day = from_bcd (time_day time),
                       time_month = from_bcd (time_month time), time_year = from_bcd (time_year time)\<rparr>
                 else time)
     in if status AND 2 = 0 \<and> time_hour time AND 128 \<noteq> 0
        then time\<lparr>time_hour := ((time_hour time AND 127) + 12) mod 24\<rparr> else time)"

definition cmos_time :: "environment \<Rightarrow> kernel \<Rightarrow> (time \<times> kernel) option" where
  "cmos_time env s =
    (case cmos_poll env s of
       None \<Rightarrow> None
     | Some s \<Rightarrow>
         let (second, s) = cmos_read env 0 s;
             (minute, s) = cmos_read env 2 s;
             (hour, s) = cmos_read env 4 s;
             (day, s) = cmos_read env 7 s;
             (month, s) = cmos_read env 8 s;
             (year, s) = cmos_read env 9 s;
             (status, s) = cmos_read env 11 s
         in Some (cmos_convert status \<lparr>time_second = second, time_minute = minute, time_hour = hour,
                    time_day = day, time_month = month, time_year = year\<rparr>, s))"

section \<open>The clock\<close>

definition bcd :: "nat \<Rightarrow> u8" where
  "bcd n = word_of_nat (16 * (n div 10) + n mod 10)"

definition rtc_value :: "bool \<Rightarrow> nat \<Rightarrow> u8" where
  "rtc_value binary n = (if binary then word_of_nat n else bcd n)"

text \<open>The hour register: in 12-hour form 12, 1, ..., 11 with the high bit set in the afternoon.\<close>

definition rtc_hour :: "bool \<Rightarrow> bool \<Rightarrow> nat \<Rightarrow> u8" where
  "rtc_hour binary full h =
    (if full then rtc_value binary h
     else rtc_value binary (if h mod 12 = 0 then 12 else h mod 12) OR (if 12 \<le> h then 128 else 0))"

definition rtc_status :: "bool \<Rightarrow> bool \<Rightarrow> u8" where
  "rtc_status binary full = (if binary then 4 else 0) OR (if full then 2 else 0)"

text \<open>
  A chip that shows the registers \<open>regs\<close> when one is selected at port 0x70 and read at port
  0x71, and whose update flag is clear once \<open>n\<close> port accesses have been made.
\<close>

definition rtc_chip :: "environment \<Rightarrow> (u8 \<Rightarrow> u8) \<Rightarrow> nat \<Rightarrow> bool" where
  "rtc_chip env regs n \<longleftrightarrow>
    (\<forall>h r. r \<noteq> 10 \<longrightarrow> ucast (env (Out8 112 r # h) 113) = regs r) \<and>
    (\<forall>h. n \<le> length h \<longrightarrow> ucast (env (Out8 112 10 # h) 113) AND (128 :: u8) = 0)"

lemma from_bcd_bcd: "n < 100 \<Longrightarrow> from_bcd (bcd n) = word_of_nat n"
proof -
  have "list_all (\<lambda>n. from_bcd (bcd n) = word_of_nat n) [0..<100]"
    by (simp add: upt_rec from_bcd_def bcd_def)
  then show "n < 100 \<Longrightarrow> ?thesis" by (simp add: list_all_iff)
qed

text \<open>The hour the routine reports: in 12-hour form the hour that begins at noon comes out as 0 and the first of the day as 12.\<close>

definition reported_hour :: "bool \<Rightarrow> nat \<Rightarrow> nat" where
  "reported_hour full h = (if \<not> full \<and> h mod 12 = 0 then 12 - h else h)"

lemma hour_convert:
  assumes "h < 24"
  shows "time_hour (cmos_convert (rtc_status binary full) (t\<lparr>time_hour := rtc_hour binary full h\<rparr>)) = word_of_nat (reported_hour full h)"
proof -
  define hour where "hour = (\<lambda>binary full h.
    let v = rtc_hour binary full h; v = (if rtc_status binary full AND 4 = 0 then hour_from_bcd v else v)
    in if rtc_status binary full AND 2 = 0 \<and> v AND 128 \<noteq> 0 then ((v AND 127) + 12) mod 24 else v)"
  have "list_all (\<lambda>h. \<forall>b \<in> {False, True}. hour b True h = word_of_nat h \<and>
      hour b False h = word_of_nat (if h mod 12 = 0 then 12 - h else h)) [0..<24]"
    by (simp add: upt_rec hour_def rtc_hour_def rtc_status_def rtc_value_def bcd_def hour_from_bcd_def)
  then have "hour binary full h = word_of_nat (reported_hour full h)"
    using assms by (cases binary; cases full) (auto simp: list_all_iff reported_hour_def)
  then show ?thesis by (auto simp: cmos_convert_def hour_def Let_def)
qed

text \<open>The port accesses of the routines.\<close>

definition cmos_events :: "port_event set" where
  "cmos_events = range (In8 113) \<union> range (Out8 112)"

lemma cmos_poll_returns:
  assumes "rtc_chip env regs n"
  shows "\<exists>s'. cmos_poll env s = Some s' \<and> s'\<lparr>io := io s\<rparr> = s \<and> (\<exists>h. io s' = h @ io s \<and> set h \<subseteq> cmos_events)"
proof (induction "n - length (io s)" arbitrary: s rule: less_induct)
  case less
  obtain busy s1 where w: "cmos_wait env s = (busy, s1)" by fastforce
  have s1: "s1 = s\<lparr>io := In8 113 (ucast (env (Out8 112 10 # io s) 113)) # Out8 112 10 # io s\<rparr>"
    "busy \<longleftrightarrow> ucast (env (Out8 112 10 # io s) 113) AND (128 :: u8) \<noteq> 0"
    using w by (auto simp: cmos_wait_def inb_def outb_def Let_def)
  show ?case
  proof (cases busy)
    case True
    then have "length (io s) < n" using assms s1(2) by (metis not_le rtc_chip_def)
    then have "n - length (io s1) < n - length (io s)" by (simp add: s1(1))
    from less.hyps [OF this] obtain s' h where s': "cmos_poll env s1 = Some s'" "s'\<lparr>io := io s1\<rparr> = s1"
      "io s' = h @ io s1" "set h \<subseteq> cmos_events" by blast
    let ?e = "[In8 113 (ucast (env (Out8 112 10 # io s) 113)), Out8 112 10]"
    have hist: "io s' = (h @ ?e) @ io s" "set (h @ ?e) \<subseteq> cmos_events"
      using s'(3,4) s1(1) by (simp_all add: cmos_events_def)
    have "s'\<lparr>io := io s\<rparr> = s'\<lparr>io := io s1\<rparr>\<lparr>io := io s\<rparr>" by simp
    also have "\<dots> = s" unfolding s'(2) by (simp add: s1(1))
    finally have "s'\<lparr>io := io s\<rparr> = s" .
    moreover have "cmos_poll env s = Some s'" using s'(1) w True by (subst cmos_poll.simps) simp
    ultimately show ?thesis using hist by blast
  next
    case False
    then show ?thesis using w s1(1) by (subst cmos_poll.simps) (auto simp: cmos_events_def)
  qed
qed

lemma cmos_read_chip:
  assumes "rtc_chip env regs n" and "ucast offset \<noteq> (10 :: u8)"
  shows "cmos_read env offset s = (regs (ucast offset),
    s\<lparr>io := In8 113 (regs (ucast offset)) # Out8 112 (ucast offset) # io s\<rparr>)"
  using assms by (simp add: rtc_chip_def cmos_read_def inb_def outb_def Let_def)

lemma cmos_time_raw:
  assumes "rtc_chip env regs n"
  shows "\<exists>s'. cmos_time env s = Some (cmos_convert (regs 11) \<lparr>time_second = regs 0, time_minute = regs 2,
      time_hour = regs 4, time_day = regs 7, time_month = regs 8, time_year = regs 9\<rparr>, s') \<and>
    s'\<lparr>io := io s\<rparr> = s \<and> (\<exists>h. io s' = h @ io s \<and> set h \<subseteq> cmos_events)"
proof -
  obtain s1 h1 where s1: "cmos_poll env s = Some s1" "s1\<lparr>io := io s\<rparr> = s" "io s1 = h1 @ io s" "set h1 \<subseteq> cmos_events"
    using cmos_poll_returns [OF assms(1)] by blast
  let ?raw = "\<lparr>time_second = regs 0, time_minute = regs 2, time_hour = regs 4, time_day = regs 7,
      time_month = regs 8, time_year = regs 9\<rparr>"
  note rd = cmos_read_chip [OF assms(1)]
  have "\<exists>h. cmos_time env s = Some (cmos_convert (regs 11) ?raw, s1\<lparr>io := h @ io s1\<rparr>) \<and> set h \<subseteq> cmos_events"
    using s1(1) by (intro exI [of _ "concat (map (\<lambda>r. [In8 113 (regs r), Out8 112 r]) [11, 9, 8, 7, 4, 2, 0])"])
      (simp add: cmos_time_def rd cmos_events_def)
  then obtain h where h: "cmos_time env s = Some (cmos_convert (regs 11) ?raw, s1\<lparr>io := h @ io s1\<rparr>)"
    "set h \<subseteq> cmos_events" by blast
  have "s1\<lparr>io := h @ io s1\<rparr>\<lparr>io := io s\<rparr> = s" using s1(2) by simp
  moreover have "io (s1\<lparr>io := h @ io s1\<rparr>) = (h @ h1) @ io s" "set (h @ h1) \<subseteq> cmos_events"
    using s1(3,4) h(2) by simp_all
  ultimately show ?thesis using h(1) by metis
qed

lemma cmos_time_chip:
  assumes "rtc_chip env regs n" and "regs 11 = rtc_status binary full"
    and "regs 0 = rtc_value binary sec" "sec < 60" and "regs 2 = rtc_value binary mnt" "mnt < 60"
    and "regs 4 = rtc_hour binary full hr" "hr < 24"
    and "regs 7 = rtc_value binary day" "day < 32" and "regs 8 = rtc_value binary mon" "mon < 13"
    and "regs 9 = rtc_value binary year" "year < 100"
  shows "\<exists>s'. cmos_time env s = Some (\<lparr>time_second = word_of_nat sec, time_minute = word_of_nat mnt,
      time_hour = word_of_nat (reported_hour full hr), time_day = word_of_nat day, time_month = word_of_nat mon,
      time_year = word_of_nat year\<rparr>, s') \<and> s'\<lparr>io := io s\<rparr> = s"
proof -
  let ?raw = "\<lparr>time_second = regs 0, time_minute = regs 2, time_hour = regs 4, time_day = regs 7,
      time_month = regs 8, time_year = regs 9\<rparr>"
  have "cmos_convert (regs 11) ?raw = \<lparr>time_second = word_of_nat sec, time_minute = word_of_nat mnt,
      time_hour = word_of_nat (reported_hour full hr), time_day = word_of_nat day, time_month = word_of_nat mon,
      time_year = word_of_nat year\<rparr>"
  proof -
    have hour: "time_hour (cmos_convert (regs 11) ?raw) = word_of_nat (reported_hour full hr)"
      using hour_convert [OF assms(8), of binary full ?raw] assms(2,7) by simp
    have field: "(if binary then rtc_value binary k else from_bcd (rtc_value binary k)) = word_of_nat k"
      if "k < 100" for k using from_bcd_bcd [OF that] by (simp add: rtc_value_def)
    have st: "rtc_status b f AND 4 = 0 \<longleftrightarrow> \<not> b" for b f by (simp add: rtc_status_def)
    have "time_second (cmos_convert (regs 11) ?raw) = word_of_nat sec \<and>
        time_minute (cmos_convert (regs 11) ?raw) = word_of_nat mnt \<and>
        time_day (cmos_convert (regs 11) ?raw) = word_of_nat day \<and>
        time_month (cmos_convert (regs 11) ?raw) = word_of_nat mon \<and>
        time_year (cmos_convert (regs 11) ?raw) = word_of_nat year"
      using field [of sec] field [of mnt] field [of day] field [of mon] field [of year] assms
      by (cases binary) (simp_all add: cmos_convert_def Let_def st)
    with hour show ?thesis by (cases "cmos_convert (regs 11) ?raw") simp
  qed
  then show ?thesis using cmos_time_raw [OF assms(1), of s] by auto
qed

section \<open>Properties\<close>

text \<open>C26. \<open>cmos_time\<close> reads the clock. With a chip whose update flag eventually clears, the routine returns, changes nothing but
  the port history, and its result is the chip's time, whether the chip counts in binary or BCD and in 24-hour or 12-hour form,
  with one exception at exactly two hours of the 12-hour form: from noon to one it reports the hour 0, and from midnight to one
  the hour 12.\<close>

theorem cmos_time_reads:
  assumes "rtc_chip env regs n" and "regs 11 = rtc_status binary full"
    and "regs 0 = rtc_value binary sec" "sec < 60" and "regs 2 = rtc_value binary mnt" "mnt < 60"
    and "regs 4 = rtc_hour binary full hr" "hr < 24"
    and "regs 7 = rtc_value binary day" "day < 32" and "regs 8 = rtc_value binary mon" "mon < 13"
    and "regs 9 = rtc_value binary year" "year < 100"
  shows "\<exists>s'. cmos_time env s = Some (\<lparr>time_second = word_of_nat sec, time_minute = word_of_nat mnt,
      time_hour = word_of_nat (reported_hour full hr), time_day = word_of_nat day, time_month = word_of_nat mon,
      time_year = word_of_nat year\<rparr>, s') \<and> s'\<lparr>io := io s\<rparr> = s"
  using assms by (rule cmos_time_chip)

theorem cmos_time_reads_witness:
  "\<exists>env s'. cmos_time env (boot_state (\<lambda>_. 0)) = Some (\<lparr>time_second = 59, time_minute = 30, time_hour = 23,
     time_day = 31, time_month = 12, time_year = 21\<rparr>, s')"
proof -
  define regs :: "u8 \<Rightarrow> u8" where
    "regs = (\<lambda>_. 0)(0 := 89, 2 := 48, 4 := 145, 7 := 49, 8 := 18, 9 := 33)"
  define env :: environment where
    "env = (\<lambda>h port. case h of Out8 p r # _ \<Rightarrow> ucast (regs r) | _ \<Rightarrow> 0)"
  have chip: "rtc_chip env regs 0"
    by (simp add: rtc_chip_def env_def) (simp add: regs_def)
  have "regs 11 = rtc_status False False" "regs 0 = rtc_value False 59" "regs 2 = rtc_value False 30"
    "regs 4 = rtc_hour False False 23" "regs 7 = rtc_value False 31" "regs 8 = rtc_value False 12"
    "regs 9 = rtc_value False 21"
    by (simp_all add: regs_def rtc_status_def rtc_value_def rtc_hour_def bcd_def)
  then have "\<exists>s'. cmos_time env (boot_state (\<lambda>_. 0)) = Some (\<lparr>time_second = word_of_nat 59, time_minute = word_of_nat 30,
      time_hour = word_of_nat 23, time_day = word_of_nat 31, time_month = word_of_nat 12, time_year = word_of_nat 21\<rparr>, s') \<and>
      s'\<lparr>io := io (boot_state (\<lambda>_. 0))\<rparr> = boot_state (\<lambda>_. 0)"
    using cmos_time_reads [OF chip, of False False 59 30 23 31 12 21 "boot_state (\<lambda>_. 0)"] by (simp add: reported_hour_def)
  then show ?thesis by auto
qed

text \<open>The conversion from the 12-hour form is wrong at noon and at midnight: between 12 and 1 in the
  afternoon the hour is reported as 0, and in the first hour of the day as 12.\<close>

theorem cmos_noon_and_midnight:
  "time_hour (cmos_convert (rtc_status binary False) (t\<lparr>time_hour := rtc_hour binary False 12\<rparr>)) = 0 \<and>
   time_hour (cmos_convert (rtc_status binary False) (t\<lparr>time_hour := rtc_hour binary False 0\<rparr>)) = 12"
  by (cases binary)
    (simp_all add: cmos_convert_def rtc_status_def rtc_hour_def rtc_value_def bcd_def hour_from_bcd_def)

end
