(* ===== verification/Debug.thy ===== *)
theory Debug
  imports Format Serial Cmos
begin

text \<open>
  The log, \<open>debug.c\<close>, in the configuration of \<open>debug.h\<close>: lines go to the first serial port with
  terminal escapes. Every line has the time, the type, the place and the formatted message. The
  address at which the compiler put a string literal is a parameter \<open>lit\<close>; \<open>buffer\<close> is the
  address of the routine's buffer of 1024 bytes and \<open>conv\<close> that of the conversions' buffers.
\<close>

section \<open>The operation\<close>

abbreviation (input) SERIAL_COM1 :: u32 where
  "SERIAL_COM1 \<equiv> 1016"

definition esc :: "string \<Rightarrow> string" where
  "esc cs = CHR 0x1B # cs"

definition type_name :: "u32 \<Rightarrow> string" where
  "type_name type =
    (if type = 1 then esc ''[1;34mTRACE'' @ esc ''[0m''
     else if type = 2 then esc ''[1;33mDEBUG'' @ esc ''[0m''
     else if type = 3 then esc ''[1;34mINFO'' @ esc ''[0m''
     else if type = 4 then esc ''[1;33mWARN'' @ esc ''[0m''
     else if type = 5 then esc ''[1;31mERROR'' @ esc ''[0m''
     else '''')"

text \<open>Formatting to the buffer and sending it.\<close>

definition log_part :: "environment \<Rightarrow> u32 \<Rightarrow> u32 \<Rightarrow> u32 \<Rightarrow> u32 list \<Rightarrow> kernel \<Rightarrow> unit krun" where
  "log_part env conv buffer format ap s =
    andthen (on_memory (sprintf conv buffer format ap) s) (\<lambda>_. serial_puts env SERIAL_COM1 buffer)"

definition dprintf ::
  "environment \<Rightarrow> (string \<Rightarrow> u32) \<Rightarrow> u32 \<Rightarrow> u32 \<Rightarrow> u32 \<Rightarrow> u32 \<Rightarrow> u32 \<Rightarrow> u32 \<Rightarrow> u32 list \<Rightarrow> kernel \<Rightarrow> unit krun" where
  "dprintf env lit conv buffer type file line format ap s =
    (let s = s\<lparr>mem := strset buffer 0 1024 (mem s)\<rparr>;
         type_str = lit (type_name type)
     in case cmos_time env s of
          None \<Rightarrow> None
        | Some (time, s) \<Rightarrow>
            andthen (log_part env conv buffer (lit (if time_hour time < 10 then ''0%d:'' else ''%d:''))
                       [ucast (time_hour time)] s) (\<lambda>_ s.
            andthen (log_part env conv buffer (lit (if time_minute time < 10 then ''0%d:'' else ''%d:''))
                       [ucast (time_minute time)] s) (\<lambda>_ s.
            andthen (log_part env conv buffer (lit (if time_second time < 10 then ''0%d '' else ''%d ''))
                       [ucast (time_second time)] s) (\<lambda>_ s.
            andthen (log_part env conv buffer (lit ''%s %s:%d: '') [type_str, file + 4, line] s) (\<lambda>_ s.
            andthen (on_memory (sprintf_va conv buffer format ap) s) (\<lambda>_ s.
            andthen (serial_puts env SERIAL_COM1 (lit (esc ''[1m'')) s) (\<lambda>_ s.
            andthen (serial_puts env SERIAL_COM1 buffer s) (\<lambda>_ s.
              serial_puts env SERIAL_COM1 (lit (esc ''[0m\<newline>'')) s))))))))"

section \<open>A line of the log\<close>

definition clock_text :: "u8 \<Rightarrow> u8 \<Rightarrow> u8 list" where
  "clock_text n separator = (if n < 10 then [48] else []) @ itoa_string (ucast n) 10 @ [separator]"

definition log_line :: "u32 \<Rightarrow> u8 list \<Rightarrow> u32 \<Rightarrow> u8 list \<Rightarrow> time \<Rightarrow> u8 list" where
  "log_line type place line message time =
    clock_text (time_hour time) 58 @ clock_text (time_minute time) 58 @ clock_text (time_second time) 32 @
    char_codes (type_name type) @ [32] @ place @ [58] @ itoa_string line 10 @ [58, 32] @
    char_codes (esc ''[1m'') @ message @ char_codes (esc ''[0m\<newline>'')"

text \<open>The strings lie apart from the buffers.\<close>

definition log_ready :: "u32 \<Rightarrow> u32 \<Rightarrow> strings \<Rightarrow> memory \<Rightarrow> bool" where
  "log_ready conv buffer strings m \<longleftrightarrow> region buffer 1024 \<inter> region conv 32 = {} \<and>
     (\<forall>a t. strings a = Some t \<longrightarrow> cstr m a t \<and> length t < 2 ^ 32 - 2 \<and>
        region a (Suc (length t)) \<inter> output_area conv buffer 1023 = {})"

text \<open>The literals of the routine are among the strings.\<close>

definition log_literals :: "(string \<Rightarrow> u32) \<Rightarrow> strings \<Rightarrow> bool" where
  "log_literals lit strings \<longleftrightarrow>
    (\<forall>x \<in> {''0%d:'', ''%d:'', ''0%d '', ''%d '', ''%s %s:%d: '', esc ''[1m'', esc ''[0m\<newline>''} \<union> range type_name.
       strings (lit x) = Some (char_codes x))"

lemma log_ready_sprintf:
  assumes "log_ready conv buffer strings m" and "strings f = Some fmt"
  shows "sprintf_ready conv buffer 1023 f fmt strings m"
proof -
  have f: "cstr m f fmt \<and> length fmt < 2 ^ 32 - 2 \<and> region f (Suc (length fmt)) \<inter> output_area conv buffer 1023 = {}"
    using assms unfolding log_ready_def by blast
  have "\<forall>a t. strings a = Some t \<longrightarrow> cstr m a t \<and> region a (Suc (length t)) \<inter> output_area conv buffer 1023 = {}"
    using assms(1) unfolding log_ready_def by blast
  moreover have "region buffer (Suc 1023) \<inter> region conv 32 = {}"
    using assms(1) by (simp add: log_ready_def)
  ultimately show ?thesis using f unfolding sprintf_ready_def by simp
qed

lemma log_ready_same:
  assumes "log_ready conv buffer strings m" and "same_on (- output_area conv buffer 1023) m m'"
  shows "log_ready conv buffer strings m'"
proof -
  have "cstr m' a t" if "strings a = Some t" for a t
  proof -
    have a: "cstr m a t" "region a (Suc (length t)) \<inter> output_area conv buffer 1023 = {}"
      using assms(1) that unfolding log_ready_def by blast+
    have "same_on (region a (Suc (length t))) m m'"
      using assms(2) by (rule same_on_mono) (use a(2) in blast)
    then show ?thesis using a(1) by (rule cstr_cong)
  qed
  with assms(1) show ?thesis unfolding log_ready_def by blast
qed

text \<open>\<open>logs conv buffer t s s'\<close>: the text \<open>t\<close> went out on the line and only the buffers were written.\<close>

definition logs :: "u32 \<Rightarrow> u32 \<Rightarrow> u8 list \<Rightarrow> kernel \<Rightarrow> kernel \<Rightarrow> bool" where
  "logs conv buffer t s s' \<longleftrightarrow> sent_on 1016 (io s') = sent_on 1016 (io s) @ t \<and>
     same_on (- output_area conv buffer 1023) (mem s) (mem s') \<and> s'\<lparr>io := io s, mem := mem s\<rparr> = s"

lemma logs_append:
  assumes "logs conv buffer t s s'" and "logs conv buffer u s' s''"
  shows "logs conv buffer (t @ u) s s''"
proof -
  have "s''\<lparr>io := io s, mem := mem s\<rparr> = (s''\<lparr>io := io s', mem := mem s'\<rparr>)\<lparr>io := io s, mem := mem s\<rparr>" by simp
  also have "s''\<lparr>io := io s', mem := mem s'\<rparr> = s'" using assms(2) by (simp add: logs_def)
  also have "s'\<lparr>io := io s, mem := mem s\<rparr> = s" using assms(1) by (simp add: logs_def)
  finally have "s''\<lparr>io := io s, mem := mem s\<rparr> = s" .
  moreover have "same_on (- output_area conv buffer 1023) (mem s) (mem s'')"
    using assms same_on_trans unfolding logs_def by blast
  ultimately show ?thesis using assms by (simp add: logs_def)
qed

lemma logs_memory:
  "same_on (- output_area conv buffer 1023) (mem s) m \<Longrightarrow> logs conv buffer [] s (s\<lparr>mem := m\<rparr>)"
  by (simp add: logs_def)

lemma logs_ready:
  "log_ready conv buffer strings (mem s) \<Longrightarrow> logs conv buffer t s s' \<Longrightarrow> log_ready conv buffer strings (mem s')"
  using log_ready_same unfolding logs_def by blast

lemma logs_sends:
  assumes "sends 1016 t s s'"
  shows "logs conv buffer t s s'"
proof -
  have "mem s' = mem s" using assms by (rule sends_mem)
  then have "s'\<lparr>io := io s, mem := mem s\<rparr> = s'\<lparr>io := io s\<rparr>" by (metis kernel.surjective kernel.update_convs(1,2))
  then show ?thesis using assms \<open>mem s' = mem s\<close> by (simp add: logs_def sends_def)
qed

lemma log_literal:
  assumes "serial_line env 1016 n" and "log_ready conv buffer strings (mem s)" and "strings a = Some t"
  shows "\<exists>s'. serial_puts env 1016 a s = ret () s' \<and> logs conv buffer t s s'"
proof -
  have "cstr (mem s) a t" using assms(2,3) unfolding log_ready_def by blast
  from serial_puts_sends [OF assms(1) this] show ?thesis using logs_sends by blast
qed

lemma log_format:
  assumes "log_ready conv buffer strings (mem s)" and "strings f = Some fmt"
    and "sprintf_out strings fmt ap = Some t" and "length t \<le> 1023" and "0 \<notin> set t"
  shows "\<exists>s'. on_memory (sprintf conv buffer f ap) s = ret () s' \<and> logs conv buffer [] s s' \<and> cstr (mem s') buffer t"
proof -
  obtain m where m: "sprintf conv buffer f ap (mem s) = ret () m" "bytes_at m buffer (length t) = t"
    "m (buffer + word_of_nat (length t)) = 0" "same_on (- output_area conv buffer 1023) (mem s) m"
    using sprintf_stores [OF log_ready_sprintf [OF assms(1,2)] assms(3,4)] by (auto simp: output_area_def)
  then have "on_memory (sprintf conv buffer f ap) s = ret () (s\<lparr>mem := m\<rparr>)"
    by (simp add: on_memory_def ret_def)
  moreover have "cstr m buffer t" using m(2,3) assms(4,5) by (simp add: cstr_def)
  ultimately show ?thesis using logs_memory [OF m(4)] by auto
qed

lemma log_part_sends:
  assumes "serial_line env 1016 n" and "log_ready conv buffer strings (mem s)" and "strings f = Some fmt"
    and "sprintf_out strings fmt ap = Some t" and "length t \<le> 1023" and "0 \<notin> set t"
  shows "\<exists>s'. log_part env conv buffer f ap s = ret () s' \<and> logs conv buffer t s s'"
proof -
  obtain s1 where s1: "on_memory (sprintf conv buffer f ap) s = ret () s1" "logs conv buffer [] s s1"
    "cstr (mem s1) buffer t" using log_format [OF assms(2-6)] by blast
  obtain s' where "serial_puts env 1016 buffer s1 = ret () s'" "sends 1016 t s1 s'"
    using serial_puts_sends [OF assms(1) s1(3)] by blast
  then show ?thesis using s1(1) logs_append [OF s1(2) logs_sends] by (auto simp: log_part_def)
qed

lemma sent_on_cmos:
  "set h \<subseteq> cmos_events \<Longrightarrow> sent_on 1016 (h @ h') = sent_on 1016 h'"
  by (induction h) (auto simp: cmos_events_def)

lemma logs_cmos:
  assumes "s'\<lparr>io := io s\<rparr> = s" and "io s' = h @ io s" and "set h \<subseteq> cmos_events"
  shows "logs conv buffer [] s s'"
proof -
  have "mem s' = mem (s'\<lparr>io := io s\<rparr>)" by simp
  then have m: "mem s' = mem s" by (simp only: assms(1))
  then have "s'\<lparr>io := io s, mem := mem s\<rparr> = s'\<lparr>io := io s\<rparr>" by (metis kernel.surjective kernel.update_convs(1,2))
  then show ?thesis using assms m by (simp add: logs_def sent_on_cmos)
qed

lemma clock_part_sends:
  assumes "serial_line env 1016 n" and "log_ready conv buffer strings (mem s)"
    and "strings f = Some ((if k < 10 then [48] else []) @ [37, 100, sep])" and "sep \<noteq> 37" "sep \<noteq> 0"
  shows "\<exists>s'. log_part env conv buffer f [ucast k] s = ret () s' \<and> logs conv buffer (clock_text k sep) s s'"
proof (rule log_part_sends [OF assms(1-3)])
  show "sprintf_out strings ((if k < 10 then [48] else []) @ [37, 100, sep]) [ucast k] = Some (clock_text k sep)"
    using assms(4) by (simp add: directive_out_def clock_text_def)
  show "length (clock_text k sep) \<le> 1023" "0 \<notin> set (clock_text k sep)"
    using itoa_string_short [of 10 "ucast k"] assms(5) by (simp_all add: clock_text_def)
qed

section \<open>One line\<close>

definition clock_now :: "(u8 \<Rightarrow> u8) \<Rightarrow> time" where
  "clock_now regs = cmos_convert (regs 11) \<lparr>time_second = regs 0, time_minute = regs 2, time_hour = regs 4,
     time_day = regs 7, time_month = regs 8, time_year = regs 9\<rparr>"

lemma dprintf_line:
  assumes line: "serial_line env 1016 n" and clock: "rtc_chip env regs k"
    and ready: "log_ready conv buffer strings (mem s)" and lits: "log_literals lit strings"
    and place: "strings (file + 4) = Some place" "length place \<le> 900"
    and fmt: "strings format = Some fmt" "sprintf_out strings fmt ap = Some t" "length t \<le> 1023" "0 \<notin> set t"
  shows "\<exists>s'. dprintf env lit conv buffer type file lno format ap s = ret () s' \<and>
    logs conv buffer (log_line type place lno t (clock_now regs)) s s'"
proof -
  define now where "now = clock_now regs"
  let ?hh = "time_hour now" and ?mm = "time_minute now" and ?ss = "time_second now"
  let ?L = "logs conv buffer"
  have strings: "strings (lit x) = Some (char_codes x)"
    if "x \<in> {''0%d:'', ''%d:'', ''0%d '', ''%d '', ''%s %s:%d: '', esc ''[1m'', esc ''[0m\<newline>'', type_name type}" for x
    using lits that unfolding log_literals_def by blast
  have c58: "strings (lit (if k < 10 then ''0%d:'' else ''%d:'')) = Some ((if k < 10 then [48] else []) @ [37, 100, 58])"
    and c32: "strings (lit (if k < 10 then ''0%d '' else ''%d '')) = Some ((if k < 10 then [48] else []) @ [37, 100, 32])"
    for k :: u8
    using strings by (cases "k < 10"; simp add: char_codes_def)+
  define s0 where "s0 = s\<lparr>mem := strset buffer 0 1024 (mem s)\<rparr>"
  have l0: "?L [] s s0" unfolding s0_def
  proof (rule logs_memory)
    show "same_on (- output_area conv buffer 1023) (mem s) (strset buffer 0 1024 (mem s))"
      unfolding strset_bytes by (rule same_on_store_bytes) (auto simp: output_area_def)
  qed
  obtain s1 h where s1: "cmos_time env s0 = Some (now, s1)" "s1\<lparr>io := io s0\<rparr> = s0" "io s1 = h @ io s0"
    "set h \<subseteq> cmos_events" using cmos_time_raw [OF clock, of s0] unfolding now_def clock_now_def by blast
  have l1: "?L [] s s1" using logs_append [OF l0 logs_cmos [OF s1(2-4)]] by simp
  note r1 = logs_ready [OF ready l1]
  obtain s2 where s2: "log_part env conv buffer (lit (if ?hh < 10 then ''0%d:'' else ''%d:'')) [ucast ?hh] s1 = ret () s2"
    "?L (clock_text ?hh 58) s1 s2"
    using clock_part_sends [OF line r1 c58] by auto
  note r2 = logs_ready [OF r1 s2(2)]
  obtain s3 where s3: "log_part env conv buffer (lit (if ?mm < 10 then ''0%d:'' else ''%d:'')) [ucast ?mm] s2 = ret () s3"
    "?L (clock_text ?mm 58) s2 s3"
    using clock_part_sends [OF line r2 c58] by auto
  note r3 = logs_ready [OF r2 s3(2)]
  obtain s4 where s4: "log_part env conv buffer (lit (if ?ss < 10 then ''0%d '' else ''%d '')) [ucast ?ss] s3 = ret () s4"
    "?L (clock_text ?ss 32) s3 s4"
    using clock_part_sends [OF line r3 c32] by auto
  note r4 = logs_ready [OF r3 s4(2)]
  let ?tn = "char_codes (type_name type)"
  let ?p = "?tn @ [32] @ place @ [58] @ itoa_string lno 10 @ [58, 32]"
  have tn: "length ?tn \<le> 16" "0 \<notin> set ?tn" by (auto simp: type_name_def esc_def char_codes_def)
  have "0 \<notin> set place" using ready place(1) unfolding log_ready_def by (auto simp: cstr_def)
  then have p0: "0 \<notin> set ?p" using tn(2) itoa_string_short(2) [of 10 lno] by simp
  have plen: "length ?p \<le> 1023" using tn(1) place(2) itoa_string_short(1) [of 10 lno] by simp
  have "sprintf_out strings (char_codes ''%s %s:%d: '') [lit (type_name type), file + 4, lno] = Some ?p"
    using place(1) strings [of "type_name type"] by (simp add: char_codes_def directive_out_def)
  from log_part_sends [OF line r4 strings this plen p0]
  obtain s5 where s5: "log_part env conv buffer (lit ''%s %s:%d: '') [lit (type_name type), file + 4, lno] s4 = ret () s5"
    "?L ?p s4 s5" by auto
  note r5 = logs_ready [OF r4 s5(2)]
  obtain s6 where s6: "on_memory (sprintf conv buffer format ap) s5 = ret () s6" "?L [] s5 s6" "cstr (mem s6) buffer t"
    using log_format [OF r5 fmt] by blast
  note r6 = logs_ready [OF r5 s6(2)]
  obtain s7 where s7: "serial_puts env 1016 (lit (esc ''[1m'')) s6 = ret () s7" "?L (char_codes (esc ''[1m'')) s6 s7"
    "mem s7 = mem s6"
  proof -
    have "cstr (mem s6) (lit (esc ''[1m'')) (char_codes (esc ''[1m''))"
      using r6 strings [of "esc ''[1m''"] unfolding log_ready_def by simp
    from serial_puts_sends [OF line this] show ?thesis using that logs_sends sends_mem by blast
  qed
  note r7 = logs_ready [OF r6 s7(2)]
  obtain s8 where s8: "serial_puts env 1016 buffer s7 = ret () s8" "?L t s7 s8"
    using serial_puts_sends [OF line, of s7 buffer t] s6(3) s7(3) logs_sends by auto
  note r8 = logs_ready [OF r7 s8(2)]
  obtain s9 where s9: "serial_puts env 1016 (lit (esc ''[0m\<newline>'')) s8 = ret () s9"
    "?L (char_codes (esc ''[0m\<newline>'')) s8 s9"
    using log_literal [OF line r8 strings, of "esc ''[0m\<newline>''"] by auto
  have "dprintf env lit conv buffer type file lno format ap s = ret () s9"
    using s1(1) s2(1) s3(1) s4(1) s5(1) s6(1) s7(1) s8(1) s9(1)
    by (simp add: dprintf_def s0_def [symmetric] sprintf_def [abs_def])
  moreover have "?L (log_line type place lno t now) s s9"
    using logs_append [OF l1 logs_append [OF s2(2) logs_append [OF s3(2) logs_append [OF s4(2)
      logs_append [OF s5(2) logs_append [OF s6(2) logs_append [OF s7(2) logs_append [OF s8(2) s9(2)]]]]]]]]
    by (simp add: log_line_def)
  ultimately show ?thesis unfolding now_def [symmetric] by blast
qed

section \<open>Properties\<close>

text \<open>C27. A log call sends one line. With a clock chip and a serial line that becomes ready, with the format and
  the strings apart from the two buffers, and with a message of at most 1023 characters, \<open>dprintf\<close>
  returns; the line has received the time of the clock with two digits each, the type, the place and the
  message between the terminal escapes, and only the two buffers were written.\<close>

theorem dprintf_logs:
  assumes line: "serial_line env 1016 n" and clock: "rtc_chip env regs k"
    and ready: "log_ready conv buffer strings (mem s)" and lits: "log_literals lit strings"
    and place: "strings (file + 4) = Some place" "length place \<le> 900"
    and fmt: "strings format = Some fmt" "sprintf_out strings fmt ap = Some t" "length t \<le> 1023" "0 \<notin> set t"
  shows "\<exists>s'. dprintf env lit conv buffer type file lno format ap s = ret () s' \<and>
    sent_on 1016 (io s') = sent_on 1016 (io s) @ log_line type place lno t
      (cmos_convert (regs 11) \<lparr>time_second = regs 0, time_minute = regs 2, time_hour = regs 4,
         time_day = regs 7, time_month = regs 8, time_year = regs 9\<rparr>) \<and>
    same_on (- (region buffer 1024 \<union> region conv 32)) (mem s) (mem s')"
  using dprintf_line [OF assms, of type lno] by (auto simp: logs_def output_area_def clock_now_def)

text \<open>Read-only data with a table of literals, one every 32 bytes from 4096 on.\<close>

definition literal_at :: "string list \<Rightarrow> string \<Rightarrow> u32" where
  "literal_at xs x = 4096 + 32 * word_of_nat (length (takeWhile (\<lambda>y. y \<noteq> x) xs))"

definition literal_memory :: "string list \<Rightarrow> memory" where
  "literal_memory xs a =
    (let i = unat (a - 4096) in
     if i div 32 < length xs then (char_codes (xs ! (i div 32)) @ replicate 32 0) ! (i mod 32) else 0)"

definition literal_strings :: "string list \<Rightarrow> strings" where
  "literal_strings xs a =
    (let i = unat (a - 4096) in
     if i mod 32 = 0 \<and> i div 32 < length xs then Some (char_codes (xs ! (i div 32))) else None)"

definition literal_table :: "string list \<Rightarrow> bool" where
  "literal_table xs \<longleftrightarrow> length xs \<le> 64 \<and> list_all (\<lambda>x. length x \<le> 31 \<and> 0 \<notin> set (char_codes x)) xs"

lemma literal_cstr:
  assumes table: "literal_table xs" and s: "literal_strings xs a = Some t"
    and same: "same_on {x. 4096 \<le> unat x \<and> unat x < 6144} (literal_memory xs) m"
  shows "cstr m a t" and "length t \<le> 31" and "region a (Suc (length t)) \<subseteq> {x. 4096 \<le> unat x \<and> unat x < 6144}"
proof -
  define i where "i = unat (a - 4096)"
  have i: "i mod 32 = 0" "i div 32 < length xs" "t = char_codes (xs ! (i div 32))"
    using s by (auto simp: literal_strings_def i_def Let_def split: if_splits)
  then have "xs ! (i div 32) \<in> set xs" by simp
  then have e: "length (xs ! (i div 32)) \<le> 31" "0 \<notin> set t" and n: "length xs \<le> 64"
    using table i(3) by (auto simp: literal_table_def list_all_iff)
  show len: "length t \<le> 31" using e(1) i(3) by (simp add: char_codes_def)
  have small: "i + 32 \<le> 2048" using i(1,2) n by presburger
  have ua: "unat (a + word_of_nat j) = 4096 + i + j" if "j < 32" for j
  proof -
    have "unat (4096 + word_of_nat j :: u32) = 4096 + j" using that by (simp add: unat_add_exact unat_of_nat_eq)
    then have "unat ((a - 4096) + (4096 + word_of_nat j)) = 4096 + i + j"
      using small that by (subst unat_add_exact) (simp_all add: i_def)
    moreover have "(a - 4096) + (4096 + word_of_nat j) = a + word_of_nat j" by simp
    ultimately show ?thesis by (simp only:)
  qed
  have at: "m (a + word_of_nat j) = (t @ replicate 32 0) ! j" if "j < 32" for j
  proof -
    have "unat (a + word_of_nat j - 4096) = i + j" using ua [OF that] by (simp add: unat_sub word_le_nat_alt)
    moreover obtain k where "i = 32 * k" using i(1) by (auto simp: mod_eq_0_iff_dvd)
    then have "(i + j) div 32 = i div 32" "(i + j) mod 32 = j" using that by simp_all
    ultimately have "literal_memory xs (a + word_of_nat j) = (t @ replicate 32 0) ! j"
      using i by (simp add: literal_memory_def)
    moreover have "m (a + word_of_nat j) = literal_memory xs (a + word_of_nat j)"
      using ua [OF that] that small by (intro same_onD [OF same]) simp
    ultimately show ?thesis by simp
  qed
  have "bytes_at m a (length t) = t"
    using len by (intro nth_equalityI) (simp_all add: at nth_append)
  then show "cstr m a t" using e(2) len at [of "length t"] by (simp add: cstr_def nth_append)
  have "4096 \<le> unat x \<and> unat x < 6144" if x: "x \<in> region a (Suc (length t))" for x
  proof -
    have "unat (x - a) < 32" using x len by (simp add: in_region_iff)
    moreover have "x = a + word_of_nat (unat (x - a))" by simp
    ultimately have "unat x = 4096 + i + unat (x - a)" using ua [of "unat (x - a)"] by simp
    then show ?thesis using \<open>unat (x - a) < 32\<close> small by simp
  qed
  then show "region a (Suc (length t)) \<subseteq> {x. 4096 \<le> unat x \<and> unat x < 6144}" by blast
qed

lemma literal_ready:
  assumes "literal_table xs" and "same_on {x. 4096 \<le> unat x \<and> unat x < 6144} (literal_memory xs) m"
  shows "log_ready 1000 2000 (literal_strings xs) m"
  unfolding log_ready_def
proof (intro conjI allI impI)
  show "region (2000 :: u32) 1024 \<inter> region 1000 32 = {}" by (rule region_disjoint') simp_all
  fix a t assume a: "literal_strings xs a = Some t"
  note c = literal_cstr [OF assms(1) a assms(2)]
  show "cstr m a t" by (rule c(1))
  show "length t < 2 ^ 32 - 2" using c(2) by simp
  have "x \<notin> output_area 1000 2000 1023" if "4096 \<le> unat x \<and> unat x < 6144" for x
    using that by (auto simp: output_area_def in_region_nat)
  with c(3) show "region a (Suc (length t)) \<inter> output_area 1000 2000 1023 = {}" by blast
qed

lemma takeWhile_before: "x \<in> set xs \<Longrightarrow> length (takeWhile (\<lambda>y. y \<noteq> x) xs) < length xs"
  by (induction xs) auto

lemma literal_found:
  assumes "literal_table xs" and "x \<in> set xs"
  shows "literal_strings xs (literal_at xs x) = Some (char_codes x)"
proof -
  let ?n = "length (takeWhile (\<lambda>y. y \<noteq> x) xs)"
  have n: "?n < length xs" using assms(2) by (rule takeWhile_before)
  have "length xs \<le> 64" using assms(1) by (simp add: literal_table_def)
  then have "unat (literal_at xs x - 4096) = 32 * ?n"
    using n by (simp add: literal_at_def unat_word_ariths unat_of_nat)
  moreover have "xs ! ?n = x" using nth_length_takeWhile [of "\<lambda>y. y \<noteq> x" xs] n by simp
  ultimately show ?thesis using n by (simp add: literal_strings_def)
qed

text \<open>The literals of the log.\<close>

definition log_table :: "string list" where
  "log_table = [''0%d:'', ''%d:'', ''0%d '', ''%d '', ''%s %s:%d: '', esc ''[1m'', esc ''[0m\<newline>''] @ map type_name [0, 1, 2, 3, 4, 5]"

lemma log_table_literals:
  assumes "literal_table xs" and "set log_table \<subseteq> set xs"
  shows "log_literals (literal_at xs) (literal_strings xs)"
  unfolding log_literals_def
proof
  fix x assume x: "x \<in> {''0%d:'', ''%d:'', ''0%d '', ''%d '', ''%s %s:%d: '', esc ''[1m'', esc ''[0m\<newline>''} \<union> range type_name"
  have "type_name n \<in> set log_table" for n
    by (cases "n \<in> {1, 2, 3, 4, 5}") (auto simp: log_table_def type_name_def)
  with x have "x \<in> set log_table" by (auto simp: log_table_def)
  then show "literal_strings xs (literal_at xs x) = Some (char_codes x)" using assms by (intro literal_found) auto
qed

text \<open>With a file name and a message.\<close>

definition dprintf_table :: "string list" where
  "dprintf_table = log_table @ [''main.c'', ''ok'']"

lemma dprintf_table_ok: "literal_table dprintf_table"
  by (simp add: literal_table_def dprintf_table_def log_table_def type_name_def esc_def char_codes_def)

theorem dprintf_logs_witness:
  "\<exists>s' time. dprintf (\<lambda>_ port. if port = 113 then 0 else 32) (literal_at dprintf_table) 1000 2000 3 (literal_at dprintf_table ''main.c'' - 4) 7 (literal_at dprintf_table ''ok'') []
       (boot_state (literal_memory dprintf_table)) = ret () s' \<and>
     sent_on 1016 (io s') = log_line 3 (char_codes ''main.c'') 7 [111, 107] time"
proof -
  let ?env = "\<lambda>_ port. if port = 113 then 0 else 32 :: u32"
  have line: "serial_line ?env 1016 0" and clock: "rtc_chip ?env (\<lambda>_. 0) 0"
    by (simp_all add: serial_line_def rtc_chip_def)
  have ready: "log_ready 1000 2000 (literal_strings dprintf_table) (mem (boot_state (literal_memory dprintf_table)))"
    using literal_ready [OF dprintf_table_ok same_on_refl] by (simp add: boot_state_def)
  have place: "literal_strings dprintf_table (literal_at dprintf_table ''main.c'' - 4 + 4) = Some (char_codes ''main.c'')"
    and fmt: "literal_strings dprintf_table (literal_at dprintf_table ''ok'') = Some (char_codes ''ok'')"
    using literal_found [OF dprintf_table_ok] by (simp_all add: dprintf_table_def)
  have out: "sprintf_out (literal_strings dprintf_table) (char_codes ''ok'') [] = Some [111, 107]"
    by (simp add: char_codes_def)
  have small: "length (char_codes ''main.c'') \<le> 900" "length [111, 107 :: u8] \<le> 1023" "0 \<notin> set [111, 107 :: u8]"
    by (simp_all add: char_codes_def)
  have lits: "log_literals (literal_at dprintf_table) (literal_strings dprintf_table)"
    by (rule log_table_literals [OF dprintf_table_ok]) (auto simp: dprintf_table_def)
  show ?thesis
    using dprintf_logs [OF line clock ready lits place small(1) fmt out small(2,3), of 3 7]
    by (auto simp: boot_state_def)
qed

end
