(* ===== verification/Pci.thy ===== *)
theory Pci
  imports Heap_Safety Ports
begin

text \<open>
  The enumeration of the PCI bus, \<open>drivers/pci.c\<close>: the kernel reads the configuration space of every
  bus, device and function through two ports and keeps a description of each function it finds in
  a block of its own. The specification is the configuration space as a function of the address.
\<close>

section \<open>Configuration space\<close>

definition get_config_address :: "u8 \<Rightarrow> u8 \<Rightarrow> u8 \<Rightarrow> u8 \<Rightarrow> u32" where
  "get_config_address bus device function offset =
    (let config_address = push_bit 16 (ucast bus);
         config_address = config_address OR push_bit 11 (ucast device);
         config_address = config_address OR push_bit 8 (ucast function);
         config_address = config_address OR ucast (offset AND 252)
     in config_address OR 2147483648)"

definition pci_read :: "environment \<Rightarrow> u8 \<Rightarrow> u8 \<Rightarrow> u8 \<Rightarrow> u8 \<Rightarrow> kernel \<Rightarrow> u32 \<times> kernel" where
  "pci_read env bus device function offset s =
    inl env 3324 (outl 3320 (get_config_address bus device function offset) s)"

definition pci_device_id :: "environment \<Rightarrow> u8 \<Rightarrow> u8 \<Rightarrow> u8 \<Rightarrow> kernel \<Rightarrow> u16 \<times> kernel" where
  "pci_device_id env b d f s = (case pci_read env b d f 0 s of (data, s) \<Rightarrow> (ucast (drop_bit 16 data), s))"

definition pci_vendor_id :: "environment \<Rightarrow> u8 \<Rightarrow> u8 \<Rightarrow> u8 \<Rightarrow> kernel \<Rightarrow> u16 \<times> kernel" where
  "pci_vendor_id env b d f s = (case pci_read env b d f 0 s of (data, s) \<Rightarrow> (ucast (data AND 65535), s))"

definition pci_status :: "environment \<Rightarrow> u8 \<Rightarrow> u8 \<Rightarrow> u8 \<Rightarrow> kernel \<Rightarrow> u16 \<times> kernel" where
  "pci_status env b d f s = (case pci_read env b d f 4 s of (data, s) \<Rightarrow> (ucast (drop_bit 16 data), s))"

definition pci_command :: "environment \<Rightarrow> u8 \<Rightarrow> u8 \<Rightarrow> u8 \<Rightarrow> kernel \<Rightarrow> u16 \<times> kernel" where
  "pci_command env b d f s = (case pci_read env b d f 4 s of (data, s) \<Rightarrow> (ucast (data AND 65535), s))"

definition pci_class_code :: "environment \<Rightarrow> u8 \<Rightarrow> u8 \<Rightarrow> u8 \<Rightarrow> kernel \<Rightarrow> u8 \<times> kernel" where
  "pci_class_code env b d f s = (case pci_read env b d f 8 s of (data, s) \<Rightarrow> (ucast (drop_bit 24 data AND 255), s))"

definition pci_subclass :: "environment \<Rightarrow> u8 \<Rightarrow> u8 \<Rightarrow> u8 \<Rightarrow> kernel \<Rightarrow> u8 \<times> kernel" where
  "pci_subclass env b d f s = (case pci_read env b d f 8 s of (data, s) \<Rightarrow> (ucast (drop_bit 16 data AND 255), s))"

definition pci_prog_if :: "environment \<Rightarrow> u8 \<Rightarrow> u8 \<Rightarrow> u8 \<Rightarrow> kernel \<Rightarrow> u8 \<times> kernel" where
  "pci_prog_if env b d f s = (case pci_read env b d f 8 s of (data, s) \<Rightarrow> (ucast (drop_bit 8 data AND 255), s))"

definition pci_revision_id :: "environment \<Rightarrow> u8 \<Rightarrow> u8 \<Rightarrow> u8 \<Rightarrow> kernel \<Rightarrow> u8 \<times> kernel" where
  "pci_revision_id env b d f s = (case pci_read env b d f 8 s of (data, s) \<Rightarrow> (ucast data, s))"

definition pci_bist :: "environment \<Rightarrow> u8 \<Rightarrow> u8 \<Rightarrow> u8 \<Rightarrow> kernel \<Rightarrow> u8 \<times> kernel" where
  "pci_bist env b d f s = (case pci_read env b d f 12 s of (data, s) \<Rightarrow> (ucast (drop_bit 24 data AND 255), s))"

definition pci_header_type :: "environment \<Rightarrow> u8 \<Rightarrow> u8 \<Rightarrow> u8 \<Rightarrow> kernel \<Rightarrow> u8 \<times> kernel" where
  "pci_header_type env b d f s = (case pci_read env b d f 12 s of (data, s) \<Rightarrow> (ucast (drop_bit 16 data AND 255), s))"

definition pci_latency_timer :: "environment \<Rightarrow> u8 \<Rightarrow> u8 \<Rightarrow> u8 \<Rightarrow> kernel \<Rightarrow> u8 \<times> kernel" where
  "pci_latency_timer env b d f s = (case pci_read env b d f 12 s of (data, s) \<Rightarrow> (ucast (drop_bit 8 data AND 255), s))"

definition pci_cache_line_size :: "environment \<Rightarrow> u8 \<Rightarrow> u8 \<Rightarrow> u8 \<Rightarrow> kernel \<Rightarrow> u8 \<times> kernel" where
  "pci_cache_line_size env b d f s = (case pci_read env b d f 12 s of (data, s) \<Rightarrow> (ucast data, s))"

section \<open>Enumeration\<close>

text \<open>The fields of \<open>pci_device\<close> are at even offsets up to 12 and at the bytes 14 to 21.\<close>

definition set_field16 :: "u32 \<Rightarrow> u32 \<Rightarrow> u16 \<Rightarrow> kernel \<Rightarrow> kernel" where
  "set_field16 device offset v s = s\<lparr>mem := store16 (mem s) (device + offset) v\<rparr>"

definition set_field8 :: "u32 \<Rightarrow> u32 \<Rightarrow> u8 \<Rightarrow> kernel \<Rightarrow> kernel" where
  "set_field8 device offset v s = s\<lparr>mem := store8 (mem s) (device + offset) v\<rparr>"

definition pci_describe :: "environment \<Rightarrow> u32 \<Rightarrow> u8 \<Rightarrow> u8 \<Rightarrow> u8 \<Rightarrow> u16 \<Rightarrow> u16 \<Rightarrow> u8 \<Rightarrow> kernel \<Rightarrow> kernel" where
  "pci_describe env device b d f vendor_id device_id header_type s =
    (let s = set_field16 device 0 (ucast b) s;
         s = set_field16 device 2 (ucast d) s;
         s = set_field16 device 4 (ucast f) s;
         s = set_field16 device 6 vendor_id s;
         s = set_field16 device 8 device_id s;
         (v, s) = pci_command env b d f s;
         s = set_field16 device 12 v s;
         (v, s) = pci_status env b d f s;
         s = set_field16 device 10 v s;
         (v, s) = pci_class_code env b d f s;
         s = set_field8 device 14 v s;
         (v, s) = pci_subclass env b d f s;
         s = set_field8 device 15 v s;
         (v, s) = pci_prog_if env b d f s;
         s = set_field8 device 16 v s;
         (v, s) = pci_revision_id env b d f s;
         s = set_field8 device 17 v s;
         (v, s) = pci_bist env b d f s;
         s = set_field8 device 18 v s;
         s = set_field8 device 19 header_type s;
         (v, s) = pci_latency_timer env b d f s;
         s = set_field8 device 20 v s;
         (v, s) = pci_cache_line_size env b d f s
     in set_field8 device 21 v s)"

text \<open>The array \<open>devices\<close> has 255 places.\<close>

definition pci_add :: "environment \<Rightarrow> u8 \<Rightarrow> u8 \<Rightarrow> u8 \<Rightarrow> u16 \<Rightarrow> u16 \<Rightarrow> u8 \<Rightarrow> kernel \<Rightarrow> unit krun" where
  "pci_add env b d f vendor_id device_id header_type s =
    andthen (malloc 22 s) (\<lambda>device s.
      let s = pci_describe env device b d f vendor_id device_id header_type s in
      if device_count s < 255
      then ret () (s\<lparr>devices := (devices s)(unat (device_count s) := device), device_count := device_count s + 1\<rparr>)
      else fail Out_of_bounds)"

text \<open>The body of the innermost loop.\<close>

definition pci_function :: "environment \<Rightarrow> u8 \<Rightarrow> u8 \<Rightarrow> u8 \<Rightarrow> nat \<Rightarrow> kernel \<Rightarrow> unit krun" where
  "pci_function env b d header_type f s =
    (let f' = word_of_nat f;
         (header_type, s) = (if f > 0 then pci_header_type env b d f' s else (header_type, s));
         (device_id, s) = pci_device_id env b d f' s;
         (vendor_id, s) = pci_vendor_id env b d f' s
     in if vendor_id = 0 \<or> vendor_id = 65535 then ret () s
        else pci_add env b d f' vendor_id device_id header_type s)"

definition pci_slot :: "environment \<Rightarrow> nat \<Rightarrow> nat \<Rightarrow> kernel \<Rightarrow> unit krun" where
  "pci_slot env b d s =
    (let (header_type, s) = pci_header_type env (word_of_nat b) (word_of_nat d) 0 s;
         functions = (if header_type AND 128 \<noteq> 0 then 8 else 1)
     in for_each [0..<functions] (pci_function env (word_of_nat b) (word_of_nat d) header_type) s)"

definition pci_init :: "environment \<Rightarrow> kernel \<Rightarrow> unit krun" where
  "pci_init env s = for_each [0..<256] (\<lambda>b. for_each [0..<32] (pci_slot env b)) s"

section \<open>The bus\<close>

text \<open>A bus that answers with the word of configuration space whose address was written last.\<close>

definition pci_bus :: "environment \<Rightarrow> (u32 \<Rightarrow> u32) \<Rightarrow> bool" where
  "pci_bus env cfg \<longleftrightarrow> (\<forall>h a. env (Out32 3320 a # h) 3324 = cfg a)"

definition config_word :: "(u32 \<Rightarrow> u32) \<Rightarrow> u8 \<times> u8 \<times> u8 \<Rightarrow> u8 \<Rightarrow> u32" where
  "config_word cfg = (\<lambda>(b, d, f) offset. cfg (get_config_address b d f offset))"

definition header_byte :: "(u32 \<Rightarrow> u32) \<Rightarrow> u8 \<times> u8 \<times> u8 \<Rightarrow> u8" where
  "header_byte cfg x = ucast (drop_bit 16 (config_word cfg x 12) AND 255)"

definition present :: "(u32 \<Rightarrow> u32) \<Rightarrow> u8 \<times> u8 \<times> u8 \<Rightarrow> bool" where
  "present cfg x \<longleftrightarrow> (ucast (config_word cfg x 0 AND 65535) :: u16) \<notin> {0, 65535}"

text \<open>The functions a device has places for, and those that are there, in the order of the loops.\<close>

definition slot_functions :: "(u32 \<Rightarrow> u32) \<Rightarrow> nat \<Rightarrow> nat \<Rightarrow> (u8 \<times> u8 \<times> u8) list" where
  "slot_functions cfg b d =
    map (\<lambda>f. (word_of_nat b, word_of_nat d, word_of_nat f))
      [0..<if header_byte cfg (word_of_nat b, word_of_nat d, 0) AND 128 \<noteq> 0 then 8 else 1]"

definition bus_functions :: "(u32 \<Rightarrow> u32) \<Rightarrow> (u8 \<times> u8 \<times> u8) list" where
  "bus_functions cfg =
    filter (present cfg) (concat (map (\<lambda>b. concat (map (slot_functions cfg b) [0..<32])) [0..<256]))"

text \<open>The description of a function in memory.\<close>

definition described :: "memory \<Rightarrow> u32 \<Rightarrow> (u32 \<Rightarrow> u32) \<Rightarrow> u8 \<times> u8 \<times> u8 \<Rightarrow> bool" where
  "described m p cfg x \<longleftrightarrow>
    (case x of (b, d, f) \<Rightarrow> load16 m p = ucast b \<and> load16 m (p + 2) = ucast d \<and> load16 m (p + 4) = ucast f) \<and>
    load16 m (p + 6) = ucast (config_word cfg x 0 AND 65535) \<and> load16 m (p + 8) = ucast (drop_bit 16 (config_word cfg x 0)) \<and>
    load16 m (p + 12) = ucast (config_word cfg x 4 AND 65535) \<and> load16 m (p + 10) = ucast (drop_bit 16 (config_word cfg x 4)) \<and>
    m (p + 14) = ucast (drop_bit 24 (config_word cfg x 8) AND 255) \<and> m (p + 15) = ucast (drop_bit 16 (config_word cfg x 8) AND 255) \<and>
    m (p + 16) = ucast (drop_bit 8 (config_word cfg x 8) AND 255) \<and> m (p + 17) = ucast (config_word cfg x 8) \<and>
    m (p + 18) = ucast (drop_bit 24 (config_word cfg x 12) AND 255) \<and> m (p + 19) = header_byte cfg x \<and>
    m (p + 20) = ucast (drop_bit 8 (config_word cfg x 12) AND 255) \<and> m (p + 21) = ucast (config_word cfg x 12)"

lemma pci_read_bus:
  assumes "pci_bus env cfg"
  shows "pci_read env b d f offset s = (config_word cfg (b, d, f) offset,
    s\<lparr>io := In32 3324 (config_word cfg (b, d, f) offset) # Out32 3320 (get_config_address b d f offset) # io s\<rparr>)"
  using assms by (simp add: pci_bus_def pci_read_def inl_def outl_def config_word_def Let_def)

lemmas pci_fields = pci_device_id_def pci_vendor_id_def pci_status_def pci_command_def pci_class_code_def
  pci_subclass_def pci_prog_if_def pci_revision_id_def pci_bist_def pci_header_type_def
  pci_latency_timer_def pci_cache_line_size_def

lemma pci_describe_bus:
  assumes "pci_bus env cfg"
  shows "\<exists>m h. pci_describe env p b d f (ucast (config_word cfg (b, d, f) 0 AND 65535))
      (ucast (drop_bit 16 (config_word cfg (b, d, f) 0))) (header_byte cfg (b, d, f)) s = s\<lparr>io := h, mem := m\<rparr> \<and>
    described m p cfg (b, d, f) \<and> same_on (- region p 22) (mem s) m"
proof -
  let ?c = "config_word cfg (b, d, f)" and ?x = "(b, d, f)"
  define m where "m = store8 (store8 (store8 (store8 (store8 (store8 (store8 (store8 (store16 (store16 (store16
    (store16 (store16 (store16 (store16 (mem s) p (ucast b)) (p + 2) (ucast d)) (p + 4) (ucast f))
    (p + 6) (ucast (?c 0 AND 65535))) (p + 8) (ucast (drop_bit 16 (?c 0)))) (p + 12) (ucast (?c 4 AND 65535)))
    (p + 10) (ucast (drop_bit 16 (?c 4)))) (p + 14) (ucast (drop_bit 24 (?c 8) AND 255)))
    (p + 15) (ucast (drop_bit 16 (?c 8) AND 255))) (p + 16) (ucast (drop_bit 8 (?c 8) AND 255)))
    (p + 17) (ucast (?c 8))) (p + 18) (ucast (drop_bit 24 (?c 12) AND 255))) (p + 19) (header_byte cfg ?x))
    (p + 20) (ucast (drop_bit 8 (?c 12) AND 255))) (p + 21) (ucast (?c 12))"
  have "\<exists>h. pci_describe env p b d f (ucast (?c 0 AND 65535)) (ucast (drop_bit 16 (?c 0))) (header_byte cfg ?x) s =
      s\<lparr>io := h, mem := m\<rparr>"
    by (simp add: pci_describe_def pci_fields pci_read_bus [OF assms] set_field16_def set_field8_def m_def)
      (rule exI, rule refl)
  moreover have "described m p cfg ?x"
    unfolding described_def m_def prod.case by (intro conjI; simp add: frame_simps add.assoc)
  moreover have "same_on (- region p 22) (mem s) m"
  proof -
    have sub16: "- region p 22 \<inter> region (p + i) 2 = {}" if "unat i + 2 \<le> 22" for i
      using region_shift_subset [OF that, of p] by auto
    have sub8: "p + i \<notin> - region p 22" if "unat i < 22" for i
      using region_offset [OF that, of p] by simp
    have sub0: "- region p 22 \<inter> region p 2 = {}" using sub16 [of 0] by simp
    show ?thesis unfolding m_def
      by (rule same_on_trans [OF _ same_on_store8] same_on_trans [OF _ same_on_store16] same_on_store16
          sub16 sub8 sub0 | simp)+
  qed
  ultimately show ?thesis by blast
qed

section \<open>The devices found\<close>

lemma described_cong:
  assumes "same_on (region p 22) m m'" and "described m p cfg x"
  shows "described m' p cfg x"
proof -
  have "region (p + i) 2 \<subseteq> region p 22" if "unat i + 2 \<le> 22" for i
    using region_shift_subset [OF that, of p] by simp
  then have l: "load16 m' (p + i) = load16 m (p + i)" if "unat i + 2 \<le> 22" for i
    using that by (intro load16_cong same_on_mono [OF assms(1)]) blast
  have b: "m' (p + i) = m (p + i)" if "unat i < 22" for i
    using same_onD [OF assms(1) region_offset [OF that]] .
  have "load16 m' p = load16 m p" using l [of 0] by simp
  then show ?thesis using assms(2) by (simp add: described_def l b)
qed

definition pci_found :: "(u32 \<Rightarrow> u32) \<Rightarrow> u32 set \<Rightarrow> (u32 \<rightharpoonup> u32) \<Rightarrow> memory \<Rightarrow> (u8 \<times> u8 \<times> u8) list \<Rightarrow> kernel \<Rightarrow> bool" where
  "pci_found cfg A L m xs s \<longleftrightarrow> length xs \<le> 255 \<and> device_count s = word_of_nat (length xs) \<and>
     same_on (- A \<union> blocks L) m (mem s) \<and>
     (\<exists>L'. heap_holds s A L' \<and> L \<subseteq>\<^sub>m L' \<and>
       (\<forall>i < length xs. L (devices s i) = None \<and> (\<exists>k. L' (devices s i) = Some k \<and> 22 \<le> unat k) \<and>
          described (mem s) (devices s i) cfg (xs ! i)))"

definition pci_fault :: "fault \<Rightarrow> (u8 \<times> u8 \<times> u8) list \<Rightarrow> bool" where
  "pci_fault e xs \<longleftrightarrow> e = Assert_failed ''chunk'' \<or> e = Out_of_bounds \<and> 255 < length xs"

lemma pci_found_io: "pci_found cfg A L m xs (s\<lparr>io := h\<rparr>) = pci_found cfg A L m xs s"
  by (simp add: pci_found_def)

lemma pci_add_found:
  assumes inv: "pci_found cfg A L m0 xs s" and bus: "pci_bus env cfg"
    and r_def: "r = pci_add env b d f (ucast (config_word cfg (b, d, f) 0 AND 65535))
      (ucast (drop_bit 16 (config_word cfg (b, d, f) 0))) (header_byte cfg (b, d, f)) s"
  shows "collects (pci_found cfg A L m0) pci_fault r (xs @ [(b, d, f)])"
proof -
  let ?x = "(b, d, f)" and ?n = "length xs"
  obtain L' where L': "heap_holds s A L'" "L \<subseteq>\<^sub>m L'"
    and dev: "\<And>i. i < ?n \<Longrightarrow> L (devices s i) = None \<and> (\<exists>k. L' (devices s i) = Some k \<and> 22 \<le> unat k) \<and>
        described (mem s) (devices s i) cfg (xs ! i)"
    using inv unfolding pci_found_def by blast
  have n: "?n \<le> 255" "device_count s = word_of_nat ?n" "same_on (- A \<union> blocks L) m0 (mem s)"
    using inv by (simp_all add: pci_found_def)
  then have cnt: "unat (device_count s) = ?n" by (simp add: unat_of_nat)
  have n22: "(22 :: u32) \<noteq> 0" by simp
  show ?thesis
  proof (cases rule: malloc_cases [OF L'(1) n22])
    case 1
    then show ?thesis by (simp add: r_def pci_add_def collects_def pci_fault_def)
  next
    case block: (2 p k m)
    have k: "22 \<le> unat k" using block(2) by (simp add: word_le_nat_alt)
    obtain m' h where d: "pci_describe env p b d f (ucast (config_word cfg ?x 0 AND 65535))
        (ucast (drop_bit 16 (config_word cfg ?x 0))) (header_byte cfg ?x) (s\<lparr>mem := m\<rparr>) = s\<lparr>io := h, mem := m'\<rparr>"
      "described m' p cfg ?x" "same_on (- region p 22) m m'"
      using pci_describe_bus [OF bus, of p b d f "s\<lparr>mem := m\<rparr>"] by auto
    let ?s = "s\<lparr>io := h, mem := m', devices := (devices s)(?n := p), device_count := word_of_nat (Suc ?n)\<rparr>"
    have state: "?s = s\<lparr>mem := m'\<rparr>\<lparr>io := h\<rparr>\<lparr>devices := (devices s)(?n := p)\<rparr>\<lparr>device_count := word_of_nat (Suc ?n)\<rparr>"
      by simp
    have less: "device_count s < 255 \<longleftrightarrow> ?n < 255" using cnt by (simp add: word_less_nat_alt)
    have run: "r = (if ?n < 255 then ret () ?s else fail Out_of_bounds)"
      unfolding r_def pci_add_def block(1) andthen_ret d(1) Let_def
      by (simp add: less cnt) (simp add: n(2) add.commute)
    have "pci_found cfg A L m0 (xs @ [?x]) ?s" if lt: "?n < 255"
    proof -
      let ?L = "L'(p \<mapsto> k)"
      have sub1: "L' \<subseteq>\<^sub>m ?L" using block(3) by (simp add: map_le_def dom_def)
      have sub: "L' \<subseteq>\<^sub>m ?L" "L \<subseteq>\<^sub>m ?L" using sub1 map_le_trans [OF L'(2) sub1] by blast+
      have Lp: "L p = None" using L'(2) block(3) by (metis domIff map_le_def)
      have p22: "region p 22 \<subseteq> region p (unat k)" using k by (rule region_mono)
      have "same_on (- region p (unat k)) m m'" using d(3) by (rule same_on_mono) (use p22 in blast)
      then have holds: "heap_holds ?s A ?L"
        unfolding state heap_holds_update using kheap.write_block [OF block(4), of p k m'] by simp
      have away: "region p (unat k) \<inter> (- A \<union> blocks L') = {}"
        using kheap.fresh_away [OF block(4) _ block(3) sub(1), of k] by simp
      have old: "same_on (- A \<union> blocks L') (mem s) m'"
      proof (rule same_on_trans [OF block(5)])
        show "same_on (- A \<union> blocks L') m m'" using d(3) by (rule same_on_mono) (use away p22 in blast)
      qed
      have mem: "same_on (- A \<union> blocks L) m0 m'"
        using n(3) same_on_mono [OF old, of "- A \<union> blocks L"] blocks_mono [OF L'(2)] same_on_trans by blast
      have each: "L (devices ?s i) = None \<and> (\<exists>k. ?L (devices ?s i) = Some k \<and> 22 \<le> unat k) \<and>
          described m' (devices ?s i) cfg ((xs @ [?x]) ! i)" if i: "i < Suc ?n" for i
      proof (cases "i = ?n")
        case True
        then show ?thesis using Lp k d(2) by simp
      next
        case False
        then have i: "i < ?n" using i by simp
        then obtain j where j: "L' (devices s i) = Some j" "22 \<le> unat j" using dev by blast
        have "region (devices s i) 22 \<subseteq> blocks L'"
          using block_subset [of L' "devices s i" j] j region_mono [OF j(2), of "devices s i"] by blast
        then have "same_on (region (devices s i) 22) (mem s) m'" by (intro same_on_mono [OF old]) blast
        then have "described m' (devices s i) cfg (xs ! i)" using described_cong dev [OF i] by blast
        moreover have "devices s i \<noteq> p" using j(1) block(3) by auto
        ultimately show ?thesis using i j dev [OF i] by (auto simp: nth_append)
      qed
      show ?thesis unfolding pci_found_def
      proof (intro conjI exI [of _ ?L])
        show "\<forall>i<length (xs @ [?x]). L (devices ?s i) = None \<and> (\<exists>k. ?L (devices ?s i) = Some k \<and> 22 \<le> unat k) \<and>
            described (mem ?s) (devices ?s i) cfg ((xs @ [?x]) ! i)"
          using each by simp
      qed (use lt holds sub(2) mem in simp_all)
    qed
    moreover have "\<not> ?n < 255 \<Longrightarrow> 255 < length (xs @ [?x])" by simp
    ultimately show ?thesis unfolding run by (auto simp: collects_def pci_fault_def)
  qed
qed

lemma pci_function_found:
  assumes inv: "pci_found cfg A L m0 xs s" and bus: "pci_bus env cfg" and "f = 0 \<Longrightarrow> hdr = header_byte cfg (b, d, 0)"
  shows "collects (pci_found cfg A L m0) pci_fault (pci_function env b d hdr f s)
    (xs @ filter (present cfg) [(b, d, word_of_nat f)])"
proof -
  let ?f = "word_of_nat f :: u8"
  let ?x = "(b, d, ?f)"
  let ?read = "\<lambda>offset. [In32 3324 (config_word cfg ?x offset), Out32 3320 (get_config_address b d ?f offset)]"
  let ?h0 = "?read 0 @ ?read 0" and ?h1 = "?read 12"
  obtain h where h: "pci_function env b d hdr f s =
      (if present cfg ?x then pci_add env b d ?f (ucast (config_word cfg ?x 0 AND 65535))
          (ucast (drop_bit 16 (config_word cfg ?x 0))) (header_byte cfg ?x) (s\<lparr>io := h\<rparr>)
       else ret () (s\<lparr>io := h\<rparr>))"
  proof (cases "f = 0")
    case True
    show ?thesis using assms(3) True
      by (intro that [of "?h0 @ io s"])
        (simp add: pci_function_def pci_fields pci_read_bus [OF bus] present_def Let_def)
  next
    case False
    show ?thesis using False
      by (intro that [of "?h0 @ ?h1 @ io s"])
        (simp add: pci_function_def pci_fields pci_read_bus [OF bus] present_def header_byte_def Let_def)
  qed
  show ?thesis
  proof (cases "present cfg ?x")
    case True
    then show ?thesis using pci_add_found [OF _ bus refl, of A L m0 xs "s\<lparr>io := h\<rparr>" b d ?f] inv
      unfolding h by (simp add: pci_found_io)
  next
    case False
    then show ?thesis using inv unfolding h by (simp add: collects_def pci_found_io)
  qed
qed

lemma pci_fault_append: "pci_fault e xs \<Longrightarrow> pci_fault e (xs @ ys)"
  by (auto simp: pci_fault_def)

lemma pci_slot_found:
  assumes inv: "pci_found cfg A L m0 xs s" and bus: "pci_bus env cfg"
  shows "collects (pci_found cfg A L m0) pci_fault (pci_slot env b d s)
    (xs @ concat (map (\<lambda>x. filter (present cfg) [x]) (slot_functions cfg b d)))"
proof -
  let ?b = "word_of_nat b :: u8" and ?d = "word_of_nat d :: u8"
  let ?h = "header_byte cfg (?b, ?d, 0)"
  obtain h where run: "pci_slot env b d s =
      for_each [0..<if ?h AND 128 \<noteq> 0 then 8 else 1] (pci_function env ?b ?d ?h) (s\<lparr>io := h\<rparr>)"
    by (simp add: pci_slot_def pci_fields pci_read_bus [OF bus] header_byte_def Let_def cong: if_cong)
  have "collects (pci_found cfg A L m0) pci_fault (pci_slot env b d s)
    (xs @ concat (map (\<lambda>f. filter (present cfg) [(?b, ?d, word_of_nat f)]) [0..<if ?h AND 128 \<noteq> 0 then 8 else 1]))"
    unfolding run
  proof (rule for_each_collects)
    show "pci_found cfg A L m0 xs (s\<lparr>io := h\<rparr>)" using inv by (simp add: pci_found_io)
  next
    fix f ys t
    assume "pci_found cfg A L m0 ys t"
    then show "collects (pci_found cfg A L m0) pci_fault (pci_function env ?b ?d ?h f t)
        (ys @ filter (present cfg) [(?b, ?d, word_of_nat f)])"
      by (rule pci_function_found [OF _ bus]) simp
  qed (rule pci_fault_append)
  then show ?thesis by (simp add: slot_functions_def comp_def)
qed

lemma bus_functions_concat:
  "bus_functions cfg = concat (map (\<lambda>b. concat (map (\<lambda>d.
     concat (map (\<lambda>x. filter (present cfg) [x]) (slot_functions cfg b d))) [0..<32])) [0..<256])"
proof -
  have one: "concat (map (\<lambda>x. filter P [x]) xs) = filter P xs" for P and xs :: "(u8 \<times> u8 \<times> u8) list"
    by (induction xs) auto
  show ?thesis unfolding bus_functions_def one by (simp only: filter_concat map_map comp_def)
qed

lemma pci_init_found:
  assumes inv: "pci_found cfg A L m0 [] s" and bus: "pci_bus env cfg"
  shows "collects (pci_found cfg A L m0) pci_fault (pci_init env s) (bus_functions cfg)"
proof -
  have slots: "collects (pci_found cfg A L m0) pci_fault (for_each [0..<32] (pci_slot env b) t)
      (ys @ concat (map (\<lambda>d. concat (map (\<lambda>x. filter (present cfg) [x]) (slot_functions cfg b d))) [0..<32]))"
    if "pci_found cfg A L m0 ys t" for b ys t
    using that by (intro for_each_collects pci_slot_found [OF _ bus] pci_fault_append)
  show ?thesis
    using for_each_collects [OF slots pci_fault_append inv, of "[0..<256]"]
    by (simp only: pci_init_def bus_functions_concat append_Nil)
qed

text \<open>C28.
  \<open>pci_init\<close> finds the devices: with a bus that answers with its configuration space, it ends with one
  description in a fresh block of the heap for every function present, in the order of bus, device and
  function (only function 0 where the header of the device does not say it has several), each holding
  the values of the function's configuration space, and it leaves the other blocks and the memory outside
  the heap alone. It stops where the heap is full, and it writes past the array only
  when there are more than 255 functions.
\<close>

theorem pci_init_finds:
  assumes "heap_holds s A L" and "pci_bus env cfg" and "device_count s = 0"
  shows "pci_init env s = fail (Assert_failed ''chunk'') \<or>
    pci_init env s = fail Out_of_bounds \<and> 255 < length (bus_functions cfg) \<or>
    (\<exists>s' L'. pci_init env s = ret () s' \<and> length (bus_functions cfg) \<le> 255 \<and>
       device_count s' = word_of_nat (length (bus_functions cfg)) \<and>
       heap_holds s' A L' \<and> L \<subseteq>\<^sub>m L' \<and> same_on (- A \<union> blocks L) (mem s) (mem s') \<and>
       (\<forall>i < length (bus_functions cfg). L (devices s' i) = None \<and> (\<exists>k. L' (devices s' i) = Some k \<and> 22 \<le> unat k) \<and>
          described (mem s') (devices s' i) cfg (bus_functions cfg ! i)))"
proof -
  have "pci_found cfg A L (mem s) [] s"
    using assms(1,3) by (auto simp: pci_found_def)
  then have c: "collects (pci_found cfg A L (mem s)) pci_fault (pci_init env s) (bus_functions cfg)"
    by (rule pci_init_found) (rule assms(2))
  then consider e where "pci_init env s = fail e" "pci_fault e (bus_functions cfg)"
    | s' where "pci_init env s = ret () s'" "pci_found cfg A L (mem s) (bus_functions cfg) s'"
    unfolding collects_def by blast
  then show ?thesis
  proof cases
    case 1
    then show ?thesis by (auto simp: pci_fault_def)
  next
    case 2
    then show ?thesis unfolding pci_found_def by blast
  qed
qed

text \<open>A bus with one device.\<close>

definition example_config :: "u32 \<Rightarrow> u32" where
  "example_config a = (if a = get_config_address 0 1 0 0 then 304578694 else 4294967295)"

definition example_bus :: environment where
  "example_bus h port = (case h of Out32 _ a # _ \<Rightarrow> example_config a | _ \<Rightarrow> 0)"

lemma example_device: "(0, 1, 0) \<in> set (bus_functions example_config)"
proof -
  have "present example_config (0, 1, 0)"
    by (simp add: present_def config_word_def example_config_def)
  moreover have "(0, 1, 0) \<in> set (slot_functions example_config 0 1)"
    by (auto simp: slot_functions_def intro!: image_eqI [of _ _ 0])
  ultimately show ?thesis unfolding bus_functions_def set_filter set_concat set_map by force
qed

theorem pci_init_finds_witness:
  "pci_init example_bus (example_heap False) = fail (Assert_failed ''chunk'') \<or>
    pci_init example_bus (example_heap False) = fail Out_of_bounds \<and> 255 < length (bus_functions example_config) \<or>
    (\<exists>s' L' i. pci_init example_bus (example_heap False) = ret () s' \<and> heap_holds s' {x. 4096 \<le> unat x \<and> unat x < 4368} L' \<and>
       i < length (bus_functions example_config) \<and> bus_functions example_config ! i = (0, 1, 0) \<and>
       described (mem s') (devices s' i) example_config (0, 1, 0))"
proof -
  have bus: "pci_bus example_bus example_config" by (simp add: pci_bus_def example_bus_def)
  have count: "device_count (example_heap False) = 0" by (simp add: example_heap_def boot_state_def)
  obtain i where i: "i < length (bus_functions example_config)" "bus_functions example_config ! i = (0, 1, 0)"
    using example_device by (auto simp: in_set_conv_nth)
  from pci_init_finds [OF example_heap_holds [of False] bus count] show ?thesis
  proof (elim disjE exE conjE)
    fix s' L'
    assume "pci_init example_bus (example_heap False) = ret () s'"
      and "heap_holds s' {x. 4096 \<le> unat x \<and> unat x < 4368} L'"
      and "\<forall>i < length (bus_functions example_config). (if False then [4112 \<mapsto> 256] else Map.empty) (devices s' i) = None \<and>
        (\<exists>k. L' (devices s' i) = Some k \<and> 22 \<le> unat k) \<and>
        described (mem s') (devices s' i) example_config (bus_functions example_config ! i)"
    moreover from this(3) i have "described (mem s') (devices s' i) example_config (0, 1, 0)" by metis
    ultimately show ?thesis using i by blast
  qed blast+
qed

end
