(* ===== verification/Ata.thy ===== *)
theory Ata
  imports Heap_Safety Ports
begin

text \<open>
  The disk driver, \<open>drivers/ata.c\<close>: programmed input from an ATA drive, polling its status. The drive
  is described by what it answers to a history of port accesses; the properties hold for any drive
  that obeys the protocol and becomes ready within some number of polls of its status.
\<close>

section \<open>The operations\<close>

definition ata_wait :: "environment \<Rightarrow> u16 \<Rightarrow> kernel \<Rightarrow> kernel" where
  "ata_wait env bus s = fold (\<lambda>_ s. snd (inb env (bus + 12) s)) [0..<4 :: nat] s"

text \<open>The two loops of \<open>ata_poll\<close>.\<close>

partial_function (option) ata_busy :: "environment \<Rightarrow> u16 \<Rightarrow> kernel \<Rightarrow> kernel option" where
  "ata_busy env bus s =
    (case inb env (bus + 7) s of (status, s) \<Rightarrow> if status AND 128 \<noteq> 0 then ata_busy env bus s else Some s)"

partial_function (option) ata_request :: "environment \<Rightarrow> u16 \<Rightarrow> kernel \<Rightarrow> kernel option" where
  "ata_request env bus s =
    (case inb env (bus + 7) s of (status, s) \<Rightarrow> if status AND 8 = 0 then ata_request env bus s else Some s)"

definition ata_poll :: "environment \<Rightarrow> u16 \<Rightarrow> kernel \<Rightarrow> kernel option" where
  "ata_poll env bus s = (case ata_busy env bus s of None \<Rightarrow> None | Some s \<Rightarrow> ata_request env bus s)"

definition ata_words :: "environment \<Rightarrow> u32 \<Rightarrow> u16 \<Rightarrow> nat \<Rightarrow> nat \<Rightarrow> kernel \<Rightarrow> kernel" where
  "ata_words env buffer bus i n s =
    fold (\<lambda>j s. case inw env bus s of (w, s) \<Rightarrow>
      s\<lparr>mem := store16 (mem s) (buffer + 2 * (word_of_nat i * 256 + word_of_nat j)) w\<rparr>) [0..<n] s"

definition ata_sector :: "environment \<Rightarrow> u32 \<Rightarrow> u16 \<Rightarrow> nat \<Rightarrow> kernel \<Rightarrow> unit krun" where
  "ata_sector env buffer bus i s =
    (case ata_poll env bus (ata_wait env bus s) of
       None \<Rightarrow> None
     | Some s \<Rightarrow> ret () (ata_words env buffer bus i 256 s))"

definition ata_read :: "environment \<Rightarrow> u32 \<Rightarrow> u16 \<Rightarrow> u32 \<Rightarrow> u32 \<Rightarrow> kernel \<Rightarrow> unit krun" where
  "ata_read env buffer bus lba sector_count s =
    (let s = outb (bus + 6) (224 OR (ucast (drop_bit 24 lba AND 15))) s;
         s = outb (bus + 1) 0 s;
         s = outb (bus + 2) (ucast sector_count) s;
         s = outb (bus + 3) (ucast lba) s;
         s = outb (bus + 4) (ucast (drop_bit 8 lba)) s;
         s = outb (bus + 5) (ucast (drop_bit 16 lba)) s;
         s = outb (bus + 7) 32 s
     in for_each [0..<unat sector_count] (ata_sector env buffer bus) s)"

partial_function (option) ata_swap_from :: "u32 \<Rightarrow> u32 \<Rightarrow> u32 \<Rightarrow> u32 \<Rightarrow> memory \<Rightarrow> memory option" where
  "ata_swap_from buffer data len i m =
    (if i < len
     then let m = store8 m (buffer + i) (m (data + (i + 1)));
              m = store8 m (buffer + (i + 1)) (m (data + i))
          in ata_swap_from buffer data len (i + 2) m
     else Some m)"

definition ata_string_swap :: "u32 \<Rightarrow> u32 \<Rightarrow> u32 \<Rightarrow> memory \<Rightarrow> memory option" where
  "ata_string_swap buffer data len m = ata_swap_from buffer data len 0 m"

text \<open>
  The texts of the identification block: \<open>serial\<close>, \<open>firmware\<close> and \<open>model\<close> are the addresses of the routine's
  own arrays.
\<close>

definition ata_identify_texts :: "u32 \<Rightarrow> u32 \<Rightarrow> u32 \<Rightarrow> u32 \<Rightarrow> memory \<Rightarrow> memory option" where
  "ata_identify_texts serial firmware model device m =
    Option.bind (ata_string_swap serial (device + 20) 20 m) (\<lambda>m.
    Option.bind (ata_string_swap firmware (device + 46) 8 m) (\<lambda>m.
    Option.bind (ata_string_swap model (device + 54) 40 m) (\<lambda>m.
    Option.bind (strtrim serial 32 m) (\<lambda>m.
    Option.bind (strtrim firmware 32 m) (strtrim model 32)))))"

definition ata_identify :: "environment \<Rightarrow> u32 \<Rightarrow> u32 \<Rightarrow> u32 \<Rightarrow> u16 \<Rightarrow> u32 \<Rightarrow> kernel \<Rightarrow> unit krun" where
  "ata_identify env serial firmware model bus disk s =
    (let s = outb (bus + 6) (ucast disk) s;
         s = outb (bus + 2) 0 s;
         s = outb (bus + 3) 0 s;
         s = outb (bus + 4) 0 s;
         s = outb (bus + 5) 0 s;
         s = outb (bus + 7) 236 s;
         (status, s) = inb env (bus + 7) s
     in if status = 0 then ret () s
        else case ata_poll env bus s of
               None \<Rightarrow> None
             | Some s \<Rightarrow>
                 if status AND 1 \<noteq> 0 then ret () s
                 else andthen (malloc 512 s) (\<lambda>data s.
                   let s = ata_words env data bus 0 256 s in
                   case ata_identify_texts serial firmware model data (mem s) of
                     None \<Rightarrow> None
                   | Some m \<Rightarrow> ret () (s\<lparr>mem := m\<rparr>)))"

definition ata_init :: "environment \<Rightarrow> u32 \<Rightarrow> u32 \<Rightarrow> u32 \<Rightarrow> kernel \<Rightarrow> unit krun" where
  "ata_init env serial firmware model s =
    andthen (ata_identify env serial firmware model 496 160 s) (\<lambda>_.
      ata_identify env serial firmware model 496 176)"

section \<open>The drive\<close>

text \<open>The byte last written to a port.\<close>

fun last_out :: "u16 \<Rightarrow> history \<Rightarrow> u8" where
  "last_out port [] = 0"
| "last_out port (Out8 p v # h) = (if p = port then v else last_out port h)"
| "last_out port (_ # h) = last_out port h"

text \<open>The words read since the last command.\<close>

fun transferred :: "u16 \<Rightarrow> history \<Rightarrow> nat" where
  "transferred bus [] = 0"
| "transferred bus (Out8 p v # h) = (if p = bus + 7 then 0 else transferred bus h)"
| "transferred bus (In16 p v # h) = (if p = bus then Suc (transferred bus h) else transferred bus h)"
| "transferred bus (_ # h) = transferred bus h"

text \<open>The reads of the status since the last command or word.\<close>

fun polls :: "u16 \<Rightarrow> history \<Rightarrow> u8 list" where
  "polls bus [] = []"
| "polls bus (In8 p v # h) = (if p = bus + 7 then v # polls bus h else polls bus h)"
| "polls bus (Out8 p v # h) = (if p = bus + 7 then [] else polls bus h)"
| "polls bus (In16 p v # h) = (if p = bus then [] else polls bus h)"
| "polls bus (_ # h) = polls bus h"

definition lba_of :: "u16 \<Rightarrow> history \<Rightarrow> nat" where
  "lba_of bus h = unat (last_out (bus + 3) h) + 2 ^ 8 * unat (last_out (bus + 4) h) +
     2 ^ 16 * unat (last_out (bus + 5) h) + 2 ^ 24 * unat (last_out (bus + 6) h AND 15)"

definition sectors_of :: "u16 \<Rightarrow> history \<Rightarrow> nat" where
  "sectors_of bus h = (let n = unat (last_out (bus + 2) h) in if n = 0 then 256 else n)"

text \<open>A read command to the first drive, by block address, is under way.\<close>

definition reading :: "u16 \<Rightarrow> history \<Rightarrow> bool" where
  "reading bus h \<longleftrightarrow> last_out (bus + 7) h = 32 \<and> last_out (bus + 6) h AND 80 = 64 \<and>
     transferred bus h < 256 * sectors_of bus h"

text \<open>
  The next word may be read: inside a sector at once, at its start when the status was found not busy
  and, last, with the request bit set.
\<close>

definition may_read :: "u16 \<Rightarrow> history \<Rightarrow> bool" where
  "may_read bus h \<longleftrightarrow> transferred bus h mod 256 \<noteq> 0 \<or>
     (case polls bus h of [] \<Rightarrow> False | v # vs \<Rightarrow> v AND 8 \<noteq> 0 \<and> (\<exists>w \<in> set (v # vs). w AND 128 = 0))"

text \<open>
  A drive with the given bytes: at the start of a sector it is ready after at most \<open>n\<close> polls, and it
  delivers the words from the block address on.
\<close>

definition ata_disk :: "environment \<Rightarrow> u16 \<Rightarrow> (nat \<Rightarrow> u8) \<Rightarrow> nat \<Rightarrow> bool" where
  "ata_disk env bus disk n \<longleftrightarrow> (\<forall>h. reading bus h \<longrightarrow>
     (n \<le> length (polls bus h) \<longrightarrow> (ucast (env h (bus + 7)) :: u8) AND 136 = 8) \<and>
     (may_read bus h \<longrightarrow>
       (let w = ucast (env h bus) :: u16; k = 512 * lba_of bus h + 2 * transferred bus h
        in ucast w = disk k \<and> ucast (drop_bit 8 w) = disk (k + 1))))"

section \<open>Polling\<close>

lemma history_polls [simp]:
  "last_out port (map (In8 p) vs @ h) = last_out port h"
  "transferred bus (map (In8 p) vs @ h) = transferred bus h"
  "polls bus (map (In8 (bus + 7)) vs @ h) = vs @ polls bus h"
  by (induction vs) simp_all

lemma reading_polls [simp]: "reading bus (map (In8 p) vs @ h) = reading bus h"
  by (simp add: reading_def sectors_of_def)

lemma lba_polls [simp]: "lba_of bus (map (In8 p) vs @ h) = lba_of bus h"
  by (simp add: lba_of_def)

lemma inb_polled:
  "inb env (bus + 7) s = (ucast (env (io s) (bus + 7)), s\<lparr>io := map (In8 (bus + 7)) [ucast (env (io s) (bus + 7))] @ io s\<rparr>)"
  by (simp add: inb_def Let_def)

lemma ready_bits:
  assumes "v AND 136 = (8 :: u8)"
  shows "v AND 128 = 0" "v AND 8 \<noteq> 0"
proof -
  have "v AND 128 = (v AND 136) AND 128" "v AND 8 = (v AND 136) AND 8" by (simp_all add: and.assoc)
  then show "v AND 128 = 0" "v AND 8 \<noteq> 0" using assms by simp_all
qed

text \<open>A loop that polls the status until it is ready ends.\<close>

lemma poll_returns:
  fixes f :: "kernel \<Rightarrow> kernel option"
  assumes loop: "\<And>s. f s = (case inb env (bus + 7) s of (v, s) \<Rightarrow> if stop v then Some s else f s)"
    and stop: "\<And>v :: u8. v AND 136 = 8 \<Longrightarrow> stop v"
    and disk: "ata_disk env bus disk n" and "reading bus (io s)"
  shows "\<exists>v vs. f s = Some (s\<lparr>io := map (In8 (bus + 7)) (v # vs) @ io s\<rparr>) \<and> stop v"
  using assms(4)
proof (induction "n - length (polls bus (io s))" arbitrary: s rule: less_induct)
  case less
  let ?v = "ucast (env (io s) (bus + 7)) :: u8"
  let ?s = "s\<lparr>io := map (In8 (bus + 7)) [?v] @ io s\<rparr>"
  show ?case
  proof (cases "stop ?v")
    case True
    then have "f s = Some (s\<lparr>io := map (In8 (bus + 7)) [?v] @ io s\<rparr>)"
      by (subst loop) (simp add: inb_polled)
    then show ?thesis using True by blast
  next
    case False
    have "\<not> n \<le> length (polls bus (io s))"
      using disk less.prems False stop unfolding ata_disk_def by blast
    then have "n - length (polls bus (io ?s)) < n - length (polls bus (io s))" by simp
    moreover have "reading bus (io ?s)" using less.prems by (simp del: list.map append_Cons append_Nil)
    ultimately obtain w ws where
      w: "f ?s = Some (?s\<lparr>io := map (In8 (bus + 7)) (w # ws) @ io ?s\<rparr>)" "stop w"
      using less.hyps [of ?s] by blast
    have "f s = Some (s\<lparr>io := map (In8 (bus + 7)) (w # ws @ [?v]) @ io s\<rparr>)"
      using False w(1) by (subst loop) (simp add: inb_polled)
    then show ?thesis using w(2) by blast
  qed
qed

lemma ata_poll_returns:
  assumes disk: "ata_disk env bus disk n" and reading: "reading bus (io s)"
  shows "\<exists>vs. ata_poll env bus s = Some (s\<lparr>io := map (In8 (bus + 7)) vs @ io s\<rparr>) \<and>
    may_read bus (map (In8 (bus + 7)) vs @ io s)"
proof -
  have busy: "ata_busy env bus s = (case inb env (bus + 7) s of (v, s) \<Rightarrow> if v AND 128 = 0 then Some s else ata_busy env bus s)"
    for s by (subst ata_busy.simps) (simp split: prod.split)
  have request: "ata_request env bus s =
      (case inb env (bus + 7) s of (v, s) \<Rightarrow> if v AND 8 \<noteq> 0 then Some s else ata_request env bus s)"
    for s by (subst ata_request.simps) (simp split: prod.split)
  obtain v vs where v: "ata_busy env bus s = Some (s\<lparr>io := map (In8 (bus + 7)) (v # vs) @ io s\<rparr>)" "v AND 128 = 0"
    using poll_returns [OF busy ready_bits(1) disk reading] by blast
  let ?s = "s\<lparr>io := map (In8 (bus + 7)) (v # vs) @ io s\<rparr>"
  have "reading bus (io ?s)" using reading by (simp del: list.map append_Cons)
  then obtain w ws where w: "ata_request env bus ?s = Some (?s\<lparr>io := map (In8 (bus + 7)) (w # ws) @ io ?s\<rparr>)" "w AND 8 \<noteq> 0"
    using poll_returns [OF request ready_bits(2) disk] by blast
  have "ata_poll env bus s = Some (s\<lparr>io := map (In8 (bus + 7)) (w # ws @ v # vs) @ io s\<rparr>)"
    using v(1) w(1) by (simp add: ata_poll_def)
  moreover have "may_read bus (map (In8 (bus + 7)) (w # ws @ v # vs) @ io s)"
    using v(2) w(2) unfolding may_read_def history_polls by simp
  ultimately show ?thesis by blast
qed

section \<open>Reading\<close>

definition disk_bytes :: "(nat \<Rightarrow> u8) \<Rightarrow> nat \<Rightarrow> nat \<Rightarrow> u8 list" where
  "disk_bytes disk a n = map disk [a..<a + n]"

lemma length_disk_bytes [simp]: "length (disk_bytes disk a n) = n"
  by (simp add: disk_bytes_def)

lemma disk_bytes_append: "disk_bytes disk a (i + n) = disk_bytes disk a i @ disk_bytes disk (a + i) n"
  using upt_add_eq_append [of a "a + i" n] by (simp add: disk_bytes_def add.assoc)

lemma store16_bytes: "store16 m a w = store_bytes m a [ucast w, ucast (drop_bit 8 w)]"
  by (simp add: store16_def)

lemma history_words [simp]:
  "last_out port (map (In16 p) vs @ h) = last_out port h"
  "transferred bus (map (In16 bus) vs @ h) = length vs + transferred bus h"
  "sectors_of bus (map (In16 p) vs @ h) = sectors_of bus h"
  "lba_of bus (map (In16 p) vs @ h) = lba_of bus h"
proof -
  show l: "last_out port (map (In16 p) vs @ h) = last_out port h" for port by (induction vs) simp_all
  show "transferred bus (map (In16 bus) vs @ h) = length vs + transferred bus h" by (induction vs) simp_all
  show "sectors_of bus (map (In16 p) vs @ h) = sectors_of bus h" "lba_of bus (map (In16 p) vs @ h) = lba_of bus h"
    by (simp_all add: sectors_of_def lba_of_def l)
qed

lemma ata_words_stores:
  assumes disk: "ata_disk env bus disk n" and reading: "reading bus (io s)" and may: "may_read bus (io s)"
    and t: "transferred bus (io s) = 256 * i" and "k \<le> 256"
  shows "\<exists>ws. length ws = k \<and> ata_words env buffer bus j k s =
    s\<lparr>io := map (In16 bus) ws @ io s,
      mem := store_bytes (mem s) (buffer + 512 * word_of_nat j) (disk_bytes disk (512 * (lba_of bus (io s) + i)) (2 * k))\<rparr>"
  using \<open>k \<le> 256\<close>
proof (induction k)
  case 0
  then show ?case by (simp add: ata_words_def disk_bytes_def)
next
  case (Suc k)
  let ?a = "512 * (lba_of bus (io s) + i)" and ?p = "buffer + 512 * word_of_nat j"
  obtain ws where ws: "length ws = k" "ata_words env buffer bus j k s =
      s\<lparr>io := map (In16 bus) ws @ io s, mem := store_bytes (mem s) ?p (disk_bytes disk ?a (2 * k))\<rparr>"
    using Suc by auto
  let ?h = "map (In16 bus) ws @ io s"
  have "i < sectors_of bus (io s)" using reading t by (simp add: reading_def)
  then have "reading bus ?h" using reading t ws(1) Suc.prems by (simp add: reading_def)
  moreover have "may_read bus ?h"
  proof (cases "k = 0")
    case True
    then show ?thesis using may ws(1) by simp
  next
    case False
    then have "transferred bus ?h mod 256 \<noteq> 0" using ws(1) t Suc.prems by simp
    then show ?thesis by (simp add: may_read_def)
  qed
  ultimately have w: "ucast (ucast (env ?h bus) :: u16) = disk (?a + 2 * k)"
      "ucast (drop_bit 8 (ucast (env ?h bus) :: u16)) = disk (?a + 2 * k + 1)"
    using disk ws(1) t by (auto simp: ata_disk_def Let_def algebra_simps)
  let ?w = "ucast (env ?h bus) :: u16"
  have "ata_words env buffer bus j (Suc k) s = s\<lparr>io := In16 bus ?w # ?h,
      mem := store16 (store_bytes (mem s) ?p (disk_bytes disk ?a (2 * k)))
        (buffer + 2 * (word_of_nat j * 256 + word_of_nat k)) ?w\<rparr>"
    using ws(2) by (simp add: ata_words_def inw_def Let_def)
  moreover have "buffer + 2 * (word_of_nat j * 256 + word_of_nat k) = ?p + word_of_nat (2 * k)"
    by (simp add: algebra_simps)
  moreover have "disk_bytes disk ?a (2 * Suc k) = disk_bytes disk ?a (2 * k) @ [ucast ?w, ucast (drop_bit 8 ?w)]"
    using w by (simp add: disk_bytes_def)
  ultimately have "ata_words env buffer bus j (Suc k) s = s\<lparr>io := map (In16 bus) (?w # ws) @ io s,
      mem := store_bytes (mem s) ?p (disk_bytes disk ?a (2 * Suc k))\<rparr>"
    by (simp only: store16_bytes store_bytes_append length_disk_bytes list.map append_Cons)
  then show ?case using ws(1) by (intro exI [of _ "?w # ws"]) simp
qed

lemma ata_wait_reads:
  "\<exists>vs. ata_wait env bus s = s\<lparr>io := map (In8 (bus + 12)) vs @ io s\<rparr>"
proof -
  have "\<exists>vs. fold (\<lambda>_ s. snd (inb env (bus + 12) s)) [0..<k] s = s\<lparr>io := map (In8 (bus + 12)) vs @ io s\<rparr>" for k :: nat
  proof (induction k)
    case 0
    show ?case by (intro exI [of _ "[]"]) simp
  next
    case (Suc k)
    then obtain vs where "fold (\<lambda>_ s. snd (inb env (bus + 12) s)) [0..<k] s = s\<lparr>io := map (In8 (bus + 12)) vs @ io s\<rparr>"
      by blast
    then show ?case by (intro exI [of _ "ucast (env (map (In8 (bus + 12)) vs @ io s) (bus + 12)) # vs"])
        (simp add: inb_def Let_def)
  qed
  then show ?thesis by (simp add: ata_wait_def)
qed

lemma ata_sector_reads:
  assumes disk: "ata_disk env bus disk n" and reading: "reading bus (io s)" and t: "transferred bus (io s) = 256 * i"
  shows "\<exists>h. ata_sector env buffer bus j s = ret () (s\<lparr>io := h,
      mem := store_bytes (mem s) (buffer + 512 * word_of_nat j) (disk_bytes disk (512 * (lba_of bus (io s) + i)) 512)\<rparr>) \<and>
    transferred bus h = 256 * Suc i \<and> (\<forall>port. last_out port h = last_out port (io s))"
proof -
  obtain us where us: "ata_wait env bus s = s\<lparr>io := map (In8 (bus + 12)) us @ io s\<rparr>" using ata_wait_reads by blast
  let ?s = "s\<lparr>io := map (In8 (bus + 12)) us @ io s\<rparr>"
  have "reading bus (io ?s)" using reading by simp
  then obtain vs where vs: "ata_poll env bus ?s = Some (?s\<lparr>io := map (In8 (bus + 7)) vs @ io ?s\<rparr>)"
      "may_read bus (map (In8 (bus + 7)) vs @ io ?s)"
    using ata_poll_returns [OF disk] by blast
  let ?t = "?s\<lparr>io := map (In8 (bus + 7)) vs @ io ?s\<rparr>"
  obtain ws where ws: "length ws = 256" "ata_words env buffer bus j 256 ?t = ?t\<lparr>io := map (In16 bus) ws @ io ?t,
      mem := store_bytes (mem ?t) (buffer + 512 * word_of_nat j) (disk_bytes disk (512 * (lba_of bus (io ?t) + i)) 512)\<rparr>"
    using ata_words_stores [OF disk, of ?t i 256 buffer j] reading vs(2) t by auto
  show ?thesis
    using us vs(1) ws t by (intro exI [of _ "map (In16 bus) ws @ map (In8 (bus + 7)) vs @ map (In8 (bus + 12)) us @ io s"])
      (simp add: ata_sector_def)
qed

lemma ata_sectors_read:
  assumes disk: "ata_disk env bus disk n" and reading: "\<And>h. transferred bus h < 256 * k \<Longrightarrow>
      (\<And>port. last_out port h = last_out port (io s)) \<Longrightarrow> reading bus h" and "transferred bus (io s) = 0" and "j \<le> k"
  shows "\<exists>h. for_each [0..<j] (ata_sector env buffer bus) s = ret () (s\<lparr>io := h,
      mem := store_bytes (mem s) buffer (disk_bytes disk (512 * lba_of bus (io s)) (512 * j))\<rparr>) \<and>
    transferred bus h = 256 * j \<and> (\<forall>port. last_out port h = last_out port (io s))"
  using \<open>j \<le> k\<close>
proof (induction j)
  case 0
  then show ?case using assms(3) by (intro exI [of _ "io s"]) (simp add: disk_bytes_def)
next
  case (Suc j)
  let ?a = "512 * lba_of bus (io s)"
  obtain h where h: "for_each [0..<j] (ata_sector env buffer bus) s = ret () (s\<lparr>io := h,
      mem := store_bytes (mem s) buffer (disk_bytes disk ?a (512 * j))\<rparr>)"
    "transferred bus h = 256 * j" "\<And>port. last_out port h = last_out port (io s)"
    using Suc by auto
  let ?s = "s\<lparr>io := h, mem := store_bytes (mem s) buffer (disk_bytes disk ?a (512 * j))\<rparr>"
  have "reading bus (io ?s)" using h Suc.prems by (intro reading) simp_all
  moreover have "transferred bus (io ?s) = 256 * j" using h(2) by simp
  moreover have l: "lba_of bus (io ?s) = lba_of bus (io s)" using h(3) by (simp add: lba_of_def)
  ultimately obtain h' where h': "ata_sector env buffer bus j ?s = ret () (?s\<lparr>io := h',
      mem := store_bytes (mem ?s) (buffer + 512 * word_of_nat j) (disk_bytes disk (?a + 512 * j) 512)\<rparr>)"
    "transferred bus h' = 256 * Suc j" "\<And>port. last_out port h' = last_out port (io ?s)"
    using ata_sector_reads [OF disk, of ?s j buffer j] by (auto simp: algebra_simps)
  have "disk_bytes disk ?a (512 * Suc j) = disk_bytes disk ?a (512 * j) @ disk_bytes disk (?a + 512 * j) 512"
    using disk_bytes_append [of disk ?a "512 * j" 512] by (simp add: add.commute)
  then have "store_bytes (mem s) buffer (disk_bytes disk ?a (512 * Suc j)) =
      store_bytes (mem ?s) (buffer + 512 * word_of_nat j) (disk_bytes disk (?a + 512 * j) 512)"
    by (simp add: store_bytes_append)
  then show ?case using h h' by (intro exI [of _ h']) (simp add: for_each_append)
qed

lemma lba_bytes:
  fixes lba :: u32
  assumes "unat lba < 2 ^ 28"
  shows "unat (ucast lba :: u8) + 2 ^ 8 * unat (ucast (drop_bit 8 lba) :: u8) + 2 ^ 16 * unat (ucast (drop_bit 16 lba) :: u8)
    + 2 ^ 24 * unat ((224 OR ucast (drop_bit 24 lba AND 15) :: u8) AND 15) = unat lba"
proof -
  have mask: "x AND 15 = take_bit 4 x" for x :: "'a::len word" by (simp add: take_bit_eq_mask mask_eq_exp_minus_1)
  have "(224 OR ucast (drop_bit 24 lba AND 15) :: u8) AND 15 = ucast (drop_bit 24 lba AND 15) AND 15"
    by (simp add: bit.conj_disj_distrib2)
  moreover have small: "unat lba mod 4294967296 = unat lba" using assms by simp
  ultimately have "unat ((224 OR ucast (drop_bit 24 lba AND 15) :: u8) AND 15) = unat lba div 2 ^ 24 mod 2 ^ 4"
    by (simp add: mask unsigned_take_bit_eq unsigned_ucast_eq unsigned_drop_bit_eq
        drop_bit_eq_div [where 'a = nat] take_bit_eq_mod [where 'a = nat])
  moreover have "unat (ucast lba :: u8) = unat lba mod 2 ^ 8"
      "unat (ucast (drop_bit 8 lba) :: u8) = unat lba div 2 ^ 8 mod 2 ^ 8"
      "unat (ucast (drop_bit 16 lba) :: u8) = unat lba div 2 ^ 16 mod 2 ^ 8"
    by (simp_all add: unsigned_ucast_eq unsigned_drop_bit_eq drop_bit_eq_div [where 'a = nat]
        take_bit_eq_mod [where 'a = nat] small)
  moreover have "x mod 2 ^ 8 + 2 ^ 8 * (x div 2 ^ 8 mod 2 ^ 8) + 2 ^ 16 * (x div 2 ^ 16 mod 2 ^ 8) + 2 ^ 24 * (x div 2 ^ 24 mod 2 ^ 4) = x"
    if "x < 2 ^ 28" for x :: nat
  proof -
    define a b c where "a = x div 2 ^ 8" and "b = a div 2 ^ 8" and "c = b div 2 ^ 8"
    have "x div 2 ^ 16 = b" "x div 2 ^ 24 = c" by (simp_all add: a_def b_def c_def flip: div_mult2_eq)
    moreover have "x div 2 ^ 24 < 2 ^ 4" using that by (simp add: less_mult_imp_div_less)
    moreover have "x = x mod 2 ^ 8 + 2 ^ 8 * a" "a = a mod 2 ^ 8 + 2 ^ 8 * b" "b = b mod 2 ^ 8 + 2 ^ 8 * c"
      by (simp_all add: a_def b_def c_def)
    ultimately show ?thesis unfolding a_def [symmetric] by simp
  qed
  ultimately show ?thesis using assms by simp
qed

section \<open>Properties\<close>

lemma ata_read_bytes:
  assumes disk: "ata_disk env bus disk n" and lba: "unat lba < 2 ^ 28" and count: "unat sector_count \<le> 256"
  shows "\<exists>h. ata_read env buffer bus lba sector_count s = ret () (s\<lparr>io := h,
    mem := store_bytes (mem s) buffer (disk_bytes disk (512 * unat lba) (512 * unat sector_count))\<rparr>)"
proof (cases "sector_count = 0")
  case True
  then show ?thesis by (simp add: ata_read_def outb_def disk_bytes_def) (rule exI, rule refl)
next
  case False
  let ?h = "Out8 (bus + 7) 32 # Out8 (bus + 5) (ucast (drop_bit 16 lba)) # Out8 (bus + 4) (ucast (drop_bit 8 lba)) #
    Out8 (bus + 3) (ucast lba) # Out8 (bus + 2) (ucast sector_count) # Out8 (bus + 1) 0 #
    Out8 (bus + 6) (224 OR ucast (drop_bit 24 lba AND 15)) # io s"
  have run: "ata_read env buffer bus lba sector_count s =
      for_each [0..<unat sector_count] (ata_sector env buffer bus) (s\<lparr>io := ?h\<rparr>)"
    by (simp add: ata_read_def outb_def)
  have l: "lba_of bus ?h = unat lba" using lba_bytes [OF lba] by (simp add: lba_of_def)
  have c: "sectors_of bus ?h = unat sector_count"
  proof -
    have "unat (ucast sector_count :: u8) = unat sector_count mod 256"
      by (simp add: unsigned_ucast_eq take_bit_eq_mod)
    moreover have "unat sector_count \<noteq> 0" using False by (simp add: unat_eq_0)
    ultimately show ?thesis using count by (cases "unat sector_count = 256") (simp_all add: sectors_of_def)
  qed
  have "(224 OR x) AND 80 = 64 OR (x AND 80)" for x :: u8 by (simp add: bit.conj_disj_distrib2)
  moreover have "ucast (y AND 15) AND (80 :: u8) = 0" for y :: u32
  proof -
    have "ucast (y AND 15) = (ucast y AND 15 :: u8)" by (simp add: unsigned_and_eq)
    then show ?thesis by (simp add: and.assoc)
  qed
  ultimately have drive: "(224 OR ucast (drop_bit 24 lba AND 15)) AND 80 = (64 :: u8)" by simp
  have "reading bus h" if "transferred bus h < 256 * unat sector_count" "\<And>port. last_out port h = last_out port ?h" for h
    using that c drive by (simp add: reading_def sectors_of_def)
  from ata_sectors_read [OF disk, of "unat sector_count" "s\<lparr>io := ?h\<rparr>" "unat sector_count" buffer] this
  show ?thesis unfolding run using l by auto
qed

text \<open>C29.
  \<open>ata_read\<close> reads the disk. With a drive that obeys the protocol and is ready after some number of polls,
  for block addresses of 28 bits and up to 256 sectors, it returns; the buffer holds the bytes of the sectors
  asked for, in order, and nothing else changed but the port history.
\<close>

theorem ata_read_fills:
  assumes "ata_disk env bus disk n" and "unat lba < 2 ^ 28" and "unat sector_count \<le> 256"
  shows "\<exists>h m. ata_read env buffer bus lba sector_count s = ret () (s\<lparr>io := h, mem := m\<rparr>) \<and>
    bytes_at m buffer (512 * unat sector_count) = map disk [512 * unat lba..<512 * (unat lba + unat sector_count)] \<and>
    same_on (- region buffer (512 * unat sector_count)) (mem s) m"
proof -
  let ?bs = "disk_bytes disk (512 * unat lba) (512 * unat sector_count)"
  have len: "length ?bs \<le> 2 ^ 32" using assms(3) by simp
  have "bytes_at (store_bytes (mem s) buffer ?bs) buffer (512 * unat sector_count) = ?bs"
    using bytes_at_store_bytes [OF len, of "mem s" buffer] by simp
  moreover have "same_on (- region buffer (512 * unat sector_count)) (mem s) (store_bytes (mem s) buffer ?bs)"
    using len by (intro same_on_store_bytes) simp_all
  moreover have "?bs = map disk [512 * unat lba..<512 * (unat lba + unat sector_count)]"
    by (simp add: disk_bytes_def algebra_simps)
  ultimately show ?thesis using ata_read_bytes [OF assms, of buffer s] by auto
qed

text \<open>A drive that is busy for five polls, then not yet ready once.\<close>

definition example_drive :: "(nat \<Rightarrow> u8) \<Rightarrow> environment" where
  "example_drive disk h port =
    (if port = 496 + 7 then if length (polls 496 h) < 5 then 128 else if length (polls 496 h) = 5 then 64 else 72
     else let k = 512 * lba_of 496 h + 2 * transferred 496 h in ucast (disk k) OR push_bit 8 (ucast (disk (k + 1))))"

lemma example_drive_disk: "ata_disk (example_drive disk) 496 disk 6"
proof -
  have lo: "ucast (ucast (ucast a OR push_bit 8 (ucast b) :: u32) :: u16) = a" for a b :: u8
    by (rule bit_word_eqI) (auto simp: bit_simps)
  have hi: "ucast (drop_bit 8 (ucast (ucast a OR push_bit 8 (ucast b) :: u32) :: u16)) = b" for a b :: u8
    by (rule bit_word_eqI) (auto simp: bit_simps dest: bit_imp_le_length)
  show ?thesis unfolding ata_disk_def
    by (intro allI impI conjI) (simp_all add: example_drive_def lo hi Let_def)
qed

theorem ata_read_fills_witness:
  "\<exists>h m. ata_read (example_drive of_nat) 1000 496 3 2 (boot_state (\<lambda>_. 0)) = ret () (boot_state m\<lparr>io := h\<rparr>) \<and>
    bytes_at m 1000 1024 = map of_nat [1536..<2560] \<and> m 999 = 0"
proof -
  obtain h m where "ata_read (example_drive of_nat) 1000 496 3 2 (boot_state (\<lambda>_. 0)) =
      ret () ((boot_state (\<lambda>_. 0))\<lparr>io := h, mem := m\<rparr>)"
    "bytes_at m 1000 1024 = map of_nat [1536..<2560]" "same_on (- region 1000 1024) (\<lambda>_. 0) m"
    using ata_read_fills [OF example_drive_disk [of of_nat], of 3 2 1000 "boot_state (\<lambda>_. 0)"]
    by (auto simp: boot_state_def simp del: upt_rec_numeral)
  moreover have "999 \<in> - region 1000 1024" by (simp add: in_region_nat)
  ultimately show ?thesis by (metis (no_types) boot_state_def kernel.update_convs(1,2) same_onD)
qed

end
