(* ===== verification/Fat12.thy ===== *)
theory Fat12
  imports Ata
begin

text \<open>
  The FAT12 driver, \<open>filesystem/fat12.c\<close>, over the disk driver and the heap. The parameters \<open>env\<close> (the
  devices), \<open>slot\<close> (the address of the local variable \<open>entries\<close>), \<open>buffer\<close> and \<open>ext\<close> (the local arrays), \<open>lit\<close>
  (the string literals) and \<open>code\<close> (the entry points of the functions) are what compiler and linker choose.
\<close>

section \<open>Data\<close>

text \<open>The fields of the BIOS parameter block that the driver reads (\<open>fat12_extended_bios_parameter_block\<close>).\<close>

definition bytes_per_sector :: "kernel \<Rightarrow> u32" where
  "bytes_per_sector s = ucast (load16 (mem s) (bpb s + 11))"

definition sectors_per_cluster :: "kernel \<Rightarrow> u32" where
  "sectors_per_cluster s = ucast (mem s (bpb s + 13))"

definition reserved_sectors :: "kernel \<Rightarrow> u32" where
  "reserved_sectors s = ucast (load16 (mem s) (bpb s + 14))"

definition fats :: "kernel \<Rightarrow> u32" where
  "fats s = ucast (mem s (bpb s + 16))"

definition directory_entries :: "kernel \<Rightarrow> u32" where
  "directory_entries s = ucast (load16 (mem s) (bpb s + 17))"

definition sectors_per_fat :: "kernel \<Rightarrow> u32" where
  "sectors_per_fat s = ucast (load16 (mem s) (bpb s + 22))"

text \<open>\<open>fat12_directory_entry\<close>, 32 bytes; the file name is at offset 0.\<close>

definition entry_attributes :: "memory \<Rightarrow> u32 \<Rightarrow> u8" where
  "entry_attributes m e = m (e + 11)"

definition entry_cluster_high :: "memory \<Rightarrow> u32 \<Rightarrow> u16" where
  "entry_cluster_high m e = load16 m (e + 20)"

definition entry_cluster_low :: "memory \<Rightarrow> u32 \<Rightarrow> u16" where
  "entry_cluster_low m e = load16 m (e + 26)"

definition entry_size :: "memory \<Rightarrow> u32 \<Rightarrow> u32" where
  "entry_size m e = load32 m (e + 28)"

definition entry_cluster :: "memory \<Rightarrow> u32 \<Rightarrow> u32" where
  "entry_cluster m e = push_bit 16 (ucast (entry_cluster_high m e)) OR ucast (entry_cluster_low m e)"

text \<open>\<open>fs_file\<close> (284 bytes) and \<open>fs_dir\<close> (276 bytes); the name is at offset 0.\<close>

definition file_len :: "memory \<Rightarrow> u32 \<Rightarrow> u32" where
  "file_len m file = load32 m (file + 256)"

definition file_offset :: "memory \<Rightarrow> u32 \<Rightarrow> u32" where
  "file_offset m file = load32 m (file + 260)"

definition file_ref :: "memory \<Rightarrow> u32 \<Rightarrow> u32" where
  "file_ref m file = load32 m (file + 264)"

definition set_file_len :: "u32 \<Rightarrow> u32 \<Rightarrow> memory \<Rightarrow> memory" where
  "set_file_len file v m = store32 m (file + 256) v"

definition set_file_offset :: "u32 \<Rightarrow> u32 \<Rightarrow> memory \<Rightarrow> memory" where
  "set_file_offset file v m = store32 m (file + 260) v"

definition set_file_ref :: "u32 \<Rightarrow> u32 \<Rightarrow> memory \<Rightarrow> memory" where
  "set_file_ref file v m = store32 m (file + 264) v"

definition dir_ref :: "memory \<Rightarrow> u32 \<Rightarrow> u32" where
  "dir_ref m dir = load32 m (dir + 256)"

definition set_dir_ref :: "u32 \<Rightarrow> u32 \<Rightarrow> memory \<Rightarrow> memory" where
  "set_dir_ref dir v m = store32 m (dir + 256) v"

section \<open>Names\<close>

fun fat12_strcmp :: "memory \<Rightarrow> u32 \<Rightarrow> u32 \<Rightarrow> nat \<Rightarrow> bool" where
  "fat12_strcmp m str1 str2 0 = True"
| "fat12_strcmp m str1 str2 (Suc n) =
    (if m str1 = 0 \<or> m str1 \<noteq> m str2 then False else fat12_strcmp m (str1 + 1) (str2 + 1) n)"

definition fat12_valid_cluster :: "u16 \<Rightarrow> bool" where
  "fat12_valid_cluster cluster \<longleftrightarrow> 2 \<le> cluster \<and> cluster \<le> 0xFEF"

definition fat12_format_file_name :: "u32 \<Rightarrow> u32 \<Rightarrow> memory \<Rightarrow> memory option" where
  "fat12_format_file_name src dest m =
    Option.bind (strtrim dest 32 (memcpy dest src 8 m)) (\<lambda>m.
    Option.bind (strlen m dest) (\<lambda>k.
      Some (memcpy (dest + (k + 1)) (src + 8) 3 (store8 m (dest + k) 46))))"

definition fat12_format_dir_name :: "u32 \<Rightarrow> u32 \<Rightarrow> memory \<Rightarrow> memory option" where
  "fat12_format_dir_name src dest m = strtrim dest 32 (memcpy dest src 11 m)"

section \<open>Clusters\<close>

definition fat12_cluster_lba :: "u16 \<Rightarrow> kernel \<Rightarrow> u32" where
  "fat12_cluster_lba cluster s = lba_data s + (ucast cluster - 2) * sectors_per_cluster s"

definition fat12_read_fat :: "environment \<Rightarrow> u16 \<Rightarrow> kernel \<Rightarrow> u16 krun" where
  "fat12_read_fat env cluster s =
    (if bytes_per_sector s = 0 then fail Divide_error else
     let byte_offset = ucast cluster + ucast (cluster div 2);
         lba_offset = byte_offset div bytes_per_sector s;
         sector_offset = byte_offset mod bytes_per_sector s
     in andthen (malloc (bytes_per_sector s) s) (\<lambda>buffer s.
        andthen (ata_read env buffer (ucast (ata_bus s)) (lba_fat1 s + lba_offset) 1 s) (\<lambda>_ s.
        let next_cluster = load16 (mem s) (buffer + sector_offset) in
        andthen (free buffer s) (\<lambda>_.
          ret (if cluster AND 1 \<noteq> 0 then drop_bit 4 next_cluster else next_cluster AND 0xFFF)))))"

text \<open>The chain of a cluster, up to a number of clusters.\<close>

fun fat12_chain :: "environment \<Rightarrow> nat \<Rightarrow> u16 \<Rightarrow> kernel \<Rightarrow> u16 list krun" where
  "fat12_chain env 0 cluster s = ret [] s"
| "fat12_chain env (Suc n) cluster s =
    (if \<not> fat12_valid_cluster cluster then ret [] s
     else andthen (fat12_read_fat env cluster s) (\<lambda>next s.
          andthen (fat12_chain env n next s) (\<lambda>clusters. ret (cluster # clusters))))"

text \<open>
  The buffer of the chain goes to the variable at \<open>slot\<close>. The address each cluster is read to is an element
  of an array of pointers that starts there.
\<close>

definition fat12_read_cluster_chain :: "environment \<Rightarrow> u32 \<Rightarrow> u16 \<Rightarrow> kernel \<Rightarrow> u32 krun" where
  "fat12_read_cluster_chain env slot cluster s =
    andthen (fat12_chain env 256 cluster s) (\<lambda>clusters s.
    let len = word_of_nat (length clusters) in
    andthen (malloc (bytes_per_sector s * sectors_per_cluster s * len) s) (\<lambda>buffer s.
    andthen (for_each [0..<length clusters] (\<lambda>i s.
        ata_read env (load32 (mem s) (slot + 4 * (bytes_per_sector s * sectors_per_cluster s * word_of_nat i)))
          (ucast (ata_bus s)) (fat12_cluster_lba (clusters ! i) s) (sectors_per_cluster s) s)
      (s\<lparr>mem := store32 (mem s) slot buffer\<rparr>)) (\<lambda>_.
      ret len)))"

definition fat12_read_directory :: "environment \<Rightarrow> u32 \<Rightarrow> u16 \<Rightarrow> kernel \<Rightarrow> u32 krun" where
  "fat12_read_directory env slot cluster s =
    (if cluster = 0 then
       andthen (malloc (directory_entries s * 32) s) (\<lambda>buffer s.
       if bytes_per_sector s = 0 then fail Divide_error else
       andthen (ata_read env buffer (ucast (ata_bus s)) (lba_root s)
           (directory_entries s * 32 div bytes_per_sector s) s) (\<lambda>_ s.
         ret (directory_entries s) (s\<lparr>mem := store32 (mem s) slot buffer\<rparr>)))
     else
       andthen (fat12_read_cluster_chain env slot cluster s) (\<lambda>chain_len s.
         ret (chain_len * sectors_per_cluster s * bytes_per_sector s div 32) s))"

section \<open>Paths\<close>

text \<open>The entry with an attribute and a name, and the step into a directory at a slash.\<close>

definition fat12_find :: "memory \<Rightarrow> u32 \<Rightarrow> u32 \<Rightarrow> u8 \<Rightarrow> u32 \<Rightarrow> u32 option" where
  "fat12_find m base entries_len attributes name =
    find (\<lambda>entry. entry_attributes m entry = attributes \<and> fat12_strcmp m entry name 11)
      (map (\<lambda>k. base + 32 * k) (indices entries_len))"

definition fat12_enter :: "environment \<Rightarrow> u32 \<Rightarrow> u32 \<Rightarrow> u32 \<Rightarrow> kernel \<Rightarrow> u32 option krun" where
  "fat12_enter env slot buffer entries_len s =
    (case fat12_find (mem s) (load32 (mem s) slot) entries_len 0x10 buffer of
       None \<Rightarrow> ret None s
     | Some entry \<Rightarrow>
         let cluster = ucast (entry_cluster (mem s) entry) in
         andthen (free (load32 (mem s) slot) s) (\<lambda>_ s.
         andthen (fat12_read_directory env slot cluster s) (\<lambda>entries_len s.
           ret (Some entries_len) (s\<lparr>mem := strset buffer 32 12 (mem s)\<rparr>))))"

text \<open>The loop that moves the extension to its place.\<close>

partial_function (option) fat12_extension :: "u32 \<Rightarrow> u32 \<Rightarrow> u32 \<Rightarrow> memory \<Rightarrow> memory option" where
  "fat12_extension buffer ext k m =
    (if k < 11 then
       if m ext \<noteq> 0 then
         if 8 \<le> k then fat12_extension buffer ext (k + 1) (store8 m (buffer + k) (m (ext + (k - 8))))
         else fat12_extension buffer ext (k + 1) (store8 m (buffer + k) 32)
       else if m (buffer + k) = 46 then fat12_extension buffer ext k (memcpy ext (buffer + (k + 1)) 3 m)
       else fat12_extension buffer ext (k + 1) m
     else Some m)"

definition fat12_open_file :: "u32 \<Rightarrow> u32 \<Rightarrow> u32 \<Rightarrow> u32 \<Rightarrow> kernel \<Rightarrow> u32 krun" where
  "fat12_open_file slot buffer ext entries_len s =
    (case strlen (mem s) buffer of
       None \<Rightarrow> None
     | Some n \<Rightarrow>
         if n = 0 then ret 0 s
         else case fat12_extension buffer ext 1 (memset ext 0 3 (mem s)) of
           None \<Rightarrow> None
         | Some m \<Rightarrow>
             let s = s\<lparr>mem := m\<rparr> in
             if m ext = 0 then ret 0 s
             else case fat12_find m (load32 m slot) entries_len 0x20 buffer of
               None \<Rightarrow> ret 0 s
             | Some entry \<Rightarrow>
                 andthen (malloc 284 s) (\<lambda>file s.
                 let m = set_file_ref file (entry_cluster (mem s) entry) (mem s);
                     m = set_file_len file (entry_size m entry) m;
                     m = set_file_offset file 0 m
                 in case fat12_format_file_name entry file (memset file 0 256 m) of
                      None \<Rightarrow> None
                    | Some m \<Rightarrow> andthen (free (load32 m slot) (s\<lparr>mem := m\<rparr>)) (\<lambda>_. ret file)))"

partial_function (option) fat12_open_loop ::
  "environment \<Rightarrow> u32 \<Rightarrow> u32 \<Rightarrow> u32 \<Rightarrow> u32 \<Rightarrow> u32 \<Rightarrow> u32 \<Rightarrow> u32 \<Rightarrow> kernel \<Rightarrow> u32 krun" where
  "fat12_open_loop env slot buffer ext path entries_len i j s =
    (let c = mem s (path + j) in
     if c = 0 then fat12_open_file slot buffer ext entries_len s
     else if c = 47 then
       andthen (fat12_enter env slot buffer entries_len s) (\<lambda>r s.
         case r of
           None \<Rightarrow> ret 0 s
         | Some entries_len \<Rightarrow> fat12_open_loop env slot buffer ext path entries_len 0 (j + 1) s)
     else if i = 11 then ret 0 s
     else fat12_open_loop env slot buffer ext path entries_len (i + 1) (j + 1)
            (s\<lparr>mem := store8 (mem s) (buffer + i) c\<rparr>))"

definition fat12_open :: "environment \<Rightarrow> u32 \<Rightarrow> u32 \<Rightarrow> u32 \<Rightarrow> u32 \<Rightarrow> kernel \<Rightarrow> u32 krun" where
  "fat12_open env slot buffer ext path s =
    andthen (fat12_read_directory env slot 0 s) (\<lambda>entries_len s.
      fat12_open_loop env slot buffer ext path entries_len 0 0 (s\<lparr>mem := strset buffer 32 12 (mem s)\<rparr>))"

definition fat12_open_directory :: "u32 \<Rightarrow> u32 \<Rightarrow> u32 \<Rightarrow> kernel \<Rightarrow> u32 krun" where
  "fat12_open_directory slot buffer entries_len s =
    (case strlen (mem s) buffer of
       None \<Rightarrow> None
     | Some n \<Rightarrow>
         if n = 0 then ret 0 s
         else case fat12_find (mem s) (load32 (mem s) slot) entries_len 0x10 buffer of
           None \<Rightarrow> ret 0 s
         | Some entry \<Rightarrow>
             andthen (malloc 276 s) (\<lambda>dir s.
             let m = set_dir_ref dir (entry_cluster (mem s) entry) (mem s)
             in case fat12_format_dir_name entry dir (memset dir 0 256 m) of
                  None \<Rightarrow> None
                | Some m \<Rightarrow> andthen (free (load32 m slot) (s\<lparr>mem := m\<rparr>)) (\<lambda>_. ret dir)))"

partial_function (option) fat12_opendir_loop ::
  "environment \<Rightarrow> u32 \<Rightarrow> u32 \<Rightarrow> u32 \<Rightarrow> u32 \<Rightarrow> u32 \<Rightarrow> u32 \<Rightarrow> kernel \<Rightarrow> u32 krun" where
  "fat12_opendir_loop env slot buffer path entries_len i j s =
    (let c = mem s (path + j) in
     if c = 0 then fat12_open_directory slot buffer entries_len s
     else if c = 47 \<and> mem s (path + (j + 1)) \<noteq> 0 then
       andthen (fat12_enter env slot buffer entries_len s) (\<lambda>r s.
         case r of
           None \<Rightarrow> ret 0 s
         | Some entries_len \<Rightarrow> fat12_opendir_loop env slot buffer path entries_len 0 (j + 1) s)
     else if i = 11 then ret 0 s
     else fat12_opendir_loop env slot buffer path entries_len (i + 1) (j + 1)
            (s\<lparr>mem := store8 (mem s) (buffer + i) c\<rparr>))"

definition fat12_opendir :: "environment \<Rightarrow> u32 \<Rightarrow> u32 \<Rightarrow> u32 \<Rightarrow> kernel \<Rightarrow> u32 krun" where
  "fat12_opendir env slot buffer path s =
    (case strtrim path 47 (mem s) of
       None \<Rightarrow> None
     | Some m \<Rightarrow>
         let s = s\<lparr>mem := m\<rparr> in
         case strlen m path of
           None \<Rightarrow> None
         | Some n \<Rightarrow>
             if n = 0 then andthen (malloc 276 s) (\<lambda>dir s. ret dir (s\<lparr>mem := set_dir_ref dir 0 (mem s)\<rparr>))
             else andthen (fat12_read_directory env slot 0 s) (\<lambda>entries_len s.
               fat12_opendir_loop env slot buffer path entries_len 0 0 (s\<lparr>mem := strset buffer 32 12 (mem s)\<rparr>)))"

definition fat12_close :: "u32 \<Rightarrow> kernel \<Rightarrow> unit krun" where
  "fat12_close file s = free file s"

definition fat12_closedir :: "u32 \<Rightarrow> kernel \<Rightarrow> unit krun" where
  "fat12_closedir dir s = free dir s"

section \<open>Reading\<close>

text \<open>The clusters and offsets at which a span begins and ends.\<close>

type_synonym span = "u32 \<times> u32 \<times> u32 \<times> u32"

definition fat12_slice :: "u32 \<Rightarrow> u32 \<Rightarrow> kernel \<Rightarrow> span" where
  "fat12_slice offset len s =
    (offset div bytes_per_sector s div sectors_per_cluster s,
     offset mod (bytes_per_sector s * sectors_per_cluster s),
     (offset + len) div bytes_per_sector s div sectors_per_cluster s,
     (offset + len) mod (bytes_per_sector s * sectors_per_cluster s))"

text \<open>One cluster of the span. The result is the position in the destination and the part copied.\<close>

definition fat12_read_slice ::
  "environment \<Rightarrow> u32 \<Rightarrow> u32 \<Rightarrow> u32 \<Rightarrow> span \<Rightarrow> u32 \<Rightarrow> u32 \<Rightarrow> u32 \<times> u32 \<times> u32 \<Rightarrow> kernel \<Rightarrow> (u32 \<times> u32 \<times> u32) krun" where
  "fat12_read_slice env file dest_buffer src_buffer span i cluster pos s =
    (case span of (cluster_begin, offset_begin, cluster_end, offset_end) \<Rightarrow>
     case pos of (dest_offset, src_offset, src_len) \<Rightarrow>
     andthen (ata_read env src_buffer (ucast (ata_bus s)) (fat12_cluster_lba (ucast cluster) s) (sectors_per_cluster s) s)
       (\<lambda>_ s.
        let (src_offset, src_len) =
              (if i = cluster_begin \<and> i = cluster_end then (offset_begin, offset_end - offset_begin)
               else if i = cluster_begin then (offset_begin, bytes_per_sector s * sectors_per_cluster s - offset_begin)
               else if i = cluster_end then (0, offset_end)
               else (src_offset, src_len));
            m = memcpy (dest_buffer + dest_offset) (src_buffer + src_offset) src_len (mem s);
            m = set_file_offset file (file_offset m file + src_len) m
        in ret (dest_offset + src_len, src_offset, src_len) (s\<lparr>mem := m\<rparr>)))"

text \<open>The loop over the chain from its start; the result says whether it ran to its end.\<close>

fun fat12_read_loop ::
  "environment \<Rightarrow> u32 \<Rightarrow> u32 \<Rightarrow> u32 \<Rightarrow> span \<Rightarrow> u32 list \<Rightarrow> u32 \<Rightarrow> u32 \<times> u32 \<times> u32 \<Rightarrow> kernel \<Rightarrow> bool krun" where
  "fat12_read_loop env file dest_buffer src_buffer span [] cluster pos s = ret True s"
| "fat12_read_loop env file dest_buffer src_buffer span (i # is) cluster pos s =
    (if \<not> fat12_valid_cluster (ucast cluster) then ret False s
     else andthen
       (if fst span \<le> i \<and> i \<le> fst (snd (snd span))
        then fat12_read_slice env file dest_buffer src_buffer span i cluster pos s else ret pos s) (\<lambda>pos s.
     andthen
       (if i \<noteq> fst (snd (snd span))
        then andthen (fat12_read_fat env (ucast cluster) s) (\<lambda>next. ret (ucast next)) else ret cluster s) (\<lambda>cluster s.
       fat12_read_loop env file dest_buffer src_buffer span is cluster pos s)))"

definition fat12_read :: "environment \<Rightarrow> u32 \<Rightarrow> u32 \<Rightarrow> u32 \<Rightarrow> kernel \<Rightarrow> unit krun" where
  "fat12_read env file buffer len s =
    (let len = (if file_len (mem s) file < file_offset (mem s) file + len
                then file_len (mem s) file - file_offset (mem s) file else len)
     in if len = 0 then ret () s
        else if bytes_per_sector s = 0 \<or> sectors_per_cluster s = 0 then fail Divide_error
        else let span = fat12_slice (file_offset (mem s) file) len s;
                 cluster_end = fst (snd (snd span))
             in andthen (malloc (bytes_per_sector s * sectors_per_cluster s) s) (\<lambda>src_buffer s.
                andthen (fat12_read_loop env file buffer src_buffer span (indices cluster_end @ [cluster_end])
                    (file_ref (mem s) file) (0, 0, 0) s) (\<lambda>complete.
                  if complete then free src_buffer else ret ())))"

text \<open>One entry of a directory that is read; \<open>dirents\<close> and \<open>len\<close> are the addresses of the caller's variables.\<close>

definition fat12_readdir_entry :: "(string \<Rightarrow> u32) \<Rightarrow> u32 \<Rightarrow> u32 \<Rightarrow> u32 \<Rightarrow> u32 \<Rightarrow> kernel \<Rightarrow> unit krun" where
  "fat12_readdir_entry lit base dirents len i s =
    (let entry = base + 32 * i in
     if entry_attributes (mem s) entry \<noteq> 0x10 \<and> entry_attributes (mem s) entry \<noteq> 0x20 then ret () s
     else if fat12_strcmp (mem s) entry (lit ''.          '') 11 \<or>
             fat12_strcmp (mem s) entry (lit ''..         '') 11 then ret () s
     else andthen
       (if load32 (mem s) dirents = 0 then malloc 257 s
        else realloc (load32 (mem s) dirents) ((load32 (mem s) len + 1) * 257) s) (\<lambda>p s.
       let m = store32 (mem s) dirents p;
           dirent = p + 257 * load32 m len;
           attributes = entry_attributes m entry;
           m = memset dirent 0 256 m
       in case (if attributes = 0x20 then fat12_format_file_name entry dirent m
                else fat12_format_dir_name entry dirent m) of
            None \<Rightarrow> None
          | Some m \<Rightarrow>
              let m = store8 m (dirent + 256) (if attributes = 0x20 then 0 else 1)
              in ret () (s\<lparr>mem := store32 m len (load32 m len + 1)\<rparr>)))"

definition fat12_readdir :: "environment \<Rightarrow> (string \<Rightarrow> u32) \<Rightarrow> u32 \<Rightarrow> u32 \<Rightarrow> u32 \<Rightarrow> u32 \<Rightarrow> kernel \<Rightarrow> unit krun" where
  "fat12_readdir env lit slot dir dirents len s =
    andthen (fat12_read_directory env slot (ucast (dir_ref (mem s) dir)) s) (\<lambda>entries_len s.
      for_each (indices entries_len) (\<lambda>i s. fat12_readdir_entry lit (load32 (mem s) slot) dirents len i s)
        (s\<lparr>mem := store32 (mem s) dirents 0\<rparr>))"

definition fat12_write :: "u32 \<Rightarrow> u32 \<Rightarrow> u32 \<Rightarrow> kernel \<Rightarrow> unit krun" where
  "fat12_write file buffer len s = ret () s"

definition fat12_seek :: "u32 \<Rightarrow> u32 \<Rightarrow> kernel \<Rightarrow> unit krun" where
  "fat12_seek file offset s =
    (let m = mem s in
     ret () (s\<lparr>mem := set_file_offset file
       (if file_len m file < file_offset m file + offset then file_len m file else offset) m\<rparr>))"

section \<open>Initialisation\<close>

text \<open>\<open>fs_driver\<close>, 36 bytes: the mount letter and the entry points of the operations.\<close>

definition fat12_init :: "(string \<Rightarrow> u32) \<Rightarrow> u32 \<Rightarrow> kernel \<Rightarrow> u32 krun" where
  "fat12_init code bios_parameter_block s =
    (let s = s\<lparr>bpb := bios_parameter_block\<rparr>;
         s = s\<lparr>lba_fat1 := reserved_sectors s\<rparr>;
         s = s\<lparr>lba_root := lba_fat1 s + sectors_per_fat s * fats s\<rparr>
     in if bytes_per_sector s = 0 then fail Divide_error
        else let s = s\<lparr>lba_data := lba_root s + directory_entries s * 32 div bytes_per_sector s\<rparr>;
                 s = s\<lparr>ata_bus := 496\<rparr>
             in andthen (malloc 36 s) (\<lambda>driver s.
               let m = store8 (mem s) driver 0;
                   m = store32 m (driver + 4) (code ''fat12_open'');
                   m = store32 m (driver + 8) (code ''fat12_opendir'');
                   m = store32 m (driver + 12) (code ''fat12_close'');
                   m = store32 m (driver + 16) (code ''fat12_closedir'');
                   m = store32 m (driver + 20) (code ''fat12_read'');
                   m = store32 m (driver + 24) (code ''fat12_readdir'');
                   m = store32 m (driver + 28) (code ''fat12_write'');
                   m = store32 m (driver + 32) (code ''fat12_seek'')
               in ret driver (s\<lparr>mem := m\<rparr>)))"

definition fat12_destroy :: "u32 \<Rightarrow> kernel \<Rightarrow> unit krun" where
  "fat12_destroy driver s = free driver s"

end
