(* ===== verification/Fat12_Volume.thy ===== *)
theory Fat12_Volume
  imports Fat12
begin

text \<open>
  The FAT12 file system as a mathematical object: the bytes of the disk, the entries of the allocation
  table, directories and the lookup of a path. The lemmas show that the driver's routines that read the
  table and directories compute these, through the disk driver and the heap.
\<close>

section \<open>Effects\<close>

text \<open>A routine that changes the port history and the memory outside \<open>K\<close> only.\<close>

definition effect :: "u32 set \<Rightarrow> kernel \<Rightarrow> kernel \<Rightarrow> bool" where
  "effect K s s' \<longleftrightarrow> s'\<lparr>io := io s, mem := mem s\<rparr> = s \<and> same_on K (mem s) (mem s')"

lemma effect_refl [simp]: "effect K s s"
  by (simp add: effect_def)

lemma effect_trans:
  assumes "effect K s s'" and "effect K s' s''"
  shows "effect K s s''"
proof -
  have "s''\<lparr>io := io s, mem := mem s\<rparr> = (s''\<lparr>io := io s', mem := mem s'\<rparr>)\<lparr>io := io s, mem := mem s\<rparr>" by simp
  with assms show ?thesis by (auto simp: effect_def intro: same_on_trans)
qed

lemma effect_mono: "effect K s s' \<Longrightarrow> K' \<subseteq> K \<Longrightarrow> effect K' s s'"
  by (auto simp: effect_def intro: same_on_mono)

lemma effect_state:
  assumes "effect K s s'"
  obtains h m where "s' = s\<lparr>io := h, mem := m\<rparr>" "same_on K (mem s) m"
proof
  have "s'\<lparr>io := io s, mem := mem s\<rparr> = s" using assms by (simp add: effect_def)
  then have "s'\<lparr>io := io s, mem := mem s\<rparr>\<lparr>io := io s', mem := mem s'\<rparr> = s\<lparr>io := io s', mem := mem s'\<rparr>"
    by (simp only:)
  then show "s' = s\<lparr>io := io s', mem := mem s'\<rparr>" by simp
  show "same_on K (mem s) (mem s')" using assms by (simp add: effect_def)
qed

lemma effect_mem: "same_on K (mem s) m \<Longrightarrow> effect K s (s\<lparr>mem := m\<rparr>)"
  by (simp add: effect_def)

lemma effect_io_mem: "same_on K (mem s) m \<Longrightarrow> effect K s (s\<lparr>io := h, mem := m\<rparr>)"
  by (simp add: effect_def)

lemma effect_globals:
  assumes "effect K s s'"
  shows "bpb s' = bpb s" "lba_fat1 s' = lba_fat1 s" "lba_root s' = lba_root s" "lba_data s' = lba_data s"
    "ata_bus s' = ata_bus s" "drivers s' = drivers s"
proof -
  obtain h m where "s' = s\<lparr>io := h, mem := m\<rparr>" using assms by (rule effect_state)
  then show "bpb s' = bpb s" "lba_fat1 s' = lba_fat1 s" "lba_root s' = lba_root s" "lba_data s' = lba_data s"
    "ata_bus s' = ata_bus s" "drivers s' = drivers s" by simp_all
qed

lemma malloc_outcome:
  assumes "heap_holds s A L" and "n \<noteq> 0"
  shows "outcome (malloc n s) (\<lambda>p s'. \<exists>k. n \<le> k \<and> L p = None \<and> p \<noteq> 0 \<and>
    heap_holds s' A (L(p \<mapsto> k)) \<and> effect (- A \<union> blocks L) s s')"
proof (cases rule: malloc_cases [OF assms])
  case 2
  then show ?thesis by (auto intro!: outcome_ret effect_mem)
qed simp

lemma free_outcome:
  assumes "heap_holds s A L" and "L p = Some k"
  shows "outcome (free p s) (\<lambda>_ s'. heap_holds s' A (L(p := None)) \<and> effect (- A \<union> blocks L) s s')"
proof -
  obtain m where "free p s = ret () (s\<lparr>mem := m\<rparr>)" "heap_holds (s\<lparr>mem := m\<rparr>) A (L(p := None))"
      "same_on (- A \<union> blocks L) (mem s) m"
    using kheap.dealloc_block [OF assms] by blast
  then show ?thesis by (auto intro!: outcome_ret effect_mem)
qed

text \<open>A write to a live block.\<close>

lemma block_write:
  assumes "heap_holds s A L" and "L p = Some k" and "effect (- region p (unat k)) s s'"
  shows "heap_holds s' A L"
proof -
  obtain h m where s': "s' = s\<lparr>io := h, mem := m\<rparr>" "same_on (- region p (unat k)) (mem s) m"
    using assms by (elim effect_state)
  have "heap_holds (s\<lparr>mem := m\<rparr>\<lparr>io := h\<rparr>) A L" unfolding heap_holds_update using kheap.write_block [OF assms(1,2) s'(2)] .
  moreover have "s' = s\<lparr>mem := m\<rparr>\<lparr>io := h\<rparr>" unfolding s'(1) by simp
  ultimately show ?thesis by (simp only:)
qed

lemma outside_write:
  assumes "heap_holds s A L" and "effect A s s'"
  shows "heap_holds s' A L"
proof -
  obtain h m where s': "s' = s\<lparr>io := h, mem := m\<rparr>" "same_on (A) (mem s) m"
    using assms by (elim effect_state)
  have "heap_holds (s\<lparr>mem := m\<rparr>\<lparr>io := h\<rparr>) A L" unfolding heap_holds_update using kheap.write_outside [OF assms(1) s'(2)] .
  moreover have "s' = s\<lparr>mem := m\<rparr>\<lparr>io := h\<rparr>" unfolding s'(1) by simp
  ultimately show ?thesis by (simp only:)
qed

lemma ata_read_outcome:
  assumes "ata_disk env bus disk n" and "unat lba < 2 ^ 28" and "unat count \<le> 256"
  shows "outcome (ata_read env p bus lba count s) (\<lambda>_ s'.
    bytes_at (mem s') p (512 * unat count) = disk_bytes disk (512 * unat lba) (512 * unat count) \<and>
    effect (- region p (512 * unat count)) s s')"
proof -
  let ?bs = "disk_bytes disk (512 * unat lba) (512 * unat count)"
  obtain h where h: "ata_read env p bus lba count s = ret () (s\<lparr>io := h, mem := store_bytes (mem s) p ?bs\<rparr>)"
    using ata_read_bytes [OF assms] by blast
  have len: "length ?bs \<le> 2 ^ 32" using assms(3) by simp
  show ?thesis unfolding h
  proof (rule outcome_ret)
    show "bytes_at (mem (s\<lparr>io := h, mem := store_bytes (mem s) p ?bs\<rparr>)) p (512 * unat count) = ?bs \<and>
        effect (- region p (512 * unat count)) s (s\<lparr>io := h, mem := store_bytes (mem s) p ?bs\<rparr>)"
      using bytes_at_store_bytes [OF len, of "mem s" p] len by (auto intro!: effect_io_mem same_on_store_bytes)
  qed
qed

lemma fresh_effect:
  assumes "heap_holds s A L'" and "L' p = Some k" and "L p = None" and "L \<subseteq>\<^sub>m L'"
    and e: "effect (- region p (unat k)) s s'"
  shows "heap_holds s' A L'" "effect (- A \<union> blocks L) s s'"
proof -
  show "heap_holds s' A L'" using block_write [OF assms(1,2) e] .
  show "effect (- A \<union> blocks L) s s'"
    using e by (rule effect_mono) (use kheap.fresh_away [OF assms(1-4)] in blast)
qed

lemma map_le_upd: "L p = None \<Longrightarrow> L \<subseteq>\<^sub>m L(p \<mapsto> k)"
  by (auto simp: map_le_def dom_def)

lemma upd_None: "L p = None \<Longrightarrow> L(p := None) = L"
  by (rule fun_upd_idem)

section \<open>The volume\<close>

text \<open>
  The state of the driver after \<open>fat12_init\<close> for a disk with sectors of 512 bytes, the parameter block lying outside
  the heap.
\<close>

definition volume :: "environment \<Rightarrow> (nat \<Rightarrow> u8) \<Rightarrow> nat \<Rightarrow> u32 set \<Rightarrow> kernel \<Rightarrow> bool" where
  "volume env disk n A s \<longleftrightarrow> ata_disk env 496 disk n \<and> ata_bus s = 496 \<and> bytes_per_sector s = 512 \<and>
     sectors_per_cluster s \<noteq> 0 \<and> unat (directory_entries s) mod 16 = 0 \<and> directory_entries s \<noteq> 0 \<and>
     unat (directory_entries s) \<le> 4096 \<and> region (bpb s) 62 \<inter> A = {} \<and>
     unat (lba_fat1 s) + 192 < 2 ^ 28 \<and> unat (lba_root s) < 2 ^ 28 \<and> unat (lba_data s) + 2 ^ 20 < 2 ^ 28"

lemma geometry:
  assumes "effect K s s'" and "region (bpb s) 62 \<subseteq> K"
  shows "bytes_per_sector s' = bytes_per_sector s" "sectors_per_cluster s' = sectors_per_cluster s"
    "directory_entries s' = directory_entries s" "fat12_cluster_lba c s' = fat12_cluster_lba c s"
    "bpb s' = bpb s" "lba_fat1 s' = lba_fat1 s" "lba_root s' = lba_root s" "lba_data s' = lba_data s" "ata_bus s' = ata_bus s"
proof -
  obtain h m where s': "s' = s\<lparr>io := h, mem := m\<rparr>" and m: "same_on K (mem s) m"
    using assms(1) by (rule effect_state)
  have same: "same_on (region (bpb s) 62) (mem s) m" using m assms(2) by (rule same_on_mono)
  have l: "load16 m (bpb s + i) = load16 (mem s) (bpb s + i)" if "unat i + 2 \<le> 62" for i
    using region_shift_subset [OF that, of "bpb s"] by (intro load16_cong same_on_mono [OF same]) simp
  have "m (bpb s + 13) = mem s (bpb s + 13)" by (rule same_onD [OF same region_offset]) simp
  then show "bytes_per_sector s' = bytes_per_sector s" "sectors_per_cluster s' = sectors_per_cluster s"
    "directory_entries s' = directory_entries s" "fat12_cluster_lba c s' = fat12_cluster_lba c s"
    by (simp_all add: s' bytes_per_sector_def sectors_per_cluster_def directory_entries_def fat12_cluster_lba_def l)
  show "bpb s' = bpb s" "lba_fat1 s' = lba_fat1 s" "lba_root s' = lba_root s" "lba_data s' = lba_data s" "ata_bus s' = ata_bus s"
    by (simp_all add: s')
qed

lemma volume_effect:
  assumes "volume env disk n A s" and "effect K s s'" and "region (bpb s) 62 \<subseteq> K"
  shows "volume env disk n A s'"
  using assms(1) geometry [OF assms(2,3)] by (simp add: volume_def)

section \<open>The allocation table\<close>

text \<open>The 12 bits of a cluster in the table, as the format packs them.\<close>

definition fat_entry :: "(nat \<Rightarrow> u8) \<Rightarrow> u32 \<Rightarrow> u16 \<Rightarrow> u16" where
  "fat_entry disk fat1 c =
    (let k = 512 * unat fat1 + unat c + unat c div 2; w = ucast (disk k) OR push_bit 8 (ucast (disk (k + 1)))
     in if c AND 1 \<noteq> 0 then drop_bit 4 w else w AND 0xFFF)"

text \<open>The bits lie in one sector.\<close>

definition in_sector :: "u16 \<Rightarrow> bool" where
  "in_sector c \<longleftrightarrow> (unat c + unat c div 2) mod 512 \<noteq> 511"

lemma load16_bytes:
  assumes "bytes_at m p n = map f [a..<a + n]" and "unat off + 1 < n" and "n \<le> 2 ^ 32"
  shows "load16 m (p + off) = ucast (f (a + unat off)) OR push_bit 8 (ucast (f (a + unat off + 1)))"
proof -
  have b: "m (p + word_of_nat i) = f (a + i)" if "i < n" for i
  proof -
    have "m (p + word_of_nat i) = bytes_at m p n ! i" using that by simp
    also have "\<dots> = f (a + i)" using that unfolding assms(1) by simp
    finally show ?thesis .
  qed
  have "m (p + off) = f (a + unat off)" using b [of "unat off"] assms(2) by simp
  moreover have "m (p + off + 1) = f (a + unat off + 1)"
    using b [of "unat off + 1"] assms(2) by (simp add: algebra_simps)
  ultimately show ?thesis by (simp add: load16_def)
qed

lemma fat12_read_fat_outcome:
  assumes v: "volume env disk n A s" and h: "heap_holds s A L" and c: "in_sector c"
  shows "outcome (fat12_read_fat env c s) (\<lambda>next s'. next = fat_entry disk (lba_fat1 s) c \<and>
    heap_holds s' A L \<and> effect (- A \<union> blocks L) s s')"
proof -
  define byte where "byte = (ucast c + ucast (c div 2) :: u32)"
  have "unat (ucast c :: u32) = unat c" "unat (ucast (c div 2) :: u32) = unat c div 2"
    by (simp_all add: unat_u16_u32 unat_div)
  moreover have "unat c < 2 ^ 16" using unat_lt2p [of c] by simp
  ultimately have byte: "unat byte = unat c + unat c div 2" "unat byte < 98304"
    unfolding byte_def by (simp_all add: unat_add_exact)
  have off: "unat (byte mod 512) + 1 < 512" "unat (byte mod 512) = unat byte mod 512" "unat (byte div 512) = unat byte div 512"
    using c byte(1) mod_less_divisor [of 512 "unat byte"] by (auto simp: in_sector_def unat_mod unat_div)
  have fat: "unat (lba_fat1 s) + 192 < 2 ^ 28" using v by (simp add: volume_def)
  have lba: "unat (lba_fat1 s + byte div 512) = unat (lba_fat1 s) + unat byte div 512" "unat byte div 512 < 192"
  proof -
    show small: "unat byte div 512 < 192" using byte(2) by (simp add: div_less_iff_less_mult)
    then show "unat (lba_fat1 s + byte div 512) = unat (lba_fat1 s) + unat byte div 512"
      using fat off(3) by (subst unat_add_exact) simp_all
  qed
  have bps: "bytes_per_sector s = 512" "ata_bus s = 496" "ata_disk env 496 disk n"
    using v by (simp_all add: volume_def)
  have bus: "ucast (496 :: u32) = (496 :: u16)" by simp
  have "outcome (andthen (malloc 512 s) (\<lambda>buffer s.
        andthen (ata_read env buffer (ucast (ata_bus s)) (lba_fat1 s + byte div 512) 1 s) (\<lambda>_ s.
        let next_cluster = load16 (mem s) (buffer + byte mod 512) in
        andthen (free buffer s) (\<lambda>_.
          ret (if c AND 1 \<noteq> 0 then drop_bit 4 next_cluster else next_cluster AND 0xFFF)))))
    (\<lambda>next s'. next = fat_entry disk (lba_fat1 s) c \<and> heap_holds s' A L \<and> effect (- A \<union> blocks L) s s')"
  proof (rule outcome_andthen [OF malloc_outcome [OF h]])
    fix p s1
    assume "\<exists>k \<ge> 512. L p = None \<and> p \<noteq> 0 \<and> heap_holds s1 A (L(p \<mapsto> k)) \<and> effect (- A \<union> blocks L) s s1"
    then obtain k where k: "512 \<le> k" "L p = None" "heap_holds s1 A (L(p \<mapsto> k))" and e1: "effect (- A \<union> blocks L) s s1"
      by blast
    have g: "ata_bus s1 = 496" "lba_fat1 s1 = lba_fat1 s" using effect_globals [OF e1] bps by simp_all
    have "unat (lba_fat1 s + byte div 512) < 2 ^ 28" using lba fat byte by simp
    from ata_read_outcome [OF bps(3) this, of 1 p s1]
    show "outcome (andthen (ata_read env p (ucast (ata_bus s1)) (lba_fat1 s1 + byte div 512) 1 s1) (\<lambda>_ s.
        let next_cluster = load16 (mem s) (p + byte mod 512) in
        andthen (free p s) (\<lambda>_. ret (if c AND 1 \<noteq> 0 then drop_bit 4 next_cluster else next_cluster AND 0xFFF))))
      (\<lambda>next s'. next = fat_entry disk (lba_fat1 s) c \<and> heap_holds s' A L \<and> effect (- A \<union> blocks L) s s')"
      unfolding g bus
    proof (rule outcome_andthen, simp)
      fix u s2
      assume r: "bytes_at (mem s2) p (512 * unat (1 :: u32)) =
          disk_bytes disk (512 * unat (lba_fat1 s + byte div 512)) (512 * unat (1 :: u32)) \<and>
          effect (- region p (512 * unat (1 :: u32))) s1 s2"
      have "region p 512 \<subseteq> region p (unat k)" using k(1) by (intro region_mono) (simp add: word_le_nat_alt)
      then have "effect (- region p (unat k)) s1 s2" using r by (auto intro: effect_mono)
      from fresh_effect [OF k(3) _ k(2) map_le_upd [of L p k, OF k(2)] this]
      have h2: "heap_holds s2 A (L(p \<mapsto> k))" and e2: "effect (- A \<union> blocks L) s1 s2" by simp_all
      have "load16 (mem s2) (p + byte mod 512) =
          ucast (disk (512 * unat (lba_fat1 s + byte div 512) + unat (byte mod 512))) OR
          push_bit 8 (ucast (disk (512 * unat (lba_fat1 s + byte div 512) + unat (byte mod 512) + 1)))"
        using r off(1) by (intro load16_bytes [where n = 512]) (simp_all add: disk_bytes_def)
      also have "512 * unat (lba_fat1 s + byte div 512) + unat (byte mod 512) = 512 * unat (lba_fat1 s) + unat c + unat c div 2"
        using lba(1) off(2) byte(1) by simp
      finally have w: "(if c AND 1 \<noteq> 0 then drop_bit 4 (load16 (mem s2) (p + byte mod 512))
          else load16 (mem s2) (p + byte mod 512) AND 0xFFF) = fat_entry disk (lba_fat1 s) c"
        by (simp add: fat_entry_def Let_def)
      show "outcome (let next_cluster = load16 (mem s2) (p + byte mod 512) in
          andthen (free p s2) (\<lambda>_. ret (if c AND 1 \<noteq> 0 then drop_bit 4 next_cluster else next_cluster AND 0xFFF)))
        (\<lambda>next s'. next = fat_entry disk (lba_fat1 s) c \<and> heap_holds s' A L \<and> effect (- A \<union> blocks L) s s')"
        unfolding Let_def w
      proof (rule outcome_andthen [OF free_outcome [OF h2, of p k]], simp, rule outcome_ret)
        fix s3
        assume f: "heap_holds s3 A ((L(p \<mapsto> k))(p := None)) \<and> effect (- A \<union> blocks (L(p \<mapsto> k))) s2 s3"
        have "effect (- A \<union> blocks L) s2 s3"
          using f blocks_mono [OF map_le_upd [of L p k, OF k(2)]] by (auto intro: effect_mono)
        then show "fat_entry disk (lba_fat1 s) c = fat_entry disk (lba_fat1 s) c \<and> heap_holds s3 A L \<and>
            effect (- A \<union> blocks L) s s3"
          using f effect_trans [OF effect_trans [OF e1 e2]] by (simp add: upd_None [of L p, OF k(2)])
      qed
    qed
  qed simp
  then show ?thesis using bps by (simp add: fat12_read_fat_def byte_def Let_def)
qed

text \<open>The chain of a cluster, up to a number of clusters.\<close>

fun cluster_chain :: "(nat \<Rightarrow> u8) \<Rightarrow> u32 \<Rightarrow> nat \<Rightarrow> u16 \<Rightarrow> u16 list" where
  "cluster_chain disk fat1 0 c = []"
| "cluster_chain disk fat1 (Suc n) c =
    (if fat12_valid_cluster c then c # cluster_chain disk fat1 n (fat_entry disk fat1 c) else [])"

lemma volume_bpb: "volume env disk n A s \<Longrightarrow> region (bpb s) 62 \<subseteq> - A \<union> blocks L"
  by (auto simp: volume_def)

lemma fat12_chain_outcome:
  assumes "volume env disk k A s" and "heap_holds s A L"
    and "\<forall>c \<in> set (cluster_chain disk (lba_fat1 s) n c). in_sector c"
  shows "outcome (fat12_chain env n c s) (\<lambda>cs s'. cs = cluster_chain disk (lba_fat1 s) n c \<and>
    heap_holds s' A L \<and> effect (- A \<union> blocks L) s s')"
  using assms
proof (induction n arbitrary: c s)
  case 0
  then show ?case by (auto intro: outcome_ret)
next
  case (Suc n)
  show ?case
  proof (cases "fat12_valid_cluster c")
    case False
    then show ?thesis using Suc.prems by (auto intro: outcome_ret)
  next
    case True
    have "outcome (andthen (fat12_read_fat env c s) (\<lambda>next s.
        andthen (fat12_chain env n next s) (\<lambda>clusters. ret (c # clusters))))
      (\<lambda>cs s'. cs = c # cluster_chain disk (lba_fat1 s) n (fat_entry disk (lba_fat1 s) c) \<and>
        heap_holds s' A L \<and> effect (- A \<union> blocks L) s s')"
    proof (rule outcome_andthen [OF fat12_read_fat_outcome [OF Suc.prems(1,2), of c]])
      show "in_sector c" using Suc.prems(3) True by simp
    next
      fix x s1
      assume r: "x = fat_entry disk (lba_fat1 s) c \<and> heap_holds s1 A L \<and> effect (- A \<union> blocks L) s s1"
      then have e: "effect (- A \<union> blocks L) s s1" by simp
      note bpb = volume_bpb [OF Suc.prems(1), of L]
      have f: "lba_fat1 s1 = lba_fat1 s" using geometry [OF e bpb] by simp
      have "outcome (fat12_chain env n x s1) (\<lambda>cs s'. cs = cluster_chain disk (lba_fat1 s1) n x \<and>
          heap_holds s' A L \<and> effect (- A \<union> blocks L) s1 s')"
        using r f Suc.prems(3) True by (intro Suc.IH volume_effect [OF Suc.prems(1) e bpb]) simp_all
      then show "outcome (andthen (fat12_chain env n x s1) (\<lambda>clusters. ret (c # clusters)))
          (\<lambda>cs s'. cs = c # cluster_chain disk (lba_fat1 s) n (fat_entry disk (lba_fat1 s) c) \<and>
            heap_holds s' A L \<and> effect (- A \<union> blocks L) s s')"
        by (rule outcome_andthen) (use r f effect_trans [OF e] in \<open>auto intro: outcome_ret\<close>)
    qed
    then show ?thesis using True by simp
  qed
qed

section \<open>Directories\<close>

text \<open>
  The bytes of a directory: the root directory has cluster 0 and lies before the clusters; any other
  directory the driver can read has a chain of one cluster.
\<close>

definition dir_bytes :: "(nat \<Rightarrow> u8) \<Rightarrow> kernel \<Rightarrow> u16 \<Rightarrow> u8 list" where
  "dir_bytes disk s c =
    (if c = 0 then disk_bytes disk (512 * unat (lba_root s)) (32 * unat (directory_entries s))
     else disk_bytes disk (512 * unat (fat12_cluster_lba c s)) (512 * unat (sectors_per_cluster s)))"

definition dir_cluster :: "(nat \<Rightarrow> u8) \<Rightarrow> u32 \<Rightarrow> u16 \<Rightarrow> bool" where
  "dir_cluster disk fat1 c \<longleftrightarrow> c = 0 \<or>
     fat12_valid_cluster c \<and> in_sector c \<and> \<not> fat12_valid_cluster (fat_entry disk fat1 c)"

text \<open>A directory of \<open>len\<close> entries in a fresh block at the address in the variable at \<open>slot\<close>.\<close>

definition loaded :: "u32 set \<Rightarrow> (u32 \<rightharpoonup> u32) \<Rightarrow> u32 \<Rightarrow> u32 \<Rightarrow> u8 list \<Rightarrow> kernel \<Rightarrow> bool" where
  "loaded A L slot len bs s \<longleftrightarrow> length bs = 32 * unat len \<and>
     (\<exists>k. L (load32 (mem s) slot) = None \<and> 32 * unat len \<le> unat k \<and>
        heap_holds s A (L(load32 (mem s) slot \<mapsto> k)) \<and>
        bytes_at (mem s) (load32 (mem s) slot) (32 * unat len) = bs)"

lemma cluster_lba:
  assumes v: "volume env disk n A s" and c: "fat12_valid_cluster c"
  shows "unat (fat12_cluster_lba c s) = unat (lba_data s) + (unat c - 2) * unat (sectors_per_cluster s)"
    "unat (fat12_cluster_lba c s) < 2 ^ 28"
proof -
  have c': "2 \<le> unat c" "unat c \<le> 4079" using c by (simp_all add: fat12_valid_cluster_def word_le_nat_alt)
  have "unat (ucast c - 2 :: u32) = unat c - 2" using c' by (subst unat_sub_exact) (simp_all add: word_le_nat_alt unat_u16_u32)
  moreover have spc: "unat (sectors_per_cluster s) < 256" by (simp add: sectors_per_cluster_def unat_u8_u32 unat_lt8)
  have m: "(unat c - 2) * unat (sectors_per_cluster s) \<le> 4077 * 255"
    using c' spc by (intro mult_le_mono) simp_all
  ultimately have "unat ((ucast c - 2) * sectors_per_cluster s) = (unat c - 2) * unat (sectors_per_cluster s)"
    by (subst unat_mult_lem [THEN iffD1]) simp_all
  moreover have "unat (lba_data s) + 2 ^ 20 < 2 ^ 28" using v by (simp add: volume_def)
  ultimately show "unat (fat12_cluster_lba c s) = unat (lba_data s) + (unat c - 2) * unat (sectors_per_cluster s)"
    using m unfolding fat12_cluster_lba_def by (subst unat_add_exact) simp_all
  then show "unat (fat12_cluster_lba c s) < 2 ^ 28" using m v by (simp add: volume_def)
qed

text \<open>A disk read to a fresh block.\<close>

lemma read_to_block:
  assumes disk: "ata_disk env 496 disk n" and h: "heap_holds s A (L(p \<mapsto> k))" and L: "L p = None"
    and lba: "unat lba < 2 ^ 28" and count: "unat count \<le> 256" "512 * unat count \<le> unat k"
  shows "outcome (ata_read env p 496 lba count s) (\<lambda>_ s'. heap_holds s' A (L(p \<mapsto> k)) \<and>
    bytes_at (mem s') p (512 * unat count) = disk_bytes disk (512 * unat lba) (512 * unat count) \<and>
    effect (- A \<union> blocks L) s s')"
proof (rule outcome_mono [OF ata_read_outcome [OF disk lba count(1)]])
  fix u s'
  assume r: "bytes_at (mem s') p (512 * unat count) = disk_bytes disk (512 * unat lba) (512 * unat count) \<and>
    effect (- region p (512 * unat count)) s s'"
  then have "effect (- region p (unat k)) s s'" using region_mono [OF count(2), of p] by (auto intro: effect_mono)
  from fresh_effect [OF h _ L map_le_upd [of L p k, OF L] this]
  show "heap_holds s' A (L(p \<mapsto> k)) \<and>
      bytes_at (mem s') p (512 * unat count) = disk_bytes disk (512 * unat lba) (512 * unat count) \<and>
      effect (- A \<union> blocks L) s s'"
    using r by simp
qed

lemma slot_apart:
  assumes "heap_holds s A L" and "L p = Some k" and "n \<le> unat k" and "R \<inter> A = {}"
  shows "region p n \<inter> R = {}"
  using kheap.block_range [OF assms(1,2)] region_mono [OF assms(3), of p] assms(4) by blast

lemma store_slot:
  assumes h: "heap_holds s A (L(p \<mapsto> k))" and slot: "region slot 4 \<inter> A = {}"
    and s'_def: "s' = s\<lparr>mem := store32 (mem s) slot v\<rparr>"
  shows "heap_holds s' A (L(p \<mapsto> k))" "load32 (mem s') slot = v"
    "n \<le> unat k \<Longrightarrow> bytes_at (mem s') p n = bytes_at (mem s) p n" "effect (- region slot 4) s s'"
proof -
  have same: "same_on (- region slot 4) (mem s) (mem s')" unfolding s'_def by (simp add: same_on_store32)
  then show e: "effect (- region slot 4) s s'" by (simp add: s'_def effect_mem)
  show "heap_holds s' A (L(p \<mapsto> k))"
    using h by (rule outside_write) (rule effect_mono [OF e], use slot in blast)
  show "load32 (mem s') slot = v" by (simp add: s'_def)
  assume n: "n \<le> unat k"
  have "region p n \<inter> region slot 4 = {}" using slot_apart [OF h _ n slot] by simp
  moreover have "n \<le> 2 ^ 32" using n unat_lt2p [of k] by simp
  ultimately show "bytes_at (mem s') p n = bytes_at (mem s) p n"
    by (intro bytes_at_cong same_on_mono [OF same]) blast
qed

lemma read_root_outcome:
  assumes v: "volume env disk n A s" and h: "heap_holds s A L" and slot: "region slot 4 \<inter> A = {}"
  shows "outcome (fat12_read_directory env slot 0 s) (\<lambda>len s'.
    loaded A L slot len (dir_bytes disk s 0) s' \<and> effect ((- A \<union> blocks L) - region slot 4) s s')"
proof -
  let ?n = "32 * unat (directory_entries s)" and ?K = "(- A \<union> blocks L) - region slot 4"
  have de: "unat (directory_entries s) \<le> 4096" "directory_entries s \<noteq> 0" "unat (directory_entries s) mod 16 = 0"
      "unat (lba_root s) < 2 ^ 28" and disk: "ata_disk env 496 disk n" and bps: "bytes_per_sector s = 512" and bus: "ata_bus s = 496"
    using v by (simp_all add: volume_def)
  have n: "unat (directory_entries s * 32) = ?n"
    using de(1) unat_mult_lem [of "directory_entries s" 32] by simp
  have nz: "directory_entries s * 32 \<noteq> 0" using n de(2) by (metis mult_eq_0_iff unat_0 unat_eq_0 zero_neq_numeral)
  define count where "count = directory_entries s * 32 div 512"
  have count: "512 * unat count = ?n" "unat count \<le> 256"
    using n de(1,3) unfolding count_def unat_div by (auto simp: mod_eq_0_iff_dvd elim!: dvdE)
  have root: "dir_bytes disk s 0 = disk_bytes disk (512 * unat (lba_root s)) (512 * unat count)"
    unfolding dir_bytes_def count(1) by simp
  have "outcome (andthen (malloc (directory_entries s * 32) s) (\<lambda>buffer s.
       if bytes_per_sector s = 0 then fail Divide_error else
       andthen (ata_read env buffer (ucast (ata_bus s)) (lba_root s) (directory_entries s * 32 div bytes_per_sector s) s)
         (\<lambda>_ s. ret (directory_entries s) (s\<lparr>mem := store32 (mem s) slot buffer\<rparr>))))
    (\<lambda>len s'. loaded A L slot len (dir_bytes disk s 0) s' \<and> effect ?K s s')"
  proof (rule outcome_andthen [OF malloc_outcome [OF h nz]])
    fix p s1
    assume "\<exists>k \<ge> directory_entries s * 32. L p = None \<and> p \<noteq> 0 \<and> heap_holds s1 A (L(p \<mapsto> k)) \<and> effect (- A \<union> blocks L) s s1"
    then obtain k where k: "directory_entries s * 32 \<le> k" "L p = None" "heap_holds s1 A (L(p \<mapsto> k))"
      and e1: "effect (- A \<union> blocks L) s s1" by blast
    note g = geometry [OF e1 volume_bpb [OF v]]
    have nk: "512 * unat count \<le> unat k" using k(1) n count(1) by (simp add: word_le_nat_alt)
    show "outcome (if bytes_per_sector s1 = 0 then fail Divide_error else
       andthen (ata_read env p (ucast (ata_bus s1)) (lba_root s1) (directory_entries s1 * 32 div bytes_per_sector s1) s1)
         (\<lambda>_ s. ret (directory_entries s) (s\<lparr>mem := store32 (mem s) slot p\<rparr>)))
      (\<lambda>len s'. loaded A L slot len (dir_bytes disk s 0) s' \<and> effect ?K s s')"
      unfolding g bps bus count_def [symmetric]
    proof (simp, rule outcome_andthen [OF read_to_block [OF disk k(3,2) de(4) count(2) nk]], rule outcome_ret)
      fix u s2
      assume r: "heap_holds s2 A (L(p \<mapsto> k)) \<and>
        bytes_at (mem s2) p (512 * unat count) = disk_bytes disk (512 * unat (lba_root s)) (512 * unat count) \<and>
        effect (- A \<union> blocks L) s1 s2"
      then have e2: "effect (- A \<union> blocks L) s s2" using effect_trans [OF e1] by blast
      let ?s = "s2\<lparr>mem := store32 (mem s2) slot p\<rparr>"
      note st = store_slot [OF conjunct1 [OF r] slot refl, where v = p]
      have "directory_entries s2 = directory_entries s" using geometry [OF e2 volume_bpb [OF v]] by simp
      moreover have "loaded A L slot (directory_entries s) (dir_bytes disk s 0) ?s"
        unfolding loaded_def st(2) count(1) [symmetric] root using st(1) st(3) [OF nk] k(2) nk r
        by (auto intro!: exI [of _ k])
      moreover have "effect ?K s ?s"
        by (rule effect_trans [OF effect_mono [OF e2] effect_mono [OF st(4)]]) auto
      ultimately show "loaded A L slot (directory_entries s2) (dir_bytes disk s 0) ?s \<and> effect ?K s ?s" by simp
    qed
  qed
  then show ?thesis by (simp add: fat12_read_directory_def)
qed

lemma cluster_chain_unfold:
  "0 < n \<Longrightarrow> cluster_chain disk fat1 n c =
    (if fat12_valid_cluster c then c # cluster_chain disk fat1 (n - 1) (fat_entry disk fat1 c) else [])"
  by (cases n) simp_all

lemma read_cluster_outcome:
  assumes v: "volume env disk n A s" and h: "heap_holds s A L" and slot: "region slot 4 \<inter> A = {}"
    and apart: "region slot 4 \<inter> region (bpb s) 62 = {}" and c: "c \<noteq> 0" "dir_cluster disk (lba_fat1 s) c"
  shows "outcome (fat12_read_directory env slot c s) (\<lambda>len s'.
    loaded A L slot len (dir_bytes disk s c) s' \<and> effect ((- A \<union> blocks L) - region slot 4) s s')"
proof -
  let ?K = "(- A \<union> blocks L) - region slot 4" and ?spc = "sectors_per_cluster s"
  have c': "fat12_valid_cluster c" "in_sector c" "\<not> fat12_valid_cluster (fat_entry disk (lba_fat1 s) c)"
    using c by (simp_all add: dir_cluster_def)
  have chain: "cluster_chain disk (lba_fat1 s) 256 c = [c]"
    using c' by (simp add: cluster_chain_unfold [of 256] cluster_chain_unfold [of 255])
  have disk: "ata_disk env 496 disk n" and bps: "bytes_per_sector s = 512" and bus: "ata_bus s = 496" and spc: "?spc \<noteq> 0"
    using v by (simp_all add: volume_def)
  have spc': "0 < unat ?spc" using spc by (simp add: unat_gt_0)
  moreover have "unat ?spc < 256" by (simp add: sectors_per_cluster_def unat_u8_u32 unat_lt8)
  ultimately have spc': "0 < unat ?spc" "unat ?spc < 256" .
  have n: "unat (512 * ?spc) = 512 * unat ?spc" using spc'(2) unat_mult_lem [of 512 ?spc] by simp
  then have nz: "512 * ?spc \<noteq> 0" using spc' by (metis mult_pos_pos not_less0 unat_0 zero_less_numeral)
  have len: "unat (1 * ?spc * 512 div 32) = 16 * unat ?spc"
    using n by (simp add: unat_div mult.commute)
  have K: "region (bpb s) 62 \<subseteq> ?K" using volume_bpb [OF v, of L] apart by blast
  define Q where "Q len s' \<longleftrightarrow> len = 1 \<and> effect ?K s s' \<and>
    (\<exists>k. L (load32 (mem s') slot) = None \<and> 512 * unat ?spc \<le> unat k \<and> heap_holds s' A (L(load32 (mem s') slot \<mapsto> k)) \<and>
      bytes_at (mem s') (load32 (mem s') slot) (512 * unat ?spc) = dir_bytes disk s c)" for len :: u32 and s'
  have "outcome (fat12_read_cluster_chain env slot c s) Q"
    unfolding fat12_read_cluster_chain_def
  proof (rule outcome_andthen [OF fat12_chain_outcome [OF v h]])
    show "\<forall>c \<in> set (cluster_chain disk (lba_fat1 s) 256 c). in_sector c" using c' by (simp add: chain)
    fix cs s1
    assume "cs = cluster_chain disk (lba_fat1 s) 256 c \<and> heap_holds s1 A L \<and> effect (- A \<union> blocks L) s s1"
    then have cs: "cs = [c]" and h1: "heap_holds s1 A L" and e1: "effect (- A \<union> blocks L) s s1" by (simp_all add: chain)
    note g1 = geometry [OF e1 volume_bpb [OF v]]
    show "outcome (let len = word_of_nat (length cs) in
        andthen (malloc (bytes_per_sector s1 * sectors_per_cluster s1 * len) s1) (\<lambda>buffer s.
        andthen (for_each [0..<length cs] (\<lambda>i s.
            ata_read env (load32 (mem s) (slot + 4 * (bytes_per_sector s * sectors_per_cluster s * word_of_nat i)))
              (ucast (ata_bus s)) (fat12_cluster_lba (cs ! i) s) (sectors_per_cluster s) s)
          (s\<lparr>mem := store32 (mem s) slot buffer\<rparr>)) (\<lambda>_. ret len)))
      Q"
      unfolding cs g1 bps
    proof (simp add: for_each_single del: for_each.simps, rule outcome_andthen [OF malloc_outcome [OF h1 nz]])
      fix p s2
      assume "\<exists>k \<ge> 512 * ?spc. L p = None \<and> p \<noteq> 0 \<and> heap_holds s2 A (L(p \<mapsto> k)) \<and> effect (- A \<union> blocks L) s1 s2"
      then obtain k where k: "512 * ?spc \<le> k" "L p = None" "heap_holds s2 A (L(p \<mapsto> k))"
        and e2: "effect (- A \<union> blocks L) s s2" using effect_trans [OF e1] by blast
      have nk: "512 * unat ?spc \<le> unat k" using k(1) n by (simp add: word_le_nat_alt)
      let ?s = "s2\<lparr>mem := store32 (mem s2) slot p\<rparr>"
      note st = store_slot [OF k(3) slot refl, where v = p]
      have e3: "effect ?K s ?s" by (rule effect_trans [OF effect_mono [OF e2] effect_mono [OF st(4)]]) auto
      note g3 = geometry [OF e3 K]
      show "outcome (andthen
          (ata_read env p (ucast (ata_bus s2)) (fat12_cluster_lba c ?s) (sectors_per_cluster ?s) ?s)
          (\<lambda>_. ret 1)) Q"
        unfolding g3 geometry(9) [OF e2 volume_bpb [OF v]] bus
      proof (simp, rule outcome_andthen [OF read_to_block [OF disk st(1) k(2) cluster_lba(2) [OF v c'(1)] _ nk]])
        show "unat ?spc \<le> 256" using spc'(2) by simp
        fix u s4
        assume r: "heap_holds s4 A (L(p \<mapsto> k)) \<and>
          bytes_at (mem s4) p (512 * unat ?spc) = disk_bytes disk (512 * unat (fat12_cluster_lba c s)) (512 * unat ?spc) \<and>
          effect (- A \<union> blocks L) ?s s4"
        have e4: "effect ?K s s4" using effect_trans [OF e3] r by (auto intro: effect_mono)
        have "same_on (region slot 4) (mem ?s) (mem s4)"
          using r slot by (auto simp: effect_def intro: same_on_mono)
        then have "load32 (mem s4) slot = load32 (mem ?s) slot" by (rule load32_cong)
        then have p: "load32 (mem s4) slot = p" by (simp only: st(2))
        show "outcome (ret 1 s4) Q"
          using e4 r nk k(2) c(1) by (intro outcome_ret) (auto simp: Q_def p dir_bytes_def intro!: exI [of _ k])
      qed
    qed
  qed
  then have "outcome (andthen (fat12_read_cluster_chain env slot c s)
      (\<lambda>chain_len s. ret (chain_len * sectors_per_cluster s * bytes_per_sector s div 32) s))
    (\<lambda>len s'. loaded A L slot len (dir_bytes disk s c) s' \<and> effect ?K s s')"
  proof (rule outcome_andthen)
    fix x :: u32 and s'
    assume "Q x s'"
    then obtain k where x: "x = 1" and e: "effect ?K s s'"
      and k: "L (load32 (mem s') slot) = None" "512 * unat ?spc \<le> unat k" "heap_holds s' A (L(load32 (mem s') slot \<mapsto> k))"
        "bytes_at (mem s') (load32 (mem s') slot) (512 * unat ?spc) = dir_bytes disk s c" unfolding Q_def by blast
    note g = geometry [OF e K]
    have "length (dir_bytes disk s c) = 512 * unat ?spc" by (simp add: dir_bytes_def c(1))
    moreover have "32 * (16 * unat ?spc) = 512 * unat ?spc" by simp
    ultimately have "loaded A L slot (1 * ?spc * 512 div 32) (dir_bytes disk s c) s'"
      unfolding loaded_def len using k by (metis (no_types))
    then show "outcome (ret (x * sectors_per_cluster s' * bytes_per_sector s' div 32) s')
        (\<lambda>len s'. loaded A L slot len (dir_bytes disk s c) s' \<and> effect ?K s s')"
      using e by (intro outcome_ret) (simp add: x g bps)
  qed
  then show ?thesis by (simp add: fat12_read_directory_def c(1))
qed

lemma read_directory_outcome:
  assumes "volume env disk n A s" and "heap_holds s A L" and "region slot 4 \<inter> A = {}"
    and "region slot 4 \<inter> region (bpb s) 62 = {}" and "dir_cluster disk (lba_fat1 s) c"
  shows "outcome (fat12_read_directory env slot c s) (\<lambda>len s'.
    loaded A L slot len (dir_bytes disk s c) s' \<and> effect ((- A \<union> blocks L) - region slot 4) s s')"
  using read_root_outcome [OF assms(1-3)] read_cluster_outcome [OF assms(1-4) _ assms(5)] by (cases "c = 0") simp_all

end
