(* ===== verification/Fat12_Read.thy ===== *)
theory Fat12_Read
  imports Fat12_Volume
begin

text \<open>
  Reading a file: \<open>fat12_read\<close> follows the chain of clusters from its start and copies a slice of each cluster. The bytes
  of the file are those of the clusters of its chain in order; \<open>delivered\<close> lists the positions that the slices cover, and
  \<open>contiguous\<close> says when these are the span that was asked for.
\<close>

section \<open>The bytes of a file\<close>

fun nth_cluster :: "(nat \<Rightarrow> u8) \<Rightarrow> u32 \<Rightarrow> u16 \<Rightarrow> nat \<Rightarrow> u16" where
  "nth_cluster disk fat1 c 0 = c"
| "nth_cluster disk fat1 c (Suc i) = fat_entry disk fat1 (nth_cluster disk fat1 c i)"

definition cluster_size :: "kernel \<Rightarrow> nat" where
  "cluster_size s = 512 * unat (sectors_per_cluster s)"

definition file_byte :: "(nat \<Rightarrow> u8) \<Rightarrow> kernel \<Rightarrow> u16 \<Rightarrow> nat \<Rightarrow> u8" where
  "file_byte disk s c j =
    disk (512 * unat (fat12_cluster_lba (nth_cluster disk (lba_fat1 s) c (j div cluster_size s)) s) + j mod cluster_size s)"

section \<open>Slices\<close>

text \<open>
  For \<open>n\<close> bytes from \<open>a\<close> with clusters of \<open>S\<close> bytes: the part of cluster \<open>i\<close> that is copied, as offset and length, and
  the number of bytes copied before it. A cluster strictly between the first and the last is given the part of the first.
\<close>

definition part :: "nat \<Rightarrow> nat \<Rightarrow> nat \<Rightarrow> nat \<Rightarrow> nat \<times> nat" where
  "part a n S i =
    (if i = a div S \<and> i = (a + n) div S then (a mod S, (a + n) mod S - a mod S)
     else if i = a div S then (a mod S, S - a mod S)
     else if i = (a + n) div S then (0, (a + n) mod S)
     else (a mod S, S - a mod S))"

text \<open>The positions in the file whose bytes are copied before cluster \<open>i\<close>, and those of the whole read.\<close>

definition copied :: "nat \<Rightarrow> nat \<Rightarrow> nat \<Rightarrow> nat \<Rightarrow> nat list" where
  "copied a n S i = concat (map (\<lambda>k. case part a n S k of (so, sl) \<Rightarrow> [k * S + so..<k * S + so + sl]) [a div S..<i])"

definition delivered :: "nat \<Rightarrow> nat \<Rightarrow> nat \<Rightarrow> nat list" where
  "delivered a n S = copied a n S (Suc ((a + n) div S))"

text \<open>The parts fit together when there is no cluster between, or the first is copied from its start.\<close>

definition contiguous :: "nat \<Rightarrow> nat \<Rightarrow> nat \<Rightarrow> bool" where
  "contiguous a n S \<longleftrightarrow> a mod S = 0 \<or> (a + n) div S \<le> Suc (a div S)"

lemma copied_start: "i \<le> a div S \<Longrightarrow> copied a n S i = []"
  by (simp add: copied_def)

lemma copied_Suc:
  "a div S \<le> i \<Longrightarrow> part a n S i = (so, sl) \<Longrightarrow> copied a n S (Suc i) = copied a n S i @ [i * S + so..<i * S + so + sl]"
  by (simp add: copied_def)

lemma length_copied_Suc:
  "a div S \<le> i \<Longrightarrow> part a n S i = (so, sl) \<Longrightarrow> length (copied a n S (Suc i)) = length (copied a n S i) + sl"
  by (simp add: copied_Suc)

lemma part_within:
  assumes "0 < S" and "part a n S i = (so, sl)"
  shows "so + sl \<le> S"
proof -
  define ob oe where "ob = a mod S" and "oe = (a + n) mod S"
  then have "ob < S" "oe < S" using assms(1) by simp_all
  then show ?thesis using assms(2) unfolding part_def ob_def [symmetric] oe_def [symmetric] by (auto split: if_splits)
qed

lemma part_middle: "i < (a + n) div S \<Longrightarrow> part a n S i = (a mod S, S - a mod S)"
  by (simp add: part_def)

lemma part_last:
  "a div S < (a + n) div S \<Longrightarrow> part a n S ((a + n) div S) = (0, (a + n) mod S)"
  "a div S = (a + n) div S \<Longrightarrow> part a n S ((a + n) div S) = (a mod S, (a + n) mod S - a mod S)"
  by (simp_all add: part_def)

lemma length_copied:
  assumes "i \<le> (a + n) div S"
  shows "length (copied a n S i) = (i - a div S) * (S - a mod S)"
  using assms
proof (induction i)
  case (Suc i)
  show ?case
  proof (cases "a div S \<le> i")
    case True
    have "i < (a + n) div S" using Suc.prems by simp
    from length_copied_Suc [OF True part_middle [OF this]] show ?thesis
      using Suc True by (simp add: Suc_diff_le)
  qed (simp add: copied_start)
qed (simp add: copied_start)

text \<open>A read delivers what was asked for exactly when the parts fit together, and less otherwise.\<close>

lemma length_delivered:
  assumes S: "0 < S"
  shows "length (delivered a n S) \<le> n" and "\<not> contiguous a n S \<Longrightarrow> length (delivered a n S) < n"
proof -
  define cb ob ce oe where "cb = a div S" and "ob = a mod S" and "ce = (a + n) div S" and "oe = (a + n) mod S"
  have a: "a = cb * S + ob" and an: "a + n = ce * S + oe" and lt: "ob < S" "oe < S"
    using S by (simp_all add: cb_def ob_def ce_def oe_def)
  have le: "cb \<le> ce" unfolding cb_def ce_def by (rule div_le_mono) simp
  note defs = cb_def ob_def ce_def oe_def
  have main: "length (delivered a n S) + (if cb < ce then (ce - cb - 1) * ob else 0) = n"
  proof (cases "cb < ce")
    case True
    then obtain d where d: "ce = Suc (cb + d)" using less_imp_Suc_add by blast
    have "length (delivered a n S) = (ce - cb) * (S - ob) + oe"
      using length_copied_Suc [of a S ce n 0 oe] part_last(1) [of a S n] True le length_copied [of ce a n S]
      by (simp add: delivered_def defs)
    also have "(ce - cb) * (S - ob) = Suc d * S - Suc d * ob" unfolding d by (simp add: diff_mult_distrib2)
    finally have "length (delivered a n S) = Suc d * S - Suc d * ob + oe" .
    moreover have "Suc d * ob \<le> Suc d * S" using lt(1) by (intro mult_left_mono) simp_all
    moreover have "n + ob = Suc d * S + oe" using a an unfolding d by (simp add: algebra_simps)
    ultimately show ?thesis using True d by simp
  next
    case False
    then have eq: "cb = ce" using le by simp
    have "length (delivered a n S) = oe - ob"
      using length_copied_Suc [of a S ce n ob "oe - ob"] part_last(2) [of a S n] eq length_copied [of ce a n S]
      by (simp add: delivered_def defs)
    moreover have "oe = n + ob" using a an eq by simp
    ultimately show ?thesis using False by simp
  qed
  then show "length (delivered a n S) \<le> n" by linarith
  assume "\<not> contiguous a n S"
  then have "ob \<noteq> 0" "Suc cb < ce" by (simp_all add: contiguous_def defs)
  then have "0 < (ce - cb - 1) * ob" "cb < ce" by simp_all
  moreover from this(2) main have "length (delivered a n S) + (ce - cb - 1) * ob = n" by (simp only: if_True)
  ultimately show "length (delivered a n S) < n" by linarith
qed

lemma length_copied_le:
  assumes "0 < S" and "i \<le> Suc ((a + n) div S)"
  shows "length (copied a n S i) \<le> n"
proof -
  have "\<exists>zs. delivered a n S = copied a n S i @ zs"
  proof (cases "a div S \<le> i")
    case True
    then have "[a div S..<Suc ((a + n) div S)] = [a div S..<i] @ [i..<Suc ((a + n) div S)]"
      using assms(2) upt_add_eq_append [of "a div S" i "Suc ((a + n) div S) - i"] by simp
    then show ?thesis unfolding delivered_def copied_def by simp
  qed (simp add: copied_start)
  then show ?thesis using length_delivered(1) [OF assms(1), of a n] by auto
qed

lemma delivered_contiguous:
  assumes S: "0 < S" and c: "contiguous a n S"
  shows "delivered a n S = [a..<a + n]"
proof -
  define cb ob ce oe where "cb = a div S" and "ob = a mod S" and "ce = (a + n) div S" and "oe = (a + n) mod S"
  have a: "a = cb * S + ob" and an: "a + n = ce * S + oe" and lt: "ob < S" "oe < S"
    using S by (simp_all add: cb_def ob_def ce_def oe_def)
  have le: "cb \<le> ce" unfolding cb_def ce_def by (rule div_le_mono) simp
  note defs = cb_def ob_def ce_def oe_def
  show ?thesis
  proof (cases "cb < ce")
    case True
    have "copied a n S (Suc i) = [a..<Suc i * S]" if "cb \<le> i" "i < ce" for i
      using that
    proof (induction i rule: dec_induct)
      case base
      have "copied a n S (Suc cb) = [cb * S + ob..<cb * S + ob + (S - ob)]"
        using copied_Suc [of a S cb n ob "S - ob"] part_middle [of cb a n S] copied_start [of cb a S n] base
        by (simp add: defs)
      then show ?case using a lt(1) by (simp add: add.commute)
    next
      case (step i)
      then have "ob = 0" using c by (auto simp: contiguous_def defs)
      have "copied a n S (Suc (Suc i)) = copied a n S (Suc i) @ [Suc i * S + ob..<Suc i * S + ob + (S - ob)]"
        using copied_Suc [of a S "Suc i" n ob "S - ob"] part_middle [of "Suc i" a n S] step by (simp add: defs)
      also have "\<dots> = [a..<Suc i * S] @ [Suc i * S..<Suc i * S + S]" using step \<open>ob = 0\<close> by simp
      also have "\<dots> = [a..<Suc i * S + S]"
      proof (rule upt_add_eq_append [symmetric])
        have "cb * S \<le> Suc i * S" using step(1) by (intro mult_right_mono) simp_all
        then show "a \<le> Suc i * S" using a \<open>ob = 0\<close> by simp
      qed
      finally show ?case by (simp add: add.commute)
    qed
    from this [of "ce - 1"] have "copied a n S ce = [a..<ce * S]" using True by simp
    then have "delivered a n S = [a..<ce * S] @ [ce * S..<ce * S + oe]"
      using copied_Suc [of a S ce n 0 oe] part_last(1) [of a S n] True le by (simp add: delivered_def defs)
    also have "\<dots> = [a..<ce * S + oe]"
    proof (rule upt_add_eq_append [symmetric])
      have "Suc cb * S \<le> ce * S" using True by (intro mult_right_mono) simp_all
      then show "a \<le> ce * S" using a lt(1) by simp
    qed
    finally show ?thesis by (simp only: an)
  next
    case False
    then have eq: "cb = ce" using le by simp
    have "delivered a n S = [ce * S + ob..<ce * S + ob + (oe - ob)]"
      using copied_Suc [of a S ce n ob "oe - ob"] part_last(2) [of a S n] eq copied_start [of ce a S n]
      by (simp add: delivered_def defs)
    moreover have "ce * S + ob = a" "ce * S + ob + (oe - ob) = a + n" using a an eq by simp_all
    ultimately show ?thesis by simp
  qed
qed

text \<open>The bytes of one part.\<close>

lemma file_part:
  assumes S: "S = cluster_size s" "0 < S" and so: "so + sl \<le> S"
    and cl: "cl = nth_cluster disk (lba_fat1 s) c i"
  shows "map disk [512 * unat (fat12_cluster_lba cl s) + so..<512 * unat (fat12_cluster_lba cl s) + so + sl] =
    map (file_byte disk s c) [i * S + so..<i * S + so + sl]"
proof (rule nth_equalityI)
  fix j assume "j < length (map disk [512 * unat (fat12_cluster_lba cl s) + so..<512 * unat (fat12_cluster_lba cl s) + so + sl])"
  then have j: "j < sl" by simp
  then have "so + j < S" using so by simp
  then have "(i * S + so + j) div S = i" "(i * S + so + j) mod S = so + j"
    using S(2) by (simp_all add: add.assoc)
  then show "map disk [512 * unat (fat12_cluster_lba cl s) + so..<512 * unat (fat12_cluster_lba cl s) + so + sl] ! j =
      map (file_byte disk s c) [i * S + so..<i * S + so + sl] ! j"
    using j by (simp add: file_byte_def cl flip: S(1)) (simp add: ac_simps)
qed simp

section \<open>The loop\<close>

lemma caller_write:
  assumes h: "heap_holds s A L" and e: "effect (- R) s s'" and R: "R \<subseteq> - A \<union> blocks L"
  shows "heap_holds s' A L"
proof -
  obtain h' m where s': "s' = s\<lparr>io := h', mem := m\<rparr>" "same_on (- R) (mem s) m" using e by (rule effect_state)
  have "same_on (A - blocks L) (mem s) m" using R by (intro same_on_mono [OF s'(2)]) blast
  then have "heap_holds (s\<lparr>mem := m\<rparr>\<lparr>io := h'\<rparr>) A L"
    unfolding heap_holds_update by (rule kheap.holds_cong [OF h])
  moreover have "s' = s\<lparr>mem := m\<rparr>\<lparr>io := h'\<rparr>" unfolding s'(1) by simp
  ultimately show ?thesis by (simp only:)
qed

text \<open>What a read may write: the destination and the offset of the file.\<close>

definition read_kept :: "u32 set \<Rightarrow> (u32 \<rightharpoonup> u32) \<Rightarrow> u32 \<Rightarrow> u32 \<Rightarrow> nat \<Rightarrow> u32 set" where
  "read_kept A L f dst n = (- A \<union> blocks L) - (region dst n \<union> region (f + 260) 4)"

text \<open>The file object and the destination belong to the caller.\<close>

definition read_regions :: "u32 set \<Rightarrow> (u32 \<rightharpoonup> u32) \<Rightarrow> u32 \<Rightarrow> u32 \<Rightarrow> nat \<Rightarrow> bool" where
  "read_regions A L f dst n \<longleftrightarrow> region dst n \<subseteq> - A \<union> blocks L \<and> region f 284 \<subseteq> - A \<union> blocks L \<and>
     region dst n \<inter> region f 284 = {}"

lemma slice_values:
  assumes "bytes_per_sector s = 512" and spc: "sectors_per_cluster s \<noteq> 0" and lim: "unat a + unat n < 2 ^ 32"
  shows "fat12_slice a n s =
    (word_of_nat (unat a div cluster_size s), word_of_nat (unat a mod cluster_size s),
     word_of_nat ((unat a + unat n) div cluster_size s), word_of_nat ((unat a + unat n) mod cluster_size s))"
proof -
  have small: "unat (sectors_per_cluster s) < 256" by (simp add: sectors_per_cluster_def unat_u8_u32 unat_lt8)
  have size: "unat (512 * sectors_per_cluster s) = cluster_size s"
    using small unat_mult_lem [of 512 "sectors_per_cluster s"] by (simp add: cluster_size_def)
  have sum: "unat (a + n) = unat a + unat n" using lim by (intro unat_add_exact) simp
  have div: "x div 512 div sectors_per_cluster s = word_of_nat (unat x div cluster_size s)" for x :: u32
  proof -
    have "unat (x div 512 div sectors_per_cluster s) = unat x div cluster_size s"
      by (simp add: unat_div cluster_size_def div_mult2_eq)
    from arg_cong [OF this, of "word_of_nat :: nat \<Rightarrow> u32"] show ?thesis by simp
  qed
  have mod: "x mod (512 * sectors_per_cluster s) = word_of_nat (unat x mod cluster_size s)" for x :: u32
  proof -
    have "unat (x mod (512 * sectors_per_cluster s)) = unat x mod cluster_size s" by (simp only: unat_mod size)
    from arg_cong [OF this, of "word_of_nat :: nat \<Rightarrow> u32"] show ?thesis by simp
  qed
  show ?thesis by (simp add: fat12_slice_def assms(1) div mod sum)
qed

lemma read_slice_outcome:
  assumes v: "volume env disk d A s" and h: "heap_holds s A (L(src \<mapsto> k))" and L: "L src = None"
    and k: "cluster_size s \<le> unat k" and r: "read_regions A L f dst n"
    and lim: "a + n < 2 ^ 32" and i: "a div cluster_size s \<le> i" "i \<le> (a + n) div cluster_size s"
    and p: "part a n (cluster_size s) i = (so, sl)"
    and pos: "a div cluster_size s < i \<Longrightarrow> so' = word_of_nat (a mod cluster_size s) \<and>
        sl' = word_of_nat (cluster_size s - a mod cluster_size s)"
    and cl: "cl = nth_cluster disk (lba_fat1 s) c0 i" "fat12_valid_cluster cl" "ucast cluster = cl"
  shows "outcome (fat12_read_slice env f dst src
      (word_of_nat (a div cluster_size s), word_of_nat (a mod cluster_size s),
       word_of_nat ((a + n) div cluster_size s), word_of_nat ((a + n) mod cluster_size s))
      (word_of_nat i) cluster (word_of_nat (length (copied a n (cluster_size s) i)), so', sl') s)
    (\<lambda>pos s'. pos = (word_of_nat (length (copied a n (cluster_size s) (Suc i))), word_of_nat so, word_of_nat sl) \<and>
      heap_holds s' A (L(src \<mapsto> k)) \<and> effect (read_kept A L f dst n) s s' \<and>
      file_offset (mem s') f = file_offset (mem s) f + word_of_nat sl \<and>
      (bytes_at (mem s) dst (length (copied a n (cluster_size s) i)) = map (file_byte disk s c0) (copied a n (cluster_size s) i) \<longrightarrow>
       bytes_at (mem s') dst (length (copied a n (cluster_size s) (Suc i))) =
         map (file_byte disk s c0) (copied a n (cluster_size s) (Suc i))))"
proof -
  let ?S = "cluster_size s" and ?lba = "fat12_cluster_lba cl s"
  let ?ps = "copied a n (cluster_size s)"
  let ?g = "\<lambda>i. length (?ps i)"
  have disk: "ata_disk env 496 disk d" and bps: "bytes_per_sector s = 512" and bus: "ata_bus s = 496"
    and spc: "sectors_per_cluster s \<noteq> 0" using v by (simp_all add: volume_def)
  have small: "unat (sectors_per_cluster s) < 256" by (simp add: sectors_per_cluster_def unat_u8_u32 unat_lt8)
  have S: "0 < ?S" "?S < 2 ^ 17" using spc small by (simp_all add: cluster_size_def unat_gt_0)
  have size: "512 * sectors_per_cluster s = word_of_nat ?S" by (simp add: cluster_size_def)
  note pp = part_within [OF S(1) p] length_copied_Suc [OF i(1) p]
  have gle: "?g i + sl \<le> n" using pp(2) length_copied_le [OF S(1), of "Suc i" a n] i(2) by simp
  have n32: "n < 2 ^ 32" using lim by simp
  have w: "(word_of_nat x = (word_of_nat y :: u32)) = (x = y)" if "x < 2 ^ 32" "y < 2 ^ 32" for x y :: nat
    using that by (intro word_of_nat_inj32_iff) simp_all
  have bounds: "a div ?S < 2 ^ 32" "(a + n) div ?S < 2 ^ 32" "i < 2 ^ 32"
    using lim i(2) div_le_dividend [of a ?S] div_le_dividend [of "a + n" ?S] by linarith+
  let ?part = "\<lambda>z. if (word_of_nat i :: u32) = word_of_nat (a div ?S) \<and> (word_of_nat i :: u32) = word_of_nat ((a + n) div ?S)
      then (word_of_nat (a mod ?S), word_of_nat ((a + n) mod ?S) - word_of_nat (a mod ?S))
      else if (word_of_nat i :: u32) = word_of_nat (a div ?S) then (word_of_nat (a mod ?S), z - word_of_nat (a mod ?S))
      else if (word_of_nat i :: u32) = word_of_nat ((a + n) div ?S) then (0, word_of_nat ((a + n) mod ?S))
      else (so', sl') :: u32 \<times> u32"
  have part: "?part (word_of_nat ?S) = (word_of_nat so, word_of_nat sl)"
  proof -
    have "a mod ?S \<le> (a + n) mod ?S" if "a div ?S = (a + n) div ?S"
      using that div_mult_mod_eq [of a ?S] div_mult_mod_eq [of "a + n" ?S] by (metis add_le_cancel_left le_add1)
    moreover have "a mod ?S \<le> ?S" using S(1) by simp
    ultimately show ?thesis
      using p pos i(1) bounds unfolding part_def by (auto simp: w of_nat_diff split: if_splits)
  qed
  have "outcome (andthen (ata_read env src 496 ?lba (sectors_per_cluster s) s) (\<lambda>_ s.
        let (so, sl) = ?part (bytes_per_sector s * sectors_per_cluster s);
            m = memcpy (dst + word_of_nat (?g i)) (src + so) sl (mem s);
            m = set_file_offset f (file_offset m f + sl) m
        in ret (word_of_nat (?g i) + sl, so, sl) (s\<lparr>mem := m\<rparr>)))
    (\<lambda>pos s'. pos = (word_of_nat (?g (Suc i)), word_of_nat so, word_of_nat sl) \<and>
      heap_holds s' A (L(src \<mapsto> k)) \<and> effect (read_kept A L f dst n) s s' \<and>
      file_offset (mem s') f = file_offset (mem s) f + word_of_nat sl \<and>
      (bytes_at (mem s) dst (?g i) = map (file_byte disk s c0) (?ps i) \<longrightarrow>
       bytes_at (mem s') dst (?g (Suc i)) = map (file_byte disk s c0) (?ps (Suc i))))"
  proof (rule outcome_andthen [OF read_to_block [OF disk h L cluster_lba(2) [OF v cl(2)]]])
    show "unat (sectors_per_cluster s) \<le> 256" "512 * unat (sectors_per_cluster s) \<le> unat k"
      using small k by (simp_all add: cluster_size_def)
    fix u s1
    assume a1: "heap_holds s1 A (L(src \<mapsto> k)) \<and>
      bytes_at (mem s1) src (512 * unat (sectors_per_cluster s)) = disk_bytes disk (512 * unat ?lba) (512 * unat (sectors_per_cluster s)) \<and>
      effect (- A \<union> blocks L) s s1"
    then have h1: "heap_holds s1 A (L(src \<mapsto> k))" and e1: "effect (- A \<union> blocks L) s s1"
      and b1: "bytes_at (mem s1) src ?S = disk_bytes disk (512 * unat ?lba) ?S" by (simp_all add: cluster_size_def)
    have same1: "same_on (- A \<union> blocks L) (mem s) (mem s1)" using e1 by (simp add: effect_def)
    let ?bs = "map (file_byte disk s c0) [i * ?S + so..<i * ?S + so + sl]"
    have slice: "bytes_at (mem s1) (src + word_of_nat so) sl = ?bs"
    proof -
      have "bytes_at (mem s1) (src + word_of_nat so) sl = take sl (drop so (bytes_at (mem s1) src ?S))"
        using pp(1) by (intro nth_equalityI) (simp_all add: add.assoc)
      also have "\<dots> = map disk [512 * unat ?lba + so..<512 * unat ?lba + so + sl]"
        unfolding b1 using pp(1) by (intro nth_equalityI) (simp_all add: disk_bytes_def ac_simps)
      also have "\<dots> = ?bs" by (rule file_part [OF refl S(1) pp(1) cl(1)])
      finally show ?thesis .
    qed
    have sl: "unat (word_of_nat sl :: u32) = sl" "unat (word_of_nat so :: u32) = so" "unat (word_of_nat (?g i) :: u32) = ?g i"
      using pp(1) S(2) gle n32 by (simp_all add: unat_of_nat_eq)
    have dst: "region (dst + word_of_nat (?g i)) sl \<subseteq> region dst n"
      using gle n32 region_shift_subset [of "word_of_nat (?g i)" sl n dst] by (simp add: sl)
    have srcsub: "region (src + word_of_nat so) sl \<subseteq> region src (unat k)"
      using pp(1) k unat_lt2p [of k] region_shift_subset [of "word_of_nat so" sl "unat k" src] by (simp add: sl)
    have fresh: "region src (unat k) \<inter> (- A \<union> blocks L) = {}"
      using kheap.fresh_away [OF h1 _ L map_le_upd [of L src k, OF L]] by simp
    have "region dst n \<inter> region src (unat k) = {}" using fresh r by (auto simp: read_regions_def)
    then have "copy_safe (dst + word_of_nat (?g i)) (src + word_of_nat so) sl"
      using dst srcsub gle n32 by (intro copy_safe_disjoint) auto
    then have copy: "memcpy (dst + word_of_nat (?g i)) (src + word_of_nat so) (word_of_nat sl) (mem s1) =
        store_bytes (mem s1) (dst + word_of_nat (?g i)) ?bs"
      using memcpy_bytes [of "dst + word_of_nat (?g i)" "src + word_of_nat so" "word_of_nat sl" "mem s1"] slice by (simp add: sl)
    let ?m2 = "store_bytes (mem s1) (dst + word_of_nat (?g i)) ?bs"
    let ?m3 = "set_file_offset f (file_offset ?m2 f + word_of_nat sl) ?m2"
    let ?s = "s1\<lparr>mem := ?m3\<rparr>"
    have same2: "same_on (- region dst n) (mem s1) ?m2" using dst gle n32 by (intro same_on_store_bytes) auto
    have off_f: "region (f + 260) 4 \<subseteq> region f 284" using region_shift_subset [of 260 4 284 f] by simp
    have same3: "same_on (- region (f + 260) 4) ?m2 ?m3" by (simp add: set_file_offset_def same_on_store32)
    let ?R = "region dst n \<union> region (f + 260) 4"
    have same23: "same_on (- ?R) (mem s1) ?m3"
      by (rule same_on_trans [OF same_on_mono [OF same2] same_on_mono [OF same3]]) auto
    have R: "?R \<subseteq> - A \<union> blocks L" using r off_f by (auto simp: read_regions_def)
    have h3: "heap_holds ?s A (L(src \<mapsto> k))"
      using R blocks_mono [OF map_le_upd [of L src k, OF L]] by (intro caller_write [OF h1 effect_mem [OF same23]]) blast
    have e3: "effect (read_kept A L f dst n) s ?s"
      by (rule effect_trans [OF effect_mono [OF e1] effect_mono [OF effect_mem [OF same23]]]) (auto simp: read_kept_def)
    have "file_offset ?m2 f = file_offset (mem s1) f"
      unfolding file_offset_def using off_f r by (intro load32_cong same_on_mono [OF same2]) (auto simp: read_regions_def)
    also have "\<dots> = file_offset (mem s) f"
      unfolding file_offset_def using R by (intro load32_cong same_on_mono [OF same1]) auto
    finally have offset: "file_offset (mem ?s) f = file_offset (mem s) f + word_of_nat sl"
      by (simp add: file_offset_def set_file_offset_def)
    have data: "bytes_at (mem ?s) dst (?g (Suc i)) = map (file_byte disk s c0) (?ps (Suc i))"
      if old: "bytes_at (mem s) dst (?g i) = map (file_byte disk s c0) (?ps i)"
    proof -
      have n': "?g i + sl \<le> 2 ^ 32" using gle n32 by simp
      have "region dst (?g i + sl) \<subseteq> region dst n" using gle n32 by (intro region_mono) simp_all
      then have "same_on (region dst (?g i + sl)) ?m2 ?m3"
        using off_f r by (intro same_on_mono [OF same3]) (auto simp: read_regions_def)
      from bytes_at_cong [OF this n'] have "bytes_at (mem ?s) dst (?g i + sl) = bytes_at ?m2 dst (?g i + sl)" by simp
      also have "\<dots> = bytes_at ?m2 dst (?g i) @ bytes_at ?m2 (dst + word_of_nat (?g i)) sl" by (rule bytes_at_append)
      also have "bytes_at ?m2 dst (?g i) = bytes_at (mem s1) dst (?g i)" using n' by (intro bytes_at_before) simp
      also have "\<dots> = bytes_at (mem s) dst (?g i)"
        using r gle n' region_mono [of "?g i" n dst] by (intro bytes_at_cong same_on_mono [OF same1]) (auto simp: read_regions_def)
      also have "bytes_at ?m2 (dst + word_of_nat (?g i)) sl = ?bs"
        using bytes_at_store_bytes [of ?bs "mem s1" "dst + word_of_nat (?g i)"] n' by simp
      also have "bytes_at (mem s) dst (?g i) @ ?bs = map (file_byte disk s c0) (?ps (Suc i))"
        unfolding old copied_Suc [OF i(1) p] by simp
      finally show ?thesis by (simp only: pp(2))
    qed
    have dest: "word_of_nat (?g i) + word_of_nat sl = (word_of_nat (?g (Suc i)) :: u32)" by (simp add: pp(2))
    have size1: "bytes_per_sector s1 * sectors_per_cluster s1 = word_of_nat ?S"
      unfolding geometry(1,2) [OF e1 volume_bpb [OF v]] bps by (rule size)
    show "outcome (let (so, sl) = ?part (bytes_per_sector s1 * sectors_per_cluster s1);
            m = memcpy (dst + word_of_nat (?g i)) (src + so) sl (mem s1);
            m = set_file_offset f (file_offset m f + sl) m
        in ret (word_of_nat (?g i) + sl, so, sl) (s1\<lparr>mem := m\<rparr>))
      (\<lambda>pos s'. pos = (word_of_nat (?g (Suc i)), word_of_nat so, word_of_nat sl) \<and>
        heap_holds s' A (L(src \<mapsto> k)) \<and> effect (read_kept A L f dst n) s s' \<and>
        file_offset (mem s') f = file_offset (mem s) f + word_of_nat sl \<and>
        (bytes_at (mem s) dst (?g i) = map (file_byte disk s c0) (?ps i) \<longrightarrow>
         bytes_at (mem s') dst (?g (Suc i)) = map (file_byte disk s c0) (?ps (Suc i))))"
      unfolding size1 part Let_def prod.case copy dest
      by (rule outcome_ret) (intro conjI impI refl, rule h3, rule e3, rule offset, rule data)
  qed
  then show ?thesis unfolding fat12_read_slice_def prod.case cl(3) bus by simp
qed

text \<open>What the caller has to provide for \<open>n\<close> bytes from \<open>a\<close> of the file that begins with cluster \<open>c\<close>.\<close>

definition readable ::
  "environment \<Rightarrow> (nat \<Rightarrow> u8) \<Rightarrow> nat \<Rightarrow> u32 set \<Rightarrow> (u32 \<rightharpoonup> u32) \<Rightarrow> u32 \<Rightarrow> u32 \<Rightarrow> u16 \<Rightarrow> nat \<Rightarrow> nat \<Rightarrow> kernel \<Rightarrow> bool" where
  "readable env disk d A L f dst c a n s \<longleftrightarrow> volume env disk d A s \<and> read_regions A L f dst n \<and>
     region (bpb s) 62 \<inter> (region dst n \<union> region f 284) = {} \<and> a + n < 2 ^ 32 \<and>
     (let last = (a + n) div cluster_size s; cl = nth_cluster disk (lba_fat1 s) c in
      list_all (\<lambda>i. fat12_valid_cluster (cl i) \<and> in_sector (cl i)) [0..<last] \<and>
      (fat12_valid_cluster (cl last) \<or> a div cluster_size s < last \<and> (a + n) mod cluster_size s = 0))"

text \<open>The bytes at the positions \<open>ps\<close> of the file have been read.\<close>

definition has_read ::
  "(nat \<Rightarrow> u8) \<Rightarrow> u32 set \<Rightarrow> (u32 \<rightharpoonup> u32) \<Rightarrow> (u32 \<rightharpoonup> u32) \<Rightarrow> u32 \<Rightarrow> u32 \<Rightarrow> u16 \<Rightarrow> nat \<Rightarrow> nat \<Rightarrow> kernel \<Rightarrow> nat list \<Rightarrow> kernel \<Rightarrow> bool" where
  "has_read disk A L L' f dst c a n s ps s' \<longleftrightarrow> heap_holds s' A L' \<and> effect (read_kept A L f dst n) s s' \<and>
     bytes_at (mem s') dst (length ps) = map (file_byte disk s c) ps \<and> file_offset (mem s') f = word_of_nat (a + length ps)"

lemma readable_kept:
  assumes "readable env disk d A L f dst c a n s"
  shows "region (bpb s) 62 \<subseteq> read_kept A L f dst n"
proof -
  have "region (bpb s) 62 \<inter> A = {}" "region (bpb s) 62 \<inter> (region dst n \<union> region f 284) = {}"
    using assms by (simp_all add: readable_def volume_def)
  moreover have "region (f + 260) 4 \<subseteq> region f 284" using region_shift_subset [of 260 4 284 f] by simp
  ultimately show ?thesis by (auto simp: read_kept_def)
qed

lemma has_read_geometry:
  assumes "readable env disk d A L f dst c a n s" and "has_read disk A L L' f dst c a n s ps s'"
  shows "volume env disk d A s'" "cluster_size s' = cluster_size s" "file_byte disk s' c = file_byte disk s c"
    "lba_fat1 s' = lba_fat1 s" "bytes_per_sector s' = bytes_per_sector s" "sectors_per_cluster s' = sectors_per_cluster s"
proof -
  have e: "effect (read_kept A L f dst n) s s'" using assms(2) by (simp add: has_read_def)
  note g = geometry [OF e readable_kept [OF assms(1)]]
  show "volume env disk d A s'"
    using volume_effect [OF _ e readable_kept [OF assms(1)]] assms(1) by (simp add: readable_def)
  show "cluster_size s' = cluster_size s" "lba_fat1 s' = lba_fat1 s" "bytes_per_sector s' = bytes_per_sector s"
    "sectors_per_cluster s' = sectors_per_cluster s" by (simp_all add: cluster_size_def g)
  show "file_byte disk s' c = file_byte disk s c" by (rule ext) (simp add: file_byte_def cluster_size_def g)
qed

lemma read_slice_step:
  assumes r: "readable env disk d A L f dst c a n s" and L: "L src = None" and k: "cluster_size s \<le> unat k"
    and i: "a div cluster_size s \<le> i" "i \<le> (a + n) div cluster_size s" and p: "part a n (cluster_size s) i = (so, sl)"
    and pos: "a div cluster_size s < i \<Longrightarrow> so' = word_of_nat (a mod cluster_size s) \<and>
        sl' = word_of_nat (cluster_size s - a mod cluster_size s)"
    and cl: "ucast cluster = nth_cluster disk (lba_fat1 s) c i" "fat12_valid_cluster (ucast cluster)"
    and h: "has_read disk A L (L(src \<mapsto> k)) f dst c a n s (copied a n (cluster_size s) i) s1"
  shows "outcome (fat12_read_slice env f dst src
      (word_of_nat (a div cluster_size s), word_of_nat (a mod cluster_size s),
       word_of_nat ((a + n) div cluster_size s), word_of_nat ((a + n) mod cluster_size s))
      (word_of_nat i) cluster (word_of_nat (length (copied a n (cluster_size s) i)), so', sl') s1)
    (\<lambda>pos s'. pos = (word_of_nat (length (copied a n (cluster_size s) (Suc i))), word_of_nat so, word_of_nat sl) \<and>
      has_read disk A L (L(src \<mapsto> k)) f dst c a n s (copied a n (cluster_size s) (Suc i)) s')"
proof -
  note g = has_read_geometry [OF r h]
  have S: "0 < cluster_size s" using r by (simp add: readable_def volume_def cluster_size_def unat_gt_0)
  have r': "read_regions A L f dst n" "a + n < 2 ^ 32"
    using r by (simp_all add: readable_def)
  have h': "heap_holds s1 A (L(src \<mapsto> k))" "effect (read_kept A L f dst n) s s1"
    "bytes_at (mem s1) dst (length (copied a n (cluster_size s) i)) = map (file_byte disk s c) (copied a n (cluster_size s) i)"
    "file_offset (mem s1) f = word_of_nat (a + length (copied a n (cluster_size s) i))" using h by (simp_all add: has_read_def)
  note gs = length_copied_Suc [OF i(1) p]
  have off: "word_of_nat (a + length (copied a n (cluster_size s) i)) + word_of_nat sl =
      (word_of_nat (a + length (copied a n (cluster_size s) (Suc i))) :: u32)" unfolding gs by simp
  from read_slice_outcome [OF g(1) h'(1) L _ r'(1,2),
      where i = i and ?c0.0 = c and so = so and sl = sl and so' = so' and sl' = sl' and cl = "ucast cluster" and cluster = cluster,
      unfolded g(2-4), OF k i p pos cl refl, unfolded h'(4) off]
  show ?thesis
    by (rule outcome_mono) (auto simp: has_read_def h'(3) intro: effect_trans [OF h'(2)])
qed

lemma has_read_effect:
  assumes r: "readable env disk d A L f dst c a n s" and L: "L src = None" and j: "length ps \<le> n"
    and h: "has_read disk A L (L(src \<mapsto> k)) f dst c a n s ps s1"
    and h2: "heap_holds s2 A L2" and e: "effect (- A \<union> blocks (L(src \<mapsto> k))) s1 s2"
  shows "has_read disk A L L2 f dst c a n s ps s2"
proof -
  have e': "effect (- A \<union> blocks L) s1 s2"
    by (rule effect_mono [OF e]) (use blocks_mono [OF map_le_upd [of L src k, OF L]] in blast)
  then have same: "same_on (- A \<union> blocks L) (mem s1) (mem s2)" by (simp add: effect_def)
  have reg: "region dst n \<subseteq> - A \<union> blocks L" "region f 284 \<subseteq> - A \<union> blocks L" "length ps \<le> 2 ^ 32"
    using r j by (simp_all add: readable_def read_regions_def)
  moreover have "region (f + 260) 4 \<subseteq> region f 284" using region_shift_subset [of 260 4 284 f] by simp
  ultimately have "file_offset (mem s2) f = file_offset (mem s1) f"
    unfolding file_offset_def by (intro load32_cong same_on_mono [OF same]) blast
  moreover have "bytes_at (mem s2) dst (length ps) = bytes_at (mem s1) dst (length ps)"
    using reg region_mono [OF j, of dst] by (intro bytes_at_cong same_on_mono [OF same]) auto
  moreover have "effect (read_kept A L f dst n) s1 s2" by (rule effect_mono [OF e']) (auto simp: read_kept_def)
  ultimately show ?thesis using h h2 effect_trans unfolding has_read_def by metis
qed

lemma word_of_nat_le32: "i < 2 ^ 32 \<Longrightarrow> j < 2 ^ 32 \<Longrightarrow> (word_of_nat i :: u32) \<le> word_of_nat j \<longleftrightarrow> i \<le> j"
  by (simp add: word_le_nat_alt unat_of_nat_eq)

lemma ucast_u32_u16: "ucast (ucast x :: u32) = x" for x :: u16
  by (rule word_unat_eq_iff [THEN iffD2]) (simp add: unsigned_ucast_eq unat_u16_u32 take_bit_word_eq_self)

lemma read_loop_outcome:
  assumes r: "readable env disk d A L f dst c a n s" and L: "L src = None" and k: "cluster_size s \<le> unat k"
    and i: "i \<le> Suc ((a + n) div cluster_size s)"
    and pos: "a div cluster_size s < i \<Longrightarrow> i \<le> (a + n) div cluster_size s \<Longrightarrow>
        so' = word_of_nat (a mod cluster_size s) \<and> sl' = word_of_nat (cluster_size s - a mod cluster_size s)"
    and cl: "i \<le> (a + n) div cluster_size s \<Longrightarrow> ucast cluster = nth_cluster disk (lba_fat1 s) c i"
    and valid: "i = Suc ((a + n) div cluster_size s) \<Longrightarrow>
        fat12_valid_cluster (nth_cluster disk (lba_fat1 s) c ((a + n) div cluster_size s))"
    and h: "has_read disk A L (L(src \<mapsto> k)) f dst c a n s (copied a n (cluster_size s) i) s1"
  shows "outcome (fat12_read_loop env f dst src
      (word_of_nat (a div cluster_size s), word_of_nat (a mod cluster_size s),
       word_of_nat ((a + n) div cluster_size s), word_of_nat ((a + n) mod cluster_size s))
      (map word_of_nat [i..<Suc ((a + n) div cluster_size s)]) cluster
      (word_of_nat (length (copied a n (cluster_size s) i)), so', sl') s1)
    (\<lambda>complete s'. complete = fat12_valid_cluster (nth_cluster disk (lba_fat1 s) c ((a + n) div cluster_size s)) \<and>
      has_read disk A L (L(src \<mapsto> k)) f dst c a n s (delivered a n (cluster_size s)) s')"
  using i pos cl valid h
proof (induction "Suc ((a + n) div cluster_size s) - i" arbitrary: i so' sl' cluster s1)
  case 0
  then have i: "i = Suc ((a + n) div cluster_size s)" by simp
  have "has_read disk A L (L(src \<mapsto> k)) f dst c a n s (delivered a n (cluster_size s)) s1"
    using "0.prems"(5) unfolding i delivered_def .
  then show ?case using "0.prems"(4) [OF i] by (simp add: i del: fun_upd_apply) (rule outcome_ret, simp del: fun_upd_apply)
next
  case (Suc x i)
  note lims = r [unfolded readable_def Let_def list_all_iff]
  let ?S = "cluster_size s"
  let ?cb = "a div ?S" and ?ce = "(a + n) div ?S" and ?ps = "copied a n ?S" and ?g = "\<lambda>i. length (copied a n ?S i)" and ?cl = "nth_cluster disk (lba_fat1 s) c"
  let ?has = "has_read disk A L (L(src \<mapsto> k)) f dst c a n s"
  let ?span = "(word_of_nat ?cb, word_of_nat (a mod ?S), word_of_nat ?ce, word_of_nat ((a + n) mod ?S)) :: span"
  let ?Q = "\<lambda>complete s'. complete = fat12_valid_cluster (?cl ?ce) \<and> ?has (delivered a n ?S) s'"
  have S: "0 < ?S" using lims by (simp add: volume_def cluster_size_def unat_gt_0)
  have i: "i \<le> ?ce" using Suc.hyps(2) by simp
  have c: "ucast cluster = ?cl i" by (rule Suc.prems(3) [OF i])
  have list: "[i..<Suc ?ce] = i # [Suc i..<Suc ?ce]" using i by (simp add: upt_rec [of i])
  have bounds: "?cb < 2 ^ 32" "?ce < 2 ^ 32" "i < 2 ^ 32"
    using lims i div_le_dividend [of a ?S] div_le_dividend [of "a + n" ?S] by linarith+
  show ?case
  proof (cases "fat12_valid_cluster (?cl i)")
    case False
    then have "i = ?ce" using i lims by (cases "i < ?ce") auto
    moreover have "?cb < ?ce" "(a + n) mod ?S = 0" using False lims \<open>i = ?ce\<close> by auto
    moreover from this have "delivered a n ?S = ?ps ?ce"
      using copied_Suc [of a ?S ?ce n 0 0] part_last(1) [of a ?S n] by (simp add: delivered_def)
    ultimately have "?has (delivered a n ?S) s1" using Suc.prems(5) by simp
    then show ?thesis using False \<open>i = ?ce\<close> unfolding list by (simp add: c del: fun_upd_apply) (rule outcome_ret, simp del: fun_upd_apply)
  next
    case True
    define P1 where "P1 pos s' \<longleftrightarrow> ?has (?ps (Suc i)) s' \<and> (\<exists>so sl. pos = (word_of_nat (?g (Suc i)), so, sl) \<and>
        (?cb < Suc i \<longrightarrow> Suc i \<le> ?ce \<longrightarrow> so = word_of_nat (a mod ?S) \<and> sl = word_of_nat (?S - a mod ?S)))" for pos :: "u32 \<times> u32 \<times> u32" and s'
    define P2 where "P2 cluster s' \<longleftrightarrow> ?has (?ps (Suc i)) s' \<and> (i < ?ce \<longrightarrow> ucast cluster = ?cl (Suc i))"
      for cluster :: u32 and s'
    have step1: "outcome (if fst ?span \<le> word_of_nat i \<and> word_of_nat i \<le> fst (snd (snd ?span))
        then fat12_read_slice env f dst src ?span (word_of_nat i) cluster (word_of_nat (?g i), so', sl') s1
        else ret (word_of_nat (?g i), so', sl') s1) P1"
    proof (cases "?cb \<le> i")
      case in_span: True
      obtain so sl where p: "part a n ?S i = (so, sl)" by (rule prod.exhaust)
      have "fst ?span \<le> word_of_nat i \<and> word_of_nat i \<le> fst (snd (snd ?span))"
        using in_span i bounds by (simp add: word_of_nat_le32)
      moreover have "so = a mod ?S \<and> sl = ?S - a mod ?S" if "i < ?ce" using p that by (auto simp: part_def split: if_splits)
      moreover have "outcome (fat12_read_slice env f dst src ?span (word_of_nat i) cluster (word_of_nat (?g i), so', sl') s1) P1"
        by (rule outcome_mono [OF read_slice_step [where cluster = cluster and so' = so' and sl' = sl',
              OF r L k in_span i p Suc.prems(2) [OF _ i] c True [folded c] Suc.prems(5)]])
          (use calculation(2) in \<open>auto simp: P1_def simp del: fun_upd_apply\<close>)
      ultimately show ?thesis by (simp only: simp_thms if_True)
    next
      case False
      then have "\<not> (fst ?span \<le> word_of_nat i \<and> word_of_nat i \<le> fst (snd (snd ?span)))"
        using bounds by (simp add: word_of_nat_le32)
      moreover have "?ps (Suc i) = ?ps i" using False by (simp add: copied_start)
      ultimately show ?thesis
        using False Suc.prems(5) by (simp only: if_False) (rule outcome_ret, simp add: P1_def del: fun_upd_apply)
    qed
    have step2: "outcome (if word_of_nat i \<noteq> fst (snd (snd ?span))
        then andthen (fat12_read_fat env (ucast cluster) s2) (\<lambda>next. ret (ucast next)) else ret cluster s2) P2"
      if s2: "?has (?ps (Suc i)) s2" for s2
    proof (cases "i = ?ce")
      case True
      then show ?thesis using s2 by simp (rule outcome_ret, simp add: P2_def del: fun_upd_apply)
    next
      case False
      have "word_of_nat i \<noteq> fst (snd (snd ?span))" using False bounds by (simp add: word_of_nat_inj32_iff)
      moreover have "in_sector (?cl i)" using lims False i by auto
      note g = has_read_geometry [OF r s2]
      have some: "length (?ps (Suc i)) \<le> n" using i by (intro length_copied_le [OF S]) simp
      have "heap_holds s2 A (L(src \<mapsto> k))" using s2 by (simp add: has_read_def)
      from fat12_read_fat_outcome [OF g(1) this \<open>in_sector (?cl i)\<close>]
      have "outcome (andthen (fat12_read_fat env (?cl i) s2) (\<lambda>next. ret (ucast next))) P2"
        by (rule outcome_andthen)
          (rule outcome_ret, auto simp: P2_def g ucast_u32_u16 intro: has_read_effect [OF r L some s2])
      ultimately show ?thesis by (simp only: c if_True not_False_eq_True)
    qed
    have rest: "outcome (fat12_read_loop env f dst src ?span (map word_of_nat [Suc i..<Suc ?ce]) cluster' pos s3) ?Q"
      if p1: "P1 pos s2" and p2: "P2 cluster' s3" for pos s2 cluster' s3
    proof -
      obtain so sl where pos: "pos = (word_of_nat (?g (Suc i)), so, sl)"
        "?cb < Suc i \<longrightarrow> Suc i \<le> ?ce \<longrightarrow> so = word_of_nat (a mod ?S) \<and> sl = word_of_nat (?S - a mod ?S)"
        using p1 unfolding P1_def by blast
      show ?thesis unfolding pos(1)
        using p2 True i Suc.hyps(2) pos(2) by (intro Suc.hyps(1)) (auto simp: P2_def)
    qed
    have "outcome (andthen
       (if fst ?span \<le> word_of_nat i \<and> word_of_nat i \<le> fst (snd (snd ?span))
        then fat12_read_slice env f dst src ?span (word_of_nat i) cluster (word_of_nat (?g i), so', sl') s1
        else ret (word_of_nat (?g i), so', sl') s1) (\<lambda>pos s.
     andthen
       (if word_of_nat i \<noteq> fst (snd (snd ?span))
        then andthen (fat12_read_fat env (ucast cluster) s) (\<lambda>next. ret (ucast next)) else ret cluster s) (\<lambda>cluster s.
       fat12_read_loop env f dst src ?span (map word_of_nat [Suc i..<Suc ?ce]) cluster pos s))) ?Q"
    proof (rule outcome_andthen [OF step1])
      fix pos s2 assume P1: "P1 pos s2"
      then have "?has (?ps (Suc i)) s2" by (simp add: P1_def)
      show "outcome (andthen
       (if word_of_nat i \<noteq> fst (snd (snd ?span))
        then andthen (fat12_read_fat env (ucast cluster) s2) (\<lambda>next. ret (ucast next)) else ret cluster s2) (\<lambda>cluster s.
       fat12_read_loop env f dst src ?span (map word_of_nat [Suc i..<Suc ?ce]) cluster pos s)) ?Q"
        by (rule outcome_andthen [OF step2 [OF \<open>?has (?ps (Suc i)) s2\<close>] rest [OF P1]])
    qed
    then show ?thesis using True unfolding list list.map fat12_read_loop.simps(2) c by (simp only: simp_thms if_False)
  qed
qed

section \<open>The whole read\<close>

text \<open>
  The read is cut at the end of the file. If the file ends with its last cluster, the loop goes on to the end mark
  of the chain and leaves before it releases its buffer.
\<close>

lemma fat12_read_copies:
  fixes f dst len :: u32 and s :: kernel
  assumes a: "a = unat (file_offset (mem s) f)" and n: "n = min (unat len) (unat (file_len (mem s) f) - a)"
    and "a \<le> unat (file_len (mem s) f)" and "a + unat len < 2 ^ 32" and "0 < n"
    and c: "c = ucast (file_ref (mem s) f)"
    and h: "heap_holds s A L" and r: "readable env disk d A L f dst c a n s"
  shows "outcome (fat12_read env f dst len s) (\<lambda>_ s'.
    bytes_at (mem s') dst (length (delivered a n (cluster_size s))) = map (file_byte disk s c) (delivered a n (cluster_size s)) \<and>
    file_offset (mem s') f = word_of_nat (a + length (delivered a n (cluster_size s))) \<and>
    effect (read_kept A L f dst n) s s' \<and>
    (if fat12_valid_cluster (nth_cluster disk (lba_fat1 s) c ((a + n) div cluster_size s)) then heap_holds s' A L
     else \<exists>src k. L src = None \<and> heap_holds s' A (L(src \<mapsto> k))))"
    (is "outcome _ ?Q")
proof -
  let ?S = "cluster_size s" and ?off = "file_offset (mem s) f"
  let ?valid = "fat12_valid_cluster (nth_cluster disk (lba_fat1 s) c ((a + n) div ?S))"
  let ?span = "(word_of_nat (a div ?S), word_of_nat (a mod ?S), word_of_nat ((a + n) div ?S), word_of_nat ((a + n) mod ?S)) :: span"
  have v: "volume env disk d A s" and reg: "region f 284 \<subseteq> - A \<union> blocks L" and an: "a + n < 2 ^ 32"
    using r by (simp_all add: readable_def read_regions_def)
  have bps: "bytes_per_sector s = 512" and spc: "sectors_per_cluster s \<noteq> 0" using v by (simp_all add: volume_def)
  have small: "unat (sectors_per_cluster s) < 256" by (simp add: sectors_per_cluster_def unat_u8_u32 unat_lt8)
  have size: "512 * sectors_per_cluster s = word_of_nat ?S" "unat (word_of_nat ?S :: u32) = ?S" "0 < ?S"
  proof -
    show "512 * sectors_per_cluster s = word_of_nat ?S" "0 < ?S" using spc by (simp_all add: cluster_size_def unat_gt_0)
    have "?S < 2 ^ 32" using small by (simp add: cluster_size_def)
    then show "unat (word_of_nat ?S :: u32) = ?S" by (intro unat_of_nat_eq) simp
  qed
  have len: "(if file_len (mem s) f < ?off + len then file_len (mem s) f - ?off else len) = word_of_nat n"
  proof -
    have sum: "unat (?off + len) = a + unat len" using assms(4) a by (subst unat_add_exact) simp_all
    show ?thesis
    proof (cases "file_len (mem s) f < ?off + len")
      case True
      then have "unat (file_len (mem s) f) < a + unat len" by (simp add: word_less_nat_alt sum)
      then have "n = unat (file_len (mem s) f - ?off)" using n assms(3) a by (simp add: unat_sub_exact word_le_nat_alt)
      then show ?thesis using True by simp
    next
      case False
      then have "a + unat len \<le> unat (file_len (mem s) f)" by (simp add: word_less_nat_alt sum not_less)
      then have "n = unat len" using n by simp
      then show ?thesis using False by simp
    qed
  qed
  have un: "unat (word_of_nat n :: u32) = n" using an by (simp add: unat_of_nat_eq)
  then have n0: "(word_of_nat n :: u32) \<noteq> 0" using \<open>0 < n\<close> by (metis less_irrefl unat_0)
  have span: "fat12_slice ?off (word_of_nat n) s = ?span"
    using slice_values [OF bps spc, of ?off "word_of_nat n"] an by (simp add: un flip: a)
  have ce: "unat (word_of_nat ((a + n) div ?S) :: u32) = (a + n) div ?S"
    using an le_less_trans [OF div_le_dividend an, of ?S] by (intro unat_of_nat_eq) simp
  have loop: "indices (word_of_nat ((a + n) div ?S)) @ [word_of_nat ((a + n) div ?S)] =
      (map word_of_nat [0..<Suc ((a + n) div ?S)] :: u32 list)" by (simp add: indices_def ce)
  have "outcome (andthen (malloc (word_of_nat ?S) s) (\<lambda>src_buffer s.
      andthen (fat12_read_loop env f dst src_buffer ?span (map word_of_nat [0..<Suc ((a + n) div ?S)]) (file_ref (mem s) f) (0, 0, 0) s)
        (\<lambda>complete. if complete then free src_buffer else ret ()))) ?Q"
  proof (rule outcome_andthen [OF malloc_outcome [OF h]])
    show "(word_of_nat ?S :: u32) \<noteq> 0" using size(2,3) by (metis less_irrefl unat_0)
    fix src s1
    assume "\<exists>k\<ge>word_of_nat ?S. L src = None \<and> src \<noteq> 0 \<and> heap_holds s1 A (L(src \<mapsto> k)) \<and> effect (- A \<union> blocks L) s s1"
    then obtain k where k: "word_of_nat ?S \<le> k" and src: "L src = None" and h1: "heap_holds s1 A (L(src \<mapsto> k))"
      and e1: "effect (- A \<union> blocks L) s s1" by blast
    have same: "same_on (- A \<union> blocks L) (mem s) (mem s1)" using e1 by (simp add: effect_def)
    have word: "load32 (mem s1) (f + i) = load32 (mem s) (f + i)" if "unat i + 4 \<le> 284" for i
      using region_shift_subset [OF that, of f] reg by (intro load32_cong same_on_mono [OF same]) auto
    have off1: "file_offset (mem s1) f = ?off" "file_ref (mem s1) f = file_ref (mem s) f"
      by (simp_all add: file_offset_def file_ref_def word)
    have nk: "?S \<le> unat k" using k by (simp add: word_le_nat_alt size(2))
    have "effect (read_kept A L f dst n) s s1" by (rule effect_mono [OF e1]) (auto simp: read_kept_def)
    then have "has_read disk A L (L(src \<mapsto> k)) f dst c a n s [] s1"
      using h1 by (simp add: has_read_def off1 a del: fun_upd_apply)
    then have "has_read disk A L (L(src \<mapsto> k)) f dst c a n s (copied a n ?S 0) s1" by (simp add: copied_start)
    from read_loop_outcome [OF r src nk _ _ _ _ this, of 0 0 "file_ref (mem s) f"]
    have out: "outcome (fat12_read_loop env f dst src ?span (map word_of_nat [0..<Suc ((a + n) div ?S)]) (file_ref (mem s) f) (0, 0, 0) s1)
        (\<lambda>complete s'. complete = ?valid \<and> has_read disk A L (L(src \<mapsto> k)) f dst c a n s (delivered a n ?S) s')"
      by (simp add: copied_start c del: fun_upd_apply upt_Suc)
    show "outcome (andthen (fat12_read_loop env f dst src ?span (map word_of_nat [0..<Suc ((a + n) div ?S)]) (file_ref (mem s1) f) (0, 0, 0) s1)
        (\<lambda>complete. if complete then free src else ret ())) ?Q"
      unfolding off1
    proof (rule outcome_andthen [OF out], elim conjE)
      fix complete s2
      assume valid: "complete = ?valid" and h2: "has_read disk A L (L(src \<mapsto> k)) f dst c a n s (delivered a n ?S) s2"
      have holds: "heap_holds s2 A (L(src \<mapsto> k))" using h2 by (simp add: has_read_def)
      show "outcome ((if complete then free src else ret ()) s2) ?Q"
      proof (cases complete)
        case True
        have "outcome (free src s2) (\<lambda>_ s'. heap_holds s' A L \<and> effect (- A \<union> blocks (L(src \<mapsto> k))) s2 s')"
          using free_outcome [OF holds, of src k] by (simp add: upd_None [of L src, OF src])
        then have "outcome (free src s2) ?Q"
          using True valid has_read_effect [OF r src length_delivered(1) [OF size(3)] h2]
          by (elim outcome_mono) (auto simp: has_read_def simp del: fun_upd_apply)
        then show ?thesis using True by (simp only: if_True)
      next
        case False
        then show ?thesis using valid h2 src by (simp only: if_False) (rule outcome_ret, auto simp: has_read_def simp del: fun_upd_apply)
      qed
    qed
  qed
  then show ?thesis
    using n0 spc by (simp add: fat12_read_def len bps span loop size(1) Let_def del: upt_Suc)
qed

lemma fat12_read_outcome:
  fixes f dst len :: u32 and s :: kernel
  assumes "a = unat (file_offset (mem s) f)" and "n = min (unat len) (unat (file_len (mem s) f) - a)"
    and "a \<le> unat (file_len (mem s) f)" and "a + unat len < 2 ^ 32" and "0 < n"
    and "c = ucast (file_ref (mem s) f)"
    and "heap_holds s A L" and r: "readable env disk d A L f dst c a n s" and "contiguous a n (cluster_size s)"
  shows "outcome (fat12_read env f dst len s) (\<lambda>_ s'.
    bytes_at (mem s') dst n = map (file_byte disk s c) [a..<a + n] \<and> file_offset (mem s') f = word_of_nat (a + n) \<and>
    effect (read_kept A L f dst n) s s' \<and>
    (if fat12_valid_cluster (nth_cluster disk (lba_fat1 s) c ((a + n) div cluster_size s)) then heap_holds s' A L
     else \<exists>src k. L src = None \<and> heap_holds s' A (L(src \<mapsto> k))))"
proof -
  have "0 < cluster_size s" using r by (simp add: readable_def volume_def cluster_size_def unat_gt_0)
  from delivered_contiguous [OF this assms(9)] have "delivered a n (cluster_size s) = [a..<a + n]" .
  then show ?thesis using fat12_read_copies [OF assms(1-8)] by (simp only: length_upt diff_add_inverse)
qed

end
