(* ===== verification/Fat12_Paths.thy ===== *)
theory Fat12_Paths
  imports Fat12_Volume
begin

text \<open>
  Names and paths of the FAT12 driver: the search of a directory, the walk along the directories of a path,
  the conversion of names between paths, directories and file objects.
\<close>

section \<open>Raw directory entries\<close>

text \<open>A directory as a list of entries of 32 bytes, and the fields of an entry.\<close>

definition dir_entries :: "u8 list \<Rightarrow> u8 list list" where
  "dir_entries bs = map (\<lambda>k. take 32 (drop (32 * k) bs)) [0..<length bs div 32]"

definition raw_half :: "u8 list \<Rightarrow> nat \<Rightarrow> u16" where
  "raw_half e i = ucast (e ! i) OR push_bit 8 (ucast (e ! (i + 1)))"

definition raw_cluster :: "u8 list \<Rightarrow> u32" where
  "raw_cluster e = push_bit 16 (ucast (raw_half e 20)) OR ucast (raw_half e 26)"

definition raw_size :: "u8 list \<Rightarrow> u32" where
  "raw_size e = ucast (e ! 28) OR push_bit 8 (ucast (e ! 29)) OR push_bit 16 (ucast (e ! 30)) OR push_bit 24 (ucast (e ! 31))"

definition entry_is :: "u8 \<Rightarrow> u8 list \<Rightarrow> u8 list \<Rightarrow> bool" where
  "entry_is attributes name e \<longleftrightarrow> e ! 11 = attributes \<and> take 11 e = name \<and> 0 \<notin> set name"

lemma raw_fields:
  "entry_attributes m q = bytes_at m q 32 ! 11" "entry_cluster m q = raw_cluster (bytes_at m q 32)"
  "entry_size m q = raw_size (bytes_at m q 32)"
  by (simp_all add: entry_attributes_def entry_cluster_def entry_cluster_high_def entry_cluster_low_def
      entry_size_def raw_cluster_def raw_half_def raw_size_def load16_def load32_def add.assoc)

lemma fat12_strcmp_bytes:
  "fat12_strcmp m a b n \<longleftrightarrow> bytes_at m a n = bytes_at m b n \<and> 0 \<notin> set (bytes_at m a n)"
  by (induction n arbitrary: a b) (auto simp: bytes_at_Cons)

lemma take_bytes_at: "i \<le> n \<Longrightarrow> take i (bytes_at m p n) = bytes_at m p i"
  by (simp add: bytes_at_def take_map)

lemma drop_bytes_at: "i \<le> n \<Longrightarrow> drop i (bytes_at m p n) = bytes_at m (p + word_of_nat i) (n - i)"
  by (rule nth_equalityI) (simp_all add: add.assoc)

lemma entry_bytes:
  "32 * k + 32 \<le> n \<Longrightarrow> take 32 (drop (32 * k) (bytes_at m p n)) = bytes_at m (p + 32 * word_of_nat k) 32"
  by (simp add: drop_bytes_at take_bytes_at)

text \<open>The search finds the first entry with the attribute and the name.\<close>

lemma fat12_find_entry:
  assumes bs: "bytes_at m p (32 * unat len) = bs" and name: "bytes_at m buffer 11 = name"
  shows "case find (entry_is attributes name) (dir_entries bs) of
      None \<Rightarrow> fat12_find m p len attributes buffer = None
    | Some e \<Rightarrow> \<exists>k < unat len. fat12_find m p len attributes buffer = Some (p + 32 * word_of_nat k) \<and>
        e = bytes_at m (p + 32 * word_of_nat k) 32 \<and> take 11 e = name \<and> 0 \<notin> set name"
proof -
  let ?q = "\<lambda>k. p + 32 * word_of_nat k" and ?e = "\<lambda>k. bytes_at m (p + 32 * word_of_nat k) 32"
  let ?P = "\<lambda>k. entry_is attributes name (?e k)"
  have entry: "entry_attributes m (?q k) = attributes \<and> fat12_strcmp m (?q k) buffer 11 \<longleftrightarrow> ?P k" for k
    using take_bytes_at [of 11 32 m "?q k"] by (auto simp: raw_fields fat12_strcmp_bytes name entry_is_def)
  have found: "fat12_find m p len attributes buffer = map_option ?q (find ?P [0..<unat len])"
    unfolding fat12_find_def indices_def map_map find_map by (simp add: comp_def entry)
  have "dir_entries bs = map ?e [0..<unat len]"
  proof -
    have "length bs div 32 = unat len" unfolding bs [symmetric] by simp
    moreover have "take 32 (drop (32 * k) bs) = ?e k" if "k \<in> set [0..<unat len]" for k
      unfolding bs [symmetric] using that by (intro entry_bytes) simp
    ultimately show ?thesis by (simp add: dir_entries_def)
  qed
  then have entries: "find (entry_is attributes name) (dir_entries bs) = map_option ?e (find ?P [0..<unat len])"
    by (simp add: find_map)
  show ?thesis
  proof (cases "find ?P [0..<unat len]")
    case None
    then show ?thesis by (simp add: found entries)
  next
    case (Some k)
    then obtain i where "i < length [0..<unat len]" "?P ([0..<unat len] ! i)" "k = [0..<unat len] ! i"
      by (auto simp: find_Some_iff)
    then have "k < unat len" "?P k" by simp_all
    then show ?thesis using Some unfolding found entries Some option.map option.case
      by (intro exI [of _ k]) (simp add: entry_is_def)
  qed
qed

section \<open>Names\<close>

text \<open>A name padded with spaces, and the name of a file object.\<close>

definition pad :: "nat \<Rightarrow> u8 list \<Rightarrow> u8 list" where
  "pad n cs = cs @ replicate (n - length cs) 32"

definition name83 :: "u8 list \<Rightarrow> u8 list \<Rightarrow> u8 list" where
  "name83 base x = pad 8 base @ pad 3 x"

definition file_name :: "u8 list \<Rightarrow> u8 list" where
  "file_name name = trim_end 32 (take 8 name) @ 46 # drop 8 name"

lemma cstr_bytes:
  assumes "bytes_at m p (Suc (length cs)) = cs @ [0]" and "0 \<notin> set cs" and "length cs < 2 ^ 32"
  shows "cstr m p cs"
  using assms by (simp add: cstr_def bytes_at_Suc)

lemma bytes_at_store_other:
  assumes "region p n \<inter> region a (length bs) = {}" and "length bs \<le> 2 ^ 32" and "n \<le> 2 ^ 32"
  shows "bytes_at (store_bytes m a bs) p n = bytes_at m p n"
  using assms by (intro bytes_at_cong same_on_store_bytes) simp_all

lemma format_file_name:
  assumes zero: "bytes_at m dest 256 = replicate 256 0" and name: "bytes_at m src 11 = name" "0 \<notin> set name"
    and apart: "region src 11 \<inter> region dest 256 = {}"
  obtains m' where "fat12_format_file_name src dest m = Some m'" "cstr m' dest (file_name name)"
    "same_on (- region dest 256) m m'"
proof -
  have len: "length name = 11" using name(1) by auto
  have sub: "region dest n \<subseteq> region dest 256" if "n \<le> 256" for n using that by (rule region_mono)
  have src: "region (src + i) n \<subseteq> region src 11" if "unat i + n \<le> 11" for i n
    using region_shift_subset [OF that, of src] by simp
  define t where "t = trim_end 32 (take 8 name)"
  have t: "length t \<le> 8" using length_trim_end [of 32 "take 8 name"] len by (simp add: t_def)
  have "copy_safe dest src 8" using sub [of 8] src [of 0 8] apart by (intro copy_safe_disjoint) auto
  then have m1: "memcpy dest src 8 m = store_bytes m dest (take 8 name)"
    using memcpy_bytes [of dest src 8 m] name(1) take_bytes_at [of 8 11 m src] by simp
  let ?m1 = "store_bytes m dest (take 8 name)"
  have z: "m (dest + word_of_nat i) = 0" if "i < 256" for i
    using arg_cong [OF zero, of "\<lambda>xs. xs ! i"] that by simp
  have z1: "?m1 (dest + word_of_nat i) = 0" if "8 \<le> i" "i < 256" for i
    using that z [of i] len by (simp add: store_bytes_apply unat_of_nat_eq)
  have c1: "cstr ?m1 dest (take 8 name)"
    using bytes_at_store_bytes [of "take 8 name" m dest] z1 [of 8] len name(2)
    by (auto simp: cstr_def dest: in_set_takeD)
  obtain m2 where m2: "strtrim dest 32 ?m1 = Some m2" "cstr m2 dest t" "same_on (- region dest 8) ?m1 m2"
    using strtrim_cstr [OF c1, of 32] len by (auto simp: t_def)
  have z2: "m2 (dest + word_of_nat i) = 0" if "length t \<le> i" "i < 256" for i
  proof (cases "i \<le> 8")
    case True
    then show ?thesis using strtrim_zeros [OF m2(1) c1, of i] that len by (simp add: t_def)
  next
    case False
    then have "dest + word_of_nat i \<in> - region dest 8" using that by (simp add: in_region_iff unat_of_nat_eq)
    from same_onD [OF m2(3) this] z1 [of i] False that show ?thesis by simp
  qed
  let ?k = "word_of_nat (length t) :: u32"
  let ?m3 = "store8 m2 (dest + ?k) 46"
  have same2: "same_on (- region dest 256) m m2"
    using same_on_store_bytes [of "take 8 name" "- region dest 256" dest m] sub [of 8] len
    by (intro same_on_trans [OF _ same_on_mono [OF m2(3)]]) auto
  have k: "unat ?k = length t" using t by (simp add: unat_of_nat_eq)
  have in_dest: "region (dest + (?k + 1)) 3 \<subseteq> region dest 256" "dest + ?k \<in> region dest 256"
  proof -
    have "unat (?k + 1) = length t + 1" using t by (subst unat_add_exact) (simp_all add: k)
    then show "region (dest + (?k + 1)) 3 \<subseteq> region dest 256"
      using t region_shift_subset [of "?k + 1" 3 256 dest] by simp
    show "dest + ?k \<in> region dest 256" using t by (intro region_offset) (simp add: k)
  qed
  have same3: "same_on (- region dest 256) m2 ?m3" using in_dest(2) by (intro same_on_store8) blast
  have "bytes_at ?m3 (src + 8) 3 = bytes_at m (src + 8) 3"
    using src [of 8 3] apart by (intro bytes_at_cong same_on_mono [OF same_on_trans [OF same2 same3]]) auto
  also have "\<dots> = drop 8 name" using drop_bytes_at [of 8 11 m src] name(1) by simp
  finally have b3: "bytes_at ?m3 (src + 8) 3 = drop 8 name" .
  have "copy_safe (dest + (?k + 1)) (src + 8) 3"
    using in_dest(1) src [of 8 3] apart by (intro copy_safe_disjoint) auto
  then have m4: "memcpy (dest + (?k + 1)) (src + 8) 3 ?m3 = store_bytes ?m3 (dest + (?k + 1)) (drop 8 name)"
    using memcpy_bytes [of "dest + (?k + 1)" "src + 8" 3 ?m3] b3 by simp
  let ?m4 = "store_bytes m2 (dest + ?k) (46 # drop 8 name)"
  have m4': "memcpy (dest + (?k + 1)) (src + 8) 3 ?m3 = ?m4" unfolding m4 by (simp add: store8_def add.assoc)
  have "fat12_format_file_name src dest m = Some ?m4"
    using m2(1,2) m4' unfolding fat12_format_file_name_def m1 by (simp add: strlen_cstr)
  moreover have "cstr ?m4 dest (file_name name)"
  proof (rule cstr_bytes)
    have l: "length (file_name name) = length t + 4" using len by (simp add: file_name_def t_def)
    have end_: "?m4 (dest + word_of_nat (length t + 4)) = 0"
    proof -
      have "unat (word_of_nat (length t + 4) - ?k) = 4" by simp
      then have "?m4 (dest + word_of_nat (length t + 4)) = m2 (dest + word_of_nat (length t + 4))"
        using len by (subst store_bytes_apply) (simp_all add: add.assoc)
      then show ?thesis using z2 [of "length t + 4"] t by simp
    qed
    have "?m4 (dest + word_of_nat i) = m2 (dest + word_of_nat i)" if "i < length t" for i
    proof -
      have "unat (word_of_nat i - ?k) = i + 2 ^ 32 - length t"
        using that t by (simp add: unat_sub_if' unat_of_nat_eq)
      then have "\<not> unat (dest + word_of_nat i - (dest + ?k)) < 4" using t by simp
      then show ?thesis using len by (subst store_bytes_apply) simp_all
    qed
    then have "bytes_at ?m4 dest (length t) = bytes_at m2 dest (length t)"
      by (intro nth_equalityI) simp_all
    also have "\<dots> = t" using m2(2) by (simp add: cstr_def)
    finally have t4: "bytes_at ?m4 dest (length t) = t" .
    have "bytes_at ?m4 dest (length t + 4) = t @ bytes_at ?m4 (dest + ?k) 4"
      by (simp only: bytes_at_append t4)
    also have "bytes_at ?m4 (dest + ?k) 4 = 46 # drop 8 name"
      using bytes_at_store_bytes [of "46 # drop 8 name" m2 "dest + ?k"] len by simp
    finally have "bytes_at ?m4 dest (length (file_name name)) = file_name name" unfolding l
      by (simp add: file_name_def t_def)
    then show "bytes_at ?m4 dest (Suc (length (file_name name))) = file_name name @ [0]"
      using end_ by (simp only: bytes_at_Suc l)
    show "0 \<notin> set (file_name name)"
      using m2(2) name(2) by (auto simp: file_name_def cstr_def t_def dest: in_set_dropD)
    show "length (file_name name) < 2 ^ 32" using l t by simp
  qed
  moreover have "same_on (- region dest 256) m ?m4"
  proof (rule same_on_trans [OF same2 same_on_store_bytes])
    have "region (dest + ?k) 4 \<subseteq> region dest 256" using t region_shift_subset [of ?k 4 256 dest] by (simp add: k)
    then show "- region dest 256 \<inter> region (dest + ?k) (length (46 # drop 8 name)) = {}" using len by auto
  qed (use len in simp)
  ultimately show ?thesis by (rule that)
qed

text \<open>Moving the extension: the search for the dot, the copy, and the filling.\<close>

lemma extension_skip:
  assumes "m ext = 0" and "\<And>i. 1 \<le> i \<Longrightarrow> i < n \<Longrightarrow> m (buffer + word_of_nat i) \<noteq> 46" and "n \<le> 11" and "1 \<le> k" and "k \<le> n"
  shows "fat12_extension buffer ext (word_of_nat k) m = fat12_extension buffer ext (word_of_nat n) m"
  using assms(4,5)
proof (induction "n - k" arbitrary: k)
  case (Suc d)
  then have k: "k < n" by simp
  then have "(word_of_nat k :: u32) < 11" using assms(3) by (simp add: word_less_nat_alt unat_of_nat_eq)
  then have "fat12_extension buffer ext (word_of_nat k) m = fat12_extension buffer ext (word_of_nat (Suc k)) m"
    using assms(1,2) k Suc.prems by (subst fat12_extension.simps) (simp add: add.commute)
  also have "\<dots> = fat12_extension buffer ext (word_of_nat n) m" using Suc k by (intro Suc.hyps) simp_all
  finally show ?case .
qed simp

lemma extension_fill:
  assumes "m ext \<noteq> 0" and "bytes_at m ext 3 = e" and apart: "region ext 3 \<inter> region buffer 12 = {}" and "k \<le> 11"
  shows "fat12_extension buffer ext (word_of_nat k) m =
    Some (store_bytes m (buffer + word_of_nat k) (drop k (replicate 8 32 @ e)))"
  using assms(1,2,4)
proof (induction "11 - k" arbitrary: k m)
  case 0
  then show ?case by (subst fat12_extension.simps) (simp, auto)
next
  case (Suc d)
  then have k: "k < 11" by simp
  have uk: "unat (word_of_nat k :: u32) = k" using k by (simp add: unat_of_nat_eq)
  let ?v = "(replicate 8 32 @ e) ! k" and ?p = "buffer + word_of_nat k"
  have len: "length e = 3" using Suc.prems(2) by auto
  have in_buffer: "?p \<in> region buffer 12" using k by (intro region_offset) (simp add: uk)
  have v: "?v = (if 8 \<le> (word_of_nat k :: u32) then m (ext + (word_of_nat k - 8)) else 32)"
  proof (cases "8 \<le> k")
    case True
    then have "word_of_nat (k - 8) = (word_of_nat k - 8 :: u32)" by (simp add: of_nat_diff)
    then have "m (ext + (word_of_nat k - 8)) = e ! (k - 8)"
      using Suc.prems(2) True k nth_bytes_at [of "k - 8" 3 m ext] by simp
    then show ?thesis using True uk by (simp add: nth_append word_le_nat_alt)
  next
    case False
    then show ?thesis using uk by (simp add: nth_append word_le_nat_alt)
  qed
  have "(word_of_nat k :: u32) < 11" using k uk by (simp add: word_less_nat_alt)
  then have "fat12_extension buffer ext (word_of_nat k) m = fat12_extension buffer ext (word_of_nat (Suc k)) (store8 m ?p ?v)"
    using Suc.prems(1) v by (subst fat12_extension.simps) (simp add: add.commute)
  also have "\<dots> = Some (store_bytes (store8 m ?p ?v) (buffer + word_of_nat (Suc k)) (drop (Suc k) (replicate 8 32 @ e)))"
  proof (rule Suc.hyps)
    have "?p \<notin> region ext 3" using in_buffer apart by blast
    then have same: "same_on (region ext 3) m (store8 m ?p ?v)" by (rule same_on_store8)
    show "store8 m ?p ?v ext \<noteq> 0" using same_onD [OF same region_self] Suc.prems(1) by simp
    show "bytes_at (store8 m ?p ?v) ext 3 = e" using bytes_at_cong [OF same] Suc.prems(2) by simp
  qed (use Suc k in simp_all)
  also have "store_bytes (store8 m ?p ?v) (buffer + word_of_nat (Suc k)) (drop (Suc k) (replicate 8 32 @ e)) =
      store_bytes m ?p (drop k (replicate 8 32 @ e))"
    using k len Cons_nth_drop_Suc [of k "replicate 8 32 @ e", symmetric] by (simp add: store8_def add.commute add.left_commute)
  finally show ?case .
qed

lemma extension_moves:
  assumes buf: "bytes_at m buffer 12 = pad 12 (base @ 46 # x)" and base: "1 \<le> length base" "length base \<le> 8" "46 \<notin> set base"
    and x: "1 \<le> length x" "length x \<le> 3" "0 \<notin> set x" and ext: "m ext = 0" and apart: "region ext 3 \<inter> region buffer 12 = {}"
  obtains m' where "fat12_extension buffer ext 1 m = Some m'" "bytes_at m' buffer 11 = name83 base x" "m' ext \<noteq> 0"
    "same_on (- (region buffer 12 \<union> region ext 3)) m m'"
proof -
  let ?n = "length base" and ?name = "pad 12 (base @ 46 # x)"
  have char: "m (buffer + word_of_nat i) = ?name ! i" if "i < 12" for i
    using arg_cong [OF buf, of "\<lambda>cs. cs ! i"] that by simp
  have un: "unat (word_of_nat ?n :: u32) = ?n" using base by (simp add: unat_of_nat_eq)
  have "m (buffer + word_of_nat i) \<noteq> 46" if i: "i < ?n" for i
  proof -
    have "m (buffer + word_of_nat i) = base ! i" using char [of i] i base by (simp add: pad_def nth_append)
    moreover have "base ! i \<in> set base" using i by simp
    ultimately show ?thesis using base(3) by auto
  qed
  then have skip: "fat12_extension buffer ext 1 m = fat12_extension buffer ext (word_of_nat ?n) m"
    using extension_skip [where m = m and ext = ext and n = ?n and buffer = buffer and k = 1] ext base by simp
  have dot: "m (buffer + word_of_nat ?n) = 46" using char [of ?n] base by (simp add: pad_def nth_append)
  let ?src = "buffer + (word_of_nat ?n + 1)"
  have "region ?src 3 \<subseteq> region buffer 12"
    using base un region_shift_subset [of "word_of_nat ?n + 1" 3 12 buffer] by (simp add: unat_add_exact)
  then have safe: "copy_safe ext ?src 3" using apart by (intro copy_safe_disjoint) auto
  have "bytes_at m ?src 3 = pad 3 x"
  proof (rule nth_equalityI)
    fix i assume "i < length (bytes_at m ?src 3)"
    then have i: "i < 3" by simp
    have "m (?src + word_of_nat i) = ?name ! (?n + 1 + i)"
      using char [of "?n + 1 + i"] base i by (simp add: add.assoc add.left_commute)
    also have "\<dots> = pad 3 x ! i" using i x base by (auto simp: pad_def nth_append)
    finally show "bytes_at m ?src 3 ! i = pad 3 x ! i" using i by simp
  qed (use x in \<open>simp add: pad_def\<close>)
  then have copy: "memcpy ext ?src 3 m = store_bytes m ext (pad 3 x)" using memcpy_bytes [of ext ?src 3 m] safe by simp
  let ?m = "store_bytes m ext (pad 3 x)"
  have lx: "length (pad 3 x) = 3" using x by (simp add: pad_def)
  have bext: "bytes_at ?m ext 3 = pad 3 x" using bytes_at_store_bytes [of "pad 3 x" m ext] lx by simp
  then have "?m ext = pad 3 x ! 0" using nth_bytes_at [of 0 3 ?m ext] by simp
  also have "\<dots> = x ! 0" using x by (cases x) (simp_all add: pad_def)
  finally have "?m ext = x ! 0" .
  moreover have "x ! 0 \<in> set x" using x by (cases x) simp_all
  ultimately have mext: "?m ext \<noteq> 0" using x(3) by auto
  have "(word_of_nat ?n :: u32) < 11" using base un by (simp add: word_less_nat_alt)
  then have "fat12_extension buffer ext (word_of_nat ?n) m = fat12_extension buffer ext (word_of_nat ?n) ?m"
    using ext dot copy by (subst fat12_extension.simps) simp
  also have "\<dots> = Some (store_bytes ?m (buffer + word_of_nat ?n) (drop ?n (replicate 8 32 @ pad 3 x)))"
    using mext bext apart base by (intro extension_fill) simp_all
  finally have run: "fat12_extension buffer ext 1 m =
      Some (store_bytes ?m (buffer + word_of_nat ?n) (drop ?n (replicate 8 32 @ pad 3 x)))" using skip by simp
  let ?bs = "drop ?n (replicate 8 32 @ pad 3 x)"
  let ?m' = "store_bytes ?m (buffer + word_of_nat ?n) ?bs"
  have lbs: "length ?bs = 11 - ?n" using lx by simp
  have sub: "region (buffer + word_of_nat ?n) (length ?bs) \<subseteq> region buffer 12"
    using base un lbs region_shift_subset [of "word_of_nat ?n" "11 - ?n" 12 buffer] by simp
  have same: "same_on (- region ext 3) m ?m" using lx by (intro same_on_store_bytes) simp_all
  have same': "same_on (- region buffer 12) ?m ?m'" using sub lbs by (intro same_on_store_bytes) auto
  show ?thesis
  proof (rule that [OF run])
    have "bytes_at ?m buffer ?n = bytes_at m buffer ?n"
      using apart region_mono [of ?n 12 buffer] base by (intro bytes_at_cong same_on_mono [OF same]) auto
    moreover have "bytes_at m buffer ?n = base"
      using arg_cong [OF buf, of "take ?n"] base by (simp add: take_bytes_at pad_def)
    moreover have "bytes_at ?m' buffer ?n = bytes_at ?m buffer ?n" using lbs base by (intro bytes_at_before) simp
    moreover have "bytes_at ?m' (buffer + word_of_nat ?n) (11 - ?n) = ?bs"
      using bytes_at_store_bytes [of ?bs ?m "buffer + word_of_nat ?n"] lbs by simp
    ultimately have "bytes_at ?m' buffer (?n + (11 - ?n)) = base @ ?bs" by (simp only: bytes_at_append)
    then show "bytes_at ?m' buffer 11 = name83 base x" using base by (simp add: name83_def pad_def)
    have "ext \<in> - region buffer 12" using region_self [of 3 ext] apart by auto
    then show "?m' ext \<noteq> 0" using same_onD [OF same'] mext by metis
    show "same_on (- (region buffer 12 \<union> region ext 3)) m ?m'"
      by (rule same_on_trans [OF same_on_mono [OF same] same_on_mono [OF same']]) auto
  qed
qed

end
