(* ===== verification/Fat12_Open.thy ===== *)
theory Fat12_Open
  imports Fat12_Paths
begin

text \<open>
  Opening files and directories. The loops of \<open>fat12_open\<close> and \<open>fat12_opendir\<close> over the characters of a path share a
  contract, the locale \<open>path_loop\<close>; in it, the loops are shown to follow the walk through the directories of the
  volume, once for both.
\<close>

section \<open>The walk\<close>

text \<open>
  From a directory through its subdirectories; \<open>D\<close> gives the bytes of the directory at a cluster. \<open>walkable\<close> says that every
  directory on the way is one the driver can read.
\<close>

fun walk :: "(u16 \<Rightarrow> u8 list) \<Rightarrow> u16 \<Rightarrow> u8 list list \<Rightarrow> u16 option" where
  "walk D c [] = Some c"
| "walk D c (d # ds) =
    (case find (entry_is 0x10 (pad 11 d)) (dir_entries (D c)) of
       None \<Rightarrow> None
     | Some e \<Rightarrow> walk D (ucast (raw_cluster e)) ds)"

fun walkable :: "(u16 \<Rightarrow> u8 list) \<Rightarrow> (u16 \<Rightarrow> bool) \<Rightarrow> u16 \<Rightarrow> u8 list list \<Rightarrow> bool" where
  "walkable D good c [] = good c"
| "walkable D good c (d # ds) =
    (good c \<and> (case find (entry_is 0x10 (pad 11 d)) (dir_entries (D c)) of
       None \<Rightarrow> True
     | Some e \<Rightarrow> walkable D good (ucast (raw_cluster e)) ds))"

definition path_bytes :: "u8 list list \<Rightarrow> u8 list \<Rightarrow> u8 list" where
  "path_bytes ds name = concat (map (\<lambda>d. d @ [47]) ds) @ name"

definition component :: "u8 list \<Rightarrow> bool" where
  "component d \<longleftrightarrow> length d \<le> 11 \<and> 0 \<notin> set d \<and> 47 \<notin> set d"

lemma path_bytes_simps [simp]:
  "path_bytes [] name = name" "path_bytes (d # ds) name = d @ 47 # path_bytes ds name"
  by (simp_all add: path_bytes_def)

lemma path_bytes_chars:
  assumes "\<forall>d \<in> set ds. component d" and "component name" and "name \<noteq> []"
  shows "0 \<notin> set (path_bytes ds name)" "path_bytes ds name \<noteq> []"
  using assms by (auto simp: path_bytes_def component_def)

section \<open>Loaded directories\<close>

text \<open>What a routine on a path may write: the local variables outside the heap.\<close>

definition path_kept :: "u32 set \<Rightarrow> (u32 \<rightharpoonup> u32) \<Rightarrow> u32 \<Rightarrow> u32 \<Rightarrow> u32 set" where
  "path_kept A L slot buffer = (- A \<union> blocks L) - (region slot 4 \<union> region buffer 12)"

lemma dir_bytes_effect:
  assumes "effect K s s'" and "region (bpb s) 62 \<subseteq> K"
  shows "dir_bytes disk s' = dir_bytes disk s"
  using geometry [OF assms] by (simp add: fun_eq_iff dir_bytes_def)

lemma loaded_write:
  assumes l: "loaded A L slot len bs s" and e: "effect (- R) s s'" and R: "R \<inter> A = {}" "R \<inter> region slot 4 = {}"
  shows "loaded A L slot len bs s'"
proof -
  let ?p = "load32 (mem s) slot"
  obtain k where k: "length bs = 32 * unat len" "L ?p = None" "32 * unat len \<le> unat k" "heap_holds s A (L(?p \<mapsto> k))"
      "bytes_at (mem s) ?p (32 * unat len) = bs"
    using l by (auto simp: loaded_def)
  have same: "same_on (- R) (mem s) (mem s')" using e by (simp add: effect_def)
  have p: "load32 (mem s') slot = ?p" using R(2) by (intro load32_cong same_on_mono [OF same]) blast
  have "heap_holds s' A (L(?p \<mapsto> k))" using k(4) by (rule outside_write) (rule effect_mono [OF e], use R(1) in blast)
  moreover have "region ?p (32 * unat len) \<inter> R = {}" using slot_apart [OF k(4) _ k(3) R(1)] by simp
  then have "bytes_at (mem s') ?p (32 * unat len) = bs"
    using k(3,5) unat_lt2p [of k] by (subst bytes_at_cong [OF same_on_mono [OF same]]) auto
  ultimately show ?thesis using k(1-3) by (auto simp: loaded_def p intro!: exI [of _ k])
qed

lemma loaded_heap:
  assumes "loaded A L slot len bs s"
  obtains L' where "L \<subseteq>\<^sub>m L'" "heap_holds s A L'"
proof -
  obtain k where "L (load32 (mem s) slot) = None" "heap_holds s A (L(load32 (mem s) slot \<mapsto> k))"
    using assms by (auto simp: loaded_def)
  then show ?thesis using that map_le_upd [of L "load32 (mem s) slot" k] by blast
qed

lemma loaded_find:
  assumes "loaded A L slot len bs s" and "bytes_at (mem s) buffer 11 = name"
  shows "case find (entry_is attributes name) (dir_entries bs) of
      None \<Rightarrow> fat12_find (mem s) (load32 (mem s) slot) len attributes buffer = None
    | Some e \<Rightarrow> \<exists>k < unat len. fat12_find (mem s) (load32 (mem s) slot) len attributes buffer =
          Some (load32 (mem s) slot + 32 * word_of_nat k) \<and>
        e = bytes_at (mem s) (load32 (mem s) slot + 32 * word_of_nat k) 32 \<and> take 11 e = name \<and> 0 \<notin> set name"
  using assms by (intro fat12_find_entry) (auto simp: loaded_def)

text \<open>A step into a directory.\<close>

lemma enter_missing:
  assumes "loaded A L slot len bs s" and "bytes_at (mem s) buffer 11 = name"
    and "find (entry_is 0x10 name) (dir_entries bs) = None"
  shows "fat12_enter env slot buffer len s = ret None s"
  using loaded_find [OF assms(1,2), of 16] assms(3) by (simp add: fat12_enter_def)

lemma enter_outcome:
  assumes v: "volume env disk n A s" and l: "loaded A L slot len bs s" and name: "bytes_at (mem s) buffer 11 = name"
    and e: "find (entry_is 0x10 name) (dir_entries bs) = Some e"
    and c: "dir_cluster disk (lba_fat1 s) (ucast (raw_cluster e))"
    and out: "region slot 4 \<inter> A = {}" "region buffer 12 \<inter> A = {}" "region slot 4 \<inter> region buffer 12 = {}"
    and bpb: "region (bpb s) 62 \<inter> (region slot 4 \<union> region buffer 12) = {}"
  shows "outcome (fat12_enter env slot buffer len s) (\<lambda>r s'. \<exists>len'. r = Some len' \<and>
    loaded A L slot len' (dir_bytes disk s (ucast (raw_cluster e))) s' \<and>
    bytes_at (mem s') buffer 12 = replicate 12 32 \<and> effect (path_kept A L slot buffer) s s')"
proof -
  let ?p = "load32 (mem s) slot" and ?c = "ucast (raw_cluster e) :: u16" and ?K = "path_kept A L slot buffer"
  obtain k where k: "L ?p = None" "heap_holds s A (L(?p \<mapsto> k))" using l by (auto simp: loaded_def)
  obtain j where j: "fat12_find (mem s) ?p len 16 buffer = Some (?p + 32 * word_of_nat j)"
      "e = bytes_at (mem s) (?p + 32 * word_of_nat j) 32"
    using loaded_find [OF l name, of 16] e by auto
  have cluster: "entry_cluster (mem s) (?p + 32 * word_of_nat j) = raw_cluster e" by (simp add: raw_fields j(2))
  have bpbK: "region (bpb s) 62 \<subseteq> (- A \<union> blocks L) - region slot 4" "region (bpb s) 62 \<subseteq> - A \<union> blocks L"
    using bpb volume_bpb [OF v, of L] by blast+
  have "outcome (andthen (free ?p s) (\<lambda>_ s. andthen (fat12_read_directory env slot ?c s) (\<lambda>entries_len s.
      ret (Some entries_len) (s\<lparr>mem := strset buffer 32 12 (mem s)\<rparr>))))
    (\<lambda>r s'. \<exists>len'. r = Some len' \<and> loaded A L slot len' (dir_bytes disk s ?c) s' \<and>
      bytes_at (mem s') buffer 12 = replicate 12 32 \<and> effect ?K s s')"
  proof (rule outcome_andthen [OF free_outcome [OF k(2), of ?p k]], simp)
    fix u s1
    assume "heap_holds s1 A ((L(?p \<mapsto> k))(?p := None)) \<and> effect (- A \<union> blocks (L(?p \<mapsto> k))) s s1"
    then have h1: "heap_holds s1 A L" and e1: "effect (- A \<union> blocks L) s s1"
      using blocks_mono [OF map_le_upd [of L ?p k, OF k(1)]] upd_None [of L ?p, OF k(1)] by (auto intro: effect_mono)
    note g1 = geometry [OF e1 bpbK(2)]
    show "outcome (andthen (fat12_read_directory env slot ?c s1) (\<lambda>entries_len s.
        ret (Some entries_len) (s\<lparr>mem := strset buffer 32 12 (mem s)\<rparr>)))
      (\<lambda>r s'. \<exists>len'. r = Some len' \<and> loaded A L slot len' (dir_bytes disk s ?c) s' \<and>
        bytes_at (mem s') buffer 12 = replicate 12 32 \<and> effect ?K s s')"
    proof (rule outcome_andthen [OF read_directory_outcome [OF volume_effect [OF v e1 bpbK(2)] h1 out(1)]])
      show "region slot 4 \<inter> region (bpb s1) 62 = {}" using bpb g1 by auto
      show "dir_cluster disk (lba_fat1 s1) ?c" using c g1 by simp
      fix len' s2
      assume r: "loaded A L slot len' (dir_bytes disk s1 ?c) s2 \<and> effect (- A \<union> blocks L - region slot 4) s1 s2"
      let ?s = "s2\<lparr>mem := strset buffer 32 12 (mem s2)\<rparr>"
      have set: "strset buffer 32 12 (mem s2) = store_bytes (mem s2) buffer (replicate 12 32)" by (simp add: strset_bytes)
      have e3: "effect (- region buffer 12) s2 ?s"
        using same_on_store_bytes [of "replicate 12 32" "- region buffer 12" buffer "mem s2"]
        unfolding set by (intro effect_mem) simp
      have "loaded A L slot len' (dir_bytes disk s ?c) ?s"
        using r dir_bytes_effect [OF e1 bpbK(2)] out by (intro loaded_write [OF _ e3]) auto
      moreover have "bytes_at (mem ?s) buffer 12 = replicate 12 32"
        using bytes_at_store_bytes [of "replicate 12 32" "mem s2" buffer] unfolding set by simp
      moreover have "effect ?K s ?s"
        using r by (intro effect_trans [OF effect_mono [OF e1] effect_trans [OF effect_mono effect_mono [OF e3]]])
          (auto simp: path_kept_def)
      ultimately show "outcome (ret (Some len') ?s)
        (\<lambda>r s'. \<exists>len'. r = Some len' \<and> loaded A L slot len' (dir_bytes disk s ?c) s' \<and>
          bytes_at (mem s') buffer 12 = replicate 12 32 \<and> effect ?K s s')"
        by (intro outcome_ret) blast
    qed
  qed
  then show ?thesis by (simp add: fat12_enter_def j(1) cluster)
qed

section \<open>The loops over a path\<close>

locale path_loop =
  fixes env :: environment and slot buffer path :: u32
    and loop :: "u32 \<Rightarrow> u32 \<Rightarrow> u32 \<Rightarrow> kernel \<Rightarrow> u32 krun" and finish :: "u32 \<Rightarrow> kernel \<Rightarrow> u32 krun"
  assumes char: "mem s (path + j) \<noteq> 0 \<Longrightarrow> mem s (path + j) \<noteq> 47 \<Longrightarrow> i \<noteq> 11 \<Longrightarrow>
      loop len i j s = loop len (i + 1) (j + 1) (s\<lparr>mem := store8 (mem s) (buffer + i) (mem s (path + j))\<rparr>)"
    and overflow: "mem s (path + j) \<noteq> 0 \<Longrightarrow> mem s (path + j) \<noteq> 47 \<Longrightarrow> loop len 11 j s = ret 0 s"
    and slash: "mem s (path + j) = 47 \<Longrightarrow> mem s (path + (j + 1)) \<noteq> 0 \<Longrightarrow>
      loop len i j s = andthen (fat12_enter env slot buffer len s) (\<lambda>r s.
        case r of None \<Rightarrow> ret 0 s | Some len \<Rightarrow> loop len 0 (j + 1) s)"
    and stop: "mem s (path + j) = 0 \<Longrightarrow> loop len i j s = finish len s"
begin

text \<open>The characters of a component go to the buffer.\<close>

lemma scan:
  assumes "bytes_at (mem s) (path + j) (length d) = d" and "0 \<notin> set d" and "47 \<notin> set d" and "i + length d \<le> 11"
    and "region (path + j) (length d) \<inter> region buffer 12 = {}"
  shows "loop len (word_of_nat i) j s = loop len (word_of_nat (i + length d)) (j + word_of_nat (length d))
    (s\<lparr>mem := store_bytes (mem s) (buffer + word_of_nat i) d\<rparr>)"
  using assms
proof (induction d arbitrary: i j s)
  case (Cons c d)
  let ?m = "store8 (mem s) (buffer + word_of_nat i) c"
  have c: "mem s (path + j) = c" and d: "bytes_at (mem s) (path + (j + 1)) (length d) = d"
    using Cons.prems(1) by (simp_all add: bytes_at_Cons add.assoc)
  have len: "length d \<le> 10" using Cons.prems(4) by simp
  have i: "unat (word_of_nat i :: u32) = i" using Cons.prems(4) by (simp add: unat_of_nat_eq)
  have sub: "region (path + (j + 1)) (length d) \<subseteq> region (path + j) (length (c # d))"
    using len region_shift_subset [of 1 "length d" "length (c # d)" "path + j"] by (simp add: add.assoc)
  have "word_of_nat i \<noteq> (11 :: u32)" using i Cons.prems(4) by auto
  then have "loop len (word_of_nat i) j s = loop len (word_of_nat (Suc i)) (j + 1) (s\<lparr>mem := ?m\<rparr>)"
    using char [of s j "word_of_nat i" len] c Cons.prems(2,3) by (simp add: add.commute)
  also have "\<dots> = loop len (word_of_nat (Suc i + length d)) (j + 1 + word_of_nat (length d))
      (s\<lparr>mem := ?m\<rparr>\<lparr>mem := store_bytes (mem (s\<lparr>mem := ?m\<rparr>)) (buffer + word_of_nat (Suc i)) d\<rparr>)"
  proof (rule Cons.IH)
    have "buffer + word_of_nat i \<in> region buffer 12" using Cons.prems(4) by (intro region_offset) (simp add: i)
    then have "buffer + word_of_nat i \<notin> region (path + (j + 1)) (length d)" using sub Cons.prems(5) by blast
    then show "bytes_at (mem (s\<lparr>mem := ?m\<rparr>)) (path + (j + 1)) (length d) = d"
      using d len by (simp add: bytes_at_cong [OF same_on_store8])
    show "region (path + (j + 1)) (length d) \<inter> region buffer 12 = {}" using sub Cons.prems(5) by blast
  qed (use Cons.prems in simp_all)
  finally show ?case by (simp add: store8_def ac_simps)
qed simp

text \<open>A twelfth character of a component ends the loop.\<close>

lemma too_long:
  assumes l: "loaded A L slot len bs s" and p: "bytes_at (mem s) path 12 = d" "0 \<notin> set d" "47 \<notin> set d"
    and apart: "region path 12 \<inter> region buffer 12 = {}"
  obtains s' where "loop len 0 0 s = ret 0 s'" "effect (- region buffer 12) s s'"
proof -
  let ?d = "take 11 d" and ?m = "store_bytes (mem s) buffer (take 11 d)"
  have len: "length d = 12" using p(1) by auto
  have "bytes_at (mem s) (path + 0) (length ?d) = ?d" using p(1) len take_bytes_at [of 11 12 "mem s" path] by simp
  moreover have "region (path + 0) (length ?d) \<inter> region buffer 12 = {}"
    using apart region_mono [of 11 12 path] len by auto
  ultimately have run: "loop len 0 0 s = loop len 11 11 (s\<lparr>mem := ?m\<rparr>)"
    using scan [of s 0 ?d 0 len] p len by (auto dest: in_set_takeD)
  have e: "effect (- region buffer 12) s (s\<lparr>mem := ?m\<rparr>)"
    using len region_mono [of 11 12 buffer] by (intro effect_mem same_on_store_bytes) auto
  have "path + 11 \<in> region path 12" by (intro region_offset) simp
  then have "path + 11 \<in> - region buffer 12" using apart by blast
  then have "mem (s\<lparr>mem := ?m\<rparr>) (path + 11) = mem s (path + 11)" using e by (auto simp: effect_def dest: same_onD)
  also have "\<dots> = d ! 11" using arg_cong [OF p(1), of "\<lambda>cs. cs ! 11"] by simp
  finally have "mem (s\<lparr>mem := ?m\<rparr>) (path + 11) = d ! 11" .
  moreover have "d ! 11 \<in> set d" using len by simp
  ultimately have "loop len 11 11 (s\<lparr>mem := ?m\<rparr>) = ret 0 (s\<lparr>mem := ?m\<rparr>)" using p(2,3) by (intro overflow) auto
  then show ?thesis using that run e by simp
qed

lemma scan_component:
  assumes l: "loaded A L slot len bs s" and blank: "bytes_at (mem s) buffer 12 = replicate 12 32" and d: "component d"
    and chars: "bytes_at (mem s) (path + j) (length d) = d" and apart: "region (path + j) (length d) \<inter> region buffer 12 = {}"
    and out: "region slot 4 \<inter> A = {}" "region buffer 12 \<inter> A = {}" "region slot 4 \<inter> region buffer 12 = {}"
  obtains s' where "loop len 0 j s = loop len (word_of_nat (length d)) (j + word_of_nat (length d)) s'"
    "effect (- region buffer 12) s s'" "loaded A L slot len bs s'" "bytes_at (mem s') buffer 12 = pad 12 d"
proof -
  let ?n = "length d" and ?m = "store_bytes (mem s) buffer d"
  let ?s = "s\<lparr>mem := ?m\<rparr>"
  have len: "?n \<le> 11" and free: "0 \<notin> set d" "47 \<notin> set d" using d by (simp_all add: component_def)
  have e: "effect (- region buffer 12) s ?s"
    using len region_mono [of ?n 12 buffer] by (intro effect_mem same_on_store_bytes) auto
  have "loop len 0 j s = loop len (word_of_nat ?n) (j + word_of_nat ?n) ?s"
    using scan [of s j d 0 len] chars free len apart by simp
  moreover have "loaded A L slot len bs ?s" using out by (intro loaded_write [OF l e]) auto
  moreover have "bytes_at (mem ?s) buffer 12 = pad 12 d"
  proof -
    have 1: "bytes_at ?m buffer ?n = d" using len by (intro bytes_at_store_bytes) simp
    have 2: "?m (buffer + word_of_nat i) = 32" if "?n \<le> i" "i < 12" for i
    proof -
      have "mem s (buffer + word_of_nat i) = 32" using arg_cong [OF blank, of "\<lambda>cs. cs ! i"] that by simp
      then show ?thesis using that len by (simp add: store_bytes_apply unat_of_nat_eq)
    qed
    have "bytes_at ?m (buffer + word_of_nat ?n) (12 - ?n) = replicate (12 - ?n) 32"
    proof (rule nth_equalityI)
      fix i assume "i < length (bytes_at ?m (buffer + word_of_nat ?n) (12 - ?n))"
      then show "bytes_at ?m (buffer + word_of_nat ?n) (12 - ?n) ! i = replicate (12 - ?n) 32 ! i"
        using 2 [of "?n + i"] by (simp add: add.assoc)
    qed simp
    then have "bytes_at ?m buffer (?n + (12 - ?n)) = pad 12 d" by (simp only: bytes_at_append 1 pad_def)
    then show ?thesis using len by simp
  qed
  ultimately show ?thesis using e by (intro that)
qed

text \<open>
  The loop from a directory along the rest of a path: it ends in the routine that opens the last component, with the
  directory loaded and the component in the buffer, or, when a directory is missing, with no result.
\<close>

lemma walk_outcome:
  assumes "volume env disk n A s" and "dir_bytes disk s = D" and "lba_fat1 s = fat1" and "loaded A L slot len (D c) s"
    and "bytes_at (mem s) buffer 12 = replicate 12 32"
    and "bytes_at (mem s) (path + j) (Suc (length (path_bytes ds name))) = path_bytes ds name @ [0]"
    and "length (path_bytes ds name) < 2 ^ 32 - 1"
    and "\<forall>d \<in> set ds. component d" and name: "component name" "name \<noteq> []"
    and out: "region slot 4 \<inter> A = {}" "region buffer 12 \<inter> A = {}" "region slot 4 \<inter> region buffer 12 = {}"
    and "region (bpb s) 62 \<subseteq> path_kept A L slot buffer"
    and "region (path + j) (Suc (length (path_bytes ds name))) \<subseteq> path_kept A L slot buffer"
    and "walkable D (dir_cluster disk fat1) c ds"
    and found: "\<And>c' s' len'. walk D c ds = Some c' \<Longrightarrow> effect (path_kept A L slot buffer) s s' \<Longrightarrow>
        loaded A L slot len' (D c') s' \<Longrightarrow> bytes_at (mem s') buffer 12 = pad 12 name \<Longrightarrow> outcome (finish len' s') Q"
    and lost: "\<And>s' L'. walk D c ds = None \<Longrightarrow> effect (path_kept A L slot buffer) s s' \<Longrightarrow> L \<subseteq>\<^sub>m L' \<Longrightarrow>
        heap_holds s' A L' \<Longrightarrow> Q 0 s'"
  shows "outcome (loop len 0 j s) Q"
  using assms(1-8) assms(14-18)
proof (induction ds arbitrary: s c len j)
  case Nil
  let ?K = "path_kept A L slot buffer" and ?n = "length name"
  have len: "?n \<le> 11" using name by (simp add: component_def)
  have chars: "bytes_at (mem s) (path + j) ?n = name" "mem s (path + (j + word_of_nat ?n)) = 0"
    using Nil.prems(6) by (simp_all add: bytes_at_Suc add.assoc)
  have disj: "region (path + j) (Suc ?n) \<inter> region buffer 12 = {}" using Nil.prems(10) by (auto simp: path_kept_def)
  then have "region (path + j) ?n \<inter> region buffer 12 = {}" using region_mono [of ?n "Suc ?n" "path + j"] by auto
  then obtain s' where s': "loop len 0 j s = loop len (word_of_nat ?n) (j + word_of_nat ?n) s'"
      "effect (- region buffer 12) s s'" "loaded A L slot len (D c) s'" "bytes_at (mem s') buffer 12 = pad 12 name"
    using scan_component [OF Nil.prems(4,5) name(1) chars(1) _ out] by blast
  have "path + j + word_of_nat ?n \<in> region (path + j) (Suc ?n)" using len by (intro region_offset) (simp add: unat_of_nat_eq)
  then have "path + (j + word_of_nat ?n) \<in> - region buffer 12" using disj by (auto simp: add.assoc)
  then have "mem s' (path + (j + word_of_nat ?n)) = 0" using s'(2) chars(2) by (auto simp: effect_def dest: same_onD)
  then have "loop len 0 j s = finish len s'" using s'(1) stop by simp
  moreover have "effect ?K s s'" by (rule effect_mono [OF s'(2)]) (auto simp: path_kept_def)
  ultimately show ?case using Nil.prems(12) s'(3,4) by simp
next
  case (Cons d ds)
  let ?K = "path_kept A L slot buffer" and ?n = "length d" and ?rest = "path_bytes ds name"
  let ?N = "Suc (length (path_bytes (d # ds) name))"
  have d: "component d" and len: "?n \<le> 11" using Cons.prems(8) by (simp_all add: component_def)
  have N: "?N = ?n + (1 + Suc (length ?rest))" "?N < 2 ^ 32" using Cons.prems(7) by simp_all
  have "bytes_at (mem s) (path + j) (?n + (1 + Suc (length ?rest))) = d @ [47] @ (?rest @ [0])"
    using Cons.prems(6) unfolding N(1) [symmetric] by simp
  then have chars: "bytes_at (mem s) (path + j) ?n = d" "mem s (path + (j + word_of_nat ?n)) = 47"
      "bytes_at (mem s) (path + (j + word_of_nat ?n + 1)) (Suc (length ?rest)) = ?rest @ [0]"
    unfolding bytes_at_append by (simp_all add: bytes_at_Suc [of _ _ 0, simplified] add.assoc del: bytes_at_Suc)
  have sub: "region (path + (j + word_of_nat i)) k \<subseteq> region (path + j) ?N" if "i + k \<le> ?N" for i k
  proof -
    have "unat (word_of_nat i :: u32) + k \<le> ?N" using that N(2) by (simp add: unat_of_nat_eq)
    from region_shift_subset [OF this, of "path + j"] N(2) show ?thesis by (simp add: add.assoc)
  qed
  have disj: "region (path + j) ?N \<inter> region buffer 12 = {}" using Cons.prems(10) by (auto simp: path_kept_def)
  have "region (path + j) ?n \<inter> region buffer 12 = {}" using sub [of 0 ?n] disj by auto
  then obtain s1 where s1: "loop len 0 j s = loop len (word_of_nat ?n) (j + word_of_nat ?n) s1"
      "effect (- region buffer 12) s s1" "loaded A L slot len (D c) s1" "bytes_at (mem s1) buffer 12 = pad 12 d"
    using scan_component [OF Cons.prems(4,5) d chars(1) _ out] by blast
  have e1: "effect ?K s s1" by (rule effect_mono [OF s1(2)]) (auto simp: path_kept_def)
  have buf: "bytes_at (mem s1) buffer 11 = pad 11 d"
    using arg_cong [OF s1(4), of "take 11"] len by (simp add: take_bytes_at pad_def)
  have "same_on (region (path + j) ?N) (mem s) (mem s1)"
    using s1(2) disj by (auto simp: effect_def intro: same_on_mono)
  note same = same_onD [OF this]
  have at: "path + (j + word_of_nat i) \<in> region (path + j) ?N" if "i < ?N" for i
    using sub [of i 1] region_self [of 1 "path + (j + word_of_nat i)"] that by auto
  have slash_at: "mem s1 (path + (j + word_of_nat ?n)) = 47" using same [OF at, of ?n] chars(2) by simp
  have rest: "0 \<notin> set ?rest" "?rest \<noteq> []" using Cons.prems(8) name by (intro path_bytes_chars; simp)+
  have "mem s (path + (j + word_of_nat ?n + 1)) = ?rest ! 0"
    using arg_cong [OF chars(3), of "\<lambda>cs. cs ! 0"] rest(2) by (simp add: nth_append)
  moreover have "?rest ! 0 \<noteq> 0" using rest by (metis length_greater_0_conv nth_mem)
  ultimately have next1: "mem s1 (path + (j + word_of_nat ?n + 1)) \<noteq> 0"
    using same [OF at, of "?n + 1"] by (simp add: ac_simps)
  have run: "loop len 0 j s = andthen (fat12_enter env slot buffer len s1) (\<lambda>r s.
      case r of None \<Rightarrow> ret 0 s | Some len \<Rightarrow> loop len 0 (j + word_of_nat ?n + 1) s)"
    unfolding s1(1) using slash [OF slash_at next1] .
  note g1 = geometry [OF e1 Cons.prems(9)]
  show ?case
  proof (cases "find (entry_is 16 (pad 11 d)) (dir_entries (D c))")
    case None
    obtain L' where "L \<subseteq>\<^sub>m L'" "heap_holds s1 A L'" using loaded_heap [OF s1(3)] by blast
    moreover have "loop len 0 j s = ret 0 s1" unfolding run enter_missing [OF s1(3) buf None] by simp
    ultimately show ?thesis using Cons.prems(13) e1 None by (auto intro!: outcome_ret)
  next
    case (Some e)
    let ?c = "ucast (raw_cluster e) :: u16"
    have w: "walkable D (dir_cluster disk fat1) ?c ds" using Cons.prems(11) Some by simp
    then have good: "dir_cluster disk (lba_fat1 s1) ?c" using g1 Cons.prems(3) by (cases ds) simp_all
    have bpb1: "region (bpb s1) 62 \<inter> (region slot 4 \<union> region buffer 12) = {}"
      using Cons.prems(9) by (auto simp: path_kept_def g1)
    have D1: "dir_bytes disk s1 = D" using dir_bytes_effect [OF e1 Cons.prems(9)] Cons.prems(2) by simp
    show ?thesis unfolding run
    proof (rule outcome_andthen [OF enter_outcome [OF volume_effect [OF Cons.prems(1) e1 Cons.prems(9)] s1(3) buf Some good out bpb1]])
      fix r s2
      assume "\<exists>len'. r = Some len' \<and> loaded A L slot len' (dir_bytes disk s1 ?c) s2 \<and>
        bytes_at (mem s2) buffer 12 = replicate 12 32 \<and> effect ?K s1 s2"
      then obtain len' where r: "r = Some len'" "loaded A L slot len' (D ?c) s2" "bytes_at (mem s2) buffer 12 = replicate 12 32"
        and e2: "effect ?K s s2" using D1 effect_trans [OF e1] by auto
      note g2 = geometry [OF e2 Cons.prems(9)]
      have "outcome (loop len' 0 (j + word_of_nat ?n + 1) s2) Q"
      proof (rule Cons.IH [where c = ?c])
        show "volume env disk n A s2" by (rule volume_effect [OF Cons.prems(1) e2 Cons.prems(9)])
        show "dir_bytes disk s2 = D" using dir_bytes_effect [OF e2 Cons.prems(9)] Cons.prems(2) by simp
        have reg: "region (path + (j + word_of_nat ?n + 1)) (Suc (length ?rest)) \<subseteq> region (path + j) ?N"
          using sub [of "?n + 1" "Suc (length ?rest)"] by (simp add: ac_simps)
        then show "region (path + (j + word_of_nat ?n + 1)) (Suc (length ?rest)) \<subseteq> ?K"
          using Cons.prems(10) by blast
        then have "same_on (region (path + (j + word_of_nat ?n + 1)) (Suc (length ?rest))) (mem s) (mem s2)"
          using e2 by (auto simp: effect_def intro: same_on_mono)
        then show "bytes_at (mem s2) (path + (j + word_of_nat ?n + 1)) (Suc (length ?rest)) = ?rest @ [0]"
          using chars(3) N by (subst bytes_at_cong) simp_all
        show "effect ?K s2 s' \<Longrightarrow> walk D ?c ds = Some c' \<Longrightarrow> loaded A L slot k (D c') s' \<Longrightarrow>
            bytes_at (mem s') buffer 12 = pad 12 name \<Longrightarrow> outcome (finish k s') Q" for c' s' k
          using Cons.prems(12) [of c' s' k] Some effect_trans [OF e2] by simp
        show "walk D ?c ds = None \<Longrightarrow> effect ?K s2 s' \<Longrightarrow> L \<subseteq>\<^sub>m L' \<Longrightarrow> heap_holds s' A L' \<Longrightarrow> Q 0 s'" for s' L'
          using Cons.prems(13) [of s' L'] Some effect_trans [OF e2] by simp
      qed (use r w Cons.prems(3,7,8,9) g2 in simp_all)
      then show "outcome (case r of None \<Rightarrow> ret 0 s2 | Some len \<Rightarrow> loop len 0 (j + word_of_nat ?n + 1) s2) Q"
        using r(1) by simp
    qed
  qed
qed

end

interpretation open_loop: path_loop env slot buffer path "fat12_open_loop env slot buffer ext path" "fat12_open_file slot buffer ext"
  for env slot buffer path ext
  by unfold_locales (subst fat12_open_loop.simps; simp add: Let_def)+

interpretation opendir_loop: path_loop env slot buffer path "fat12_opendir_loop env slot buffer path" "fat12_open_directory slot buffer"
  for env slot buffer path
  by unfold_locales (subst fat12_opendir_loop.simps; simp add: Let_def)+

section \<open>Opening\<close>

lemma strlen_stops:
  assumes "m (p + word_of_nat n) = 0"
  obtains k where "strlen m p = Some k" "m p \<noteq> 0 \<Longrightarrow> k \<noteq> 0"
proof -
  let ?P = "\<lambda>i. m (p + word_of_nat i) = 0"
  have "word_of_nat (unat (word_of_nat n :: u32)) = (word_of_nat n :: u32)" by simp
  then have P: "?P (unat (word_of_nat n :: u32))" using assms by simp
  define i where "i = (LEAST i. ?P i)"
  have i: "?P i" unfolding i_def by (rule LeastI [of ?P, OF P])
  have i_le: "i \<le> unat (word_of_nat n :: u32)" unfolding i_def by (rule Least_le [of ?P, OF P])
  have before: "m (p + word_of_nat j) \<noteq> 0" if "j < i" for j using not_less_Least [of j ?P] that by (simp add: i_def)
  have lt: "i < 2 ^ 32" using i_le unat_lt2p [of "word_of_nat n :: u32"] by simp
  have "cstr m p (bytes_at m p i)" using before i lt by (auto simp: cstr_def in_set_conv_nth)
  then have "strlen m p = Some (word_of_nat i)" using strlen_cstr by fastforce
  moreover have "word_of_nat i \<noteq> (0 :: u32)" if "m p \<noteq> 0"
  proof -
    have "i \<noteq> 0" using that i by (cases i) simp_all
    moreover have "unat (word_of_nat i :: u32) = i" using lt by (intro unat_of_nat_eq) simp
    ultimately show ?thesis by (metis unat_0)
  qed
  ultimately show ?thesis by (rule that)
qed

text \<open>The file object of a directory entry in a fresh block.\<close>

definition opened :: "u32 set \<Rightarrow> (u32 \<rightharpoonup> u32) \<Rightarrow> u32 \<Rightarrow> u8 list \<Rightarrow> kernel \<Rightarrow> bool" where
  "opened A L file e s \<longleftrightarrow> (\<exists>k. L file = None \<and> file \<noteq> 0 \<and> 284 \<le> unat k \<and> heap_holds s A (L(file \<mapsto> k)) \<and>
     file_ref (mem s) file = raw_cluster e \<and> file_len (mem s) file = raw_size e \<and> file_offset (mem s) file = 0 \<and>
     cstr (mem s) file (file_name (take 11 e)))"

lemma fill_file:
  assumes e: "bytes_at m q 32 = e" "0 \<notin> set (take 11 e)" and apart: "region q 32 \<inter> region file 284 = {}"
  defines "m1 \<equiv> set_file_ref file (entry_cluster m q) m"
  defines "m2 \<equiv> set_file_offset file 0 (set_file_len file (entry_size m1 q) m1)"
  obtains m' where "fat12_format_file_name q file (memset file 0 256 m2) = Some m'" "same_on (- region file 284) m m'"
    "file_ref m' file = raw_cluster e" "file_len m' file = raw_size e" "file_offset m' file = 0"
    "cstr m' file (file_name (take 11 e))"
proof -
  have f: "region (file + i) n \<subseteq> region file 284" if "unat i + n \<le> 284" for i n
    using region_shift_subset [OF that, of "file"] by simp
  have out: "- region file 284 \<inter> region (file + 264) 4 = {}" "- region file 284 \<inter> region (file + 256) 4 = {}"
      "- region file 284 \<inter> region (file + 260) 4 = {}" "- region file 284 \<inter> region file 256 = {}"
    using f [of 264 4] f [of 256 4] f [of 260 4] f [of 0 256] by auto
  have s1: "same_on (- region file 284) m m1" unfolding m1_def set_file_ref_def using out(1) by (rule same_on_store32)
  have s2: "same_on (- region file 284) m m2"
    unfolding m2_def set_file_offset_def set_file_len_def
    by (rule same_on_trans [OF same_on_trans [OF s1 same_on_store32 [OF out(2)]] same_on_store32 [OF out(3)]])
  let ?m3 = "store_bytes m2 file (replicate 256 0)"
  have m3: "memset file 0 256 m2 = ?m3" by (simp add: memset_bytes)
  have s3: "same_on (- region file 284) m ?m3"
    by (rule same_on_trans [OF s2 same_on_store_bytes]) (use out(4) in simp_all)
  have q: "region q 32 \<subseteq> - region file 284" using apart by blast
  have q1: "bytes_at m1 q 32 = e" using bytes_at_cong [OF same_on_mono [OF s1 q]] e(1) by simp
  have q3: "bytes_at ?m3 q 32 = e" using bytes_at_cong [OF same_on_mono [OF s3 q]] e(1) by simp
  have name: "bytes_at ?m3 q 11 = take 11 e" using take_bytes_at [of 11 32 ?m3 q] q3 by simp
  have zero: "bytes_at ?m3 file 256 = replicate 256 0" using bytes_at_store_bytes [of "replicate 256 0" m2 "file"] by simp
  have "region q 11 \<inter> region file 256 = {}" using q region_mono [of 11 32 q] out(4) by auto
  from format_file_name [OF zero name e(2) this]
  obtain m' where m': "fat12_format_file_name q file ?m3 = Some m'" "cstr m' file (file_name (take 11 e))"
      "same_on (- region file 256) ?m3 m'" by blast
  have "same_on (- region file 284) m m'"
    by (rule same_on_trans [OF s3 same_on_mono [OF m'(3)]]) (use out(4) in blast)
  moreover have field: "load32 m' (file + i) = load32 m2 (file + i)" if "256 \<le> unat i" "unat i + 4 \<le> 284" for i
  proof -
    have "x \<notin> region file 256" if "x \<in> region (file + i) 4" for x
    proof -
      have "unat (x - (file + i)) < 4" using that by (simp add: in_region_iff)
      moreover have "x - file = (x - (file + i)) + i" by simp
      ultimately have "unat (x - file) = unat (x - (file + i)) + unat i"
        using \<open>unat i + 4 \<le> 284\<close> by (simp only:) (subst unat_add_exact, simp_all)
      then show ?thesis using \<open>256 \<le> unat i\<close> by (simp add: in_region_iff)
    qed
    then have away: "region (file + i) 4 \<subseteq> - region file 256" by blast
    have "same_on (- region file 256) m2 m'"
      by (rule same_on_trans [OF same_on_store_bytes m'(3)]) simp_all
    from same_on_mono [OF this away] show ?thesis by (rule load32_cong)
  qed
  moreover have "load32 m2 (file + 264) = raw_cluster e" "load32 m2 (file + 256) = raw_size e" "load32 m2 (file + 260) = 0"
    using e(1) q1 by (simp_all add: m2_def m1_def set_file_ref_def set_file_len_def set_file_offset_def frame_simps raw_fields)
  ultimately show ?thesis using m'(1,2) m3
    by (intro that [of m']) (simp_all add: file_ref_def file_len_def file_offset_def field)
qed

lemma open_file_outcome:
  assumes l: "loaded A L slot len bs s" and buf: "bytes_at (mem s) buffer 12 = pad 12 (base @ 46 # x)"
    and base: "1 \<le> length base" "length base \<le> 8" "46 \<notin> set base" "0 \<notin> set base"
    and x: "1 \<le> length x" "length x \<le> 3" "0 \<notin> set x"
    and nul: "mem s (buffer + word_of_nat z) = 0"
    and out: "region slot 4 \<inter> A = {}" "region buffer 12 \<inter> A = {}" "region ext 3 \<inter> A = {}"
      "region slot 4 \<inter> region buffer 12 = {}" "region ext 3 \<inter> region buffer 12 = {}" "region slot 4 \<inter> region ext 3 = {}"
  defines "K \<equiv> path_kept A L slot buffer - region ext 3"
  shows "outcome (fat12_open_file slot buffer ext len s) (\<lambda>f s'. effect K s s' \<and>
    (case find (entry_is 0x20 (name83 base x)) (dir_entries bs) of
       None \<Rightarrow> f = 0 \<and> (\<exists>L'. L \<subseteq>\<^sub>m L' \<and> heap_holds s' A L')
     | Some e \<Rightarrow> opened A L f e s'))"
proof -
  define Q where "Q f s' \<longleftrightarrow> effect K s s' \<and> (case find (entry_is 0x20 (name83 base x)) (dir_entries bs) of
       None \<Rightarrow> f = 0 \<and> (\<exists>L'. L \<subseteq>\<^sub>m L' \<and> heap_holds s' A L')
     | Some e \<Rightarrow> opened A L f e s')" for f s'
  have "mem s buffer = base ! 0"
    using arg_cong [OF buf, of "\<lambda>cs. cs ! 0"] base(1) by (cases base) (simp_all add: pad_def)
  moreover have "base ! 0 \<in> set base" using base(1) by (cases base) simp_all
  ultimately have "mem s buffer \<noteq> 0" using base(4) by auto
  then obtain k0 where k0: "strlen (mem s) buffer = Some k0" "k0 \<noteq> 0" using strlen_stops [of "mem s" buffer z] nul by blast
  let ?m = "store_bytes (mem s) ext (replicate 3 0)"
  have zero: "memset ext 0 3 (mem s) = ?m" by (simp add: memset_bytes)
  have same0: "same_on (- region ext 3) (mem s) ?m" by (rule same_on_store_bytes) simp_all
  have "bytes_at ?m buffer 12 = pad 12 (base @ 46 # x)"
    using out(5) buf by (subst bytes_at_cong [OF same_on_mono [OF same0]]) auto
  moreover have "?m ext = 0" by (simp add: store_bytes_apply)
  ultimately obtain m1 where m1: "fat12_extension buffer ext 1 ?m = Some m1" "bytes_at m1 buffer 11 = name83 base x"
      "m1 ext \<noteq> 0" "same_on (- (region buffer 12 \<union> region ext 3)) ?m m1"
    using extension_moves [of ?m buffer base x ext] base(1-3) x out(5) by blast
  let ?s1 = "s\<lparr>mem := m1\<rparr>"
  have e1: "effect (- (region buffer 12 \<union> region ext 3)) s ?s1"
    by (intro effect_mem same_on_trans [OF same_on_mono [OF same0] m1(4)]) auto
  have l1: "loaded A L slot len bs ?s1" using out by (intro loaded_write [OF l e1]) auto
  have eK1: "effect K s ?s1" by (rule effect_mono [OF e1]) (auto simp: K_def path_kept_def)
  let ?d = "load32 m1 slot"
  obtain kd where d: "L ?d = None" "32 * unat len \<le> unat kd" "heap_holds ?s1 A (L(?d \<mapsto> kd))"
    using l1 by (auto simp: loaded_def)
  have mem1: "mem ?s1 = m1" by simp
  have lookup: "case find (entry_is 0x20 (name83 base x)) (dir_entries bs) of
      None \<Rightarrow> fat12_find m1 ?d len 32 buffer = None
    | Some e \<Rightarrow> \<exists>k < unat len. fat12_find m1 ?d len 32 buffer = Some (?d + 32 * word_of_nat k) \<and>
        e = bytes_at m1 (?d + 32 * word_of_nat k) 32 \<and> take 11 e = name83 base x \<and> 0 \<notin> set (name83 base x)"
    by (rule loaded_find [OF l1, unfolded mem1, OF m1(2)])
  have start: "fat12_open_file slot buffer ext len s = (case fat12_find m1 ?d len 32 buffer of
      None \<Rightarrow> ret 0 ?s1
    | Some entry \<Rightarrow>
        andthen (malloc 284 ?s1) (\<lambda>file s.
        let m = set_file_ref file (entry_cluster (mem s) entry) (mem s);
            m = set_file_len file (entry_size m entry) m;
            m = set_file_offset file 0 m
        in case fat12_format_file_name entry file (memset file 0 256 m) of
             None \<Rightarrow> None
           | Some m \<Rightarrow> andthen (free (load32 m slot) (s\<lparr>mem := m\<rparr>)) (\<lambda>_. ret file)))"
    using k0 m1(3) by (simp add: fat12_open_file_def zero m1(1) Let_def)
  have "outcome (fat12_open_file slot buffer ext len s) Q"
  proof (cases "find (entry_is 0x20 (name83 base x)) (dir_entries bs)")
    case None
    then have "fat12_open_file slot buffer ext len s = ret 0 ?s1" using lookup unfolding start by simp
    moreover obtain L' where "L \<subseteq>\<^sub>m L'" "heap_holds ?s1 A L'" using loaded_heap [OF l1] by blast
    ultimately show ?thesis using None eK1 by (auto simp: Q_def intro!: outcome_ret)
  next
    case (Some e)
    then obtain j where j: "j < unat len" "fat12_find m1 ?d len 32 buffer = Some (?d + 32 * word_of_nat j)"
        "e = bytes_at m1 (?d + 32 * word_of_nat j) 32" "0 \<notin> set (take 11 e)"
      using lookup by auto
    let ?q = "?d + 32 * word_of_nat j" and ?L = "L(?d \<mapsto> kd)"
    have "32 * j < 2 ^ 32" using j(1) d(2) unat_lt2p [of kd] by simp
    then have "unat (word_of_nat (32 * j) :: u32) = 32 * j" by (intro unat_of_nat_eq) simp
    then have "unat (32 * word_of_nat j :: u32) = 32 * j" by (simp only: of_nat_mult of_nat_numeral)
    then have q: "region ?q 32 \<subseteq> region ?d (unat kd)"
      using j(1) d(2) unat_lt2p [of kd] region_shift_subset [of "32 * word_of_nat j" 32 "unat kd" ?d] by simp
    show ?thesis unfolding start j(2) option.case
    proof (rule outcome_andthen [OF malloc_outcome [OF d(3)]])
      fix f s2
      assume "\<exists>k \<ge> 284. ?L f = None \<and> f \<noteq> 0 \<and> heap_holds s2 A (?L(f \<mapsto> k)) \<and> effect (- A \<union> blocks ?L) ?s1 s2"
      then obtain k where k: "284 \<le> k" "?L f = None" "f \<noteq> 0" "heap_holds s2 A (?L(f \<mapsto> k))"
        and e2: "effect (- A \<union> blocks ?L) ?s1 s2" by blast
      have f: "f \<noteq> ?d" "L f = None" using k(2) by (auto split: if_splits)
      have k284: "284 \<le> unat k" using k(1) by (simp add: word_le_nat_alt)
      have same2: "same_on (- A \<union> blocks ?L) m1 (mem s2)" using e2 by (simp add: effect_def)
      have qL: "region ?q 32 \<subseteq> blocks ?L" using q block_subset [of ?L ?d kd] by auto
      then have "bytes_at (mem s2) ?q 32 = e" using j(3) by (subst bytes_at_cong [OF same_on_mono [OF same2]]) auto
      moreover have f284: "region f 284 \<subseteq> region f (unat k)" using k284 by (rule region_mono)
      have "region ?d (unat kd) \<inter> region f (unat k) = {}" using kheap.blocks_disjoint [OF k(4), of ?d kd f k] f(1) by simp
      then have "region ?q 32 \<inter> region f 284 = {}" using q f284 by blast
      ultimately obtain m3 where m3: "fat12_format_file_name ?q f (memset f 0 256 (set_file_offset f 0
            (set_file_len f (entry_size (set_file_ref f (entry_cluster (mem s2) ?q) (mem s2)) ?q)
              (set_file_ref f (entry_cluster (mem s2) ?q) (mem s2))))) = Some m3" "same_on (- region f 284) (mem s2) m3"
          "file_ref m3 f = raw_cluster e" "file_len m3 f = raw_size e" "file_offset m3 f = 0"
          "cstr m3 f (file_name (take 11 e))"
        using fill_file [OF _ j(4), of "mem s2" ?q f] by metis
      let ?s3 = "s2\<lparr>mem := m3\<rparr>"
      have e3: "effect (- region f (unat k)) s2 ?s3" using same_on_mono [OF m3(2)] f284 by (intro effect_mem) auto
      have h3: "heap_holds ?s3 A (?L(f \<mapsto> k))" using block_write [OF k(4) _ e3] by simp
      have e3': "effect (- A \<union> blocks ?L) s2 ?s3"
        using fresh_effect(2) [OF k(4) _ k(2) map_le_upd [of ?L f k, OF k(2)] e3] by simp
      have "same_on (- A \<union> blocks ?L) m1 m3" using same_on_trans [OF same2] e3' by (simp add: effect_def)
      then have "load32 m3 slot = ?d" using out(1) by (intro load32_cong) (auto intro: same_on_mono)
      then have slot: "load32 (mem ?s3) slot = ?d" by simp
      have eK3: "effect K s ?s3"
        using eK1 effect_mono [OF effect_trans [OF e2 e3'], of K] blocks_mono [OF map_le_upd [of L ?d kd, OF d(1)]]
        by (intro effect_trans [OF eK1]) (auto simp: K_def path_kept_def)
      have "outcome (andthen (free (load32 m3 slot) ?s3) (\<lambda>_. ret f)) Q"
      proof (rule outcome_andthen [OF free_outcome [OF h3, of "load32 m3 slot" kd]])
        show "(?L(f \<mapsto> k)) (load32 m3 slot) = Some kd" using slot f(1) by simp
        fix u s4
        assume r: "heap_holds s4 A ((?L(f \<mapsto> k))(load32 m3 slot := None)) \<and> effect (- A \<union> blocks (?L(f \<mapsto> k))) ?s3 s4"
        have "(?L(f \<mapsto> k))(?d := None) = L(f \<mapsto> k)" using f d(1) by (auto simp: fun_eq_iff)
        then have h4: "heap_holds s4 A (L(f \<mapsto> k))" using r slot by simp
        have same4: "same_on (- A \<union> blocks (?L(f \<mapsto> k))) m3 (mem s4)" using r by (simp add: effect_def)
        have fb: "region f 284 \<subseteq> blocks (?L(f \<mapsto> k))" using f284 block_subset [of "?L(f \<mapsto> k)" f k] by auto
        have same_f: "same_on (region f 284) m3 (mem s4)" using fb by (intro same_on_mono [OF same4]) blast
        have field: "load32 (mem s4) (f + i) = load32 m3 (f + i)" if "unat i + 4 \<le> 284" for i
          using region_shift_subset [OF that, of f] by (intro load32_cong same_on_mono [OF same_f]) simp
        have len: "length (file_name (take 11 e)) \<le> 11 + 1"
          using length_trim_end [of 32 "take 8 (take 11 e)"] length_bytes_at [of m1 ?q 32] j(3)
          by (simp add: file_name_def min_def)
        then have "cstr (mem s4) f (file_name (take 11 e))"
          using m3(6) region_mono [of "Suc (length (file_name (take 11 e)))" 284 f]
          by (intro cstr_cong [OF same_on_mono [OF same_f]]) simp_all
        then have "opened A L f e s4" unfolding opened_def
          using f(2) k(3) k284 h4 m3(3-5) field [of 264] field [of 256] field [of 260]
          by (intro exI [of _ k]) (simp add: file_ref_def file_len_def file_offset_def)
        moreover have "effect K s s4"
        proof (rule effect_trans [OF eK3])
          have "L \<subseteq>\<^sub>m ?L(f \<mapsto> k)" using map_le_trans [OF map_le_upd [of L ?d kd, OF d(1)] map_le_upd [of ?L f k, OF k(2)]] .
          then show "effect K ?s3 s4"
            using r blocks_mono by (intro effect_mono [OF conjunct2 [OF r]]) (fastforce simp: K_def path_kept_def)
        qed
        ultimately show "outcome (ret f s4) Q" using Some by (intro outcome_ret) (simp add: Q_def)
      qed
      then show "outcome (let m = set_file_ref f (entry_cluster (mem s2) ?q) (mem s2);
            m = set_file_len f (entry_size m ?q) m;
            m = set_file_offset f 0 m
        in case fat12_format_file_name ?q f (memset f 0 256 m) of
             None \<Rightarrow> None
           | Some m \<Rightarrow> andthen (free (load32 m slot) (s2\<lparr>mem := m\<rparr>)) (\<lambda>_. ret f)) Q"
        by (simp add: Let_def m3(1))
    qed simp
  qed
  then show ?thesis by (rule outcome_mono) (simp add: Q_def)
qed

text \<open>The local variables of a routine on a path lie outside the heap, away from each other.\<close>

definition locals_apart :: "u32 set \<Rightarrow> u32 \<Rightarrow> u32 \<Rightarrow> bool" where
  "locals_apart A slot buffer \<longleftrightarrow>
     region slot 4 \<inter> A = {} \<and> region buffer 12 \<inter> A = {} \<and> region slot 4 \<inter> region buffer 12 = {}"

text \<open>The start of both operations: the root directory, and a blank buffer.\<close>

lemma start_outcome:
  assumes v: "volume env disk n A s" and h: "heap_holds s A L" and loc: "locals_apart A slot buffer"
    and bpb: "region (bpb s) 62 \<subseteq> path_kept A L slot buffer"
  shows "outcome (andthen (fat12_read_directory env slot 0 s) (\<lambda>len s. ret len (s\<lparr>mem := strset buffer 32 12 (mem s)\<rparr>)))
    (\<lambda>len s'. loaded A L slot len (dir_bytes disk s 0) s' \<and> bytes_at (mem s') buffer 12 = replicate 12 32 \<and>
      effect (path_kept A L slot buffer) s s')"
proof (rule outcome_andthen [OF read_directory_outcome [OF v h]])
  show "region slot 4 \<inter> A = {}" using loc by (simp add: locals_apart_def)
  show "region slot 4 \<inter> region (bpb s) 62 = {}" using bpb by (auto simp: path_kept_def)
  show "dir_cluster disk (lba_fat1 s) 0" by (simp add: dir_cluster_def)
  fix len s1
  assume r: "loaded A L slot len (dir_bytes disk s 0) s1 \<and> effect (- A \<union> blocks L - region slot 4) s s1"
  let ?s = "s1\<lparr>mem := strset buffer 32 12 (mem s1)\<rparr>"
  have set: "strset buffer 32 12 (mem s1) = store_bytes (mem s1) buffer (replicate 12 32)" by (simp add: strset_bytes)
  have e: "effect (- region buffer 12) s1 ?s"
    using same_on_store_bytes [of "replicate 12 32" "- region buffer 12" buffer "mem s1"] unfolding set by (intro effect_mem) simp
  have "loaded A L slot len (dir_bytes disk s 0) ?s" using r loc by (intro loaded_write [OF _ e]) (auto simp: locals_apart_def)
  moreover have "bytes_at (mem ?s) buffer 12 = replicate 12 32"
    using bytes_at_store_bytes [of "replicate 12 32" "mem s1" buffer] unfolding set by simp
  moreover have "effect (path_kept A L slot buffer) s ?s"
    using r by (intro effect_trans [OF effect_mono effect_mono [OF e]]) (auto simp: path_kept_def)
  ultimately show "outcome (ret len ?s) (\<lambda>len s'. loaded A L slot len (dir_bytes disk s 0) s' \<and>
      bytes_at (mem s') buffer 12 = replicate 12 32 \<and> effect (path_kept A L slot buffer) s s')"
    by (intro outcome_ret) blast
qed

definition lookup_file :: "(nat \<Rightarrow> u8) \<Rightarrow> kernel \<Rightarrow> u8 list list \<Rightarrow> u8 list \<Rightarrow> u8 list \<Rightarrow> u8 list option" where
  "lookup_file disk s ds base x =
    (case walk (dir_bytes disk s) 0 ds of
       None \<Rightarrow> None
     | Some c \<Rightarrow> find (entry_is 0x20 (name83 base x)) (dir_entries (dir_bytes disk s c)))"

definition file_base :: "u8 list \<Rightarrow> u8 list \<Rightarrow> bool" where
  "file_base base x \<longleftrightarrow> component (base @ 46 # x) \<and> 1 \<le> length base \<and> length base \<le> 8 \<and> 46 \<notin> set base \<and>
     1 \<le> length x \<and> length x \<le> 3"

lemma fat12_open_outcome:
  assumes v: "volume env disk n A s" and h: "heap_holds s A L" and loc: "locals_apart A slot buffer"
    and ext: "region ext 3 \<inter> A = {}" "region ext 3 \<inter> region buffer 12 = {}" "region slot 4 \<inter> region ext 3 = {}"
    and path: "cstr (mem s) path (path_bytes ds (base @ 46 # x))" "length (path_bytes ds (base @ 46 # x)) < 2 ^ 31"
    and ds: "\<forall>d \<in> set ds. component d" and name: "file_base base x"
    and "K = path_kept A L slot buffer - region ext 3"
    and keep: "region (bpb s) 62 \<subseteq> K" "region path (Suc (length (path_bytes ds (base @ 46 # x)))) \<subseteq> K"
      "buffer + word_of_nat z \<in> K" and nul: "mem s (buffer + word_of_nat z) = 0"
    and good: "walkable (dir_bytes disk s) (dir_cluster disk (lba_fat1 s)) 0 ds"
  shows "outcome (fat12_open env slot buffer ext path s) (\<lambda>f s'. effect K s s' \<and>
    (case lookup_file disk s ds base x of
       None \<Rightarrow> f = 0 \<and> (\<exists>L'. L \<subseteq>\<^sub>m L' \<and> heap_holds s' A L')
     | Some e \<Rightarrow> opened A L f e s'))"
proof -
  let ?K = "path_kept A L slot buffer" and ?name = "base @ 46 # x" and ?D = "dir_bytes disk s"
  define Q where "Q f s' \<longleftrightarrow> effect K s s' \<and> (case lookup_file disk s ds base x of
       None \<Rightarrow> f = 0 \<and> (\<exists>L'. L \<subseteq>\<^sub>m L' \<and> heap_holds s' A L')
     | Some e \<Rightarrow> opened A L f e s')" for f s'
  have K: "K \<subseteq> ?K" and bpbK: "region (bpb s) 62 \<subseteq> ?K" using keep(1) assms(11) by auto
  have out: "region slot 4 \<inter> A = {}" "region buffer 12 \<inter> A = {}" "region slot 4 \<inter> region buffer 12 = {}"
    using loc by (simp_all add: locals_apart_def)
  have nm: "component ?name" "1 \<le> length base" "length base \<le> 8" "46 \<notin> set base" "1 \<le> length x" "length x \<le> 3"
    using name by (simp_all add: file_base_def)
  then have free: "0 \<notin> set base" "0 \<notin> set x" by (auto simp: component_def)
  have bytes: "bytes_at (mem s) path (Suc (length (path_bytes ds ?name))) = path_bytes ds ?name @ [0]"
    using path(1) by (simp add: cstr_def bytes_at_Suc)
  have "outcome (andthen (andthen (fat12_read_directory env slot 0 s) (\<lambda>len s. ret len (s\<lparr>mem := strset buffer 32 12 (mem s)\<rparr>)))
      (\<lambda>len. fat12_open_loop env slot buffer ext path len 0 0)) Q"
  proof (rule outcome_andthen [OF start_outcome [OF v h loc bpbK]])
    fix len s1
    assume r: "loaded A L slot len (?D 0) s1 \<and> bytes_at (mem s1) buffer 12 = replicate 12 32 \<and> effect ?K s s1"
    then have e1: "effect ?K s s1" by simp
    note g = geometry [OF e1 bpbK]
    show "outcome (fat12_open_loop env slot buffer ext path len 0 0 s1) Q"
    proof (rule open_loop.walk_outcome [where ds = ds and name = ?name and D = ?D and c = 0 and L = L])
      show "volume env disk n A s1" by (rule volume_effect [OF v e1 bpbK])
      show "dir_bytes disk s1 = ?D" by (rule dir_bytes_effect [OF e1 bpbK])
      show "lba_fat1 s1 = lba_fat1 s" by (rule g)
      show "bytes_at (mem s1) (path + 0) (Suc (length (path_bytes ds ?name))) = path_bytes ds ?name @ [0]"
        using bytes keep(2) K e1 path(2) by (subst bytes_at_cong) (auto simp: effect_def intro: same_on_mono)
      show "region (path + 0) (Suc (length (path_bytes ds ?name))) \<subseteq> ?K" using keep(2) K by simp
      show "region (bpb s1) 62 \<subseteq> ?K" using bpbK g by simp
    next
      fix c' s' len'
      assume w: "walk ?D 0 ds = Some c'" and e: "effect ?K s1 s'" and l: "loaded A L slot len' (?D c') s'"
        and b: "bytes_at (mem s') buffer 12 = pad 12 ?name"
      have e': "effect K s s'" using effect_mono [OF effect_trans [OF e1 e] K] .
      have "mem s' (buffer + word_of_nat z) = 0" using e' keep(3) nul by (auto simp: effect_def dest: same_onD)
      from open_file_outcome [OF l b nm(2-4) free(1) nm(5,6) free(2) this out(1,2) ext(1) out(3) ext(2,3)]
      show "outcome (fat12_open_file slot buffer ext len' s') Q"
        by (rule outcome_mono) (use effect_trans [OF e'] assms(11) w in \<open>simp add: Q_def lookup_file_def\<close>)
    next
      fix s' L'
      assume "walk ?D 0 ds = None" "effect ?K s1 s'" "L \<subseteq>\<^sub>m L'" "heap_holds s' A L'"
      then show "Q 0 s'" using effect_mono [OF effect_trans [OF e1] K] by (auto simp: Q_def lookup_file_def)
    qed (use r path(2) ds nm(1) out good in simp_all)
  qed
  then have "outcome (fat12_open env slot buffer ext path s) Q" by (simp add: fat12_open_def andthen_assoc)
  then show ?thesis by (rule outcome_mono) (simp add: Q_def)
qed

lemma fat12_open_too_long:
  assumes v: "volume env disk n A s" and h: "heap_holds s A L" and loc: "locals_apart A slot buffer"
    and path: "bytes_at (mem s) path 12 = d" "0 \<notin> set d" "47 \<notin> set d"
    and keep: "region (bpb s) 62 \<subseteq> path_kept A L slot buffer" "region path 12 \<subseteq> path_kept A L slot buffer"
  shows "outcome (fat12_open env slot buffer ext path s) (\<lambda>f s'. f = 0 \<and> effect (path_kept A L slot buffer) s s')"
proof -
  let ?K = "path_kept A L slot buffer"
  have "outcome (andthen (andthen (fat12_read_directory env slot 0 s) (\<lambda>len s. ret len (s\<lparr>mem := strset buffer 32 12 (mem s)\<rparr>)))
      (\<lambda>len. fat12_open_loop env slot buffer ext path len 0 0)) (\<lambda>f s'. f = 0 \<and> effect ?K s s')"
  proof (rule outcome_andthen [OF start_outcome [OF v h loc keep(1)]])
    fix len s1
    assume r: "loaded A L slot len (dir_bytes disk s 0) s1 \<and> bytes_at (mem s1) buffer 12 = replicate 12 32 \<and> effect ?K s s1"
    then have "bytes_at (mem s1) path 12 = d"
      using path(1) keep(2) by (subst bytes_at_cong) (auto simp: effect_def intro: same_on_mono)
    moreover have "region path 12 \<inter> region buffer 12 = {}" using keep(2) by (auto simp: path_kept_def)
    ultimately obtain s' where run: "fat12_open_loop env slot buffer ext path len 0 0 s1 = ret 0 s'"
        and e: "effect (- region buffer 12) s1 s'"
      using open_loop.too_long [OF conjunct1 [OF r]] path(2,3) by blast
    have "effect ?K s1 s'" by (rule effect_mono [OF e]) (auto simp: path_kept_def)
    with r have "effect ?K s s'" by (blast intro: effect_trans)
    then show "outcome (fat12_open_loop env slot buffer ext path len 0 0 s1) (\<lambda>f s'. f = 0 \<and> effect ?K s s')"
      unfolding run by (intro outcome_ret conjI refl)
  qed
  then show ?thesis by (simp add: fat12_open_def andthen_assoc)
qed

end
