(* ===== verification/Fs.thy ===== *)
theory Fs
  imports Fat12_Read Fat12_Open
begin

text \<open>
  The file system layer, \<open>filesystem/fs.c\<close>: drivers are mounted under a letter, and a path \<open>/H/...\<close> goes to the driver
  of its letter. A driver is a record in memory with the addresses of its operations; what the code at an address
  does is the parameter \<open>procs\<close>.
\<close>

section \<open>Data\<close>

text \<open>The operations of a driver, by the address of their code (\<open>fs_driver\<close>).\<close>

record procedures =
  call_open :: "u32 \<Rightarrow> u32 \<Rightarrow> kernel \<Rightarrow> u32 krun"
  call_opendir :: "u32 \<Rightarrow> u32 \<Rightarrow> kernel \<Rightarrow> u32 krun"
  call_close :: "u32 \<Rightarrow> u32 \<Rightarrow> kernel \<Rightarrow> unit krun"
  call_closedir :: "u32 \<Rightarrow> u32 \<Rightarrow> kernel \<Rightarrow> unit krun"
  call_read :: "u32 \<Rightarrow> u32 \<Rightarrow> u32 \<Rightarrow> u32 \<Rightarrow> kernel \<Rightarrow> unit krun"
  call_readdir :: "u32 \<Rightarrow> u32 \<Rightarrow> u32 \<Rightarrow> u32 \<Rightarrow> kernel \<Rightarrow> unit krun"
  call_write :: "u32 \<Rightarrow> u32 \<Rightarrow> u32 \<Rightarrow> u32 \<Rightarrow> kernel \<Rightarrow> unit krun"
  call_seek :: "u32 \<Rightarrow> u32 \<Rightarrow> u32 \<Rightarrow> kernel \<Rightarrow> unit krun"

definition driver_mnt :: "memory \<Rightarrow> u32 \<Rightarrow> u8" where
  "driver_mnt m d = m d"

definition set_driver_mnt :: "u32 \<Rightarrow> u8 \<Rightarrow> memory \<Rightarrow> memory" where
  "set_driver_mnt d c m = store8 m d c"

text \<open>The pointer to operation \<open>k\<close> of a driver: \<open>open\<close>, \<open>opendir\<close>, \<open>close\<close>, \<open>closedir\<close>, \<open>read\<close>, \<open>readdir\<close>, \<open>write\<close>, \<open>seek\<close>.\<close>

definition driver_op :: "memory \<Rightarrow> u32 \<Rightarrow> u32 \<Rightarrow> u32" where
  "driver_op m d k = load32 m (d + 4 + 4 * k)"

definition file_driver :: "memory \<Rightarrow> u32 \<Rightarrow> u32" where
  "file_driver m file = load32 m (file + 280)"

definition set_file_driver :: "u32 \<Rightarrow> u32 \<Rightarrow> memory \<Rightarrow> memory" where
  "set_file_driver file v m = store32 m (file + 280) v"

definition dir_driver :: "memory \<Rightarrow> u32 \<Rightarrow> u32" where
  "dir_driver m dir = load32 m (dir + 272)"

definition set_dir_driver :: "u32 \<Rightarrow> u32 \<Rightarrow> memory \<Rightarrow> memory" where
  "set_dir_driver dir v m = store32 m (dir + 272) v"

section \<open>Opening\<close>

text \<open>The loop over the table: the place of the driver with the letter.\<close>

fun fs_find_driver :: "nat list \<Rightarrow> u8 \<Rightarrow> kernel \<Rightarrow> nat option" where
  "fs_find_driver [] c s = None"
| "fs_find_driver (i # is) c s =
    (if drivers s i = 0 then None
     else if driver_mnt (mem s) (drivers s i) \<noteq> c then fs_find_driver is c s
     else Some i)"

definition fs_open :: "procedures \<Rightarrow> u32 \<Rightarrow> kernel \<Rightarrow> u32 krun" where
  "fs_open procs path s =
    (if mem s path \<noteq> 47 \<or> mem s (path + 2) \<noteq> 47 then ret 0 s
     else case fs_find_driver [0..<256] (mem s (path + 1)) s of
       None \<Rightarrow> ret 0 s
     | Some i \<Rightarrow>
         andthen (call_open procs (driver_op (mem s) (drivers s i) 0) (path + 1 + 2) s) (\<lambda>file s.
           ret file (s\<lparr>mem := set_file_driver file (drivers s i) (mem s)\<rparr>)))"

definition fs_opendir :: "procedures \<Rightarrow> u32 \<Rightarrow> kernel \<Rightarrow> u32 krun" where
  "fs_opendir procs path s =
    (if mem s path \<noteq> 47 \<or> mem s (path + 2) \<noteq> 47 then ret 0 s
     else case fs_find_driver [0..<256] (mem s (path + 1)) s of
       None \<Rightarrow> ret 0 s
     | Some i \<Rightarrow>
         andthen (call_opendir procs (driver_op (mem s) (drivers s i) 1) (path + 1 + 2) s) (\<lambda>dir s.
           ret dir (s\<lparr>mem := set_dir_driver dir (drivers s i) (mem s)\<rparr>)))"

section \<open>Operations on open files and directories\<close>

text \<open>The three assertions every operation begins with.\<close>

definition check_file :: "u32 \<Rightarrow> kernel \<Rightarrow> unit krun" where
  "check_file file s =
    (if file = 0 then halt ''file''
     else if file_driver (mem s) file = 0 then halt ''file->driver''
     else if driver_mnt (mem s) (file_driver (mem s) file) = 0 then halt ''file->driver->mnt != DRIVER_MOUNT_UNASSIGNED''
     else ret () s)"

definition check_dir :: "u32 \<Rightarrow> kernel \<Rightarrow> unit krun" where
  "check_dir dir s =
    (if dir = 0 then halt ''dir''
     else if dir_driver (mem s) dir = 0 then halt ''dir->driver''
     else if driver_mnt (mem s) (dir_driver (mem s) dir) = 0 then halt ''dir->driver->mnt != DRIVER_MOUNT_UNASSIGNED''
     else ret () s)"

definition fs_close :: "procedures \<Rightarrow> u32 \<Rightarrow> kernel \<Rightarrow> unit krun" where
  "fs_close procs file s =
    andthen (check_file file s) (\<lambda>_ s. call_close procs (driver_op (mem s) (file_driver (mem s) file) 2) file s)"

definition fs_closedir :: "procedures \<Rightarrow> u32 \<Rightarrow> kernel \<Rightarrow> unit krun" where
  "fs_closedir procs dir s =
    andthen (check_dir dir s) (\<lambda>_ s. call_closedir procs (driver_op (mem s) (dir_driver (mem s) dir) 3) dir s)"

definition fs_read :: "procedures \<Rightarrow> u32 \<Rightarrow> u32 \<Rightarrow> u32 \<Rightarrow> kernel \<Rightarrow> unit krun" where
  "fs_read procs file buffer len s =
    andthen (check_file file s) (\<lambda>_ s. call_read procs (driver_op (mem s) (file_driver (mem s) file) 4) file buffer len s)"

definition fs_readdir :: "procedures \<Rightarrow> u32 \<Rightarrow> u32 \<Rightarrow> u32 \<Rightarrow> kernel \<Rightarrow> unit krun" where
  "fs_readdir procs dir dirents len s =
    andthen (check_dir dir s) (\<lambda>_ s. call_readdir procs (driver_op (mem s) (dir_driver (mem s) dir) 5) dir dirents len s)"

definition fs_write :: "procedures \<Rightarrow> u32 \<Rightarrow> u32 \<Rightarrow> u32 \<Rightarrow> kernel \<Rightarrow> unit krun" where
  "fs_write procs file buffer len s =
    andthen (check_file file s) (\<lambda>_ s. call_write procs (driver_op (mem s) (file_driver (mem s) file) 6) file buffer len s)"

definition fs_seek :: "procedures \<Rightarrow> u32 \<Rightarrow> u32 \<Rightarrow> kernel \<Rightarrow> unit krun" where
  "fs_seek procs file offset s =
    andthen (check_file file s) (\<lambda>_ s. call_seek procs (driver_op (mem s) (file_driver (mem s) file) 7) file offset s)"

section \<open>Mounting\<close>

fun fs_mount_from :: "nat list \<Rightarrow> u32 \<Rightarrow> u8 \<Rightarrow> kernel \<Rightarrow> kernel" where
  "fs_mount_from [] driver mnt s = s"
| "fs_mount_from (i # is) driver mnt s =
    (if drivers s i \<noteq> 0 then fs_mount_from is driver mnt s
     else s\<lparr>drivers := (drivers s)(i := driver), mem := set_driver_mnt driver mnt (mem s)\<rparr>)"

definition fs_mount :: "u32 \<Rightarrow> u8 \<Rightarrow> kernel \<Rightarrow> kernel" where
  "fs_mount driver mnt s = fs_mount_from [0..<256] driver mnt s"

section \<open>The table of drivers\<close>

text \<open>The table as a list: the places before the first free one.\<close>

definition mounted :: "kernel \<Rightarrow> u32 list \<Rightarrow> bool" where
  "mounted s ds \<longleftrightarrow> length ds \<le> 256 \<and> 0 \<notin> set ds \<and>
     map (drivers s) [0..<256] = ds @ replicate (256 - length ds) 0"

lemma mounted_at:
  assumes "mounted s ds" and "i < 256"
  shows "drivers s i = (if i < length ds then ds ! i else 0)"
proof -
  have "drivers s i = map (drivers s) [0..<256] ! i" using assms(2) by simp
  also have "\<dots> = (ds @ replicate (256 - length ds) 0) ! i" using assms(1) by (simp add: mounted_def)
  finally show ?thesis using assms by (simp add: nth_append mounted_def)
qed

lemma mountedI:
  assumes "length ds \<le> 256" and "0 \<notin> set ds" and "\<And>i. i < 256 \<Longrightarrow> drivers s i = (if i < length ds then ds ! i else 0)"
  shows "mounted s ds"
proof -
  have "map (drivers s) [0..<256] = ds @ replicate (256 - length ds) 0"
    by (rule nth_equalityI) (use assms in \<open>simp_all add: nth_append\<close>)
  then show ?thesis using assms by (simp add: mounted_def)
qed

lemma mounted_nth: "mounted s ds \<Longrightarrow> i < length ds \<Longrightarrow> ds ! i \<noteq> 0"
  unfolding mounted_def by (metis nth_mem)

lemma mounted_cong: "drivers s' = drivers s \<Longrightarrow> mounted s' ds \<longleftrightarrow> mounted s ds"
  by (simp add: mounted_def)

text \<open>The search is that of the first driver of the list with the letter.\<close>

lemma fs_find_driver_from:
  assumes m: "mounted s ds" and "i \<le> 256"
  shows "map_option (drivers s) (fs_find_driver [i..<256] c s) = find (\<lambda>d. driver_mnt (mem s) d = c) (drop i ds)"
  using assms(2)
proof (induction "256 - i" arbitrary: i)
  case 0
  then show ?case using m by (simp add: mounted_def)
next
  case (Suc n)
  then have i: "i < 256" "[i..<256] = i # [Suc i..<256]" by (simp_all add: upt_rec [of i])
  have IH: "map_option (drivers s) (fs_find_driver [Suc i..<256] c s) = find (\<lambda>d. driver_mnt (mem s) d = c) (drop (Suc i) ds)"
    using Suc.hyps(2) i(1) by (intro Suc.hyps(1)) simp_all
  show ?case
  proof (cases "i < length ds")
    case True
    then have "drivers s i = ds ! i" "ds ! i \<noteq> 0" using mounted_at [OF m i(1)] mounted_nth [OF m] by simp_all
    moreover have "drop i ds = ds ! i # drop (Suc i) ds" using True by (rule Cons_nth_drop_Suc [symmetric])
    ultimately show ?thesis unfolding i(2) using IH by simp
  next
    case False
    then show ?thesis unfolding i(2) using mounted_at [OF m i(1)] by simp
  qed
qed

lemma fs_open_found:
  assumes "mounted s ds" and "mem s path = 47" and "mem s (path + 2) = 47"
    and d: "find (\<lambda>d. driver_mnt (mem s) d = mem s (path + 1)) ds = Some d"
  obtains i where "i < 256" "drivers s i = d" "d \<noteq> 0" "fs_open procs path s =
    andthen (call_open procs (driver_op (mem s) d 0) (path + 3) s) (\<lambda>file s'.
      ret file (s'\<lparr>mem := set_file_driver file (drivers s' i) (mem s')\<rparr>))"
proof -
  have "map_option (drivers s) (fs_find_driver [0..<256] (mem s (path + 1)) s) = Some d"
    using fs_find_driver_from [OF assms(1), of 0] d by simp
  then obtain i where i: "fs_find_driver [0..<256] (mem s (path + 1)) s = Some i" "drivers s i = d" by auto
  have "i \<in> set is" if "fs_find_driver is c s = Some i" for "is" c
    using that by (induction "is") (auto split: if_splits)
  then have "i < 256" using i(1) by fastforce
  moreover have "d \<in> set ds" using d by (auto simp: find_Some_iff)
  then have "d \<noteq> 0" using assms(1) by (auto simp: mounted_def)
  ultimately show ?thesis using i assms(2,3) that by (simp add: fs_open_def add.assoc)
qed

lemma fs_open_no_driver:
  assumes "mounted s ds" and "find (\<lambda>d. driver_mnt (mem s) d = mem s (path + 1)) ds = None"
  shows "fs_open procs path s = ret 0 s"
proof -
  have "fs_find_driver [0..<256] (mem s (path + 1)) s = None"
    using fs_find_driver_from [OF assms(1), of 0 "mem s (path + 1)"] assms(2) by simp
  then show ?thesis by (simp add: fs_open_def)
qed

lemma fs_mount_from_run:
  assumes m: "mounted s ds" and "i \<le> length ds"
  shows "fs_mount_from [i..<256] d c s =
    (if length ds < 256 then s\<lparr>drivers := (drivers s)(length ds := d), mem := set_driver_mnt d c (mem s)\<rparr> else s)"
  using assms(2)
proof (induction "length ds - i" arbitrary: i)
  case 0
  then have i: "i = length ds" by simp
  have "length ds \<le> 256" using m by (simp add: mounted_def)
  then show ?case using mounted_at [OF m, of i] unfolding i by (cases "length ds < 256") (simp_all add: upt_rec [of "length ds"])
next
  case (Suc n)
  moreover have "length ds \<le> 256" using m by (simp add: mounted_def)
  ultimately have i: "i < length ds" "i < 256" by simp_all
  then have "drivers s i \<noteq> 0" using mounted_at [OF m i(2)] mounted_nth [OF m] by simp
  moreover have "[i..<256] = i # [Suc i..<256]" using i(2) by (simp add: upt_rec [of i])
  ultimately show ?case using Suc.hyps(1) [of "Suc i"] Suc.hyps(2) i(1) by simp
qed

lemma fs_mount_run:
  assumes "mounted s ds" and "d \<noteq> 0" and "length ds < 256"
  shows "fs_mount d c s = s\<lparr>drivers := (drivers s)(length ds := d), mem := set_driver_mnt d c (mem s)\<rparr>"
    "mounted (fs_mount d c s) (ds @ [d])"
proof -
  show run: "fs_mount d c s = s\<lparr>drivers := (drivers s)(length ds := d), mem := set_driver_mnt d c (mem s)\<rparr>"
    using fs_mount_from_run [OF assms(1), of 0 d c] assms(3) by (simp add: fs_mount_def)
  show "mounted (fs_mount d c s) (ds @ [d])"
    unfolding run
    by (rule mountedI) (use assms mounted_at [OF assms(1)] in \<open>auto simp: mounted_def nth_append\<close>)
qed

lemma fs_mount_full: "mounted s ds \<Longrightarrow> length ds = 256 \<Longrightarrow> fs_mount d c s = s"
  using fs_mount_from_run [of s ds 0 d c] by (simp add: fs_mount_def)

end
