(* ===== verification/Elf.thy ===== *)
theory Elf
  imports Fs
begin

text \<open>
  The loader of relocatable ELF files, \<open>execution/elf.c\<close>: the file is read to a block, its sections are copied to their
  places in a second block, and the relocations of every relocation section are applied there.
\<close>

section \<open>The headers\<close>

text \<open>\<open>elf_header\<close>, 52 bytes.\<close>

definition e_type :: "memory \<Rightarrow> u32 \<Rightarrow> u16" where
  "e_type m h = load16 m (h + 16)"

definition e_machine :: "memory \<Rightarrow> u32 \<Rightarrow> u16" where
  "e_machine m h = load16 m (h + 18)"

definition e_entry :: "memory \<Rightarrow> u32 \<Rightarrow> u32" where
  "e_entry m h = load32 m (h + 24)"

definition e_phoff :: "memory \<Rightarrow> u32 \<Rightarrow> u32" where
  "e_phoff m h = load32 m (h + 28)"

definition e_shoff :: "memory \<Rightarrow> u32 \<Rightarrow> u32" where
  "e_shoff m h = load32 m (h + 32)"

definition e_shnum :: "memory \<Rightarrow> u32 \<Rightarrow> u32" where
  "e_shnum m h = ucast (load16 m (h + 48))"

definition e_shstrndx :: "memory \<Rightarrow> u32 \<Rightarrow> u32" where
  "e_shstrndx m h = ucast (load16 m (h + 50))"

text \<open>\<open>elf_section_header\<close>, 40 bytes.\<close>

definition sh_type :: "memory \<Rightarrow> u32 \<Rightarrow> u32" where
  "sh_type m sh = load32 m (sh + 4)"

definition sh_flags :: "memory \<Rightarrow> u32 \<Rightarrow> u32" where
  "sh_flags m sh = load32 m (sh + 8)"

definition sh_addr :: "memory \<Rightarrow> u32 \<Rightarrow> u32" where
  "sh_addr m sh = load32 m (sh + 12)"

definition sh_offset :: "memory \<Rightarrow> u32 \<Rightarrow> u32" where
  "sh_offset m sh = load32 m (sh + 16)"

definition sh_size :: "memory \<Rightarrow> u32 \<Rightarrow> u32" where
  "sh_size m sh = load32 m (sh + 20)"

definition sh_link :: "memory \<Rightarrow> u32 \<Rightarrow> u32" where
  "sh_link m sh = load32 m (sh + 24)"

definition sh_info :: "memory \<Rightarrow> u32 \<Rightarrow> u32" where
  "sh_info m sh = load32 m (sh + 28)"

definition sh_entsize :: "memory \<Rightarrow> u32 \<Rightarrow> u32" where
  "sh_entsize m sh = load32 m (sh + 36)"

text \<open>\<open>elf_rel\<close>, 8 bytes, and \<open>elf_sym\<close>, 16 bytes.\<close>

definition r_offset :: "memory \<Rightarrow> u32 \<Rightarrow> u32" where
  "r_offset m rel = load32 m rel"

definition r_info :: "memory \<Rightarrow> u32 \<Rightarrow> u32" where
  "r_info m rel = load32 m (rel + 4)"

definition st_value :: "memory \<Rightarrow> u32 \<Rightarrow> u32" where
  "st_value m symbol = load32 m (symbol + 4)"

definition st_shndx :: "memory \<Rightarrow> u32 \<Rightarrow> u16" where
  "st_shndx m symbol = load16 m (symbol + 14)"

section \<open>Checks and lookups\<close>

definition elf_check_file :: "memory \<Rightarrow> u32 \<Rightarrow> bool" where
  "elf_check_file m hdr \<longleftrightarrow> hdr \<noteq> 0 \<and> m hdr = 0x7F \<and> m (hdr + 1) = 69 \<and> m (hdr + 2) = 76 \<and> m (hdr + 3) = 70"

definition elf_check_support :: "memory \<Rightarrow> u32 \<Rightarrow> bool" where
  "elf_check_support m hdr \<longleftrightarrow> hdr \<noteq> 0 \<and> m (hdr + 4) = 1 \<and> m (hdr + 5) = 1 \<and> m (hdr + 6) = 1 \<and>
     e_machine m hdr = 3 \<and> e_type m hdr = 1"

definition elf_find_ph :: "memory \<Rightarrow> u32 \<Rightarrow> u32 \<Rightarrow> u32" where
  "elf_find_ph m hdr idx = hdr + e_phoff m hdr + 32 * idx"

definition elf_find_sh :: "memory \<Rightarrow> u32 \<Rightarrow> u32 \<Rightarrow> u32" where
  "elf_find_sh m hdr idx = hdr + e_shoff m hdr + 40 * idx"

definition elf_find_sym :: "memory \<Rightarrow> u32 \<Rightarrow> u32 \<Rightarrow> u32 \<Rightarrow> u32" where
  "elf_find_sym m hdr sh_idx sym_idx =
    (let sh = elf_find_sh m hdr sh_idx;
         symbol = hdr + sh_offset m sh + sym_idx * 16
     in if st_shndx m symbol = 0 then 0 else symbol)"

definition elf_rel_sym :: "u8 \<Rightarrow> u32 \<Rightarrow> u32 \<Rightarrow> memory \<Rightarrow> memory option" where
  "elf_rel_sym type target value m =
    (if type = 0 then Some m
     else if type = 1 then Some (store32 m target (load32 m target + value))
     else if type = 2 then Some (store32 m target (load32 m target + (value - target)))
     else None)"

definition elf_str :: "memory \<Rightarrow> u32 \<Rightarrow> u32 \<Rightarrow> u32" where
  "elf_str m hdr idx =
    (if e_shstrndx m hdr = 0 then 0
     else let sh = elf_find_sh m hdr (e_shstrndx m hdr) in hdr + sh_offset m sh + idx)"

section \<open>Loading\<close>

text \<open>The length of the image.\<close>

definition elf_len :: "memory \<Rightarrow> u32 \<Rightarrow> u32" where
  "elf_len m hdr = fold (\<lambda>i len.
     let sh = elf_find_sh m hdr i in
     if sh_flags m sh AND 2 = 0 then len
     else if len < sh_addr m sh + sh_size m sh then sh_addr m sh + sh_size m sh else len)
   (indices (e_shnum m hdr)) 0"

definition elf_copy_section :: "u32 \<Rightarrow> u32 \<Rightarrow> u32 \<Rightarrow> memory \<Rightarrow> memory" where
  "elf_copy_section file_buffer reloc_buffer i m =
    (let sh = elf_find_sh m file_buffer i in
     if sh_flags m sh AND 2 = 0 \<or> sh_type m sh \<noteq> 1 then m
     else memcpy (reloc_buffer + sh_addr m sh) (file_buffer + sh_offset m sh) (sh_size m sh) m)"

text \<open>
  One relocation, the relocations of a section, and all sections; the result says whether all could be applied. The pointers
  \<open>info_sh\<close> and \<open>rels\<close> are computed once for a section; the conditions of both loops are evaluated before every
  iteration, on the memory the relocations so far have left.
\<close>

definition elf_relocate_entry :: "u32 \<Rightarrow> u32 \<Rightarrow> u32 \<Rightarrow> u32 \<Rightarrow> u32 \<Rightarrow> u32 \<Rightarrow> memory \<Rightarrow> memory option" where
  "elf_relocate_entry hdr reloc_buffer sh info_sh rels j m =
    (let rel = rels + 8 * j;
         type = ucast (r_info m rel) :: u8;
         offset = drop_bit 8 (r_info m rel)
     in if type = 0 \<or> offset = 0 then Some m
        else let symbol = elf_find_sym m hdr (sh_link m sh) offset in
          if symbol = 0 then None
          else let value = (if st_shndx m symbol = 0xFFF1 then st_value m symbol
                            else reloc_buffer + st_value m symbol + sh_addr m (elf_find_sh m hdr (ucast (st_shndx m symbol))))
               in elf_rel_sym type (reloc_buffer + (sh_addr m info_sh + r_offset m rel)) value m)"

function elf_relocate_entries :: "u32 \<Rightarrow> u32 \<Rightarrow> u32 \<Rightarrow> u32 \<Rightarrow> u32 \<Rightarrow> u32 \<Rightarrow> memory \<Rightarrow> (bool, memory) run" where
  "elf_relocate_entries hdr reloc_buffer sh info_sh rels j m =
    (if sh_entsize m sh = 0 then fail Divide_error
     else if j < sh_size m sh div sh_entsize m sh then
       (case elf_relocate_entry hdr reloc_buffer sh info_sh rels j m of
          None \<Rightarrow> ret False m
        | Some m \<Rightarrow> elf_relocate_entries hdr reloc_buffer sh info_sh rels (j + 1) m)
     else ret True m)"
  by pat_completeness auto
termination
  by (relation "measure (\<lambda>(_, _, _, _, _, j, _). 2 ^ 32 - unat j)") (simp_all only: in_measure prod.case wf_measure count_decreases)

function elf_relocate :: "u32 \<Rightarrow> u32 \<Rightarrow> u32 \<Rightarrow> memory \<Rightarrow> (bool, memory) run" where
  "elf_relocate hdr reloc_buffer i m =
    (if i < e_shnum m hdr then
       let sh = elf_find_sh m hdr i;
           info_sh = elf_find_sh m hdr (sh_info m sh)
       in if sh_type m sh \<noteq> 9 then elf_relocate hdr reloc_buffer (i + 1) m
          else let rels = hdr + sh_offset m sh in
            andthen (elf_relocate_entries hdr reloc_buffer sh info_sh rels 0 m) (\<lambda>ok m.
              if ok then elf_relocate hdr reloc_buffer (i + 1) m else ret False m)
     else ret True m)"
  by pat_completeness auto
termination
  by (relation "measure (\<lambda>(_, _, i, _). 2 ^ 32 - unat i)") (simp_all only: in_measure prod.case wf_measure count_decreases)

declare elf_relocate_entries.simps [simp del] elf_relocate.simps [simp del]

text \<open>
  The file has been read to \<open>file_buffer\<close>; \<open>buffer\<close> and \<open>entry\<close> are the addresses of the variables of the caller.
\<close>

definition elf_load :: "u32 \<Rightarrow> u32 \<Rightarrow> u32 \<Rightarrow> kernel \<Rightarrow> unit krun" where
  "elf_load file_buffer buffer entry s =
    (if \<not> elf_check_file (mem s) file_buffer then halt ''elf_check_file(header)''
     else if \<not> elf_check_support (mem s) file_buffer then halt ''elf_check_support(header)''
     else let len = elf_len (mem s) file_buffer in
       andthen (malloc len s) (\<lambda>reloc_buffer s.
       let m = memset reloc_buffer 0 len (mem s);
           m = count_up (\<lambda>m. e_shnum m file_buffer) (elf_copy_section file_buffer reloc_buffer) 0 m
       in andthen (on_memory (elf_relocate file_buffer reloc_buffer 0) (s\<lparr>mem := m\<rparr>)) (\<lambda>ok s.
          andthen (free file_buffer s) (\<lambda>_ s.
          ret () (if ok then (let m = store32 (mem s) buffer reloc_buffer
                              in s\<lparr>mem := store32 m entry (e_entry m file_buffer)\<rparr>) else s)))))"

definition elf_read :: "procedures \<Rightarrow> u32 \<Rightarrow> u32 \<Rightarrow> u32 \<Rightarrow> kernel \<Rightarrow> unit krun" where
  "elf_read procs file buffer entry s =
    andthen (malloc (file_len (mem s) file) s) (\<lambda>file_buffer s.
    andthen (fs_read procs file file_buffer (file_len (mem s) file) s) (\<lambda>_.
      elf_load file_buffer buffer entry))"

end
