(* ===== verification/Elf_Image.thy ===== *)
theory Elf_Image
  imports Elf
begin

text \<open>
  The image of an ELF file as a function of its bytes, and the proof that the loader's loops compute it: the length, the
  copied sections, and the relocations.
\<close>

section \<open>The file as bytes\<close>

definition half_at :: "u8 list \<Rightarrow> nat \<Rightarrow> u16" where
  "half_at bs k = ucast (bs ! k) OR push_bit 8 (ucast (bs ! (k + 1)))"

definition word_at :: "u8 list \<Rightarrow> nat \<Rightarrow> u32" where
  "word_at bs k = ucast (bs ! k) OR push_bit 8 (ucast (bs ! (k + 1))) OR push_bit 16 (ucast (bs ! (k + 2))) OR
     push_bit 24 (ucast (bs ! (k + 3)))"

record elf_section =
  s_type :: u32
  s_flags :: u32
  s_addr :: nat
  s_offset :: nat
  s_size :: nat
  s_link :: nat
  s_info :: nat
  s_entsize :: nat

definition section_at :: "u8 list \<Rightarrow> nat \<Rightarrow> elf_section" where
  "section_at bs i =
    (let k = unat (word_at bs 32) + 40 * i
     in \<lparr>s_type = word_at bs (k + 4), s_flags = word_at bs (k + 8), s_addr = unat (word_at bs (k + 12)),
         s_offset = unat (word_at bs (k + 16)), s_size = unat (word_at bs (k + 20)), s_link = unat (word_at bs (k + 24)),
         s_info = unat (word_at bs (k + 28)), s_entsize = unat (word_at bs (k + 36))\<rparr>)"

definition section_count :: "u8 list \<Rightarrow> nat" where
  "section_count bs = unat (half_at bs 48)"

definition allocated_section :: "elf_section \<Rightarrow> bool" where
  "allocated_section sec \<longleftrightarrow> s_flags sec AND 2 \<noteq> 0"

section \<open>The image\<close>

definition overwrite :: "u8 list \<Rightarrow> nat \<Rightarrow> u8 list \<Rightarrow> u8 list" where
  "overwrite im k xs = take k im @ xs @ drop (k + length xs) im"

definition word_bytes :: "u32 \<Rightarrow> u8 list" where
  "word_bytes w = [ucast w, ucast (drop_bit 8 w), ucast (drop_bit 16 w), ucast (drop_bit 24 w)]"

definition grow :: "u8 list \<Rightarrow> nat \<Rightarrow> nat \<Rightarrow> nat" where
  "grow bs i n = (let sec = section_at bs i in if allocated_section sec then max n (s_addr sec + s_size sec) else n)"

definition image_len :: "u8 list \<Rightarrow> nat" where
  "image_len bs = fold (grow bs) [0..<section_count bs] 0"

definition place :: "u8 list \<Rightarrow> nat \<Rightarrow> u8 list \<Rightarrow> u8 list" where
  "place bs i im =
    (let sec = section_at bs i in
     if allocated_section sec \<and> s_type sec = 1 then overwrite im (s_addr sec) (take (s_size sec) (drop (s_offset sec) bs)) else im)"

definition image_data :: "u8 list \<Rightarrow> u8 list" where
  "image_data bs = fold (place bs) [0..<section_count bs] (replicate (image_len bs) 0)"

text \<open>The value of a symbol for an image at address \<open>base\<close>; a symbol of no section has none.\<close>

definition symbol_at :: "u8 list \<Rightarrow> elf_section \<Rightarrow> nat \<Rightarrow> nat" where
  "symbol_at bs table k = s_offset table + 16 * k"

definition symbol_value :: "u8 list \<Rightarrow> u32 \<Rightarrow> nat \<Rightarrow> u32 option" where
  "symbol_value bs base k =
    (let shndx = half_at bs (k + 14); value = word_at bs (k + 4)
     in if shndx = 0 then None
        else Some (if shndx = 0xFFF1 then value else base + value + word_of_nat (s_addr (section_at bs (unat shndx)))))"

definition rel_type :: "u8 list \<Rightarrow> elf_section \<Rightarrow> nat \<Rightarrow> u8" where
  "rel_type bs sec j = ucast (word_at bs (s_offset sec + 8 * j + 4))"

definition rel_symbol :: "u8 list \<Rightarrow> elf_section \<Rightarrow> nat \<Rightarrow> nat" where
  "rel_symbol bs sec j = unat (drop_bit 8 (word_at bs (s_offset sec + 8 * j + 4)))"

definition rel_target :: "u8 list \<Rightarrow> elf_section \<Rightarrow> nat \<Rightarrow> nat" where
  "rel_target bs sec j = s_addr (section_at bs (s_info sec)) + unat (word_at bs (s_offset sec + 8 * j))"

text \<open>One relocation: type 1 adds the value of the symbol, type 2 its distance from the place.\<close>

definition relocate :: "u8 list \<Rightarrow> u32 \<Rightarrow> elf_section \<Rightarrow> nat \<Rightarrow> u8 list \<Rightarrow> u8 list option" where
  "relocate bs base sec j im =
    (let type = rel_type bs sec j; k = rel_symbol bs sec j; t = rel_target bs sec j
     in if type = 0 \<or> k = 0 then Some im
        else case symbol_value bs base (symbol_at bs (section_at bs (s_link sec)) k) of
          None \<Rightarrow> None
        | Some v \<Rightarrow>
            if type = 1 then Some (overwrite im t (word_bytes (word_at im t + v)))
            else if type = 2 then Some (overwrite im t (word_bytes (word_at im t + (v - (base + word_of_nat t)))))
            else None)"

fun relocate_entries :: "u8 list \<Rightarrow> u32 \<Rightarrow> elf_section \<Rightarrow> nat list \<Rightarrow> u8 list \<Rightarrow> u8 list option" where
  "relocate_entries bs base sec [] im = Some im"
| "relocate_entries bs base sec (j # js) im = Option.bind (relocate bs base sec j im) (relocate_entries bs base sec js)"

fun relocate_sections :: "u8 list \<Rightarrow> u32 \<Rightarrow> nat list \<Rightarrow> u8 list \<Rightarrow> u8 list option" where
  "relocate_sections bs base [] im = Some im"
| "relocate_sections bs base (i # is) im =
    (let sec = section_at bs i in
     if s_type sec \<noteq> 9 then relocate_sections bs base is im
     else Option.bind (relocate_entries bs base sec [0..<s_size sec div s_entsize sec] im) (relocate_sections bs base is))"

definition elf_image :: "u8 list \<Rightarrow> u32 \<Rightarrow> u8 list option" where
  "elf_image bs base = relocate_sections bs base [0..<section_count bs] (image_data bs)"

section \<open>Well-formed files\<close>

text \<open>Every table, section and relocation lies within the file, and every place within the image. The loader checks none of this.\<close>

definition relocation_ok :: "u8 list \<Rightarrow> elf_section \<Rightarrow> nat \<Rightarrow> bool" where
  "relocation_ok bs sec j \<longleftrightarrow>
    (let k = symbol_at bs (section_at bs (s_link sec)) (rel_symbol bs sec j); shndx = half_at bs (k + 14)
     in rel_type bs sec j = 0 \<or> rel_symbol bs sec j = 0 \<or>
        s_link sec < section_count bs \<and> k + 16 \<le> length bs \<and>
        (shndx = 0 \<or> shndx = 0xFFF1 \<or> unat shndx < section_count bs) \<and> rel_target bs sec j + 4 \<le> image_len bs)"

definition section_ok :: "u8 list \<Rightarrow> elf_section \<Rightarrow> bool" where
  "section_ok bs sec \<longleftrightarrow>
    (allocated_section sec \<longrightarrow> s_addr sec + s_size sec < 2 ^ 32 \<and>
       (s_type sec = 1 \<longrightarrow> s_offset sec + s_size sec \<le> length bs)) \<and>
    (s_type sec = 9 \<longrightarrow> s_entsize sec \<noteq> 0 \<and> s_info sec < section_count bs \<and>
       s_offset sec + 8 * (s_size sec div s_entsize sec) \<le> length bs \<and>
       list_all (relocation_ok bs sec) [0..<s_size sec div s_entsize sec])"

definition elf_ok :: "u8 list \<Rightarrow> bool" where
  "elf_ok bs \<longleftrightarrow> 52 \<le> length bs \<and> length bs < 2 ^ 32 \<and> take 7 bs = [0x7F, 69, 76, 70, 1, 1, 1] \<and>
     half_at bs 16 = 1 \<and> half_at bs 18 = 3 \<and> unat (word_at bs 32) + 40 * section_count bs \<le> length bs \<and>
     0 < image_len bs \<and> list_all (\<lambda>i. section_ok bs (section_at bs i)) [0..<section_count bs]"

definition elf_entry :: "u8 list \<Rightarrow> u32" where
  "elf_entry bs = word_at bs 24"

section \<open>Reading the file in memory\<close>

definition file_at :: "memory \<Rightarrow> u32 \<Rightarrow> u8 list \<Rightarrow> bool" where
  "file_at m p bs \<longleftrightarrow> bytes_at m p (length bs) = bs \<and> length bs < 2 ^ 32"

lemma file_byte_at:
  assumes "file_at m p bs" and "k < length bs"
  shows "m (p + word_of_nat k) = bs ! k"
proof -
  have "bytes_at m p (length bs) ! k = bs ! k" using assms(1) by (simp add: file_at_def)
  then show ?thesis using assms(2) by simp
qed

lemma file_word_at:
  assumes "file_at m p bs" and "k + 4 \<le> length bs"
  shows "load32 m (p + word_of_nat k) = word_at bs k"
  using file_byte_at [OF assms(1), of k] file_byte_at [OF assms(1), of "k + 1"] file_byte_at [OF assms(1), of "k + 2"]
    file_byte_at [OF assms(1), of "k + 3"] assms(2)
  by (simp add: load32_def word_at_def ac_simps)

lemma file_half_at:
  assumes "file_at m p bs" and "k + 2 \<le> length bs"
  shows "load16 m (p + word_of_nat k) = half_at bs k"
  using file_byte_at [OF assms(1), of k] file_byte_at [OF assms(1), of "k + 1"] assms(2)
  by (simp add: load16_def half_at_def ac_simps)

lemma file_cong:
  "file_at m p bs \<Longrightarrow> same_on (region p (length bs)) m m' \<Longrightarrow> file_at m' p bs"
  using bytes_at_cong [of p "length bs" m m'] by (simp add: file_at_def)

lemma header_fields:
  assumes "file_at m p bs" and "52 \<le> length bs"
  shows "e_shnum m p = ucast (half_at bs 48)" "e_shoff m p = word_at bs 32" "e_entry m p = word_at bs 24"
    "e_machine m p = half_at bs 18" "e_type m p = half_at bs 16" "unat (e_shnum m p) = section_count bs"
  using file_half_at [OF assms(1), of 48] file_word_at [OF assms(1), of 32] file_word_at [OF assms(1), of 24]
    file_half_at [OF assms(1), of 18] file_half_at [OF assms(1), of 16] assms(2)
  by (simp_all add: e_shnum_def e_shoff_def e_entry_def e_machine_def e_type_def section_count_def unat_u16_u32)

lemma section_fields:
  assumes f: "file_at m p bs" and ok: "elf_ok bs" and i: "i < section_count bs"
  defines "sh \<equiv> elf_find_sh m p (word_of_nat i)"
  shows "sh_type m sh = s_type (section_at bs i)" "sh_flags m sh = s_flags (section_at bs i)"
    "sh_addr m sh = word_of_nat (s_addr (section_at bs i))" "sh_offset m sh = word_of_nat (s_offset (section_at bs i))"
    "sh_size m sh = word_of_nat (s_size (section_at bs i))" "sh_link m sh = word_of_nat (s_link (section_at bs i))"
    "sh_info m sh = word_of_nat (s_info (section_at bs i))" "sh_entsize m sh = word_of_nat (s_entsize (section_at bs i))"
proof -
  let ?k = "unat (word_at bs 32) + 40 * i"
  have h: "52 \<le> length bs" "unat (word_at bs 32) + 40 * section_count bs \<le> length bs" using ok by (simp_all add: elf_ok_def)
  have sh: "sh = p + word_of_nat ?k"
    unfolding sh_def elf_find_sh_def header_fields [OF f h(1)] by (simp add: add.assoc)
  have l: "load32 m (sh + word_of_nat q) = word_at bs (?k + q)" if "q \<le> 36" for q
    using file_word_at [OF f, of "?k + q"] h(2) i that unfolding sh by (simp add: add.assoc)
  show "sh_type m sh = s_type (section_at bs i)" "sh_flags m sh = s_flags (section_at bs i)"
    "sh_addr m sh = word_of_nat (s_addr (section_at bs i))" "sh_offset m sh = word_of_nat (s_offset (section_at bs i))"
    "sh_size m sh = word_of_nat (s_size (section_at bs i))" "sh_link m sh = word_of_nat (s_link (section_at bs i))"
    "sh_info m sh = word_of_nat (s_info (section_at bs i))" "sh_entsize m sh = word_of_nat (s_entsize (section_at bs i))"
    using l [of 4] l [of 8] l [of 12] l [of 16] l [of 20] l [of 24] l [of 28] l [of 36]
    by (simp_all add: sh_type_def sh_flags_def sh_addr_def sh_offset_def sh_size_def sh_link_def sh_info_def sh_entsize_def
        section_at_def Let_def)
qed

lemma section_bounds:
  "s_addr (section_at bs i) < 2 ^ 32" "s_offset (section_at bs i) < 2 ^ 32" "s_size (section_at bs i) < 2 ^ 32"
  "s_link (section_at bs i) < 2 ^ 32" "s_info (section_at bs i) < 2 ^ 32" "s_entsize (section_at bs i) < 2 ^ 32"
  using unat_lt32 by (simp_all add: section_at_def Let_def)

lemma elf_ok_section: "elf_ok bs \<Longrightarrow> i < section_count bs \<Longrightarrow> section_ok bs (section_at bs i)"
  by (simp add: elf_ok_def list_all_iff)

lemma elf_checks:
  assumes "file_at m p bs" and "elf_ok bs" and "p \<noteq> 0"
  shows "elf_check_file m p" "elf_check_support m p"
proof -
  have ok: "52 \<le> length bs" "take 7 bs = [0x7F, 69, 76, 70, 1, 1, 1]" "half_at bs 16 = 1" "half_at bs 18 = 3"
    using assms(2) by (simp_all add: elf_ok_def)
  have ne: "bs \<noteq> []" using ok(1) by (cases bs) simp_all
  have "bs ! k = [0x7F, 69, 76, 70, 1, 1, 1] ! k" if "k < 7" for k
    using arg_cong [OF ok(2), of "\<lambda>xs. xs ! k"] that ok(1) by simp
  from this [of 0] this [of 1] this [of 2] this [of 3] this [of 4] this [of 5] this [of 6]
  have b: "m p = 0x7F" "m (p + 1) = 69" "m (p + 2) = 76" "m (p + 3) = 70" "m (p + 4) = 1" "m (p + 5) = 1" "m (p + 6) = 1"
    using file_byte_at [OF assms(1), of 0] file_byte_at [OF assms(1), of 1] file_byte_at [OF assms(1), of 2]
      file_byte_at [OF assms(1), of 3] file_byte_at [OF assms(1), of 4] file_byte_at [OF assms(1), of 5]
      file_byte_at [OF assms(1), of 6] ok(1) ne by simp_all
  show "elf_check_file m p" using b assms(3) by (simp add: elf_check_file_def)
  show "elf_check_support m p"
    using b assms(3) header_fields [OF assms(1) ok(1)] ok by (simp add: elf_check_support_def)
qed

section \<open>The length\<close>

lemma grow_bound:
  assumes "elf_ok bs" and "set is \<subseteq> {0..<section_count bs}" and "n < 2 ^ 32"
  shows "fold (grow bs) is n < 2 ^ 32"
  using assms(2,3)
proof (induction "is" arbitrary: n)
  case (Cons i "is")
  have "grow bs i n < 2 ^ 32"
    using elf_ok_section [OF assms(1), of i] Cons.prems by (auto simp: grow_def section_ok_def Let_def)
  then show ?case using Cons by simp
qed simp

lemma grow_mono: "n \<le> fold (grow bs) is n"
proof (induction "is" arbitrary: n)
  case (Cons i "is")
  have "n \<le> grow bs i n" by (simp add: grow_def Let_def)
  then show ?case using Cons [of "grow bs i n"] by simp
qed simp

lemma grow_reaches:
  "i \<in> set is \<Longrightarrow> allocated_section (section_at bs i) \<Longrightarrow>
   s_addr (section_at bs i) + s_size (section_at bs i) \<le> fold (grow bs) is n"
proof (induction "is" arbitrary: n)
  case (Cons j "is")
  show ?case
  proof (cases "i = j")
    case True
    have "s_addr (section_at bs i) + s_size (section_at bs i) \<le> grow bs i n" using Cons.prems(2) by (simp add: grow_def Let_def)
    then show ?thesis using grow_mono [of "grow bs i n" bs "is"] True by simp
  qed (use Cons in simp)
qed simp

lemma section_in_image:
  "i < section_count bs \<Longrightarrow> allocated_section (section_at bs i) \<Longrightarrow>
   s_addr (section_at bs i) + s_size (section_at bs i) \<le> image_len bs"
  unfolding image_len_def by (rule grow_reaches) simp_all

lemma image_len_bound: "elf_ok bs \<Longrightarrow> image_len bs < 2 ^ 32"
  unfolding image_len_def by (rule grow_bound) simp_all

lemma elf_len_image:
  assumes f: "file_at m p bs" and ok: "elf_ok bs"
  shows "elf_len m p = word_of_nat (image_len bs)"
proof -
  let ?f = "\<lambda>i len. let sh = elf_find_sh m p i in
     if sh_flags m sh AND 2 = 0 then len
     else if len < sh_addr m sh + sh_size m sh then sh_addr m sh + sh_size m sh else len"
  have "fold ?f (map word_of_nat is) (word_of_nat n) = word_of_nat (fold (grow bs) is n)"
    if "set is \<subseteq> {0..<section_count bs}" and "n < 2 ^ 32" for "is" n
    using that
  proof (induction "is" arbitrary: n)
    case (Cons i "is")
    then have i: "i < section_count bs" by simp
    have "?f (word_of_nat i) (word_of_nat n) = word_of_nat (grow bs i n)"
    proof (cases "allocated_section (section_at bs i)")
      case True
      then have lt: "s_addr (section_at bs i) + s_size (section_at bs i) < 2 ^ 32"
        using elf_ok_section [OF ok i] by (simp add: section_ok_def)
      have "word_of_nat n < (word_of_nat (s_addr (section_at bs i)) + word_of_nat (s_size (section_at bs i)) :: u32) \<longleftrightarrow>
          n < s_addr (section_at bs i) + s_size (section_at bs i)"
        using unat_of_nat_eq [of "s_addr (section_at bs i) + s_size (section_at bs i)", where 'a = 32] lt Cons.prems(2)
        by (simp add: word_less_nat_alt unat_of_nat_eq)
      then show ?thesis using True by (simp add: section_fields [OF f ok i] grow_def allocated_section_def Let_def max_def)
    qed (simp add: section_fields [OF f ok i] grow_def allocated_section_def Let_def)
    moreover have "grow bs i n < 2 ^ 32"
      using grow_bound [OF ok, of "[i]" n] i Cons.prems(2) by simp
    ultimately show ?case using Cons by simp
  qed simp
  from this [of "[0..<section_count bs]" 0] show ?thesis
    using ok by (simp add: elf_len_def indices_def image_len_def header_fields [OF f] elf_ok_def)
      (simp add: section_count_def unat_u16_u32)
qed

section \<open>Writing the image\<close>

lemma length_overwrite [simp]: "k + length xs \<le> length im \<Longrightarrow> length (overwrite im k xs) = length im"
  by (simp add: overwrite_def)

lemma bytes_at_overwrite:
  assumes "bytes_at m p (length im) = im" and "k + length xs \<le> length im" and "length im \<le> 2 ^ 32"
  shows "bytes_at (store_bytes m (p + word_of_nat k) xs) p (length im) = overwrite im k xs"
proof -
  let ?m = "store_bytes m (p + word_of_nat k) xs"
  have split: "length im = k + (length xs + (length im - k - length xs))" using assms(2) by simp
  have "bytes_at ?m p (length im) =
      bytes_at ?m p k @ bytes_at ?m (p + word_of_nat k) (length xs) @
      bytes_at ?m (p + word_of_nat (k + length xs)) (length im - k - length xs)"
    by (subst split) (simp only: bytes_at_append of_nat_add add.assoc)
  also have "bytes_at ?m p k = take k im"
    using bytes_at_before [of k xs m p] take_bytes_at [of k "length im" m p] assms by simp
  also have "bytes_at ?m (p + word_of_nat k) (length xs) = xs"
    using assms by (intro bytes_at_store_bytes) simp
  also have "bytes_at ?m (p + word_of_nat (k + length xs)) (length im - k - length xs) = drop (k + length xs) im"
  proof (cases "length im - k - length xs = 0")
    case False
    then have lt: "length xs < 2 ^ 32" using assms(2,3) by linarith
    have disj: "region (p + word_of_nat (k + length xs)) (length im - k - length xs) \<inter> region (p + word_of_nat k) (length xs) = {}"
    proof (cases "xs = []")
      case False
      have len: "unat (word_of_nat (length xs) :: u32) = length xs" using lt by (intro unat_of_nat_eq) simp
      then have "unat (0 - word_of_nat (length xs) :: u32) = 2 ^ 32 - length xs"
        using False unat_diff_wrap [of "0 :: u32" "word_of_nat (length xs)"] by simp
      then have "length im - k - length xs \<le> unat (word_of_nat k - word_of_nat (k + length xs) :: u32)"
        using assms(2,3) by simp
      moreover have "length xs \<le> unat (word_of_nat (k + length xs) - word_of_nat k :: u32)" using len by simp
      ultimately show ?thesis by (rule region_offset_disjoint)
    qed simp
    then have "bytes_at ?m (p + word_of_nat (k + length xs)) (length im - k - length xs) =
        bytes_at m (p + word_of_nat (k + length xs)) (length im - k - length xs)"
      using assms disj lt by (intro bytes_at_cong same_on_store_bytes) simp_all
    also have "\<dots> = drop (k + length xs) (bytes_at m p (length im))" using assms(2) by (simp add: drop_bytes_at)
    finally show ?thesis by (simp only: assms(1))
  qed simp
  finally show ?thesis by (simp only: overwrite_def)
qed

lemma file_overwrite:
  assumes "file_at m p im" and "k + length xs \<le> length im"
  shows "file_at (store_bytes m (p + word_of_nat k) xs) p (overwrite im k xs)"
    "same_on (- region p (length im)) m (store_bytes m (p + word_of_nat k) xs)"
proof -
  have len: "length im < 2 ^ 32" using assms(1) by (simp add: file_at_def)
  show "file_at (store_bytes m (p + word_of_nat k) xs) p (overwrite im k xs)"
    using bytes_at_overwrite [of m p im k xs] assms by (simp add: file_at_def)
  have "unat (word_of_nat k :: u32) = k" using assms(2) len by (intro unat_of_nat_eq) simp
  then have "region (p + word_of_nat k) (length xs) \<subseteq> region p (length im)"
    using assms(2) len by (intro region_shift_subset) simp_all
  then show "same_on (- region p (length im)) m (store_bytes m (p + word_of_nat k) xs)"
    using assms(2) len by (intro same_on_store_bytes) auto
qed

lemma store32_bytes: "store32 m a v = store_bytes m a (word_bytes v)"
  by (simp add: store32_def word_bytes_def ac_simps)

lemma length_word_bytes [simp]: "length (word_bytes v) = 4"
  by (simp add: word_bytes_def)

lemma file_slice:
  assumes "file_at m p bs" and "k + n \<le> length bs"
  shows "bytes_at m (p + word_of_nat k) n = take n (drop k bs)"
proof -
  have "take n (drop k bs) = take n (drop k (bytes_at m p (length bs)))" using assms(1) by (simp add: file_at_def)
  also have "\<dots> = bytes_at m (p + word_of_nat k) n" using assms(2) by (simp add: drop_bytes_at take_bytes_at)
  finally show ?thesis by simp
qed

section \<open>The loops\<close>

text \<open>The file at \<open>fb\<close> and an image of it at \<open>p\<close>, in blocks of their own.\<close>

definition loading :: "u8 list \<Rightarrow> u32 \<Rightarrow> u32 \<Rightarrow> u8 list \<Rightarrow> memory \<Rightarrow> bool" where
  "loading bs fb p im m \<longleftrightarrow> elf_ok bs \<and> file_at m fb bs \<and> file_at m p im \<and> length im = image_len bs \<and>
     region fb (length bs) \<inter> region p (image_len bs) = {} \<and> fb \<noteq> 0 \<and> unat fb + length bs < 2 ^ 32"

lemma loading_write:
  assumes l: "loading bs fb p im m" and k: "k + length xs \<le> image_len bs"
  shows "loading bs fb p (overwrite im k xs) (store_bytes m (p + word_of_nat k) xs)"
    "same_on (- region p (image_len bs)) m (store_bytes m (p + word_of_nat k) xs)"
proof -
  have im: "file_at m p im" "length im = image_len bs" using l by (simp_all add: loading_def)
  note w = file_overwrite [OF im(1), of k xs]
  show same: "same_on (- region p (image_len bs)) m (store_bytes m (p + word_of_nat k) xs)" using w(2) k im(2) by simp
  then have "same_on (region fb (length bs)) m (store_bytes m (p + word_of_nat k) xs)"
    using l by (auto simp: loading_def intro: same_on_mono)
  then show "loading bs fb p (overwrite im k xs) (store_bytes m (p + word_of_nat k) xs)"
    using l w(1) k im(2) file_cong [of m fb bs] by (simp add: loading_def)
qed

lemma copy_section_image:
  assumes l: "loading bs fb p im m" and i: "i < section_count bs"
  shows "loading bs fb p (place bs i im) (elf_copy_section fb p (word_of_nat i) m)"
    "same_on (- region p (image_len bs)) m (elf_copy_section fb p (word_of_nat i) m)"
proof -
  let ?sec = "section_at bs i"
  have f: "file_at m fb bs" and ok: "elf_ok bs" using l by (simp_all add: loading_def)
  note fields = section_fields [OF f ok i]
  have "loading bs fb p (place bs i im) (elf_copy_section fb p (word_of_nat i) m) \<and>
      same_on (- region p (image_len bs)) m (elf_copy_section fb p (word_of_nat i) m)"
  proof (cases "allocated_section ?sec \<and> s_type ?sec = 1")
    case False
    then have "elf_copy_section fb p (word_of_nat i) m = m"
      by (simp add: elf_copy_section_def fields allocated_section_def Let_def)
    moreover have "place bs i im = im" using False by (auto simp: place_def Let_def)
    ultimately show ?thesis using l by simp
  next
    case True
    have lim: "s_addr ?sec + s_size ?sec \<le> image_len bs" "s_offset ?sec + s_size ?sec \<le> length bs"
      using section_in_image [OF i] elf_ok_section [OF ok i] True by (simp_all add: section_ok_def)
    have lt: "s_size ?sec < 2 ^ 32" "s_addr ?sec < 2 ^ 32" "s_offset ?sec < 2 ^ 32" by (rule section_bounds)+
    have un: "unat (word_of_nat (s_size ?sec) :: u32) = s_size ?sec" "unat (word_of_nat (s_addr ?sec) :: u32) = s_addr ?sec"
      "unat (word_of_nat (s_offset ?sec) :: u32) = s_offset ?sec" using lt by (intro unat_of_nat_eq; simp)+
    have img: "image_len bs < 2 ^ 32" "length bs < 2 ^ 32" using image_len_bound [OF ok] ok by (simp_all add: elf_ok_def)
    have "region (p + word_of_nat (s_addr ?sec)) (s_size ?sec) \<subseteq> region p (image_len bs)"
      "region (fb + word_of_nat (s_offset ?sec)) (s_size ?sec) \<subseteq> region fb (length bs)"
      using lim img by (intro region_shift_subset; simp add: un)+
    then have "copy_safe (p + word_of_nat (s_addr ?sec)) (fb + word_of_nat (s_offset ?sec)) (s_size ?sec)"
      using l lt by (intro copy_safe_disjoint) (auto simp: loading_def)
    then have "elf_copy_section fb p (word_of_nat i) m =
        store_bytes m (p + word_of_nat (s_addr ?sec)) (take (s_size ?sec) (drop (s_offset ?sec) bs))"
      using True file_slice [OF f lim(2)]
      by (simp add: elf_copy_section_def fields allocated_section_def Let_def memcpy_bytes un)
    moreover have "place bs i im = overwrite im (s_addr ?sec) (take (s_size ?sec) (drop (s_offset ?sec) bs))"
      using True by (simp add: place_def Let_def)
    moreover have "s_addr ?sec + length (take (s_size ?sec) (drop (s_offset ?sec) bs)) \<le> image_len bs" using lim by simp
    ultimately show ?thesis using loading_write [OF l] by simp
  qed
  then show "loading bs fb p (place bs i im) (elf_copy_section fb p (word_of_nat i) m)"
    "same_on (- region p (image_len bs)) m (elf_copy_section fb p (word_of_nat i) m)" by blast+
qed

lemma copy_sections_image:
  assumes "loading bs fb p im m" and "set is \<subseteq> {0..<section_count bs}"
  shows "loading bs fb p (fold (place bs) is im) (fold (elf_copy_section fb p) (map word_of_nat is) m) \<and>
    same_on (- region p (image_len bs)) m (fold (elf_copy_section fb p) (map word_of_nat is) m)"
  using assms
proof (induction "is" arbitrary: im m)
  case (Cons i "is")
  then have i: "i < section_count bs" by simp
  note step = copy_section_image [OF Cons.prems(1) i]
  from Cons.IH [OF step(1)] Cons.prems(2) show ?case using step(2) by (auto intro: same_on_trans)
qed simp

section \<open>Relocation\<close>

lemma find_sh_at:
  assumes "file_at m fb bs" and "elf_ok bs"
  shows "elf_find_sh m fb (word_of_nat i) = fb + word_of_nat (unat (word_at bs 32) + 40 * i)"
  using header_fields [OF assms(1)] assms(2) by (simp add: elf_find_sh_def elf_ok_def add.assoc)

lemma relocate_entry_image:
  assumes l: "loading bs fb p im m" and i: "i < section_count bs"
    and rel: "s_type (section_at bs i) = 9" and j: "j < s_size (section_at bs i) div s_entsize (section_at bs i)"
  defines "sh \<equiv> elf_find_sh m fb (word_of_nat i)" and "info_sh \<equiv> elf_find_sh m fb (word_of_nat (s_info (section_at bs i)))"
    and "rels \<equiv> fb + word_of_nat (s_offset (section_at bs i))"
  shows "case relocate bs p (section_at bs i) j im of
      None \<Rightarrow> elf_relocate_entry fb p sh info_sh rels (word_of_nat j) m = None
    | Some im' \<Rightarrow> (\<exists>m'. elf_relocate_entry fb p sh info_sh rels (word_of_nat j) m = Some m' \<and> loading bs fb p im' m' \<and>
        same_on (- region p (image_len bs)) m m')"
proof -
  let ?sec = "section_at bs i"
  have f: "file_at m fb bs" and ok: "elf_ok bs" and im: "file_at m p im" "length im = image_len bs"
    and fb: "fb \<noteq> 0" "unat fb + length bs < 2 ^ 32" using l by (simp_all add: loading_def)
  note fields = section_fields [OF f ok i, folded sh_def]
  have so: "s_info ?sec < section_count bs" "s_offset ?sec + 8 * (s_size ?sec div s_entsize ?sec) \<le> length bs"
    "relocation_ok bs ?sec j"
    using elf_ok_section [OF ok i] rel j by (simp_all add: section_ok_def list_all_iff)
  have j8: "s_offset ?sec + 8 * j + 8 \<le> length bs" using so(2) j by simp
  let ?rel = "fb + word_of_nat (s_offset ?sec) + 8 * word_of_nat j"
  have rl: "r_info m ?rel = word_at bs (s_offset ?sec + 8 * j + 4)" "r_offset m ?rel = word_at bs (s_offset ?sec + 8 * j)"
    using file_word_at [OF f, of "s_offset ?sec + 8 * j + 4"] file_word_at [OF f, of "s_offset ?sec + 8 * j"] j8
    by (simp_all add: r_info_def r_offset_def ac_simps)
  let ?type = "rel_type bs ?sec j" and ?sym = "rel_symbol bs ?sec j" and ?t = "rel_target bs ?sec j"
  have sym: "drop_bit 8 (word_at bs (s_offset ?sec + 8 * j + 4)) = word_of_nat ?sym" by (simp add: rel_symbol_def)
  have target: "p + (sh_addr m (elf_find_sh m fb (word_of_nat (s_info ?sec))) + r_offset m ?rel) = p + word_of_nat ?t"
    by (simp add: section_fields [OF f ok so(1)] rl rel_target_def)
  show ?thesis
  proof (cases "?type = 0 \<or> ?sym = 0")
    case True
    then have "elf_relocate_entry fb p sh info_sh rels (word_of_nat j) m = Some m"
      by (auto simp: elf_relocate_entry_def info_sh_def rels_def fields rl Let_def sym rel_type_def)
    moreover have "relocate bs p ?sec j im = Some im" using True by (simp add: relocate_def Let_def)
    ultimately show ?thesis using l by simp
  next
    case False
    let ?link = "section_at bs (s_link ?sec)"
    let ?k = "symbol_at bs ?link ?sym"
    let ?shndx = "half_at bs (?k + 14)"
    have r: "s_link ?sec < section_count bs" "?k + 16 \<le> length bs" "?t + 4 \<le> image_len bs"
      "?shndx = 0 \<or> ?shndx = 0xFFF1 \<or> unat ?shndx < section_count bs"
      using so(3) False by (auto simp: relocation_ok_def Let_def)
    have addr: "fb + sh_offset m (elf_find_sh m fb (word_of_nat (s_link ?sec))) + word_of_nat ?sym * 16 = fb + word_of_nat ?k"
      by (simp add: section_fields [OF f ok r(1)] symbol_at_def ac_simps)
    have st: "st_shndx m (fb + word_of_nat ?k) = ?shndx" "st_value m (fb + word_of_nat ?k) = word_at bs (?k + 4)"
      using file_half_at [OF f, of "?k + 14"] file_word_at [OF f, of "?k + 4"] r(2)
      by (simp_all add: st_shndx_def st_value_def ac_simps)
    have nz: "fb + word_of_nat ?k \<noteq> 0"
    proof -
      have "unat (word_of_nat ?k :: u32) = ?k" using r(2) fb(2) by (intro unat_of_nat_eq) simp
      then have "unat (fb + word_of_nat ?k) = unat fb + ?k" using r(2) fb(2) by (subst unat_add_exact) simp_all
      moreover have "unat fb \<noteq> 0" using fb(1) by (simp add: unat_eq_0)
      ultimately show ?thesis by (metis add_eq_0_iff_both_eq_0 unat_0)
    qed
    have find: "elf_find_sym m fb (word_of_nat (s_link ?sec)) (word_of_nat ?sym) = (if ?shndx = 0 then 0 else fb + word_of_nat ?k)"
      by (simp add: elf_find_sym_def Let_def addr st)
    have symnz: "(word_of_nat ?sym :: u32) \<noteq> 0" using False by (auto simp: rel_symbol_def)
    have run: "elf_relocate_entry fb p sh info_sh rels (word_of_nat j) m =
        (if ?shndx = 0 then None
         else elf_rel_sym ?type (p + word_of_nat ?t) (the (symbol_value bs p ?k)) m)"
    proof (cases "?shndx = 0")
      case True
      then show ?thesis using False symnz
        by (simp add: elf_relocate_entry_def info_sh_def rels_def fields rl Let_def sym rel_type_def find)
    next
      case nonzero: False
      have "sh_addr m (elf_find_sh m fb (ucast ?shndx)) = word_of_nat (s_addr (section_at bs (unat ?shndx)))" if "?shndx \<noteq> 0xFFF1"
        using section_fields(3) [OF f ok, of "unat ?shndx"] r(4) nonzero that by simp
      then show ?thesis using False symnz nonzero nz
        by (simp add: elf_relocate_entry_def info_sh_def rels_def fields rl Let_def sym rel_type_def find st symbol_value_def)
          (simp add: section_fields [OF f ok so(1)] rel_target_def ac_simps)
    qed
    have ld: "load32 m (p + word_of_nat ?t) = word_at im ?t" using file_word_at [OF im(1)] r(3) im(2) by simp
    have w: "loading bs fb p (overwrite im ?t (word_bytes v)) (store32 m (p + word_of_nat ?t) v) \<and>
        same_on (- region p (image_len bs)) m (store32 m (p + word_of_nat ?t) v)" for v
      unfolding store32_bytes using loading_write [OF l, of ?t "word_bytes v"] r(3) by simp
    show ?thesis using False w
      by (auto simp: run relocate_def Let_def elf_rel_sym_def ld symbol_value_def split: if_splits)
  qed
qed

end
