(* ===== verification/Fs_Volume.thy ===== *)
theory Fs_Volume
  imports Fs
begin

text \<open>
  A FAT12 volume under a letter of the file system layer: opening, reading and closing a file through the driver's
  record, down to the bytes of the disk.
\<close>

section \<open>The mounted volume\<close>

definition operations :: "string list" where
  "operations = [''fat12_open'', ''fat12_opendir'', ''fat12_close'', ''fat12_closedir'', ''fat12_read'', ''fat12_readdir'',
     ''fat12_write'', ''fat12_seek'']"

text \<open>The code at the entry points that \<open>fat12_init\<close> stores is that of the driver.\<close>

definition fat12_linked ::
  "environment \<Rightarrow> (string \<Rightarrow> u32) \<Rightarrow> u32 \<Rightarrow> u32 \<Rightarrow> u32 \<Rightarrow> (string \<Rightarrow> u32) \<Rightarrow> procedures \<Rightarrow> bool" where
  "fat12_linked env lit slot buffer ext code procs \<longleftrightarrow>
     call_open procs (code ''fat12_open'') = fat12_open env slot buffer ext \<and>
     call_opendir procs (code ''fat12_opendir'') = fat12_opendir env slot buffer \<and>
     call_close procs (code ''fat12_close'') = fat12_close \<and>
     call_closedir procs (code ''fat12_closedir'') = fat12_closedir \<and>
     call_read procs (code ''fat12_read'') = fat12_read env \<and>
     call_readdir procs (code ''fat12_readdir'') = fat12_readdir env lit slot \<and>
     call_write procs (code ''fat12_write'') = fat12_write \<and>
     call_seek procs (code ''fat12_seek'') = fat12_seek"

definition fat12_driver :: "(string \<Rightarrow> u32) \<Rightarrow> u32 \<Rightarrow> memory \<Rightarrow> bool" where
  "fat12_driver code d m \<longleftrightarrow> (\<forall>k < 8. driver_op m d (word_of_nat k) = code (operations ! k))"

lemma fat12_driver_ops:
  assumes "fat12_driver code d m"
  shows "driver_op m d 0 = code ''fat12_open''" "driver_op m d 2 = code ''fat12_close''" "driver_op m d 4 = code ''fat12_read''"
  using assms [unfolded fat12_driver_def, rule_format, of 0] assms [unfolded fat12_driver_def, rule_format, of 2]
    assms [unfolded fat12_driver_def, rule_format, of 4] by (simp_all add: operations_def)

lemma fat12_driver_cong:
  assumes "fat12_driver code d m" and "same_on (region d 36) m m'"
  shows "fat12_driver code d m'" "driver_mnt m' d = driver_mnt m d"
proof -
  have "driver_op m' d (word_of_nat k) = driver_op m d (word_of_nat k)" if "k < 8" for k
  proof -
    have "unat (word_of_nat k :: u32) = k" using that by (simp add: unat_of_nat_eq)
    then have "unat (4 * word_of_nat k :: u32) = 4 * k" using that unat_mult_lem [of 4 "word_of_nat k :: u32"] by simp
    then have "unat (4 + 4 * word_of_nat k :: u32) = 4 + 4 * k" using that by (subst unat_add_exact) simp_all
    then have "region (d + (4 + 4 * word_of_nat k)) 4 \<subseteq> region d 36"
      using that by (intro region_shift_subset) simp_all
    then show ?thesis
      unfolding driver_op_def add.assoc by (intro load32_cong same_on_mono [OF assms(2)])
  qed
  then show "fat12_driver code d m'" using assms(1) by (simp add: fat12_driver_def)
  have "d + 0 \<in> region d 36" by (rule region_offset) simp
  then show "driver_mnt m' d = driver_mnt m d" using assms(2) by (simp add: driver_mnt_def same_on_def)
qed

definition fat12_mounted ::
  "environment \<Rightarrow> (nat \<Rightarrow> u8) \<Rightarrow> nat \<Rightarrow> u32 set \<Rightarrow> (u32 \<rightharpoonup> u32) \<Rightarrow> u32 set \<Rightarrow> u32 \<Rightarrow> u32 \<Rightarrow> u32 \<Rightarrow> procedures \<Rightarrow> u32 \<Rightarrow> u8 \<Rightarrow> kernel \<Rightarrow> bool" where
  "fat12_mounted env disk n A L K slot buffer ext procs d c s \<longleftrightarrow>
     volume env disk n A s \<and> heap_holds s A L \<and> locals_apart A slot buffer \<and> region ext 3 \<inter> A = {} \<and>
     region ext 3 \<inter> region buffer 12 = {} \<and> region slot 4 \<inter> region ext 3 = {} \<and>
     K = path_kept A L slot buffer - region ext 3 \<and> region (bpb s) 62 \<subseteq> K \<and> region d 36 \<subseteq> K \<and>
     (\<exists>z. buffer + word_of_nat z \<in> K \<and> mem s (buffer + word_of_nat z) = 0) \<and> c \<noteq> 0 \<and>
     (\<exists>ds. mounted s ds \<and> find (\<lambda>d. driver_mnt (mem s) d = c) ds = Some d) \<and>
     (\<exists>lit code. fat12_driver code d (mem s) \<and> fat12_linked env lit slot buffer ext code procs)"

text \<open>The path \<open>/c/ds/base.x\<close>.\<close>

definition at_path :: "memory \<Rightarrow> u32 \<Rightarrow> u8 \<Rightarrow> u8 list list \<Rightarrow> u8 list \<Rightarrow> u8 list \<Rightarrow> bool" where
  "at_path m path c ds base x \<longleftrightarrow> m path = 47 \<and> m (path + 1) = c \<and> m (path + 2) = 47 \<and>
     cstr m (path + 3) (path_bytes ds (base @ 46 # x)) \<and> length (path_bytes ds (base @ 46 # x)) < 2 ^ 31 \<and>
     (\<forall>d \<in> set ds. component d) \<and> file_base base x"

definition path_region :: "u32 \<Rightarrow> u8 list list \<Rightarrow> u8 list \<Rightarrow> u8 list \<Rightarrow> u32 set" where
  "path_region path ds base x = region (path + 3) (Suc (length (path_bytes ds (base @ 46 # x))))"

section \<open>Opening\<close>

lemma file_name_short: "length (file_name (take 11 e)) \<le> 12"
proof -
  have "length (trim_end 32 (take 8 (take 11 e))) \<le> length (take 8 (take 11 e))" by (rule length_trim_end)
  moreover have "length (drop 8 (take 11 e)) \<le> 3" by simp
  ultimately show ?thesis by (simp add: file_name_def del: length_drop length_take) simp
qed

lemma opened_driver:
  fixes d :: u32
  assumes "opened A L f e s"
  defines "s' \<equiv> s\<lparr>mem := set_file_driver f d (mem s)\<rparr>"
  shows "opened A L f e s'" "file_driver (mem s') f = d" "effect (- A \<union> blocks L) s s'"
proof -
  obtain k where k: "L f = None" "f \<noteq> 0" "284 \<le> unat k" "heap_holds s A (L(f \<mapsto> k))"
    and fields: "file_ref (mem s) f = raw_cluster e" "file_len (mem s) f = raw_size e" "file_offset (mem s) f = 0"
      "cstr (mem s) f (file_name (take 11 e))" using assms(1) by (auto simp: opened_def)
  have sub: "region (f + 280) 4 \<subseteq> region f 284" using region_shift_subset [of 280 4 284 f] by simp
  have e: "effect (- region (f + 280) 4) s s'"
    unfolding s'_def set_file_driver_def by (intro effect_mem same_on_store32) simp
  have "region f 284 \<subseteq> region f (unat k)" using k(3) by (rule region_mono)
  then have e': "effect (- region f (unat k)) s s'" using sub by (intro effect_mono [OF e]) blast
  note fr = fresh_effect [OF k(4) _ k(1) map_le_upd [of L f k, OF k(1)] e']
  show "effect (- A \<union> blocks L) s s'" by (rule fr) simp
  show "file_driver (mem s') f = d" by (simp add: s'_def file_driver_def set_file_driver_def)
  have "region f (Suc (length (file_name (take 11 e)))) \<inter> region (f + 280) 4 = {}"
    using file_name_short [of e] region_mono [of "Suc (length (file_name (take 11 e)))" 256 f]
      region_offset_disjoint [of 256 280 0 4 f] by auto
  then have "cstr (mem s') f (file_name (take 11 e))"
    using e by (intro cstr_cong [OF _ fields(4)]) (auto simp: effect_def intro: same_on_mono)
  moreover have "file_ref (mem s') f = raw_cluster e" "file_len (mem s') f = raw_size e" "file_offset (mem s') f = 0"
    using fields by (simp_all add: s'_def set_file_driver_def file_ref_def file_len_def file_offset_def frame_simps)
  ultimately show "opened A L f e s'" using k fr(1) by (auto simp: opened_def)
qed

lemma fs_open_outcome:
  assumes v: "fat12_mounted env disk n A L K slot buffer ext procs d c s" and p: "at_path (mem s) path c ds base x"
    and keep: "path_region path ds base x \<subseteq> K" and good: "walkable (dir_bytes disk s) (dir_cluster disk (lba_fat1 s)) 0 ds"
  shows "outcome (fs_open procs path s) (\<lambda>f s'.
    case lookup_file disk s ds base x of
      None \<Rightarrow> f = 0 \<and> load32 (mem s') 280 = d \<and> effect (K - region 280 4) s s'
    | Some e \<Rightarrow> opened A L f e s' \<and> file_driver (mem s') f = d \<and> effect K s s')"
proof -
  obtain mds lit code where m: "mounted s mds" "find (\<lambda>d. driver_mnt (mem s) d = c) mds = Some d"
    and dr: "fat12_driver code d (mem s)" "fat12_linked env lit slot buffer ext code procs"
    using v by (auto simp: fat12_mounted_def)
  have path: "mem s path = 47" "mem s (path + 2) = 47" "mem s (path + 1) = c"
    and cs: "cstr (mem s) (path + 3) (path_bytes ds (base @ 46 # x))" "length (path_bytes ds (base @ 46 # x)) < 2 ^ 31"
      "\<forall>d \<in> set ds. component d" "file_base base x"
    using p by (simp_all add: at_path_def)
  obtain i where "drivers s i = d" and run: "fs_open procs path s =
      andthen (call_open procs (driver_op (mem s) d 0) (path + 3) s) (\<lambda>f s'.
        ret f (s'\<lparr>mem := set_file_driver f (drivers s' i) (mem s')\<rparr>))"
    using fs_open_found [OF m(1) path(1,2) m(2) [folded path(3)]] by blast
  obtain z where vol: "volume env disk n A s" "heap_holds s A L" "locals_apart A slot buffer" "region ext 3 \<inter> A = {}"
      "region ext 3 \<inter> region buffer 12 = {}" "region slot 4 \<inter> region ext 3 = {}" "K = path_kept A L slot buffer - region ext 3"
      "region (bpb s) 62 \<subseteq> K" "buffer + word_of_nat z \<in> K" "mem s (buffer + word_of_nat z) = 0"
    using v by (auto simp: fat12_mounted_def)
  have call: "call_open procs (driver_op (mem s) d 0) = fat12_open env slot buffer ext"
    using dr by (simp add: fat12_driver_ops fat12_linked_def)
  have K: "K \<subseteq> - A \<union> blocks L" unfolding vol(7) by (auto simp: path_kept_def)
  show ?thesis unfolding run call
  proof (rule outcome_andthen [OF fat12_open_outcome [OF vol(1-6) cs vol(7,8) keep [unfolded path_region_def] vol(9,10) good]])
    fix f s1
    assume r: "effect K s s1 \<and> (case lookup_file disk s ds base x of
        None \<Rightarrow> f = 0 \<and> (\<exists>L'. L \<subseteq>\<^sub>m L' \<and> heap_holds s1 A L') | Some e \<Rightarrow> opened A L f e s1)"
    then have i: "drivers s1 i = d" using effect_globals(6) [of K s s1] \<open>drivers s i = d\<close> by simp
    show "outcome (ret f (s1\<lparr>mem := set_file_driver f (drivers s1 i) (mem s1)\<rparr>)) (\<lambda>f s'.
      case lookup_file disk s ds base x of
        None \<Rightarrow> f = 0 \<and> load32 (mem s') 280 = d \<and> effect (K - region 280 4) s s'
      | Some e \<Rightarrow> opened A L f e s' \<and> file_driver (mem s') f = d \<and> effect K s s')"
    proof (cases "lookup_file disk s ds base x")
      case None
      have "effect (K - region 280 4) s1 (s1\<lparr>mem := set_file_driver 0 d (mem s1)\<rparr>)"
        unfolding set_file_driver_def by (intro effect_mem same_on_store32) auto
      then have "effect (K - region 280 4) s (s1\<lparr>mem := set_file_driver 0 d (mem s1)\<rparr>)"
        using r by (blast intro: effect_trans effect_mono)
      then show ?thesis using r None by (intro outcome_ret) (simp add: i set_file_driver_def)
    next
      case (Some e)
      then have o: "opened A L f e s1" and e1: "effect K s s1" using r by simp_all
      note od = opened_driver [OF o, of d]
      have "effect K s (s1\<lparr>mem := set_file_driver f d (mem s1)\<rparr>)"
        by (rule effect_trans [OF e1 effect_mono [OF od(3) K]])
      then show ?thesis using od(1,2) Some by (intro outcome_ret) (simp add: i)
    qed
  qed
qed

section \<open>An open file\<close>

definition handle :: "environment \<Rightarrow> procedures \<Rightarrow> u32 \<Rightarrow> u32 \<Rightarrow> kernel \<Rightarrow> bool" where
  "handle env procs d f s \<longleftrightarrow> f \<noteq> 0 \<and> d \<noteq> 0 \<and> file_driver (mem s) f = d \<and> driver_mnt (mem s) d \<noteq> 0 \<and>
     (\<exists>lit slot buffer ext code. fat12_driver code d (mem s) \<and> fat12_linked env lit slot buffer ext code procs)"

lemma handle_ops:
  assumes "handle env procs d f s"
  shows "fs_read procs f dst len s = fat12_read env f dst len s" "fs_close procs f s = free f s"
proof -
  obtain lit slot buffer ext code where "fat12_driver code d (mem s)" "fat12_linked env lit slot buffer ext code procs"
    using assms by (auto simp: handle_def)
  then have "call_read procs (driver_op (mem s) d 4) = fat12_read env" "call_close procs (driver_op (mem s) d 2) = fat12_close"
    by (simp_all add: fat12_driver_ops fat12_linked_def)
  moreover have "check_file f s = ret () s" using assms by (simp add: check_file_def handle_def)
  ultimately show "fs_read procs f dst len s = fat12_read env f dst len s" "fs_close procs f s = free f s"
    using assms by (simp_all add: fs_read_def fs_close_def handle_def fat12_close_def)
qed

lemma handle_cong:
  assumes "handle env procs d f s" and "same_on (region (f + 280) 4 \<union> region d 36) (mem s) (mem s')"
  shows "handle env procs d f s'"
proof -
  obtain lit slot buffer ext code where dr: "fat12_driver code d (mem s)" "fat12_linked env lit slot buffer ext code procs"
    using assms(1) by (auto simp: handle_def)
  have "same_on (region d 36) (mem s) (mem s')" using assms(2) by (rule same_on_mono) simp
  note c = fat12_driver_cong [OF dr(1) this]
  have "file_driver (mem s') f = file_driver (mem s) f"
    unfolding file_driver_def by (intro load32_cong same_on_mono [OF assms(2)]) simp
  then show ?thesis using assms(1) c dr(2) unfolding handle_def by metis
qed

text \<open>The clusters of the first \<open>n\<close> bytes.\<close>

definition chain_ok :: "(nat \<Rightarrow> u8) \<Rightarrow> kernel \<Rightarrow> u16 \<Rightarrow> nat \<Rightarrow> bool" where
  "chain_ok disk s c n \<longleftrightarrow>
     (let last = n div cluster_size s; cl = nth_cluster disk (lba_fat1 s) c in
      list_all (\<lambda>i. fat12_valid_cluster (cl i) \<and> in_sector (cl i)) [0..<last] \<and>
      (fat12_valid_cluster (cl last) \<or> 0 < last \<and> n mod cluster_size s = 0))"

lemma chain_ok_effect:
  assumes "effect K s s'" and "region (bpb s) 62 \<subseteq> K"
  shows "chain_ok disk s' c n \<longleftrightarrow> chain_ok disk s c n" "file_byte disk s' c = file_byte disk s c"
    "nth_cluster disk (lba_fat1 s') c (n div cluster_size s') = nth_cluster disk (lba_fat1 s) c (n div cluster_size s)"
  using geometry [OF assms] by (simp_all add: chain_ok_def cluster_size_def file_byte_def fun_eq_iff)

lemma fs_contents_outcome:
  assumes v: "fat12_mounted env disk nn A L K slot buffer ext procs d c s" and p: "at_path (mem s) path c ds base x"
    and keep: "path_region path ds base x \<subseteq> K" and good: "walkable (dir_bytes disk s) (dir_cluster disk (lba_fat1 s)) 0 ds"
    and e: "lookup_file disk s ds base x = Some e" and n: "n = min (unat len) (unat (raw_size e))" "0 < n"
    and chain: "chain_ok disk s (ucast (raw_cluster e)) n"
    and dst: "region dst n \<subseteq> K" "region dst n \<inter> (region (bpb s) 62 \<union> region d 36) = {}"
  shows "outcome (andthen (fs_open procs path s) (\<lambda>f s. andthen (fs_read procs f dst len s) (\<lambda>_. fs_close procs f))) (\<lambda>_ s'.
    bytes_at (mem s') dst n = map (file_byte disk s (ucast (raw_cluster e))) [0..<n] \<and> effect (K - region dst n) s s' \<and>
    (if fat12_valid_cluster (nth_cluster disk (lba_fat1 s) (ucast (raw_cluster e)) (n div cluster_size s)) then heap_holds s' A L
     else \<exists>src k. L src = None \<and> heap_holds s' A (L(src \<mapsto> k))))"
    (is "outcome _ ?Q")
proof (rule outcome_andthen [OF fs_open_outcome [OF v p keep good]])
  let ?c = "ucast (raw_cluster e) :: u16"
  let ?valid = "fat12_valid_cluster (nth_cluster disk (lba_fat1 s) ?c (n div cluster_size s))"
  obtain mds lit code where m: "mounted s mds" "find (\<lambda>d. driver_mnt (mem s) d = c) mds = Some d" "c \<noteq> 0"
    and dr: "fat12_driver code d (mem s)" "fat12_linked env lit slot buffer ext code procs"
    and vol: "volume env disk nn A s" "K = path_kept A L slot buffer - region ext 3" and bpb: "region (bpb s) 62 \<subseteq> K"
    and dK: "region d 36 \<subseteq> K"
    using v by (auto simp: fat12_mounted_def)
  have K: "K \<subseteq> - A \<union> blocks L" unfolding vol(2) by (auto simp: path_kept_def)
  have "driver_mnt (mem s) d = c" "d \<in> set mds" using m(2) by (auto simp: find_Some_iff)
  then have d: "d \<noteq> 0" "driver_mnt (mem s) d \<noteq> 0" using m by (auto simp: mounted_def)
  fix f s1
  assume "case lookup_file disk s ds base x of
      None \<Rightarrow> f = 0 \<and> load32 (mem s1) 280 = d \<and> effect (K - region 280 4) s s1
    | Some e \<Rightarrow> opened A L f e s1 \<and> file_driver (mem s1) f = d \<and> effect K s s1"
  then have o: "opened A L f e s1" and fd: "file_driver (mem s1) f = d" and e1: "effect K s s1" by (simp_all add: e)
  obtain k where k: "L f = None" "f \<noteq> 0" "284 \<le> unat k" "heap_holds s1 A (L(f \<mapsto> k))"
    and fields: "file_ref (mem s1) f = raw_cluster e" "file_len (mem s1) f = raw_size e" "file_offset (mem s1) f = 0"
    using o by (auto simp: opened_def)
  let ?L = "L(f \<mapsto> k)"
  have Lm: "L \<subseteq>\<^sub>m ?L" by (rule map_le_upd [of L f k, OF k(1)])
  have away: "region f (unat k) \<inter> (- A \<union> blocks L) = {}" by (rule kheap.fresh_away [OF k(4) _ k(1) Lm]) simp
  have f284: "region f 284 \<subseteq> region f (unat k)" by (rule region_mono [OF k(3)])
  have fK: "region f 284 \<inter> K = {}" using away f284 K by blast
  have fblk: "region f (unat k) \<subseteq> blocks ?L" by (rule block_subset) simp
  have sub: "region (f + 280) 4 \<subseteq> region f 284" "region (f + 260) 4 \<subseteq> region f 284"
    using region_shift_subset [of 280 4 284 f] region_shift_subset [of 260 4 284 f] by simp_all
  have same1: "same_on K (mem s) (mem s1)" using e1 by (simp add: effect_def)
  note c1 = fat12_driver_cong [OF dr(1) same_on_mono [OF same1 dK]]
  have h1: "handle env procs d f s1" using k(2) d c1 fd dr(2) unfolding handle_def by metis
  have KL: "K \<subseteq> - A \<union> blocks ?L" using K blocks_mono [OF Lm] by blast
  note g = geometry [OF e1 bpb]
  have "read_regions A ?L f dst n"
    using dst(1) KL f284 fblk fK by (auto simp: read_regions_def)
  moreover have "region (bpb s) 62 \<inter> (region dst n \<union> region f 284) = {}" using dst(2) bpb fK by blast
  moreover have "chain_ok disk s1 ?c n" using chain chain_ok_effect [OF e1 bpb] by simp
  moreover have "n < 2 ^ 32" using n unat_lt2p [of len] by simp
  ultimately have r: "readable env disk nn A ?L f dst ?c 0 n s1"
    using volume_effect [OF vol(1) e1 bpb]
    by (simp add: readable_def g chain_ok_def cluster_size_def Let_def del: fun_upd_apply)
  have contig: "contiguous 0 n (cluster_size s1)" by (simp add: contiguous_def)
  have zero: "0 = unat (file_offset (mem s1) f)" "n = min (unat len) (unat (file_len (mem s1) f) - 0)"
    "0 \<le> unat (file_len (mem s1) f)" "0 + unat len < 2 ^ 32" "?c = ucast (file_ref (mem s1) f)"
    using n unat_lt2p [of len] by (simp_all add: fields)
  show "outcome (andthen (fs_read procs f dst len s1) (\<lambda>_. fs_close procs f)) ?Q"
    unfolding handle_ops(1) [OF h1]
  proof (rule outcome_andthen [OF fat12_read_outcome [OF zero(1-4) n(2) zero(5) k(4) r contig]])
    fix u s2
    assume a: "bytes_at (mem s2) dst n = map (file_byte disk s1 ?c) [0..<0 + n] \<and>
      file_offset (mem s2) f = word_of_nat (0 + n) \<and> effect (read_kept A ?L f dst n) s1 s2 \<and>
      (if fat12_valid_cluster (nth_cluster disk (lba_fat1 s1) ?c ((0 + n) div cluster_size s1)) then heap_holds s2 A ?L
       else \<exists>src k. ?L src = None \<and> heap_holds s2 A (?L(src \<mapsto> k)))"
    then have e2: "effect (read_kept A ?L f dst n) s1 s2" by blast
    have "region (f + 280) 4 \<inter> region (f + 260) 4 = {}"
      using region_offset_disjoint [of 4 260 280 4 f] by auto
    then have "region (f + 280) 4 \<union> region d 36 \<subseteq> read_kept A ?L f dst n"
      using sub f284 fblk fK dst dK KL by (auto simp: read_kept_def)
    then have h2: "handle env procs d f s2"
      using e2 by (intro handle_cong [OF h1]) (auto simp: effect_def intro: same_on_mono)
    have "effect (K - region dst n) s1 s2"
      using KL fK sub by (intro effect_mono [OF e2]) (auto simp: read_kept_def)
    then have e12: "effect (K - region dst n) s s2" using effect_trans [OF effect_mono [OF e1]] by blast
    obtain L2 where L2: "heap_holds s2 A L2" "L2 f = Some k" "?L \<subseteq>\<^sub>m L2"
      "if ?valid then L2(f := None) = L else \<exists>src k. L src = None \<and> L2(f := None) = L(src \<mapsto> k)"
    proof (cases ?valid)
      case True
      then have "heap_holds s2 A ?L" using a chain_ok_effect(3) [OF e1 bpb, of disk ?c n] by simp
      then show ?thesis using that [of ?L] True upd_None [of L f, OF k(1)] by (simp add: map_le_refl)
    next
      case False
      then obtain src j where s: "?L src = None" "heap_holds s2 A (?L(src \<mapsto> j))"
        using a chain_ok_effect(3) [OF e1 bpb, of disk ?c n] by (auto simp del: fun_upd_apply)
      then have "src \<noteq> f" "L src = None" by (auto split: if_splits)
      moreover from this have "(?L(src \<mapsto> j))(f := None) = L(src \<mapsto> j)" using k(1) by auto
      ultimately show ?thesis using that [of "?L(src \<mapsto> j)"] s False map_le_upd [of ?L src j, OF s(1)] by auto
    qed
    show "outcome (fs_close procs f s2) ?Q"
      unfolding handle_ops(2) [OF h2]
    proof (rule outcome_mono [OF free_outcome [of s2 A L2 f k, OF L2(1,2)]], intro conjI)
      fix u s3
      assume b: "heap_holds s3 A (L2(f := None)) \<and> effect (- A \<union> blocks L2) s2 s3"
      have "K \<subseteq> - A \<union> blocks L2" using KL blocks_mono [OF L2(3)] by blast
      then have "effect K s2 s3" using b by (blast intro: effect_mono)
      then show "effect (K - region dst n) s s3" using effect_trans [OF e12] by (blast intro: effect_mono)
      have "same_on (region dst n) (mem s2) (mem s3)"
        using \<open>effect K s2 s3\<close> dst(1) by (auto simp: effect_def intro: same_on_mono)
      then have "bytes_at (mem s3) dst n = bytes_at (mem s2) dst n"
        using n unat_lt2p [of len] by (intro bytes_at_cong) simp_all
      then show "bytes_at (mem s3) dst n = map (file_byte disk s ?c) [0..<n]"
        using a chain_ok_effect(2) [OF e1 bpb, of disk ?c] by simp
      show "if ?valid then heap_holds s3 A L else \<exists>src k. L src = None \<and> heap_holds s3 A (L(src \<mapsto> k))"
        using b L2(4) by (cases ?valid) (simp_all only: if_True if_False, metis)
    qed
  qed
qed

end
