(* ===== verification/Elf_Load.thy ===== *)
theory Elf_Load
  imports Elf_Image Fs_Volume
begin

text \<open>
  The whole of the loader: the loops over the relocations, and \<open>elf_read\<close> over any source of files that delivers their bytes.
  The file system layer over a FAT12 volume is such a source.
\<close>

section \<open>The relocation loops\<close>

text \<open>What a loop leaves: the image of the list semantics, or the flag of an error.\<close>

definition relocated :: "u8 list \<Rightarrow> u32 \<Rightarrow> u32 \<Rightarrow> memory \<Rightarrow> u8 list option \<Rightarrow> (bool, memory) run \<Rightarrow> bool" where
  "relocated bs fb p m r res \<longleftrightarrow> (\<exists>ok m'. res = ret ok m' \<and> same_on (- region p (image_len bs)) m m' \<and>
     (case r of None \<Rightarrow> \<not> ok | Some im \<Rightarrow> ok \<and> loading bs fb p im m'))"

lemma relocated_mono:
  assumes "relocated bs fb p m1 r res" and "same_on (- region p (image_len bs)) m m1"
  shows "relocated bs fb p m r res"
  using assms unfolding relocated_def by (blast intro: same_on_trans)

lemma relocated_ret: "loading bs fb p im m \<Longrightarrow> relocated bs fb p m (Some im) (ret True m)"
  unfolding relocated_def by (intro exI [of _ True] exI [of _ m]) simp

lemma relocated_error: "same_on (- region p (image_len bs)) m m' \<Longrightarrow> relocated bs fb p m None (ret False m')"
  unfolding relocated_def by (intro exI [of _ False] exI [of _ m']) simp

text \<open>Where a section header of the file lies, and the bounds of the loops while the file is in its block.\<close>

definition section_addr :: "u8 list \<Rightarrow> u32 \<Rightarrow> nat \<Rightarrow> u32" where
  "section_addr bs fb i = fb + word_of_nat (unat (word_at bs 32) + 40 * i)"

lemma section_addr_at: "file_at m fb bs \<Longrightarrow> elf_ok bs \<Longrightarrow> elf_find_sh m fb (word_of_nat i) = section_addr bs fb i"
  unfolding section_addr_def by (rule find_sh_at)

lemma entries_loop:
  assumes l: "loading bs fb p im m" and i: "i < section_count bs" and rel: "s_type (section_at bs i) = 9"
  defines "n \<equiv> s_size (section_at bs i) div s_entsize (section_at bs i)"
  shows "sh_entsize m (section_addr bs fb i) \<noteq> 0"
    "j \<le> n \<Longrightarrow> word_of_nat j < sh_size m (section_addr bs fb i) div sh_entsize m (section_addr bs fb i) \<longleftrightarrow> j < n"
proof -
  let ?sec = "section_at bs i"
  have f: "file_at m fb bs" and ok: "elf_ok bs" using l by (simp_all add: loading_def)
  note fields = section_fields [OF f ok i, unfolded section_addr_at [OF f ok]]
  have ent: "s_entsize ?sec \<noteq> 0" using elf_ok_section [OF ok i] rel by (simp add: section_ok_def)
  have lt: "s_entsize ?sec < 2 ^ 32" "s_size ?sec < 2 ^ 32" by (rule section_bounds)+
  have un: "unat (word_of_nat (s_entsize ?sec) :: u32) = s_entsize ?sec" "unat (word_of_nat (s_size ?sec) :: u32) = s_size ?sec"
    using lt by (intro unat_of_nat_eq; simp)+
  then show "sh_entsize m (section_addr bs fb i) \<noteq> 0" using ent unfolding fields by (metis unat_0)
  assume "j \<le> n"
  moreover have "n < 2 ^ 32" unfolding n_def by (rule le_less_trans [OF div_le_dividend lt(2)])
  ultimately have "unat (word_of_nat j :: u32) = j" by (intro unat_of_nat_eq) simp
  then show "word_of_nat j < sh_size m (section_addr bs fb i) div sh_entsize m (section_addr bs fb i) \<longleftrightarrow> j < n"
    by (simp add: fields word_less_nat_alt unat_div un n_def)
qed

lemma sections_at:
  assumes "file_at m fb bs" and "52 \<le> length bs"
  shows "e_shnum m fb = word_of_nat (section_count bs)" and "section_count bs < 2 ^ 32"
proof -
  have n: "unat (e_shnum m fb) = section_count bs" using header_fields [OF assms] by simp
  then have "word_of_nat (section_count bs) = (word_of_nat (unat (e_shnum m fb)) :: u32)" by simp
  then show "e_shnum m fb = word_of_nat (section_count bs)" by simp
  show "section_count bs < 2 ^ 32" using n unat_lt2p [of "e_shnum m fb"] by simp
qed

lemma sections_loop:
  assumes "loading bs fb p im m" and "i \<le> section_count bs"
  shows "word_of_nat i < e_shnum m fb \<longleftrightarrow> i < section_count bs"
proof -
  have f: "file_at m fb bs" and len: "52 \<le> length bs" using assms by (simp_all add: loading_def elf_ok_def)
  note n = sections_at [OF f len]
  have "unat (word_of_nat i :: u32) = i" using assms(2) n(2) by (intro unat_of_nat_eq) simp
  moreover have "unat (e_shnum m fb) = section_count bs" unfolding n(1) using n(2) by (intro unat_of_nat_eq) simp
  ultimately show ?thesis by (simp add: word_less_nat_alt)
qed

lemma next_index: "word_of_nat (Suc i) = word_of_nat i + (1 :: u32)"
  by (simp add: add.commute)

lemma relocate_entries_image:
  assumes "loading bs fb p im m" and i: "i < section_count bs" and rel: "s_type (section_at bs i) = 9"
    and "j \<le> s_size (section_at bs i) div s_entsize (section_at bs i)"
  shows "relocated bs fb p m
    (relocate_entries bs p (section_at bs i) [j..<s_size (section_at bs i) div s_entsize (section_at bs i)] im)
    (elf_relocate_entries fb p (section_addr bs fb i) (section_addr bs fb (s_info (section_at bs i)))
      (fb + word_of_nat (s_offset (section_at bs i))) (word_of_nat j) m)"
  using assms(4,1)
proof (induction arbitrary: im m rule: inc_induct)
  let ?sec = "section_at bs i"
  let ?n = "s_size ?sec div s_entsize ?sec"
  case base
  note e = entries_loop(1) [OF base i rel] entries_loop(2) [OF base i rel, of ?n]
  show ?case using relocated_ret [OF base] e by (subst elf_relocate_entries.simps) simp
next
  let ?sec = "section_at bs i" and ?sh = "section_addr bs fb i" and ?info = "section_addr bs fb (s_info (section_at bs i))"
    and ?rels = "fb + word_of_nat (s_offset (section_at bs i))"
  let ?n = "s_size ?sec div s_entsize ?sec"
  case (step j)
  have j: "j < ?n" using step.hyps by simp
  note l = step.prems
  note e = entries_loop(1) [OF l i rel] entries_loop(2) [OF l i rel, of j]
  have run: "elf_relocate_entries fb p ?sh ?info ?rels (word_of_nat j) m =
      (case elf_relocate_entry fb p ?sh ?info ?rels (word_of_nat j) m of
         None \<Rightarrow> ret False m
       | Some m \<Rightarrow> elf_relocate_entries fb p ?sh ?info ?rels (word_of_nat (Suc j)) m)"
    using j e unfolding next_index by (subst elf_relocate_entries.simps) simp
  have image: "relocate_entries bs p ?sec [j..<?n] im =
      (case relocate bs p ?sec j im of None \<Rightarrow> None | Some im \<Rightarrow> relocate_entries bs p ?sec [Suc j..<?n] im)"
    using j by (simp add: upt_conv_Cons split: option.split)
  have at: "elf_find_sh m fb (word_of_nat k) = section_addr bs fb k" for k using section_addr_at l by (simp add: loading_def)
  note one = relocate_entry_image [OF l i rel j, unfolded at]
  show ?case
  proof (cases "relocate bs p ?sec j im")
    case None
    then show ?thesis using one unfolding run image by (simp add: relocated_error)
  next
    case (Some im')
    then obtain m' where m': "elf_relocate_entry fb p ?sh ?info ?rels (word_of_nat j) m = Some m'"
      "loading bs fb p im' m'" "same_on (- region p (image_len bs)) m m'" using one by auto
    show ?thesis using step.IH [OF m'(2)] relocated_mono [OF _ m'(3)] unfolding run image by (simp add: Some m'(1))
  qed
qed

lemma relocate_sections_image:
  assumes "i \<le> section_count bs" and "loading bs fb p im m"
  shows "relocated bs fb p m (relocate_sections bs p [i..<section_count bs] im) (elf_relocate fb p (word_of_nat i) m)"
  using assms
proof (induction arbitrary: im m rule: inc_induct)
  case base
  then show ?case using relocated_ret [OF base] by (subst elf_relocate.simps) (simp add: sections_loop)
next
  case (step i)
  note l = step.prems
  let ?sec = "section_at bs i" and ?sh = "section_addr bs fb i"
  let ?info = "section_addr bs fb (s_info ?sec)" and ?rels = "fb + word_of_nat (s_offset ?sec)" and ?n = "s_size ?sec div s_entsize ?sec"
  have i: "i < section_count bs" using step.hyps by simp
  have f: "file_at m fb bs" and ok: "elf_ok bs" using l by (simp_all add: loading_def)
  have at: "elf_find_sh m fb (word_of_nat k) = section_addr bs fb k" for k by (rule section_addr_at [OF f ok])
  note fields = section_fields [OF f ok i, unfolded at]
  have lt: "word_of_nat i < e_shnum m fb" using sections_loop [OF l] i by simp
  have cons: "[i..<section_count bs] = i # [Suc i..<section_count bs]" using i by (simp add: upt_conv_Cons)
  show ?case
  proof (cases "s_type ?sec = 9")
    case False
    then have "elf_relocate fb p (word_of_nat i) m = elf_relocate fb p (word_of_nat (Suc i)) m"
      using lt by (subst elf_relocate.simps) (simp add: at fields add.commute Let_def)
    then show ?thesis using step.IH [OF l] False unfolding cons by simp
  next
    case True
    have run: "elf_relocate fb p (word_of_nat i) m =
        andthen (elf_relocate_entries fb p ?sh ?info ?rels 0 m) (\<lambda>ok m.
          if ok then elf_relocate fb p (word_of_nat (Suc i)) m else ret False m)"
      using True lt unfolding next_index by (subst elf_relocate.simps) (simp add: at fields Let_def)
    have "relocated bs fb p m (relocate_entries bs p ?sec [0..<?n] im) (elf_relocate_entries fb p ?sh ?info ?rels 0 m)"
      using relocate_entries_image [OF l i True, of 0] by simp
    then obtain ok' m' where r: "elf_relocate_entries fb p ?sh ?info ?rels 0 m = ret ok' m'"
      "same_on (- region p (image_len bs)) m m'"
      "case relocate_entries bs p ?sec [0..<?n] im of None \<Rightarrow> \<not> ok' | Some im \<Rightarrow> ok' \<and> loading bs fb p im m'"
      unfolding relocated_def by blast
    show ?thesis
    proof (cases "relocate_entries bs p ?sec [0..<?n] im")
      case None
      then show ?thesis using r True unfolding run cons by (simp add: relocated_error)
    next
      case (Some im')
      then have "relocated bs fb p m' (relocate_sections bs p [Suc i..<section_count bs] im') (elf_relocate fb p (word_of_nat (Suc i)) m')"
        using r(3) by (intro step.IH) simp
      then show ?thesis using r Some True unfolding run cons by (simp add: relocated_mono)
    qed
  qed
qed

text \<open>From the file and a fresh block: clearing, copying, relocating.\<close>

lemma build_image:
  assumes f: "file_at m fb bs" and ok: "elf_ok bs" and apart: "region fb (length bs) \<inter> region p (image_len bs) = {}"
    and fb: "fb \<noteq> 0" "unat fb + length bs < 2 ^ 32"
  defines "m1 \<equiv> memset p 0 (word_of_nat (image_len bs)) m"
  defines "m2 \<equiv> count_up (\<lambda>m. e_shnum m fb) (elf_copy_section fb p) 0 m1"
  shows "loading bs fb p (image_data bs) m2"
    "relocated bs fb p m (elf_image bs p) (elf_relocate fb p 0 m2)"
proof -
  have len: "image_len bs < 2 ^ 32" "52 \<le> length bs" using image_len_bound [OF ok] ok by (simp_all add: elf_ok_def)
  let ?zero = "replicate (image_len bs) 0 :: u8 list"
  have m1: "m1 = store_bytes m p ?zero" using len by (simp add: m1_def memset_bytes unat_of_nat_eq)
  have same1: "same_on (- region p (image_len bs)) m m1" unfolding m1 using len by (intro same_on_store_bytes) simp_all
  have "bytes_at m1 p (image_len bs) = ?zero" unfolding m1 using bytes_at_store_bytes [of ?zero m p] len by simp
  then have "file_at m1 p ?zero" using len by (simp add: file_at_def)
  moreover have f1: "file_at m1 fb bs" using file_cong [OF f same_on_mono [OF same1]] apart by blast
  ultimately have l1: "loading bs fb p ?zero m1" using ok apart fb by (simp add: loading_def)
  let ?f = "\<lambda>j. fold (elf_copy_section fb p) (map word_of_nat [0..<j]) m1"
  have f2: "m2 = ?f (section_count bs)" unfolding m2_def
  proof (rule count_up_fold)
    show "section_count bs < 2 ^ 32" by (rule sections_at(2) [OF f1 len(2)])
    show "e_shnum (?f j) fb = word_of_nat (section_count bs)" if "j \<le> section_count bs" for j
    proof -
      have "loading bs fb p (fold (place bs) [0..<j] ?zero) (?f j)" using copy_sections_image [OF l1, of "[0..<j]"] that by simp
      then show ?thesis using sections_at(1) len(2) by (simp add: loading_def)
    qed
  qed
  note c = copy_sections_image [OF l1, of "[0..<section_count bs]", folded f2 image_data_def]
  then show l2: "loading bs fb p (image_data bs) m2" by simp
  have "relocated bs fb p m2 (elf_image bs p) (elf_relocate fb p 0 m2)"
    using relocate_sections_image [OF _ l2, of 0] by (simp add: elf_image_def)
  then show "relocated bs fb p m (elf_image bs p) (elf_relocate fb p 0 m2)"
    using c same_on_trans [OF same1] by (auto elim: relocated_mono)
qed

section \<open>The blocks\<close>

text \<open>
  What the loader leaves: the image in a fresh block, its address and entry point in the caller's variables; or, when a
  relocation fails, the variables as they were and the block of the image lost.
\<close>

definition loaded_image ::
  "u32 set \<Rightarrow> (u32 \<rightharpoonup> u32) \<Rightarrow> u8 list \<Rightarrow> u32 \<Rightarrow> u32 \<Rightarrow> kernel \<Rightarrow> kernel \<Rightarrow> bool" where
  "loaded_image A L bs buffer entry s s' \<longleftrightarrow> (\<exists>p k L'. L p = None \<and> p \<noteq> 0 \<and> image_len bs \<le> unat k \<and> L(p \<mapsto> k) \<subseteq>\<^sub>m L' \<and>
     heap_holds s' A L' \<and>
     (case elf_image bs p of
        None \<Rightarrow> load32 (mem s') buffer = load32 (mem s) buffer \<and> load32 (mem s') entry = load32 (mem s) entry
      | Some im \<Rightarrow> load32 (mem s') buffer = p \<and> load32 (mem s') entry = elf_entry bs \<and> bytes_at (mem s') p (image_len bs) = im))"

text \<open>The variables of the caller.\<close>

definition variables :: "u32 set \<Rightarrow> (u32 \<rightharpoonup> u32) \<Rightarrow> u32 \<Rightarrow> u32 \<Rightarrow> bool" where
  "variables A L buffer entry \<longleftrightarrow> region buffer 4 \<union> region entry 4 \<subseteq> - A \<union> blocks L \<and> region buffer 4 \<inter> region entry 4 = {}"

lemma on_memory_ret: "f (mem s) = ret x m \<Longrightarrow> on_memory f s = ret x (s\<lparr>mem := m\<rparr>)"
  by (simp add: on_memory_def ret_def)

lemma elf_load_outcome:
  assumes h: "heap_holds s A L2" and fb: "L2 fb = Some k1" "length bs \<le> unat k1" "fb \<noteq> 0" and f: "file_at (mem s) fb bs"
    and ok: "elf_ok bs" and L: "L \<subseteq>\<^sub>m L2" "L fb = None" and vars: "variables A L buffer entry"
  shows "outcome (elf_load fb buffer entry s) (\<lambda>_ s'. loaded_image A L bs buffer entry s s' \<and>
    effect ((- A \<union> blocks L) - (region buffer 4 \<union> region entry 4)) s s')"
    (is "outcome _ ?Q")
proof -
  let ?n = "word_of_nat (image_len bs) :: u32"
  have len: "image_len bs < 2 ^ 32" "0 < image_len bs" using image_len_bound [OF ok] ok by (simp_all add: elf_ok_def)
  have un: "unat ?n = image_len bs" using len by (simp add: unat_of_nat_eq)
  have "?n \<noteq> 0" using un len(2) by (metis less_irrefl unat_0)
  note checks = elf_checks [OF f ok fb(3)]
  have BL: "blocks L \<subseteq> blocks L2" by (rule blocks_mono [OF L(1)])
  have fsub: "region fb (length bs) \<subseteq> region fb (unat k1)" by (rule region_mono [OF fb(2)])
  have fbl: "region fb (unat k1) \<subseteq> blocks L2" by (rule block_subset [of L2 fb k1, OF fb(1)])
  have frange: "unat fb + length bs < 2 ^ 32" using kheap.block_range [of s A L2 fb k1, OF h fb(1)] fb(2) by linarith
  have "outcome (andthen (malloc ?n s) (\<lambda>p s.
      let m = memset p 0 ?n (mem s); m = count_up (\<lambda>m. e_shnum m fb) (elf_copy_section fb p) 0 m
      in andthen (on_memory (elf_relocate fb p 0) (s\<lparr>mem := m\<rparr>)) (\<lambda>ok s.
         andthen (free fb s) (\<lambda>_ s.
         ret () (if ok then (let m = store32 (mem s) buffer p in s\<lparr>mem := store32 m entry (e_entry m fb)\<rparr>) else s))))) ?Q"
  proof (rule outcome_andthen [OF malloc_outcome [OF h \<open>?n \<noteq> 0\<close>]])
    fix p s3
    assume "\<exists>k\<ge>?n. L2 p = None \<and> p \<noteq> 0 \<and> heap_holds s3 A (L2(p \<mapsto> k)) \<and> effect (- A \<union> blocks L2) s s3"
    then obtain k where k: "?n \<le> k" and p: "L2 p = None" "p \<noteq> 0" and h3: "heap_holds s3 A (L2(p \<mapsto> k))"
      and e3: "effect (- A \<union> blocks L2) s s3" by blast
    let ?L3 = "L2(p \<mapsto> k)"
    have nk: "image_len bs \<le> unat k" using k by (simp add: word_le_nat_alt un)
    have pf: "p \<noteq> fb" using p fb by auto
    have Lp: "L p = None" using L(1) p(1) by (metis domIff map_le_def)
    have psub: "region p (image_len bs) \<subseteq> region p (unat k)" by (rule region_mono [OF nk])
    have away: "region p (unat k) \<inter> (- A \<union> blocks L2) = {}"
      by (rule kheap.fresh_away [OF h3 _ p(1) map_le_upd [of L2 p k, OF p(1)]]) simp
    have f3: "file_at (mem s3) fb bs"
      using e3 fsub fbl by (intro file_cong [OF f]) (auto simp: effect_def intro: same_on_mono)
    have apart: "region fb (length bs) \<inter> region p (image_len bs) = {}" using fsub fbl psub away by blast
    define m1 where "m1 = memset p 0 ?n (mem s3)"
    define m2 where "m2 = count_up (\<lambda>m. e_shnum m fb) (elf_copy_section fb p) 0 m1"
    note b = build_image [OF f3 ok apart fb(3) frange, folded m1_def, folded m2_def]
    obtain good m' where r: "elf_relocate fb p 0 m2 = ret good m'"
      "same_on (- region p (image_len bs)) (mem s3) m'"
      "case elf_image bs p of None \<Rightarrow> \<not> good | Some im \<Rightarrow> good \<and> loading bs fb p im m'"
      using b(2) unfolding relocated_def by blast
    define s4 where "s4 = s3\<lparr>mem := m'\<rparr>"
    have run: "on_memory (elf_relocate fb p 0) (s3\<lparr>mem := m2\<rparr>) = ret good s4"
      unfolding s4_def using on_memory_ret [of "elf_relocate fb p 0" "s3\<lparr>mem := m2\<rparr>" good m'] r(1) by simp
    have e4: "effect (- region p (image_len bs)) s3 s4" unfolding s4_def by (rule effect_mem [OF r(2)])
    have h4: "heap_holds s4 A ?L3"
      by (rule block_write [OF h3 _ effect_mono [OF e4]]) (use psub in auto)
    have "outcome (andthen (free fb s4) (\<lambda>_ s.
         ret () (if good then (let m = store32 (mem s) buffer p in s\<lparr>mem := store32 m entry (e_entry m fb)\<rparr>) else s))) ?Q"
    proof (rule outcome_andthen [OF free_outcome [of s4 A ?L3 fb k1, OF h4]])
      show "?L3 fb = Some k1" using fb(1) pf by simp
      fix u s5
      assume a5: "heap_holds s5 A (?L3(fb := None)) \<and> effect (- A \<union> blocks ?L3) s4 s5"
      let ?L' = "?L3(fb := None)" and ?K = "- A \<union> blocks L" and ?R = "region buffer 4 \<union> region entry 4"
      have Lm: "L(p \<mapsto> k) \<subseteq>\<^sub>m ?L'" using L pf by (auto simp: map_le_def dom_def)
      have "L \<subseteq>\<^sub>m ?L'" using Lm map_le_upd [of L p k, OF Lp] map_le_trans by blast
      note BL' = blocks_mono [OF this]
      have BL3: "blocks L2 \<subseteq> blocks ?L3" by (rule blocks_mono [OF map_le_upd [of L2 p k, OF p(1)]])
      have e5: "effect ?K s s5"
      proof (rule effect_trans [OF effect_mono [OF e3] effect_trans [OF effect_mono [OF e4] effect_mono [OF conjunct2 [OF a5]]]])
        show "?K \<subseteq> - A \<union> blocks L2" "?K \<subseteq> - region p (image_len bs)" "?K \<subseteq> - A \<union> blocks ?L3"
          using BL BL3 psub away by blast+
      qed
      have vK: "?R \<subseteq> ?K" using vars by (simp add: variables_def)
      have pL3: "region p (unat k) \<subseteq> blocks ?L3" by (rule block_subset [of ?L3 p k]) simp
      have same45: "same_on (- A \<union> blocks ?L3) (mem s4) (mem s5)" using a5 by (simp add: effect_def)
      let ?s6 = "if good then (let m = store32 (mem s5) buffer p in s5\<lparr>mem := store32 m entry (e_entry m fb)\<rparr>) else s5"
      have "same_on (- ?R) m (store32 (store32 m buffer v) entry w)" for m v w
        by (rule same_on_trans [OF same_on_store32 same_on_store32]) auto
      then have same56: "same_on (- ?R) (mem s5) (mem ?s6)" by (simp add: Let_def)
      have e6: "effect (- ?R) s5 ?s6" using effect_mem [OF same56] by (cases good) (simp_all add: Let_def)
      have h6: "heap_holds ?s6 A ?L'" using vK BL' by (intro caller_write [OF conjunct1 [OF a5] e6]) blast
      have eff: "effect (?K - ?R) s ?s6" by (rule effect_trans [OF effect_mono [OF e5] effect_mono [OF e6]]) auto
      have "(case elf_image bs p of
          None \<Rightarrow> load32 (mem ?s6) buffer = load32 (mem s) buffer \<and> load32 (mem ?s6) entry = load32 (mem s) entry
        | Some im \<Rightarrow> load32 (mem ?s6) buffer = p \<and> load32 (mem ?s6) entry = elf_entry bs \<and> bytes_at (mem ?s6) p (image_len bs) = im)"
      proof (cases "elf_image bs p")
        case None
        have same05: "same_on ?K (mem s) (mem s5)" using e5 by (simp add: effect_def)
        have "load32 (mem s5) buffer = load32 (mem s) buffer" "load32 (mem s5) entry = load32 (mem s) entry"
          using vK by (intro load32_cong same_on_mono [OF same05]; blast)+
        then show ?thesis using None r(3) by simp
      next
        case (Some im)
        then have good: "good" and ld: "loading bs fb p im m'" using r(3) by simp_all
        have "bytes_at (mem s5) p (image_len bs) = bytes_at m' p (image_len bs)"
          using psub pL3 len same45 by (intro bytes_at_cong) (auto simp: s4_def intro: same_on_mono)
        then have im: "bytes_at (mem s5) p (image_len bs) = im" using ld unfolding loading_def file_at_def by metis
        have "region p (image_len bs) \<subseteq> - ?R" using psub away vK BL by blast
        then have "bytes_at (mem ?s6) p (image_len bs) = im"
          using im len by (subst bytes_at_cong [OF same_on_mono [OF same56]]) simp_all
        moreover have "e_entry (store32 (mem s5) buffer p) fb = elf_entry bs"
        proof -
          have "region fb (unat k1) \<inter> region buffer 4 = {}"
            using vK kheap.fresh_away [of s A L2 fb k1 L, OF h fb(1) L(2,1)] by blast
          then have "same_on (region fb (length bs)) (mem s5) (store32 (mem s5) buffer p)"
            using fsub by (intro same_on_store32) blast
          moreover have "same_on (region fb (length bs)) m' (mem s5)"
            using same45 fsub fbl BL3 unfolding s4_def by (simp add: same_on_def) blast
          ultimately have "same_on (region fb (length bs)) m' (store32 (mem s5) buffer p)" by (rule same_on_trans [rotated])
          moreover have "file_at m' fb bs" using ld by (simp add: loading_def)
          ultimately have "file_at (store32 (mem s5) buffer p) fb bs" by (rule file_cong [rotated])
          moreover have "52 \<le> length bs" using ok by (simp add: elf_ok_def)
          ultimately show ?thesis unfolding elf_entry_def by (rule header_fields(3))
        qed
        moreover have "load32 (store32 (store32 (mem s5) buffer p) entry v) buffer = p" for v
          using vars by (subst load32_store32_disj) (auto simp: variables_def)
        ultimately show ?thesis using Some good by (simp add: Let_def)
      qed
      then have "loaded_image A L bs buffer entry s ?s6"
        unfolding loaded_image_def using Lp p(2) nk Lm h6 by blast
      then show "outcome (ret () ?s6) ?Q" using eff by (intro outcome_ret conjI)
    qed
    then show "outcome (let m = memset p 0 ?n (mem s3); m = count_up (\<lambda>m. e_shnum m fb) (elf_copy_section fb p) 0 m
      in andthen (on_memory (elf_relocate fb p 0) (s3\<lparr>mem := m\<rparr>)) (\<lambda>ok s.
         andthen (free fb s) (\<lambda>_ s.
         ret () (if ok then (let m = store32 (mem s) buffer p in s\<lparr>mem := store32 m entry (e_entry m fb)\<rparr>) else s)))) ?Q"
      by (simp only: Let_def run andthen_ret flip: m1_def m2_def)
  qed
  then show ?thesis by (simp only: elf_load_def elf_len_image [OF f ok] checks Let_def not_True_eq_False if_False)
qed

section \<open>A source of files\<close>

text \<open>
  What the loader needs of the file system: a file that is ready, at its start, and whose object and reader stay as they are
  when a block is allocated, is read completely into that block; the reader may keep memory, but touches no block of
  others.
\<close>

locale file_source =
  fixes procs :: procedures
    and ready :: "u32 set \<Rightarrow> (u32 \<rightharpoonup> u32) \<Rightarrow> u32 \<Rightarrow> u8 list \<Rightarrow> kernel \<Rightarrow> bool"
  assumes ready_heap: "ready A L f bs s \<Longrightarrow> heap_holds s A L \<and> region f 284 \<subseteq> - A \<union> blocks L"
    and ready_length: "ready A L f bs s \<Longrightarrow> file_len (mem s) f = word_of_nat (length bs) \<and> 0 < length bs \<and> length bs < 2 ^ 32"
    and ready_reads: "ready A L f bs s \<Longrightarrow> L dst = None \<Longrightarrow> heap_holds s1 A (L(dst \<mapsto> k)) \<Longrightarrow> length bs \<le> unat k \<Longrightarrow>
      effect (- A \<union> blocks L) s s1 \<Longrightarrow>
      outcome (fs_read procs f dst (word_of_nat (length bs)) s1) (\<lambda>_ s2. bytes_at (mem s2) dst (length bs) = bs \<and>
        effect ((- A \<union> blocks L) - region (f + 260) 4) s s2 \<and> (\<exists>L2. L(dst \<mapsto> k) \<subseteq>\<^sub>m L2 \<and> heap_holds s2 A L2))"
begin

lemma elf_read_outcome:
  assumes r: "ready A L f bs s" and ok: "elf_ok bs" and vars: "variables A L buffer entry"
    and apart: "(region buffer 4 \<union> region entry 4) \<inter> region (f + 260) 4 = {}"
  shows "outcome (elf_read procs f buffer entry s) (\<lambda>_ s'. loaded_image A L bs buffer entry s s' \<and>
    effect ((- A \<union> blocks L) - (region buffer 4 \<union> region entry 4 \<union> region (f + 260) 4)) s s')"
    (is "outcome _ ?Q")
proof -
  let ?n = "word_of_nat (length bs) :: u32" and ?K = "- A \<union> blocks L"
  have h: "heap_holds s A L" and fsub: "region f 284 \<subseteq> ?K" using ready_heap [OF r] by simp_all
  have len: "file_len (mem s) f = ?n" "0 < length bs" "length bs < 2 ^ 32" using ready_length [OF r] by simp_all
  have un: "unat ?n = length bs" using len(3) by (simp add: unat_of_nat_eq)
  have "?n \<noteq> 0" using un len(2) by (metis less_irrefl unat_0)
  have "outcome (andthen (malloc ?n s) (\<lambda>fb s. andthen (fs_read procs f fb (file_len (mem s) f) s) (\<lambda>_. elf_load fb buffer entry))) ?Q"
  proof (rule outcome_andthen [OF malloc_outcome [OF h \<open>?n \<noteq> 0\<close>]])
    fix fb s1
    assume "\<exists>k\<ge>?n. L fb = None \<and> fb \<noteq> 0 \<and> heap_holds s1 A (L(fb \<mapsto> k)) \<and> effect ?K s s1"
    then obtain k where k: "?n \<le> k" and fb: "L fb = None" "fb \<noteq> 0" and h1: "heap_holds s1 A (L(fb \<mapsto> k))" and e1: "effect ?K s s1"
      by blast
    have nk: "length bs \<le> unat k" using k by (simp add: word_le_nat_alt un)
    have "region (f + 256) 4 \<subseteq> region f 284" using region_shift_subset [of 256 4 284 f] by simp
    then have l1: "file_len (mem s1) f = ?n"
      unfolding len(1) [symmetric] file_len_def using e1 fsub by (intro load32_cong) (auto simp: effect_def intro: same_on_mono)
    show "outcome (andthen (fs_read procs f fb (file_len (mem s1) f) s1) (\<lambda>_. elf_load fb buffer entry)) ?Q"
      unfolding l1
    proof (rule outcome_andthen [OF ready_reads [OF r fb(1) h1 nk e1]])
      fix u s2
      assume a: "bytes_at (mem s2) fb (length bs) = bs \<and> effect (?K - region (f + 260) 4) s s2 \<and>
        (\<exists>L2. L(fb \<mapsto> k) \<subseteq>\<^sub>m L2 \<and> heap_holds s2 A L2)"
      then obtain L2 where L2: "L(fb \<mapsto> k) \<subseteq>\<^sub>m L2" "heap_holds s2 A L2" by blast
      have "L2 fb = Some k" using L2(1) by (auto simp: map_le_def)
      moreover have "L \<subseteq>\<^sub>m L2" by (rule map_le_trans [OF map_le_upd [of L fb k, OF fb(1)] L2(1)])
      moreover have "file_at (mem s2) fb bs" using a len(3) by (simp add: file_at_def)
      ultimately have out: "outcome (elf_load fb buffer entry s2) (\<lambda>_ s'. loaded_image A L bs buffer entry s2 s' \<and>
          effect (?K - (region buffer 4 \<union> region entry 4)) s2 s')"
        using elf_load_outcome [OF L2(2) _ nk fb(2) _ ok _ fb(1) vars] by blast
      have same: "same_on (?K - region (f + 260) 4) (mem s) (mem s2)" using a by (simp add: effect_def)
      have sub: "region buffer 4 \<subseteq> ?K - region (f + 260) 4" "region entry 4 \<subseteq> ?K - region (f + 260) 4"
        using vars apart by (auto simp: variables_def)
      have "load32 (mem s2) buffer = load32 (mem s) buffer" by (rule load32_cong [OF same_on_mono [OF same sub(1)]])
      moreover have "load32 (mem s2) entry = load32 (mem s) entry" by (rule load32_cong [OF same_on_mono [OF same sub(2)]])
      ultimately have li: "loaded_image A L bs buffer entry s s'" if "loaded_image A L bs buffer entry s2 s'" for s'
        using that unfolding loaded_image_def by (simp only:)
      have "effect (?K - (region buffer 4 \<union> region entry 4 \<union> region (f + 260) 4)) s s'"
        if "effect (?K - (region buffer 4 \<union> region entry 4)) s2 s'" for s'
        by (rule effect_trans [OF effect_mono [OF conjunct1 [OF conjunct2 [OF a]]] effect_mono [OF that]]) auto
      with li show "outcome (elf_load fb buffer entry s2) ?Q" by (intro outcome_mono [OF out]) blast
    qed
  qed
  then show ?thesis by (simp only: elf_read_def len(1))
qed

end

section \<open>Files of a volume\<close>

text \<open>An open file of a mounted FAT12 volume, at its start.\<close>

definition open_file ::
  "environment \<Rightarrow> (nat \<Rightarrow> u8) \<Rightarrow> nat \<Rightarrow> procedures \<Rightarrow> u32 \<Rightarrow> u32 set \<Rightarrow> (u32 \<rightharpoonup> u32) \<Rightarrow> u32 \<Rightarrow> u8 list \<Rightarrow> kernel \<Rightarrow> bool" where
  "open_file env disk nn procs d A L f bs s \<longleftrightarrow> volume env disk nn A s \<and> heap_holds s A L \<and> handle env procs d f s \<and>
     region f 284 \<subseteq> - A \<union> blocks L \<and> region d 36 \<subseteq> - A \<union> blocks L \<and> region d 36 \<inter> region (f + 260) 4 = {} \<and>
     region (bpb s) 62 \<inter> region f 284 = {} \<and> file_offset (mem s) f = 0 \<and> file_len (mem s) f = word_of_nat (length bs) \<and>
     0 < length bs \<and> length bs < 2 ^ 32 \<and> chain_ok disk s (ucast (file_ref (mem s) f)) (length bs) \<and>
     bs = map (file_byte disk s (ucast (file_ref (mem s) f))) [0..<length bs]"

lemma open_file_reads:
  assumes o: "open_file env disk nn procs d A L f bs s" and dst: "L dst = None" and h1: "heap_holds s1 A (L(dst \<mapsto> k))"
    and k: "length bs \<le> unat k" and e1: "effect (- A \<union> blocks L) s s1"
  shows "outcome (fs_read procs f dst (word_of_nat (length bs)) s1) (\<lambda>_ s2. bytes_at (mem s2) dst (length bs) = bs \<and>
    effect ((- A \<union> blocks L) - region (f + 260) 4) s s2 \<and> (\<exists>L2. L(dst \<mapsto> k) \<subseteq>\<^sub>m L2 \<and> heap_holds s2 A L2))"
proof -
  let ?K = "- A \<union> blocks L" and ?n = "length bs" and ?c = "ucast (file_ref (mem s) f) :: u16" and ?L = "L(dst \<mapsto> k)"
  have v: "volume env disk nn A s" and hd: "handle env procs d f s" and sub: "region f 284 \<subseteq> ?K" "region d 36 \<subseteq> ?K"
    and bpb: "region (bpb s) 62 \<inter> region f 284 = {}" and fields: "file_offset (mem s) f = 0" "file_len (mem s) f = word_of_nat ?n"
    and n: "0 < ?n" "?n < 2 ^ 32" and chain: "chain_ok disk s ?c ?n" and bs: "bs = map (file_byte disk s ?c) [0..<?n]"
    using o by (simp_all add: open_file_def)
  have un: "unat (word_of_nat ?n :: u32) = ?n" using n(2) by (simp add: unat_of_nat_eq)
  have Lm: "L \<subseteq>\<^sub>m ?L" by (rule map_le_upd [of L dst k, OF dst])
  note BL = blocks_mono [OF Lm]
  have away: "region dst (unat k) \<inter> ?K = {}" by (rule kheap.fresh_away [of s1 A ?L dst k L, OF h1 _ dst Lm]) simp
  have dsub: "region dst ?n \<subseteq> region dst (unat k)" by (rule region_mono [OF k])
  have dblk: "region dst (unat k) \<subseteq> blocks ?L" by (rule block_subset [of ?L dst k]) simp
  have bpbK: "region (bpb s) 62 \<subseteq> ?K" using volume_bpb [OF v] by blast
  have same: "same_on ?K (mem s) (mem s1)" using e1 by (simp add: effect_def)
  have word: "load32 (mem s1) (f + i) = load32 (mem s) (f + i)" if "unat i + 4 \<le> 284" for i
    using region_shift_subset [OF that, of f] sub(1) by (intro load32_cong same_on_mono [OF same]) auto
  have fields1: "file_offset (mem s1) f = 0" "file_len (mem s1) f = word_of_nat ?n" "file_ref (mem s1) f = file_ref (mem s) f"
    using fields by (simp_all add: file_offset_def file_len_def file_ref_def word)
  note g = geometry [OF e1 bpbK]
  have "region (f + 280) 4 \<subseteq> region f 284" using region_shift_subset [of 280 4 284 f] by simp
  then have h: "handle env procs d f s1" using sub by (intro handle_cong [OF hd] same_on_mono [OF same]) auto
  have "chain_ok disk s1 ?c ?n" using chain chain_ok_effect [OF e1 bpbK] by simp
  moreover have "read_regions A ?L f dst ?n" using sub BL dsub dblk away by (auto simp: read_regions_def)
  moreover have "region (bpb s) 62 \<inter> (region dst ?n \<union> region f 284) = {}" using bpb bpbK dsub away by blast
  ultimately have rd: "readable env disk nn A ?L f dst ?c 0 ?n s1"
    using volume_effect [OF v e1 bpbK] n
    by (simp add: readable_def g chain_ok_def cluster_size_def Let_def del: fun_upd_apply)
  have contig: "contiguous 0 ?n (cluster_size s1)" by (simp add: contiguous_def)
  have args: "0 = unat (file_offset (mem s1) f)" "?n = min (unat (word_of_nat ?n :: u32)) (unat (file_len (mem s1) f) - 0)"
    "0 \<le> unat (file_len (mem s1) f)" "0 + unat (word_of_nat ?n :: u32) < 2 ^ 32" "?c = ucast (file_ref (mem s1) f)"
    using n by (simp_all add: fields1 un)
  have K: "?K - region (f + 260) 4 \<subseteq> read_kept A ?L f dst ?n" using BL dsub away by (auto simp: read_kept_def)
  show ?thesis unfolding handle_ops(1) [OF h]
  proof (rule outcome_mono [OF fat12_read_outcome [OF args(1-4) n(1) args(5) h1 rd contig]], intro conjI)
    fix u s2
    assume a: "bytes_at (mem s2) dst ?n = map (file_byte disk s1 ?c) [0..<0 + ?n] \<and>
      file_offset (mem s2) f = word_of_nat (0 + ?n) \<and> effect (read_kept A ?L f dst ?n) s1 s2 \<and>
      (if fat12_valid_cluster (nth_cluster disk (lba_fat1 s1) ?c ((0 + ?n) div cluster_size s1)) then heap_holds s2 A ?L
       else \<exists>src k. ?L src = None \<and> heap_holds s2 A (?L(src \<mapsto> k)))"
    have "file_byte disk s1 ?c = file_byte disk s ?c" by (rule chain_ok_effect(2) [OF e1 bpbK])
    then show "bytes_at (mem s2) dst ?n = bs" using a bs by simp
    show "effect (?K - region (f + 260) 4) s s2"
      by (rule effect_trans [OF effect_mono [OF e1] effect_mono [OF conjunct1 [OF conjunct2 [OF conjunct2 [OF a]]] K]]) auto
    show "\<exists>L2. ?L \<subseteq>\<^sub>m L2 \<and> heap_holds s2 A L2"
    proof (cases "fat12_valid_cluster (nth_cluster disk (lba_fat1 s1) ?c ((0 + ?n) div cluster_size s1))")
      case True
      then show ?thesis using a map_le_refl by (metis (no_types, lifting))
    next
      case False
      then obtain src j where "?L src = None" "heap_holds s2 A (?L(src \<mapsto> j))" using a by (auto simp del: fun_upd_apply)
      then show ?thesis using map_le_upd [of ?L src j] by blast
    qed
  qed
qed

interpretation volume_files: file_source procs "open_file env disk nn procs d" for procs env disk nn d
proof
  fix A L f bs s dst s1 k
  assume o: "open_file env disk nn procs d A L f bs s"
  then show "heap_holds s A L \<and> region f 284 \<subseteq> - A \<union> blocks L" by (simp add: open_file_def)
  show "file_len (mem s) f = word_of_nat (length bs) \<and> 0 < length bs \<and> length bs < 2 ^ 32" using o by (simp add: open_file_def)
qed (rule open_file_reads)

end
