(* ===== verification/Fat12_Properties.thy ===== *)
theory Fat12_Properties
  imports Fat12_Open Fat12_Read
begin

text \<open>
  The properties of the FAT12 driver, each with an instance on a small volume: one sector of allocation table, a root
  directory of 16 entries with the directory \<open>A\<close>, and in it the file \<open>B.C\<close> of 5 bytes.
\<close>

section \<open>An example volume\<close>

definition fat_disk :: "nat \<Rightarrow> u8" where
  "fat_disk = (\<lambda>_. 0)(
     512 + 3 := 0xFF, 512 + 4 := 0xFF, 512 + 5 := 0xFF,
     1024 := 65, 1025 := 32, 1026 := 32, 1027 := 32, 1028 := 32, 1029 := 32, 1030 := 32, 1031 := 32,
     1032 := 32, 1033 := 32, 1034 := 32, 1035 := 0x10, 1050 := 2,
     1536 := 66, 1537 := 32, 1538 := 32, 1539 := 32, 1540 := 32, 1541 := 32, 1542 := 32, 1543 := 32,
     1544 := 67, 1545 := 32, 1546 := 32, 1547 := 0x20, 1562 := 3, 1564 := 5,
     2048 := 72, 2049 := 101, 2050 := 108, 2051 := 108, 2052 := 111)"

definition fat_memory :: memory where
  "fat_memory = (set_allocated 65536 False (set_chunk_len 65536 32768 (\<lambda>_. 0)))(
     267 := 0, 268 := 2, 269 := 1, 270 := 1, 271 := 0, 272 := 1, 273 := 16, 274 := 0, 278 := 1, 279 := 0,
     1024 := 65, 1025 := 47, 1026 := 66, 1027 := 46, 1028 := 67, 1029 := 0, 2016 := 0)"

definition fat_state :: kernel where
  "fat_state = (boot_state fat_memory)\<lparr>initialized := True, start_chunk := 65536,
     bpb := 256, lba_fat1 := 1, lba_root := 2, lba_data := 3, ata_bus := 496\<rparr>"

abbreviation (input) fat_area :: "u32 set" where
  "fat_area \<equiv> {x. 65536 \<le> unat x \<and> unat x < 98320}"

lemma fat_state_heap: "heap_holds fat_state fat_area Map.empty"
proof (rule heap_holdsI)
  show "heap_inv fat_state [\<lparr>c_addr = 65536, c_len = 32768, c_used = False\<rparr>]"
    by (simp add: heap_inv_def fat_state_def fat_memory_def boot_state_def header_def chunk_ok_def c_end_def
        header_defs load32_def set_allocated_def set_chunk_len_def store32_def store8_def)
qed (simp_all add: c_end_def fat_state_def)

lemma fat_state_volume: "volume (example_drive disk) disk 6 fat_area fat_state"
proof -
  have "region 256 62 \<inter> fat_area = {}" by (auto simp: in_region_nat)
  then show ?thesis
    using example_drive_disk [of disk]
    by (simp add: volume_def fat_state_def fat_memory_def boot_state_def bytes_per_sector_def sectors_per_cluster_def
        directory_entries_def load16_def)
qed

lemma dir_entries_disk: "dir_entries (disk_bytes disk a (32 * n)) = map (\<lambda>k. disk_bytes disk (a + 32 * k) 32) [0..<n]"
proof -
  have "take 32 (drop (32 * k) (disk_bytes disk a (32 * n))) = disk_bytes disk (a + 32 * k) 32" if "k < n" for k
    using that by (intro nth_equalityI) (simp_all add: disk_bytes_def add.assoc)
  then show ?thesis by (simp add: dir_entries_def)
qed

lemma find_head: "P (f 0) \<Longrightarrow> 0 < n \<Longrightarrow> find P (map f [0..<n]) = Some (f 0)"
  by (simp add: upt_conv_Cons)

definition fat_entry_A :: "u8 list" where
  "fat_entry_A = [65, 32, 32, 32, 32, 32, 32, 32, 32, 32, 32, 0x10, 0, 0, 0, 0, 0, 0, 0, 0, 0, 0, 0, 0, 0, 0, 2, 0, 0, 0, 0, 0]"

definition fat_entry_B :: "u8 list" where
  "fat_entry_B = [66, 32, 32, 32, 32, 32, 32, 32, 67, 32, 32, 0x20, 0, 0, 0, 0, 0, 0, 0, 0, 0, 0, 0, 0, 0, 0, 3, 0, 5, 0, 0, 0]"

lemma fat_disk_entries: "disk_bytes fat_disk 1024 32 = fat_entry_A" "disk_bytes fat_disk 1536 32 = fat_entry_B"
  by (simp_all add: disk_bytes_def fat_disk_def fat_entry_A_def fat_entry_B_def upt_rec)

lemma fat_state_dirs:
  "find (entry_is 0x10 (pad 11 [65])) (dir_entries (dir_bytes fat_disk fat_state 0)) = Some fat_entry_A"
  "find (entry_is 0x20 (name83 [66] [67])) (dir_entries (dir_bytes fat_disk fat_state 2)) = Some fat_entry_B"
proof -
  have 0: "dir_bytes fat_disk fat_state 0 = disk_bytes fat_disk 1024 (32 * 16)"
    by (simp add: dir_bytes_def fat_state_def boot_state_def fat_memory_def directory_entries_def load16_def)
  have 2: "dir_bytes fat_disk fat_state 2 = disk_bytes fat_disk 1536 (32 * 16)"
    by (simp add: dir_bytes_def fat_state_def boot_state_def fat_memory_def sectors_per_cluster_def fat12_cluster_lba_def)
  have "entry_is 0x10 (pad 11 [65]) (disk_bytes fat_disk (1024 + 32 * 0) 32)"
    by (simp add: fat_disk_entries fat_entry_A_def entry_is_def pad_def) (simp add: numeral_eq_Suc)
  then show "find (entry_is 0x10 (pad 11 [65])) (dir_entries (dir_bytes fat_disk fat_state 0)) = Some fat_entry_A"
    unfolding 0 dir_entries_disk by (subst find_head) (simp_all add: fat_disk_entries)
  have "entry_is 0x20 (name83 [66] [67]) (disk_bytes fat_disk (1536 + 32 * 0) 32)"
    by (simp add: fat_disk_entries fat_entry_B_def entry_is_def name83_def pad_def) (simp add: numeral_eq_Suc)
  then show "find (entry_is 0x20 (name83 [66] [67])) (dir_entries (dir_bytes fat_disk fat_state 2)) = Some fat_entry_B"
    unfolding 2 dir_entries_disk by (subst find_head) (simp_all add: fat_disk_entries)
qed

lemma fat_state_walk:
  "lookup_file fat_disk fat_state [[65]] [66] [67] = Some fat_entry_B"
  "walkable (dir_bytes fat_disk fat_state) (dir_cluster fat_disk (lba_fat1 fat_state)) 0 [[65]]"
proof -
  have c: "ucast (raw_cluster fat_entry_A) = (2 :: u16)" by (simp add: fat_entry_A_def raw_cluster_def raw_half_def)
  then show "lookup_file fat_disk fat_state [[65]] [66] [67] = Some fat_entry_B"
    by (simp add: lookup_file_def fat_state_dirs)
  have "fat_entry fat_disk (lba_fat1 fat_state) 2 = 0xFFF"
    by (simp add: fat_entry_def fat_state_def boot_state_def fat_disk_def)
  then have "dir_cluster fat_disk (lba_fat1 fat_state) 2"
    by (simp add: dir_cluster_def fat12_valid_cluster_def in_sector_def)
  then show "walkable (dir_bytes fat_disk fat_state) (dir_cluster fat_disk (lba_fat1 fat_state)) 0 [[65]]"
    using c by (simp add: fat_state_dirs(1) dir_cluster_def)
qed

section \<open>Opening a file\<close>

text \<open>C30.
  \<open>fat12_open\<close> resolves a path. On a volume in which the directories of the path have one cluster each, for a path of
  directories and a file name of at most 11 characters with its dot: it follows the directories from the root and
  searches the last one; if all exist it returns a file object in a fresh block with the cluster, the length and the name
  of the entry found, offset 0, and the heap otherwise as before; if one is missing it returns \<open>NULL\<close> (and does not free the
  directory it holds). It writes nothing but its local variables and its own blocks; it stops only at a full heap.
\<close>

theorem fat12_open_finds:
  assumes "volume env disk n A s" and "heap_holds s A L" and "locals_apart A slot buffer"
    and "region ext 3 \<inter> A = {}" and "region ext 3 \<inter> region buffer 12 = {}" and "region slot 4 \<inter> region ext 3 = {}"
    and "cstr (mem s) path (path_bytes ds (base @ 46 # x))" and "length (path_bytes ds (base @ 46 # x)) < 2 ^ 31"
    and "\<forall>d \<in> set ds. component d" and "file_base base x" and "K = path_kept A L slot buffer - region ext 3"
    and "region (bpb s) 62 \<subseteq> K" and "region path (Suc (length (path_bytes ds (base @ 46 # x)))) \<subseteq> K"
    and "buffer + word_of_nat z \<in> K" and "mem s (buffer + word_of_nat z) = 0"
    and "walkable (dir_bytes disk s) (dir_cluster disk (lba_fat1 s)) 0 ds"
  shows "fat12_open env slot buffer ext path s = halt ''chunk'' \<or>
    (\<exists>f s'. fat12_open env slot buffer ext path s = ret f s' \<and> effect K s s' \<and>
      (case lookup_file disk s ds base x of
         None \<Rightarrow> f = 0 \<and> (\<exists>L'. L \<subseteq>\<^sub>m L' \<and> heap_holds s' A L')
       | Some e \<Rightarrow> opened A L f e s'))"
  using fat12_open_outcome [OF assms] by (simp only: outcome_def)

theorem fat12_open_finds_witness:
  "fat12_open (example_drive fat_disk) 2000 2004 2020 1024 fat_state = halt ''chunk'' \<or>
    (\<exists>f s'. fat12_open (example_drive fat_disk) 2000 2004 2020 1024 fat_state = ret f s' \<and> f \<noteq> 0 \<and>
      file_ref (mem s') f = 3 \<and> file_len (mem s') f = 5 \<and> file_offset (mem s') f = 0 \<and>
      cstr (mem s') f [66, 46, 67, 32, 32])"
proof -
  let ?K = "path_kept fat_area Map.empty 2000 2004 - region 2020 3"
  have path: "cstr (mem fat_state) 1024 (path_bytes [[65]] ([66] @ 46 # [67]))"
    by (simp add: cstr_def bytes_at_def upt_rec fat_state_def fat_memory_def boot_state_def)
  have low: "x \<in> ?K" if "unat x < 2000 \<or> 2016 \<le> unat x \<and> unat x < 2020" for x
    using that by (auto simp: path_kept_def in_region_nat)
  have regions: "region (bpb fat_state) 62 \<subseteq> ?K" "region 1024 (Suc (length (path_bytes [[65]] ([66] @ 46 # [67])))) \<subseteq> ?K"
    by (rule subsetI, rule low, simp add: in_region_nat fat_state_def)+
  have nul: "2004 + word_of_nat 12 \<in> ?K" "mem fat_state (2004 + word_of_nat 12) = 0"
    by (rule low) (simp_all add: fat_state_def boot_state_def fat_memory_def)
  have "fat12_open (example_drive fat_disk) 2000 2004 2020 1024 fat_state = halt ''chunk'' \<or>
      (\<exists>f s'. fat12_open (example_drive fat_disk) 2000 2004 2020 1024 fat_state = ret f s' \<and> effect ?K fat_state s' \<and>
        (case lookup_file fat_disk fat_state [[65]] [66] [67] of
           None \<Rightarrow> f = 0 \<and> (\<exists>L'. Map.empty \<subseteq>\<^sub>m L' \<and> heap_holds s' fat_area L')
         | Some e \<Rightarrow> opened fat_area Map.empty f e s'))"
  proof (rule fat12_open_finds [OF fat_state_volume fat_state_heap _ _ _ _ path _ _ _ refl regions nul fat_state_walk(2)])
    show "locals_apart fat_area 2000 2004" by (auto simp: locals_apart_def in_region_nat)
    show "region 2020 3 \<inter> fat_area = {}" "region 2020 3 \<inter> region 2004 12 = {}" "region 2000 4 \<inter> region 2020 3 = {}"
      by (auto simp: in_region_nat)
  qed (simp_all add: component_def file_base_def)
  moreover have "raw_cluster fat_entry_B = 3" "raw_size fat_entry_B = 5"
    by (simp_all add: fat_entry_B_def raw_cluster_def raw_half_def raw_size_def)
  moreover have "file_name (take 11 fat_entry_B) = [66, 46, 67, 32, 32]"
    by (simp add: fat_entry_B_def file_name_def trim_end_def)
  ultimately show ?thesis unfolding fat_state_walk(1) option.case opened_def by metis
qed

text \<open>C31.
  A name that uses all of 8.3 cannot be opened: \<open>fat12_open\<close> counts the dot, so for a path whose first component has 12
  characters or more the result is \<open>NULL\<close>, whatever the volume holds.
\<close>

theorem fat12_open_rejects_full_names:
  assumes "volume env disk n A s" and "heap_holds s A L" and "locals_apart A slot buffer"
    and "bytes_at (mem s) path 12 = name" and "0 \<notin> set name" and "47 \<notin> set name"
    and "region (bpb s) 62 \<subseteq> path_kept A L slot buffer" and "region path 12 \<subseteq> path_kept A L slot buffer"
  shows "fat12_open env slot buffer ext path s = halt ''chunk'' \<or>
    (\<exists>s'. fat12_open env slot buffer ext path s = ret 0 s' \<and> effect (path_kept A L slot buffer) s s')"
  using fat12_open_too_long [OF assms] by (auto simp: outcome_def)

definition fat_put :: "u32 \<Rightarrow> u8 list \<Rightarrow> kernel" where
  "fat_put p bs = fat_state\<lparr>mem := store_bytes fat_memory p bs\<rparr>"

lemma fat_put_effect:
  assumes "length bs \<le> 1000" and "3000 \<le> unat p" and "unat p \<le> 4000"
  shows "effect {x. unat x < 3000 \<or> 5000 \<le> unat x} fat_state (fat_put p bs)"
proof -
  have "{x. unat x < 3000 \<or> 5000 \<le> unat x} \<inter> region p (length bs) = {}"
  proof -
    have "3000 \<le> unat x \<and> unat x < 5000" if "x \<in> region p (length bs)" for x
      using that assms by (auto simp: in_region_nat)
    then show ?thesis by fastforce
  qed
  then have "same_on {x. unat x < 3000 \<or> 5000 \<le> unat x} (mem fat_state) (store_bytes fat_memory p bs)"
    using assms(1) by (simp add: fat_state_def boot_state_def same_on_store_bytes)
  then show ?thesis unfolding fat_put_def by (rule effect_mem)
qed

lemma fat_put_state:
  assumes "length bs \<le> 1000" and "3000 \<le> unat p" and "unat p \<le> 4000"
  shows "heap_holds (fat_put p bs) fat_area Map.empty"
    "volume (example_drive disk) disk 6 fat_area (fat_put p bs)"
    "mem (fat_put p bs) = store_bytes fat_memory p bs" "bpb (fat_put p bs) = 256"
    "lba_fat1 (fat_put p bs) = 1" "cluster_size (fat_put p bs) = 512"
    "fat12_cluster_lba c (fat_put p bs) = fat12_cluster_lba c fat_state"
proof -
  note e = fat_put_effect [OF assms]
  have bpb: "region (bpb fat_state) 62 \<subseteq> {x. unat x < 3000 \<or> 5000 \<le> unat x}"
    by (auto simp: fat_state_def in_region_nat)
  show "heap_holds (fat_put p bs) fat_area Map.empty"
    by (rule outside_write [OF fat_state_heap effect_mono [OF e]]) auto
  show "volume (example_drive disk) disk 6 fat_area (fat_put p bs)"
    by (rule volume_effect [OF fat_state_volume e bpb])
  note g = geometry [OF e bpb]
  show "fat12_cluster_lba c (fat_put p bs) = fat12_cluster_lba c fat_state" by (rule g)
  have "sectors_per_cluster fat_state = 1"
    by (simp add: sectors_per_cluster_def fat_state_def boot_state_def fat_memory_def)
  then show "cluster_size (fat_put p bs) = 512" by (simp add: cluster_size_def g)
  show "mem (fat_put p bs) = store_bytes fat_memory p bs" "bpb (fat_put p bs) = 256" "lba_fat1 (fat_put p bs) = 1"
    by (simp_all add: fat_put_def fat_state_def)
qed

theorem fat12_open_rejects_full_names_witness:
  "\<exists>r. r = fat12_open (example_drive fat_disk) 2000 2004 2020 3000
      (fat_put 3000 [70, 73, 76, 69, 78, 65, 77, 69, 46, 84, 88, 84]) \<and> (r = halt ''chunk'' \<or> (\<exists>s'. r = ret 0 s'))"
proof -
  let ?bs = "[70, 73, 76, 69, 78, 65, 77, 69, 46, 84, 88, 84] :: u8 list"
  let ?s = "fat_put 3000 ?bs"
  note st = fat_put_state [of ?bs 3000, simplified]
  have low: "x \<in> path_kept fat_area Map.empty 2000 2004" if "unat x < 2000 \<or> 3000 \<le> unat x \<and> unat x < 5000" for x
    using that by (auto simp: path_kept_def in_region_nat)
  have bytes: "bytes_at (mem ?s) 3000 12 = ?bs"
    unfolding st by (simp add: bytes_at_def upt_rec)
  have "fat12_open (example_drive fat_disk) 2000 2004 2020 3000 ?s = halt ''chunk'' \<or>
    (\<exists>s'. fat12_open (example_drive fat_disk) 2000 2004 2020 3000 ?s = ret 0 s' \<and>
      effect (path_kept fat_area Map.empty 2000 2004) ?s s')"
  proof (rule fat12_open_rejects_full_names [OF st(2,1) _ bytes])
    show "locals_apart fat_area 2000 2004" by (auto simp: locals_apart_def in_region_nat)
    show "region (bpb ?s) 62 \<subseteq> path_kept fat_area Map.empty 2000 2004" "region 3000 12 \<subseteq> path_kept fat_area Map.empty 2000 2004"
      unfolding st by (rule subsetI, rule low, simp add: in_region_nat)+
  qed simp_all
  then show ?thesis by blast
qed

section \<open>Reading a file\<close>




section \<open>The search for the extension\<close>

lemma extension_stuck:
  assumes "m ext = 0" and "k < 11" and "m (buffer + k) = 46" and "memcpy ext (buffer + (k + 1)) 3 m = m"
  shows "fat12_extension buffer ext k m = None"
proof -
  have "\<not> (buffer = buffer \<and> ext = ext \<and> k = k \<and> m = m)" if some: "fat12_extension buffer ext k m = Some y" for y
  proof (rule fat12_extension.raw_induct [where P = "\<lambda>b e j m' y. \<not> (b = buffer \<and> e = ext \<and> j = k \<and> m' = m)", OF _ some])
    fix f b e j m' y
    assume IH: "\<And>b e j m' y. f b e j m' = Some y \<Longrightarrow> \<not> (b = buffer \<and> e = ext \<and> j = k \<and> m' = m)"
      and run: "(if j < 11 then
          if m' e \<noteq> 0 then
            if 8 \<le> j then f b e (j + 1) (store8 m' (b + j) (m' (e + (j - 8)))) else f b e (j + 1) (store8 m' (b + j) 32)
          else if m' (b + j) = 46 then f b e j (memcpy e (b + (j + 1)) 3 m') else f b e (j + 1) m'
        else Some m') = Some y"
    show "\<not> (b = buffer \<and> e = ext \<and> j = k \<and> m' = m)"
    proof
      assume eq: "b = buffer \<and> e = ext \<and> j = k \<and> m' = m"
      then have "f buffer ext k m = Some y" using run assms by simp
      from IH [OF this] show False by simp
    qed
  qed
  then show ?thesis by (cases "fat12_extension buffer ext k m") simp_all
qed

lemma extension_dot:
  assumes "m ext = 0" and "k \<le> 10" and "m (buffer + word_of_nat k) = 46" and "region ext 3 \<inter> region buffer 14 = {}"
  shows "fat12_extension buffer ext (word_of_nat k) m = None \<longleftrightarrow> m (buffer + word_of_nat (k + 1)) = 0"
proof -
  let ?k = "word_of_nat k :: u32" and ?src = "buffer + (word_of_nat k + 1)"
  define m1 where "m1 = memcpy ext ?src 3 m"
  have uk: "unat ?k = k" using assms(2) by (simp add: unat_of_nat_eq)
  then have k: "?k < 11" using assms(2) by (simp add: word_less_nat_alt)
  have "region ?src 3 \<subseteq> region buffer 14"
    using assms(2) uk region_shift_subset [of "word_of_nat k + 1" 3 14 buffer] by (simp add: unat_add_exact)
  then have away: "region ext 3 \<inter> region ?src 3 = {}" using assms(4) by blast
  have copy: "memcpy ext ?src 3 m' = store_bytes m' ext (bytes_at m' ?src 3)" for m'
    using copy_safe_disjoint [OF away] memcpy_bytes [of ext ?src 3 m'] by simp
  have same: "same_on (- region ext 3) m m1" unfolding m1_def copy by (intro same_on_store_bytes) simp_all
  have bytes: "bytes_at m1 ext 3 = bytes_at m ?src 3"
    unfolding m1_def copy using bytes_at_store_bytes [of "bytes_at m ?src 3" m ext] by simp
  have src: "bytes_at m1 ?src 3 = bytes_at m ?src 3"
    using away by (intro bytes_at_cong same_on_mono [OF same]) auto
  have first: "m1 ext = m ?src" using arg_cong [OF bytes, of "\<lambda>xs. xs ! 0"] by simp
  have "?k + buffer \<in> region buffer 14" using region_offset [of ?k 14 buffer] uk assms(2) by (simp add: add.commute)
  then have dot: "m1 (buffer + ?k) = 46" using assms(3,4) same_onD [OF same, of "buffer + ?k"] by (auto simp: add.commute)
  have step: "fat12_extension buffer ext ?k m = fat12_extension buffer ext ?k m1"
    using assms(1,3) k by (subst fat12_extension.simps) (simp add: m1_def)
  show ?thesis
  proof (cases "m ?src = 0")
    case True
    have "store_bytes m1 ext (bytes_at m1 ?src 3) x = m1 x" for x
      unfolding src unfolding m1_def copy by (simp add: store_bytes_apply)
    then have "memcpy ext ?src 3 m1 = m1" unfolding copy by blast
    from extension_stuck [OF _ k dot this] first True show ?thesis by (simp add: step add.commute)
  next
    case False
    have "region buffer 12 \<subseteq> region buffer 14" by (rule region_mono) simp
    then have apart: "region ext 3 \<inter> region buffer 12 = {}" using assms(4) by blast
    have "m1 ext \<noteq> 0" "k \<le> 11" using first False assms(2) by simp_all
    from extension_fill [of m1 ext _ buffer k, OF this(1) refl apart this(2)] False show ?thesis by (simp add: step add.commute)
  qed
qed

text \<open>C37.
  When the search for the extension ends. With the array of the extension cleared and apart from the name and the two bytes
  behind it, the loop of \<open>fat12_open\<close> that moves the extension to its place runs forever exactly if the first dot of
  the name, at the positions 1 to 10, is followed by a zero byte; since \<open>fat12_open\<close> pads the name with blanks, that
  happens only with bytes from behind the buffer.
\<close>

theorem fat12_extension_returns:
  assumes "m ext = 0" and "region ext 3 \<inter> region buffer 14 = {}"
  shows "fat12_extension buffer ext 1 m = None \<longleftrightarrow>
    (\<exists>k. find (\<lambda>k. m (buffer + word_of_nat k) = 46) [1..<11] = Some k \<and> m (buffer + word_of_nat (k + 1)) = 0)"
proof (cases "find (\<lambda>k. m (buffer + word_of_nat k) = 46) [1..<11]")
  case None
  then have "\<And>i. 1 \<le> i \<Longrightarrow> i < 11 \<Longrightarrow> m (buffer + word_of_nat i) \<noteq> 46" by (auto simp: find_None_iff)
  from extension_skip [of m ext 11 buffer 1, OF assms(1) this] have "fat12_extension buffer ext 1 m = fat12_extension buffer ext 11 m" by simp
  also have "\<dots> = Some m" by (subst fat12_extension.simps) simp
  finally show ?thesis using None by simp
next
  case (Some k)
  then obtain i where i: "i < 10" "k = [1..<11] ! i" "m (buffer + word_of_nat k) = 46"
      "\<And>j. j < i \<Longrightarrow> m (buffer + word_of_nat ([1..<11] ! j)) \<noteq> 46"
    by (auto simp: find_Some_iff)
  then have k: "k = Suc i" "1 \<le> k" "k \<le> 10" by simp_all
  have "m (buffer + word_of_nat j) \<noteq> 46" if "1 \<le> j" "j < k" for j
    using i(4) [of "j - 1"] that k i(1) by simp
  from extension_skip [of m ext k buffer 1, OF assms(1) this] k have "fat12_extension buffer ext 1 m = fat12_extension buffer ext (word_of_nat k) m"
    by simp
  then show ?thesis using extension_dot [OF assms(1) k(3) i(3) assms(2)] Some by simp
qed

text \<open>The name \<open>A.B\<close> and the name \<open>A.\<close>, followed by a zero byte.\<close>

theorem fat12_extension_returns_witness:
  "fat12_extension 100 200 1 (store_bytes (\<lambda>_. 0) 100 [65, 46, 66]) \<noteq> None \<and>
   fat12_extension 100 200 1 (store_bytes (\<lambda>_. 0) 100 [65, 46]) = None"
proof -
  have apart: "region (200 :: u32) 3 \<inter> region 100 14 = {}" by (auto simp: in_region_nat)
  have "store_bytes (\<lambda>_. 0) 100 [65, 46, 66] 200 = (0 :: u8)" "store_bytes (\<lambda>_. 0) 100 [65, 46] 200 = (0 :: u8)"
    by simp_all
  note facts = fat12_extension_returns [of "store_bytes (\<lambda>_. 0) 100 [65, 46, 66]" 200 100, OF this(1) apart]
    fat12_extension_returns [of "store_bytes (\<lambda>_. 0) 100 [65, 46]" 200 100, OF this(2) apart]
  have "[1..<11] = [1, 2, 3, 4, 5, 6, 7, 8, 9, 10 :: nat]" by (simp add: upt_rec)
  then show ?thesis unfolding facts by simp
qed

end
