(* ===== verification/Fs_Properties.thy ===== *)
theory Fs_Properties
  imports Fs_Volume Fat12_Properties
begin

text \<open>
  The properties of the file system layer, with an instance: the volume of \<open>Fat12_Properties\<close> mounted under \<open>H\<close>.
\<close>

section \<open>The example\<close>

definition fs_code :: "string \<Rightarrow> u32" where
  "fs_code name = 32768 + 16 * word_of_nat (length (takeWhile (\<lambda>x. x \<noteq> name) operations))"

text \<open>Calls through a pointer, with the local variables of the routines at 2000, 2004 and 2020.\<close>

definition fs_procs :: "environment \<Rightarrow> procedures" where
  "fs_procs env = \<lparr>
     call_open = (\<lambda>p. if p = 32768 then fat12_open env 2000 2004 2020 else (\<lambda>_ _. None)),
     call_opendir = (\<lambda>p. if p = 32784 then fat12_opendir env 2000 2004 else (\<lambda>_ _. None)),
     call_close = (\<lambda>p. if p = 32800 then fat12_close else (\<lambda>_ _. None)),
     call_closedir = (\<lambda>p. if p = 32816 then fat12_closedir else (\<lambda>_ _. None)),
     call_read = (\<lambda>p. if p = 32832 then fat12_read env else (\<lambda>_ _ _ _. None)),
     call_readdir = (\<lambda>p. if p = 32848 then fat12_readdir env (\<lambda>_. 0) 2000 else (\<lambda>_ _ _ _. None)),
     call_write = (\<lambda>p. if p = 32864 then fat12_write else (\<lambda>_ _ _ _. None)),
     call_seek = (\<lambda>p. if p = 32880 then fat12_seek else (\<lambda>_ _ _. None))\<rparr>"

text \<open>The paths \<open>/H/A/B.C\<close> at 3000 and \<open>/H/D.E\<close> at 3048, and the driver at 3012.\<close>

definition fs_bytes :: "u8 list" where
  "fs_bytes = [47, 72, 47, 65, 47, 66, 46, 67, 0, 0, 0, 0,
     72, 0, 0, 0, 0, 128, 0, 0, 16, 128, 0, 0, 32, 128, 0, 0, 48, 128, 0, 0, 64, 128, 0, 0, 80, 128, 0, 0, 96, 128, 0, 0,
     112, 128, 0, 0, 47, 72, 47, 68, 46, 69, 0, 0]"

definition fs_state :: kernel where
  "fs_state = fs_mount 3012 72 (fat_put 3000 fs_bytes)"

lemma fs_state_eq: "fs_state = (fat_put 3000 fs_bytes)\<lparr>drivers := (\<lambda>_. 0)(0 := 3012)\<rparr>"
proof -
  have z: "drivers (fat_put 3000 fs_bytes) = (\<lambda>_. 0)" by (simp add: fat_put_def fat_state_def boot_state_def)
  then have "mounted (fat_put 3000 fs_bytes) []" by (intro mountedI) simp_all
  from fs_mount_run(1) [OF this, of 3012 72]
  have "fs_state = (fat_put 3000 fs_bytes)\<lparr>drivers := (\<lambda>_. 0)(0 := 3012),
      mem := set_driver_mnt 3012 72 (mem (fat_put 3000 fs_bytes))\<rparr>"
    by (simp add: fs_state_def z)
  moreover have "mem (fat_put 3000 fs_bytes) 3012 = 72" by (simp add: fat_put_def fs_bytes_def)
  then have "set_driver_mnt 3012 72 (mem (fat_put 3000 fs_bytes)) = mem (fat_put 3000 fs_bytes)"
    by (simp add: set_driver_mnt_def store8_def fun_upd_idem)
  ultimately show ?thesis by simp
qed

lemma fs_mem: "mem fs_state = store_bytes fat_memory 3000 fs_bytes"
  by (simp add: fs_state_eq fat_put_def)

lemma fs_heap: "heap_holds fs_state fat_area Map.empty"
  unfolding fs_state_eq heap_holds_update using fat_put_state(1) [of fs_bytes 3000] by (simp add: fs_bytes_def)

lemma fs_volume:
  "volume (example_drive fat_disk) fat_disk 6 fat_area fs_state" "bpb fs_state = 256" "lba_fat1 fs_state = 1"
  "cluster_size fs_state = 512" "fat12_cluster_lba c fs_state = fat12_cluster_lba c fat_state"
  using fat_put_state [of fs_bytes 3000]
  by (simp_all add: fs_state_eq volume_def fs_bytes_def cluster_size_def fat12_cluster_lba_def bytes_per_sector_def
      sectors_per_cluster_def directory_entries_def)

lemma fs_byte: "mem fs_state x = (if unat (x - 3000) < 56 then fs_bytes ! unat (x - 3000) else fat_memory x)"
  unfolding fs_mem by (subst store_bytes_apply) (simp_all add: fs_bytes_def)

lemma fs_driver: "fat12_driver fs_code 3012 (mem fs_state)"
proof -
  have "map (\<lambda>k. driver_op (mem fs_state) 3012 (word_of_nat k)) [0..<8] = map fs_code operations"
    by (simp add: upt_rec driver_op_def load32_def fs_byte fs_bytes_def fs_code_def operations_def)
  note eq = this
  have len: "length operations = 8" by (simp add: operations_def)
  show ?thesis unfolding fat12_driver_def
  proof (intro allI impI)
    fix k :: nat assume "k < 8"
    then show "driver_op (mem fs_state) 3012 (word_of_nat k) = fs_code (operations ! k)"
      using arg_cong [OF eq, of "\<lambda>xs. xs ! k"] by (simp add: len)
  qed
qed

lemma fs_linked: "fat12_linked env (\<lambda>_. 0) 2000 2004 2020 fs_code (fs_procs env)"
  by (simp add: fat12_linked_def fs_procs_def fs_code_def operations_def)

lemma fs_kept: "x \<in> path_kept fat_area Map.empty 2000 2004 - region 2020 3"
  if "unat x < 2000 \<or> 2016 \<le> unat x \<and> unat x < 2020 \<or> 3000 \<le> unat x \<and> unat x < 5000"
  using that by (auto simp: path_kept_def in_region_nat)

lemma fs_mounted:
  "fat12_mounted (example_drive fat_disk) fat_disk 6 fat_area Map.empty (path_kept fat_area Map.empty 2000 2004 - region 2020 3)
     2000 2004 2020 (fs_procs (example_drive fat_disk)) 3012 72 fs_state"
proof -
  let ?K = "path_kept fat_area Map.empty 2000 2004 - region 2020 3"
  have apart: "locals_apart fat_area 2000 2004" "region 2020 3 \<inter> fat_area = {}" "region 2020 3 \<inter> region 2004 12 = {}"
    "region 2000 4 \<inter> region 2020 3 = {}"
    by (auto simp: locals_apart_def in_region_nat)
  have regions: "region (bpb fs_state) 62 \<subseteq> ?K" "region 3012 36 \<subseteq> ?K"
    by (rule subsetI, rule fs_kept, simp add: in_region_nat fs_volume)+
  have "2004 + word_of_nat 12 \<in> ?K" "mem fs_state (2004 + word_of_nat 12) = 0"
    by (rule fs_kept) (simp_all add: fs_mem fs_bytes_def fat_memory_def)
  then have nul: "\<exists>z. 2004 + word_of_nat z \<in> ?K \<and> mem fs_state (2004 + word_of_nat z) = 0" by blast
  have "mounted fs_state [3012]" by (rule mountedI) (simp_all add: fs_state_eq)
  moreover have "find (\<lambda>d. driver_mnt (mem fs_state) d = 72) [3012] = Some 3012"
    by (simp add: driver_mnt_def fs_byte fs_bytes_def)
  ultimately have table: "\<exists>ds. mounted fs_state ds \<and> find (\<lambda>d. driver_mnt (mem fs_state) d = 72) ds = Some 3012" by blast
  have code: "\<exists>lit code. fat12_driver code 3012 (mem fs_state) \<and>
      fat12_linked (example_drive fat_disk) lit 2000 2004 2020 code (fs_procs (example_drive fat_disk))"
    using fs_driver fs_linked by blast
  have letter: "(72 :: u8) \<noteq> 0" by simp
  note facts = fs_volume(1) fs_heap apart regions nul table code letter
  show ?thesis unfolding fat12_mounted_def by (intro conjI refl; fact facts)
qed

section \<open>Mounting\<close>

text \<open>C33.
  Mounting makes a driver reachable. As long as the table has a free place, \<open>fs_mount\<close> adds the driver behind the others and
  gives it its letter; if no driver before it has the letter, \<open>fs_open\<close> of a path \<open>/c/...\<close> then calls this
  driver's \<open>open\<close> with the rest of the path and stores the driver in the object that comes back; a path
  with the letter of an earlier driver still goes to that one. A full table stays as it is.
\<close>

theorem fs_mount_opens:
  assumes "mounted s ds" and "d \<noteq> 0" and "d \<notin> set ds" and "find (\<lambda>d. driver_mnt (mem s) d = c) ds = None"
    and "mem s path = 47" and "mem s (path + 1) = c" and "mem s (path + 2) = 47" and "d \<notin> {path, path + 1, path + 2}"
  shows "if length ds = 256 then fs_mount d c s = s
    else mounted (fs_mount d c s) (ds @ [d]) \<and>
      (\<exists>i. drivers (fs_mount d c s) i = d \<and> fs_open procs path (fs_mount d c s) =
        andthen (call_open procs (driver_op (mem s) d 0) (path + 3) (fs_mount d c s)) (\<lambda>file s'.
          ret file (s'\<lparr>mem := set_file_driver file (drivers s' i) (mem s')\<rparr>))) \<and>
      (\<forall>c' \<noteq> c. find (\<lambda>e. driver_mnt (mem (fs_mount d c s)) e = c') (ds @ [d]) = find (\<lambda>e. driver_mnt (mem s) e = c') ds)"
proof (cases "length ds = 256")
  case True
  then show ?thesis using fs_mount_full [OF assms(1)] by simp
next
  case False
  let ?s = "fs_mount d c s"
  have len: "length ds < 256" using False assms(1) by (simp add: mounted_def)
  note run = fs_mount_run [OF assms(1,2) len, of c]
  have mem: "mem ?s = store8 (mem s) d c" by (simp add: run(1) set_driver_mnt_def)
  have mnt: "driver_mnt (mem ?s) e = driver_mnt (mem s) e" if "e \<in> set ds" for e
    using that assms(3) unfolding mem driver_mnt_def by (auto simp: store8_def)
  have same: "find (\<lambda>d. driver_mnt (mem ?s) d = c') ds = find (\<lambda>d. driver_mnt (mem s) d = c') ds" for c'
    using mnt by (intro find_cong) simp_all
  have new: "driver_mnt (mem ?s) d = c" by (simp add: mem driver_mnt_def)
  have split: "find P (xs @ [y]) = (case find P xs of None \<Rightarrow> if P y then Some y else None | Some x \<Rightarrow> Some x)"
    for P :: "u32 \<Rightarrow> bool" and xs y by (induction xs) simp_all
  have path: "mem ?s path = 47" "mem ?s (path + 1) = c" "mem ?s (path + 2) = 47"
    unfolding mem store8_def using assms(5-8) by auto
  have "find (\<lambda>d. driver_mnt (mem ?s) d = mem ?s (path + 1)) (ds @ [d]) = Some d"
    using same [of c] new assms(4) by (simp add: split path(2))
  from fs_open_found [OF run(2) path(1,3) this, where procs = procs]
  obtain i where i: "drivers ?s i = d" "fs_open procs path ?s =
      andthen (call_open procs (driver_op (mem ?s) d 0) (path + 3) ?s) (\<lambda>file s'.
        ret file (s'\<lparr>mem := set_file_driver file (drivers s' i) (mem s')\<rparr>))"
    by blast
  have op: "driver_op (mem ?s) d 0 = driver_op (mem s) d 0"
    unfolding mem driver_op_def using load32_store8_field [of 0 4 "mem s" d c] by simp
  have others: "find (\<lambda>d. driver_mnt (mem ?s) d = c') (ds @ [d]) = find (\<lambda>d. driver_mnt (mem s) d = c') ds" if "c' \<noteq> c" for c'
    unfolding split same using that new by (cases "find (\<lambda>d. driver_mnt (mem s) d = c') ds") simp_all
  have found: "\<exists>i. drivers ?s i = d \<and> fs_open procs path ?s =
      andthen (call_open procs (driver_op (mem s) d 0) (path + 3) ?s) (\<lambda>file s'.
        ret file (s'\<lparr>mem := set_file_driver file (drivers s' i) (mem s')\<rparr>))"
    using i unfolding op by blast
  show ?thesis unfolding if_not_P [OF False]
    using run(2) found by (intro conjI allI impI others)
qed

theorem fs_mount_opens_witness:
  "\<exists>i. drivers (fs_mount 3012 72 (fat_put 3000 fs_bytes)) i = 3012 \<and>
     fs_open (fs_procs (\<lambda>_ _. 0)) 3000 (fs_mount 3012 72 (fat_put 3000 fs_bytes)) =
       andthen (fat12_open (\<lambda>_ _. 0) 2000 2004 2020 3003 (fs_mount 3012 72 (fat_put 3000 fs_bytes))) (\<lambda>file s'.
         ret file (s'\<lparr>mem := set_file_driver file (drivers s' i) (mem s')\<rparr>))"
proof -
  let ?s = "fat_put 3000 fs_bytes"
  have m: "mounted ?s []" by (intro mountedI) (simp_all add: fat_put_def fat_state_def boot_state_def)
  have mem: "mem ?s = mem fs_state" by (simp add: fs_state_eq)
  have "driver_op (mem ?s) 3012 0 = 32768"
    using fat12_driver_ops(1) [OF fs_driver] by (simp add: mem fs_code_def operations_def)
  then have "call_open (fs_procs (\<lambda>_ _. 0)) (driver_op (mem ?s) 3012 0) = fat12_open (\<lambda>_ _. 0) 2000 2004 2020"
    by (simp add: fs_procs_def)
  moreover have "mem ?s 3000 = 47" "mem ?s (3000 + 1) = 72" "mem ?s (3000 + 2) = 47"
    unfolding mem by (simp_all add: fs_byte fs_bytes_def)
  ultimately show ?thesis
    using fs_mount_opens [OF m, of 3012 72 3000 "fs_procs (\<lambda>_ _. 0)"] by simp
qed

section \<open>Files\<close>

text \<open>C34.
  A file of a mounted volume can be opened, read and closed. For a path \<open>/c/ds/base.x\<close> to a file of the volume under the
  letter \<open>c\<close>, the sequence \<open>fs_open\<close>, \<open>fs_read\<close>, \<open>fs_close\<close> either stops at a full heap or returns with the first
  \<open>n\<close> bytes of the file in the destination, the length asked for or all of the file; every block is released but the
  buffer that a read to the end of the last cluster loses, and besides the destination only the driver's own variables
  have changed.
\<close>

theorem fs_file_contents:
  assumes "fat12_mounted env disk nn A L K slot buffer ext procs d c s" and "at_path (mem s) path c ds base x"
    and "path_region path ds base x \<subseteq> K" and "walkable (dir_bytes disk s) (dir_cluster disk (lba_fat1 s)) 0 ds"
    and "lookup_file disk s ds base x = Some e" and "n = min (unat len) (unat (raw_size e))" and "0 < n"
    and "chain_ok disk s (ucast (raw_cluster e)) n"
    and "region dst n \<subseteq> K" and "region dst n \<inter> (region (bpb s) 62 \<union> region d 36) = {}"
    and "run = andthen (fs_open procs path s) (\<lambda>f s. andthen (fs_read procs f dst len s) (\<lambda>_. fs_close procs f))"
  shows "run = halt ''chunk'' \<or> (\<exists>s'. run = ret () s' \<and>
    bytes_at (mem s') dst n = map (file_byte disk s (ucast (raw_cluster e))) [0..<n] \<and> effect (K - region dst n) s s' \<and>
    (if fat12_valid_cluster (nth_cluster disk (lba_fat1 s) (ucast (raw_cluster e)) (n div cluster_size s)) then heap_holds s' A L
     else \<exists>src k. L src = None \<and> heap_holds s' A (L(src \<mapsto> k))))"
  using fs_contents_outcome [OF assms(1-10)] by (simp add: assms(11) outcome_def del: fun_upd_apply)

lemma fs_dirs: "dir_bytes fat_disk fs_state = dir_bytes fat_disk fat_state" "lba_fat1 fs_state = lba_fat1 fat_state"
proof -
  have "directory_entries fs_state = directory_entries fat_state" "lba_root fs_state = lba_root fat_state"
    "sectors_per_cluster fs_state = sectors_per_cluster fat_state"
    by (simp_all add: directory_entries_def sectors_per_cluster_def load16_def fs_volume fs_byte)
      (simp_all add: fs_state_eq fat_put_def fat_state_def boot_state_def)
  then show "dir_bytes fat_disk fs_state = dir_bytes fat_disk fat_state"
    by (simp add: fun_eq_iff dir_bytes_def fs_volume)
  show "lba_fat1 fs_state = lba_fat1 fat_state" by (simp add: fs_volume fat_state_def)
qed

theorem fs_file_contents_witness:
  "\<exists>run. run = andthen (fs_open (fs_procs (example_drive fat_disk)) 3000 fs_state) (\<lambda>f s.
      andthen (fs_read (fs_procs (example_drive fat_disk)) f 4000 100 s) (\<lambda>_. fs_close (fs_procs (example_drive fat_disk)) f)) \<and>
    (run = halt ''chunk'' \<or> (\<exists>s'. run = ret () s' \<and> bytes_at (mem s') 4000 5 = [72, 101, 108, 108, 111] \<and>
      heap_holds s' fat_area Map.empty))"
proof -
  let ?K = "path_kept fat_area Map.empty 2000 2004 - region 2020 3"
  have c: "ucast (raw_cluster fat_entry_B) = (3 :: u16)" "unat (raw_size fat_entry_B) = 5"
    by (simp_all add: fat_entry_B_def raw_cluster_def raw_half_def raw_size_def)
  have path: "at_path (mem fs_state) 3000 72 [[65]] [66] [67]"
    by (simp add: at_path_def cstr_def bytes_at_def upt_rec fs_byte fs_bytes_def component_def file_base_def)
  have lookup: "lookup_file fat_disk fs_state [[65]] [66] [67] = Some fat_entry_B"
    and walk: "walkable (dir_bytes fat_disk fs_state) (dir_cluster fat_disk (lba_fat1 fs_state)) 0 [[65]]"
    unfolding lookup_file_def fs_dirs by (fact fat_state_walk [unfolded lookup_file_def])+
  have chain: "chain_ok fat_disk fs_state (ucast (raw_cluster fat_entry_B)) 5"
    by (simp add: chain_ok_def c fs_volume fat12_valid_cluster_def Let_def)
  have regions: "path_region 3000 [[65]] [66] [67] \<subseteq> ?K" "region 4000 5 \<subseteq> ?K"
    by (rule subsetI, rule fs_kept, simp add: path_region_def in_region_nat)+
  have apart: "region 4000 5 \<inter> (region (bpb fs_state) 62 \<union> region 3012 36) = {}"
    by (auto simp: fs_volume in_region_nat)
  have lba: "fat12_cluster_lba 3 fs_state = 4"
    unfolding fs_volume by (simp add: fat12_cluster_lba_def fat_state_def boot_state_def sectors_per_cluster_def fat_memory_def)
  have "map (file_byte fat_disk fs_state 3) [0..<5] = [72, 101, 108, 108, 111]"
    by (simp add: file_byte_def fs_volume(3,4) lba upt_rec fat_disk_def)
  moreover have "fat12_valid_cluster (nth_cluster fat_disk (lba_fat1 fs_state) 3 (5 div cluster_size fs_state))"
    by (simp add: fs_volume fat12_valid_cluster_def)
  moreover note fs_file_contents [OF fs_mounted path regions(1) walk lookup _ _ chain regions(2) apart refl, of 100]
  ultimately show ?thesis unfolding c by simp blast
qed

text \<open>C35.
  A file that does not exist is not handled. If the path leads to no file, \<open>fs_open\<close> returns \<open>NULL\<close>, but it has
  stored the address of the driver through the null pointer, at address 280 of the memory.
\<close>

theorem fs_open_missing:
  assumes "fat12_mounted env disk nn A L K slot buffer ext procs d c s" and "at_path (mem s) path c ds base x"
    and "path_region path ds base x \<subseteq> K" and "walkable (dir_bytes disk s) (dir_cluster disk (lba_fat1 s)) 0 ds"
    and "lookup_file disk s ds base x = None"
  shows "fs_open procs path s = halt ''chunk'' \<or>
    (\<exists>s'. fs_open procs path s = ret 0 s' \<and> load32 (mem s') 280 = d \<and> effect (K - region 280 4) s s')"
  using fs_open_outcome [OF assms(1-4)] unfolding assms(5) by (auto simp: outcome_def)

lemma fat_root_no_file: "find (entry_is 0x20 name) (dir_entries (dir_bytes fat_disk fat_state 0)) = None"
proof -
  have 0: "dir_bytes fat_disk fat_state 0 = disk_bytes fat_disk 1024 (32 * 16)"
    by (simp add: dir_bytes_def fat_state_def boot_state_def fat_memory_def directory_entries_def load16_def)
  have "fat_disk (1024 + 32 * k + 11) \<noteq> 0x20" if "k \<in> set [0..<16]" for k
    using that by (auto simp: upt_rec fat_disk_def)
  then show ?thesis unfolding 0 dir_entries_disk
    by (simp add: find_None_iff entry_is_def disk_bytes_def)
qed

theorem fs_open_missing_witness:
  "\<exists>r. r = fs_open (fs_procs (example_drive fat_disk)) 3048 fs_state \<and>
     (r = halt ''chunk'' \<or> (\<exists>s'. r = ret 0 s' \<and> load32 (mem s') 280 = 3012))"
proof -
  have path: "at_path (mem fs_state) 3048 72 [] [68] [69]"
    by (simp add: at_path_def cstr_def bytes_at_def upt_rec fs_byte fs_bytes_def component_def file_base_def)
  have region: "path_region 3048 [] [68] [69] \<subseteq> path_kept fat_area Map.empty 2000 2004 - region 2020 3"
    by (rule subsetI, rule fs_kept, simp add: path_region_def in_region_nat)
  have walk: "walkable (dir_bytes fat_disk fs_state) (dir_cluster fat_disk (lba_fat1 fs_state)) 0 []"
    by (simp add: dir_cluster_def)
  have "lookup_file fat_disk fs_state [] [68] [69] = None" by (simp add: lookup_file_def fs_dirs fat_root_no_file)
  from fs_open_missing [OF fs_mounted path region walk this] show ?thesis by blast
qed

end
