(* ===== verification/Elf_Properties.thy ===== *)
theory Elf_Properties
  imports Elf_Load Fs_Properties
begin

text \<open>
  The property of the ELF loader, with an instance: a relocatable file of 260 bytes on the volume of \<open>Fat12_Properties\<close>,
  with a null section, eight bytes of code with one relocation, the relocation section and a table of two symbols.
\<close>

section \<open>An example file\<close>

definition elf_byte :: "nat \<Rightarrow> u8" where
  "elf_byte = (\<lambda>_. 0)(
     0 := 0x7F, 1 := 69, 2 := 76, 3 := 70, 4 := 1, 5 := 1, 6 := 1, 16 := 1, 18 := 3, 20 := 1, 24 := 0, 32 := 52, 40 := 52,
     46 := 40, 48 := 4,
     96 := 1, 100 := 2, 108 := 212, 112 := 8,
     136 := 9, 148 := 220, 152 := 8, 156 := 3, 160 := 1, 168 := 8,
     176 := 2, 188 := 228, 192 := 32, 208 := 16,
     212 := 184, 213 := 16, 217 := 195, 218 := 144, 219 := 144,
     220 := 1, 224 := 1, 225 := 1,
     248 := 6, 258 := 1)"

definition elf_bytes :: "u8 list" where
  "elf_bytes = map elf_byte [0..<260]"

lemma elf_word: "k + 4 \<le> 260 \<Longrightarrow> word_at elf_bytes k =
    ucast (elf_byte k) OR push_bit 8 (ucast (elf_byte (k + 1))) OR push_bit 16 (ucast (elf_byte (k + 2))) OR
      push_bit 24 (ucast (elf_byte (k + 3)))"
  by (simp add: word_at_def elf_bytes_def)

lemma elf_half: "k + 2 \<le> 260 \<Longrightarrow> half_at elf_bytes k = ucast (elf_byte k) OR push_bit 8 (ucast (elf_byte (k + 1)))"
  by (simp add: half_at_def elf_bytes_def)

lemma elf_sections: "section_count elf_bytes = 4"
  "section_at elf_bytes 0 = \<lparr>s_type = 0, s_flags = 0, s_addr = 0, s_offset = 0, s_size = 0, s_link = 0, s_info = 0, s_entsize = 0\<rparr>"
  "section_at elf_bytes 1 = \<lparr>s_type = 1, s_flags = 2, s_addr = 0, s_offset = 212, s_size = 8, s_link = 0, s_info = 0, s_entsize = 0\<rparr>"
  "section_at elf_bytes 2 = \<lparr>s_type = 9, s_flags = 0, s_addr = 0, s_offset = 220, s_size = 8, s_link = 3, s_info = 1, s_entsize = 8\<rparr>"
  "section_at elf_bytes 3 = \<lparr>s_type = 2, s_flags = 0, s_addr = 0, s_offset = 228, s_size = 32, s_link = 0, s_info = 0, s_entsize = 16\<rparr>"
  by (simp_all add: section_count_def section_at_def elf_word elf_half elf_byte_def)

lemma upt_4: "[0..<4] = [0, 1, 2, 3]"
  by (simp add: upt_rec numeral_eq_Suc)

lemma elf_image_len: "image_len elf_bytes = 8"
  by (simp add: image_len_def elf_sections upt_4 grow_def allocated_section_def del: One_nat_def)

lemma elf_relocation:
  "rel_type elf_bytes (section_at elf_bytes 2) 0 = 1" "rel_symbol elf_bytes (section_at elf_bytes 2) 0 = 1"
  "rel_target elf_bytes (section_at elf_bytes 2) 0 = 1"
proof -
  have "drop_bit 8 257 = (1 :: u32)" by (simp add: drop_bit_eq_div)
  moreover have "word_at elf_bytes 224 = 257" "word_at elf_bytes 220 = 1" by (simp_all add: elf_word elf_byte_def)
  ultimately have "unat (drop_bit 8 (word_at elf_bytes 224)) = 1" "ucast (word_at elf_bytes 224) = (1 :: u8)"
      "unat (word_at elf_bytes 220) = 1"
    by simp_all
  then show "rel_type elf_bytes (section_at elf_bytes 2) 0 = 1" "rel_symbol elf_bytes (section_at elf_bytes 2) 0 = 1"
      "rel_target elf_bytes (section_at elf_bytes 2) 0 = 1"
    by (simp_all add: rel_type_def rel_symbol_def rel_target_def elf_sections del: One_nat_def)
qed

lemma upt_1: "[0..<1] = [0]"
  by simp

lemma elf_bytes_ok: "elf_ok elf_bytes"
proof -
  have head: "length elf_bytes = 260" "take 7 elf_bytes = [0x7F, 69, 76, 70, 1, 1, 1]"
    by (simp_all add: elf_bytes_def take_map) (simp add: upt_rec elf_byte_def)
  have fields: "half_at elf_bytes 16 = 1" "half_at elf_bytes 18 = 3" "word_at elf_bytes 32 = 52"
    by (simp_all add: elf_half elf_word elf_byte_def)
  have rel: "relocation_ok elf_bytes (section_at elf_bytes 2) 0"
    unfolding relocation_ok_def Let_def elf_relocation
    by (simp add: symbol_at_def elf_sections elf_image_len elf_half elf_byte_def head del: One_nat_def)
  have "list_all (\<lambda>i. section_ok elf_bytes (section_at elf_bytes i)) [0, 1, 2, 3]"
    using rel by (simp add: section_ok_def elf_sections allocated_section_def head upt_1 del: One_nat_def)
  then show ?thesis using head fields unfolding elf_ok_def by (simp add: elf_sections(1) elf_image_len upt_4)
qed

lemma elf_image_example: "elf_image elf_bytes p = Some (184 # word_bytes (p + 22) @ [195, 144, 144])"
proof -
  have drop: "take 8 (drop 212 elf_bytes) = [184, 16, 0, 0, 0, 195, 144, 144]"
    by (simp add: elf_bytes_def drop_map take_map) (simp add: upt_rec elf_byte_def)
  have data: "image_data elf_bytes = [184, 16, 0, 0, 0, 195, 144, 144]"
    by (simp add: image_data_def elf_sections upt_4 place_def allocated_section_def elf_image_len drop overwrite_def
        del: One_nat_def)
  have sym: "symbol_value elf_bytes p 244 = Some (p + 6)"
    by (simp add: symbol_value_def elf_half elf_word elf_sections elf_byte_def del: One_nat_def)
  have "relocate elf_bytes p (section_at elf_bytes 2) 0 [184, 16, 0, 0, 0, 195, 144, 144] =
      Some (overwrite [184, 16, 0, 0, 0, 195, 144, 144] 1 (word_bytes (16 + (p + 6))))"
    using sym unfolding relocate_def elf_relocation
    by (simp add: symbol_at_def elf_sections word_at_def del: One_nat_def)
  then show ?thesis
    by (simp add: elf_image_def data elf_sections upt_4 upt_1 del: One_nat_def) (simp add: overwrite_def word_bytes_def add.commute)
qed

section \<open>The example state\<close>

text \<open>The file in cluster 3 of the volume.\<close>

definition elf_disk :: "nat \<Rightarrow> u8" where
  "elf_disk k = (if 2048 \<le> k \<and> k < 2308 then elf_byte (k - 2048) else fat_disk k)"

text \<open>The file object at 3000, its fields from 3256 on, and the driver at 3284.\<close>

definition elf_fields :: "u8 list" where
  "elf_fields = [4, 1, 0, 0, 0, 0, 0, 0, 3, 0, 0, 0, 0, 0, 0, 0, 0, 0, 0, 0, 0, 0, 0, 0, 212, 12, 0, 0,
     72, 0, 0, 0, 0, 128, 0, 0, 16, 128, 0, 0, 32, 128, 0, 0, 48, 128, 0, 0, 64, 128, 0, 0, 80, 128, 0, 0, 96, 128, 0, 0,
     112, 128, 0, 0]"

definition elf_state :: kernel where
  "elf_state = fat_put 3256 elf_fields"

lemma elf_state_byte: "mem elf_state x = (if unat (x - 3256) < 64 then elf_fields ! unat (x - 3256) else fat_memory x)"
  proof -
  have "mem elf_state = store_bytes fat_memory 3256 elf_fields" by (simp add: elf_state_def fat_put_def)
  then show ?thesis by (simp only:) (subst store_bytes_apply; simp add: elf_fields_def)
qed

lemma elf_driver: "fat12_driver fs_code 3284 (mem elf_state)"
proof -
  have "map (\<lambda>k. driver_op (mem elf_state) 3284 (word_of_nat k)) [0..<8] = map fs_code operations"
    by (simp add: upt_rec driver_op_def load32_def elf_state_byte elf_fields_def fs_code_def operations_def)
  note eq = this
  have len: "length operations = 8" by (simp add: operations_def)
  show ?thesis unfolding fat12_driver_def
  proof (intro allI impI)
    fix k :: nat assume "k < 8"
    then show "driver_op (mem elf_state) 3284 (word_of_nat k) = fs_code (operations ! k)"
      using arg_cong [OF eq, of "\<lambda>xs. xs ! k"] by (simp add: len)
  qed
qed

lemma elf_state_file:
  "open_file (example_drive elf_disk) elf_disk 6 (fs_procs (example_drive elf_disk)) 3284 fat_area Map.empty 3000 elf_bytes elf_state"
proof -
  have "length elf_fields \<le> 1000" by (simp add: elf_fields_def)
  note st = fat_put_state [of elf_fields 3256, simplified, OF this, folded elf_state_def]
  have fields: "file_len (mem elf_state) 3000 = 260" "file_offset (mem elf_state) 3000 = 0" "file_ref (mem elf_state) 3000 = 3"
      "file_driver (mem elf_state) 3000 = 3284" "driver_mnt (mem elf_state) 3284 = 72"
    by (simp_all add: file_len_def file_offset_def file_ref_def file_driver_def driver_mnt_def load32_def elf_state_byte
        elf_fields_def)
  have handle: "handle (example_drive elf_disk) (fs_procs (example_drive elf_disk)) 3284 3000 elf_state"
    unfolding handle_def using elf_driver fs_linked [of "example_drive elf_disk"] fields by simp blast
  have regions: "region 3000 284 \<subseteq> - fat_area \<union> blocks Map.empty" "region 3284 36 \<subseteq> - fat_area \<union> blocks Map.empty"
      "region 3284 36 \<inter> region (3000 + 260) 4 = {}" "region (bpb elf_state) 62 \<inter> region 3000 284 = {}"
    by (auto simp: in_region_nat st)
  have len: "length elf_bytes = 260" by (simp add: elf_bytes_def)
  have chain: "chain_ok elf_disk elf_state 3 260"
    by (simp add: chain_ok_def st fat12_valid_cluster_def Let_def)
  have lba: "fat12_cluster_lba 3 fat_state = 4"
    by (simp add: fat12_cluster_lba_def fat_state_def boot_state_def sectors_per_cluster_def fat_memory_def)
  have "map (file_byte elf_disk elf_state 3) [0..<260] = elf_bytes"
    by (simp add: elf_bytes_def file_byte_def st lba elf_disk_def)
  then show ?thesis
    unfolding open_file_def len fields using st(1,2) handle regions chain by simp
qed

section \<open>Loading a file\<close>

text \<open>C36.
  The loader delivers the image of a well-formed file. For an open file of a mounted volume, at its start, whose bytes are a
  relocatable ELF file with all tables, sections and relocations in range: \<open>elf_read\<close> stops only at a full heap; if it
  returns and every symbol is defined and every relocation has a type it knows, then \<open>*buffer\<close> is a block of the heap that
  holds the image, the allocated sections at their addresses, zero elsewhere, each relocation applied in order for the
  address the block has, and \<open>*entry\<close> is the entry of the file; otherwise both variables keep their values. The caller's
  memory but for the two variables and the offset of the file is as before, and its blocks remain allocated.
\<close>

theorem elf_read_loads:
  assumes "open_file env disk n procs d A L f bs s" and "elf_ok bs" and "variables A L buffer entry"
    and "(region buffer 4 \<union> region entry 4) \<inter> region (f + 260) 4 = {}"
  shows "elf_read procs f buffer entry s = halt ''chunk'' \<or> (\<exists>s'. elf_read procs f buffer entry s = ret () s' \<and>
    (\<exists>p k L'. L p = None \<and> p \<noteq> 0 \<and> image_len bs \<le> unat k \<and> L(p \<mapsto> k) \<subseteq>\<^sub>m L' \<and> heap_holds s' A L' \<and>
      (case elf_image bs p of
         None \<Rightarrow> load32 (mem s') buffer = load32 (mem s) buffer \<and> load32 (mem s') entry = load32 (mem s) entry
       | Some im \<Rightarrow> load32 (mem s') buffer = p \<and> load32 (mem s') entry = elf_entry bs \<and>
           bytes_at (mem s') p (image_len bs) = im)) \<and>
    effect ((- A \<union> blocks L) - (region buffer 4 \<union> region entry 4 \<union> region (f + 260) 4)) s s')"
  using volume_files.elf_read_outcome [OF assms] by (simp add: outcome_def loaded_image_def del: fun_upd_apply)

theorem elf_read_loads_witness:
  "\<exists>r. r = elf_read (fs_procs (example_drive elf_disk)) 3000 2500 2504 elf_state \<and>
    (r = halt ''chunk'' \<or> (\<exists>p s'. r = ret () s' \<and> load32 (mem s') 2500 = p \<and> load32 (mem s') 2504 = 0 \<and>
      bytes_at (mem s') p 8 = 184 # word_bytes (p + 22) @ [195, 144, 144]))"
proof -
  have "variables fat_area Map.empty 2500 2504" "(region 2500 4 \<union> region 2504 4) \<inter> region (3000 + 260) 4 = {}"
    by (auto simp: variables_def in_region_nat)
  note run = elf_read_loads [OF elf_state_file elf_bytes_ok this, unfolded elf_image_example elf_image_len option.case]
  have "elf_entry elf_bytes = 0" by (simp add: elf_entry_def elf_word elf_byte_def)
  then show ?thesis using run by (simp del: fun_upd_apply) blast
qed

end
