(* ===== verification/Boot.thy ===== *)
theory Boot
  imports Debug Heap_Init Interrupts
begin

text \<open>
  What the boot loader hands over, and how the kernel reports it and its own failures: \<open>cpu/boot.c\<close>, the information on the
  drive, the processor and the memory that goes to the log, and \<open>assert.c\<close>, a failed assertion.
\<close>

section \<open>The boot information\<close>

text \<open>\<open>boot_info\<close> and \<open>cpuid\<close> of \<open>cpu/boot.h\<close>, both packed.\<close>

definition boot_bpb :: "memory \<Rightarrow> u32 \<Rightarrow> u16" where
  "boot_bpb m b = load16 m (b + 4)"

definition boot_drive :: "memory \<Rightarrow> u32 \<Rightarrow> u8" where
  "boot_drive m b = m (b + 6)"

definition boot_cpuid :: "u32 \<Rightarrow> u32" where
  "boot_cpuid b = b + 7"

definition boot_memory_map :: "u32 \<Rightarrow> u32" where
  "boot_memory_map b = b + 28"

definition cpuid_features1 :: "memory \<Rightarrow> u32 \<Rightarrow> u32" where
  "cpuid_features1 m c = load32 m (c + 13)"

section \<open>The reports\<close>

text \<open>The macro \<open>info\<close> of \<open>debug.h\<close>, in a file whose name is the literal \<open>file\<close>.\<close>

definition info ::
  "environment \<Rightarrow> (string \<Rightarrow> u32) \<Rightarrow> u32 \<Rightarrow> u32 \<Rightarrow> string \<Rightarrow> u32 \<Rightarrow> string \<Rightarrow> u32 list \<Rightarrow> kernel \<Rightarrow> unit krun" where
  "info env lit conv buffer file line format ap s = dprintf env lit conv buffer 3 (lit file) line (lit format) ap s"

definition drive_type :: "u8 \<Rightarrow> string" where
  "drive_type drive =
    (if 0xE0 < drive then ''hdd'' else if drive = 0xE0 then ''cd-rom'' else if 0x7F < drive then ''hdd'' else ''fdd'')"

definition disk_info :: "environment \<Rightarrow> (string \<Rightarrow> u32) \<Rightarrow> u32 \<Rightarrow> u32 \<Rightarrow> u32 \<Rightarrow> kernel \<Rightarrow> unit krun" where
  "disk_info env lit conv buffer b s =
    (let drive = boot_drive (mem s) b in
     info env lit conv buffer ''src/cpu/boot.c'' 23 ''drive=%x, type=%s'' [ucast drive, lit (drive_type drive)] s)"

definition cpuid_info :: "environment \<Rightarrow> (string \<Rightarrow> u32) \<Rightarrow> u32 \<Rightarrow> u32 \<Rightarrow> u32 \<Rightarrow> kernel \<Rightarrow> unit krun" where
  "cpuid_info env lit conv buffer c s =
    info env lit conv buffer ''src/cpu/boot.c'' 28 ''vendor=%s, features=%x'' [c, cpuid_features1 (mem s) c] s"

definition region_type :: "u32 \<Rightarrow> string" where
  "region_type type = (if type = 1 then ''free'' else if type = 2 then ''reserved'' else ''unknown'')"

text \<open>The two 64-bit arguments take two slots each, low half first.\<close>

definition mmap_info_entry :: "environment \<Rightarrow> (string \<Rightarrow> u32) \<Rightarrow> u32 \<Rightarrow> u32 \<Rightarrow> u32 \<Rightarrow> u32 \<Rightarrow> kernel \<Rightarrow> unit krun" where
  "mmap_info_entry env lit conv buffer mmap i s =
    (let e = mmap_entry (mem s) mmap i; base = entry_base (mem s) e; len = entry_len (mem s) e
     in info env lit conv buffer ''src/cpu/boot.c'' 45 ''base=%lx, length=%lx, type=%s''
          [ucast base, ucast (drop_bit 32 base), ucast len, ucast (drop_bit 32 len), lit (region_type (entry_type (mem s) e))] s)"

definition mmap_info :: "environment \<Rightarrow> (string \<Rightarrow> u32) \<Rightarrow> u32 \<Rightarrow> u32 \<Rightarrow> u32 \<Rightarrow> kernel \<Rightarrow> unit krun" where
  "mmap_info env lit conv buffer mmap s =
    for_up (\<lambda>s. mmap_len (mem s) mmap) (mmap_info_entry env lit conv buffer mmap) 0 s"

section \<open>Assertions\<close>

text \<open>
  A failed assertion shows the expression in white on red, logs it, and halts the processor. \<open>itoa_buf\<close> is the
  address of the conversion buffers of \<open>printf\<close>.
\<close>

definition assert_failed ::
  "environment \<Rightarrow> (string \<Rightarrow> u32) \<Rightarrow> u32 \<Rightarrow> u32 \<Rightarrow> u32 \<Rightarrow> u32 \<Rightarrow> u32 \<Rightarrow> u32 \<Rightarrow> kernel \<Rightarrow> control krun" where
  "assert_failed env lit itoa_buf conv buffer file line expression s =
    andthen (printf itoa_buf (lit ''%fhalt, reason=%s'') [0x0F04, expression] s) (\<lambda>_ s.
    andthen (dprintf env lit conv buffer 5 file line (lit ''halt, reason=%s'') [expression] s) (\<lambda>_.
      ret Halt))"

section \<open>The lines of a report\<close>

definition disk_line :: "u8 \<Rightarrow> time \<Rightarrow> u8 list" where
  "disk_line drive = log_line 3 (char_codes ''cpu/boot.c'') 23
     (char_codes ''drive='' @ hex_text (ucast drive) @ char_codes '', type='' @ char_codes (drive_type drive))"

definition cpuid_line :: "u8 list \<Rightarrow> u32 \<Rightarrow> time \<Rightarrow> u8 list" where
  "cpuid_line vendor features = log_line 3 (char_codes ''cpu/boot.c'') 28
     (char_codes ''vendor='' @ vendor @ char_codes '', features='' @ hex_text features)"

definition map_line :: "map_entry \<Rightarrow> time \<Rightarrow> u8 list" where
  "map_line = (\<lambda>(b, l, t). log_line 3 (char_codes ''cpu/boot.c'') 45
     (char_codes ''base='' @ hex_text (ucast b) @ char_codes '', length='' @ hex_text (ucast l) @
      char_codes '', type='' @ char_codes (region_type t)))"

text \<open>The literals of \<open>cpu/boot.c\<close>; the name of the file is used from its fifth character on.\<close>

definition boot_literals :: "string set" where
  "boot_literals = {''drive=%x, type=%s'', ''vendor=%s, features=%x'', ''base=%lx, length=%lx, type=%s'', ''hdd'', ''cd-rom'', ''fdd'',
     ''free'', ''reserved'', ''unknown''}"

definition report_ready :: "(string \<Rightarrow> u32) \<Rightarrow> u32 \<Rightarrow> u32 \<Rightarrow> strings \<Rightarrow> memory \<Rightarrow> bool" where
  "report_ready lit conv buffer strings m \<longleftrightarrow> log_ready conv buffer strings m \<and> log_literals lit strings \<and>
     strings (lit ''src/cpu/boot.c'' + 4) = Some (char_codes ''cpu/boot.c'') \<and>
     (\<forall>x \<in> boot_literals. strings (lit x) = Some (char_codes x))"

lemma report_literal: "report_ready lit conv buffer strings m \<Longrightarrow> x \<in> boot_literals \<Longrightarrow> strings (lit x) = Some (char_codes x)"
  by (simp add: report_ready_def)

lemma report_logs: "report_ready lit conv buffer strings (mem s) \<Longrightarrow> logs conv buffer t s s' \<Longrightarrow> report_ready lit conv buffer strings (mem s')"
  using logs_ready by (auto simp: report_ready_def)

lemma hex_text_short: "length (hex_text a) \<le> 10" "0 \<notin> set (hex_text a)"
  using itoa_string_short [of 16 a] by (simp_all add: hex_text_def)

lemma text_short:
  "length (char_codes (drive_type d)) \<le> 6" "0 \<notin> set (char_codes (drive_type d))"
  "length (char_codes (region_type t)) \<le> 8" "0 \<notin> set (char_codes (region_type t))"
  by (auto simp: drive_type_def region_type_def char_codes_def)

lemma info_line:
  assumes "serial_line env 1016 n" and "rtc_chip env regs k" and r: "report_ready lit conv buffer strings (mem s)"
    and "format \<in> boot_literals" and "sprintf_out strings (char_codes format) ap = Some t" and "length t \<le> 1023" and "0 \<notin> set t"
  shows "\<exists>s'. info env lit conv buffer ''src/cpu/boot.c'' line format ap s = ret () s' \<and>
    logs conv buffer (log_line 3 (char_codes ''cpu/boot.c'') line t (clock_now regs)) s s'"
proof -
  have place: "strings (lit ''src/cpu/boot.c'' + 4) = Some (char_codes ''cpu/boot.c'')" "length (char_codes ''cpu/boot.c'') \<le> 900"
    and "log_ready conv buffer strings (mem s)" "log_literals lit strings"
    using r by (simp_all add: report_ready_def char_codes_def)
  then show ?thesis
    unfolding info_def using dprintf_line [OF assms(1,2) _ _ place report_literal [OF r assms(4)] assms(5-7)] by blast
qed

lemma disk_info_line:
  assumes "serial_line env 1016 n" and "rtc_chip env regs k" and r: "report_ready lit conv buffer strings (mem s)"
  shows "\<exists>s'. disk_info env lit conv buffer b s = ret () s' \<and>
    logs conv buffer (disk_line (boot_drive (mem s) b) (clock_now regs)) s s'"
proof -
  let ?d = "boot_drive (mem s) b"
  let ?t = "char_codes ''drive='' @ hex_text (ucast ?d) @ char_codes '', type='' @ char_codes (drive_type ?d)"
  have "drive_type ?d \<in> boot_literals" by (simp add: drive_type_def boot_literals_def)
  then have "sprintf_out strings (char_codes ''drive=%x, type=%s'') [ucast ?d, lit (drive_type ?d)] = Some ?t"
    using report_literal [OF r] by (simp add: char_codes_def directive_out_def)
  moreover have "length ?t \<le> 1023" "0 \<notin> set ?t"
    using hex_text_short [of "ucast ?d"] text_short(1,2) [of ?d] by (simp_all add: char_codes_def)
  moreover have "''drive=%x, type=%s'' \<in> boot_literals" by (simp add: boot_literals_def)
  ultimately show ?thesis
    unfolding disk_info_def disk_line_def Let_def using info_line [OF assms] by blast
qed

lemma cpuid_info_line:
  assumes "serial_line env 1016 n" and "rtc_chip env regs k" and r: "report_ready lit conv buffer strings (mem s)"
    and v: "strings c = Some vendor" "length vendor \<le> 900"
  shows "\<exists>s'. cpuid_info env lit conv buffer c s = ret () s' \<and>
    logs conv buffer (cpuid_line vendor (cpuid_features1 (mem s) c) (clock_now regs)) s s'"
proof -
  let ?f = "cpuid_features1 (mem s) c"
  let ?t = "char_codes ''vendor='' @ vendor @ char_codes '', features='' @ hex_text ?f"
  have "cstr (mem s) c vendor" using r v(1) unfolding report_ready_def log_ready_def by blast
  then have "0 \<notin> set vendor" by (simp add: cstr_def)
  have "sprintf_out strings (char_codes ''vendor=%s, features=%x'') [c, ?f] = Some ?t"
    using v(1) by (simp add: char_codes_def directive_out_def)
  moreover have "length ?t \<le> 1023" "0 \<notin> set ?t"
    using hex_text_short [of ?f] v(2) \<open>0 \<notin> set vendor\<close> by (simp_all add: char_codes_def)
  moreover have "''vendor=%s, features=%x'' \<in> boot_literals" by (simp add: boot_literals_def)
  ultimately show ?thesis
    unfolding cpuid_info_def cpuid_line_def using info_line [OF assms(1-3)] by blast
qed

lemma mmap_info_entry_line:
  assumes "serial_line env 1016 n" and "rtc_chip env regs k" and r: "report_ready lit conv buffer strings (mem s)"
    and e: "e = mmap_entry (mem s) mmap i"
  shows "\<exists>s'. mmap_info_entry env lit conv buffer mmap i s = ret () s' \<and>
    logs conv buffer (map_line (entry_base (mem s) e, entry_len (mem s) e, entry_type (mem s) e) (clock_now regs)) s s'"
proof -
  let ?b = "entry_base (mem s) e" and ?l = "entry_len (mem s) e" and ?t = "entry_type (mem s) e"
  let ?text = "char_codes ''base='' @ hex_text (ucast ?b) @ char_codes '', length='' @ hex_text (ucast ?l) @
      char_codes '', type='' @ char_codes (region_type ?t)"
  have "region_type ?t \<in> boot_literals" by (simp add: region_type_def boot_literals_def)
  then have "sprintf_out strings (char_codes ''base=%lx, length=%lx, type=%s'')
      [ucast ?b, ucast (drop_bit 32 ?b), ucast ?l, ucast (drop_bit 32 ?l), lit (region_type ?t)] = Some ?text"
    using report_literal [OF r] by (simp add: char_codes_def directive_out_def)
  moreover have "length ?text \<le> 1023" "0 \<notin> set ?text"
    using hex_text_short [of "ucast ?b"] hex_text_short [of "ucast ?l"] text_short(3,4) [of ?t] by (simp_all add: char_codes_def)
  moreover have "''base=%lx, length=%lx, type=%s'' \<in> boot_literals" by (simp add: boot_literals_def)
  ultimately show ?thesis
    unfolding mmap_info_entry_def map_line_def Let_def e [symmetric] prod.case using info_line [OF assms(1-3)] by blast
qed

lemma mmap_info_lines:
  assumes "serial_line env 1016 n" and "rtc_chip env regs k" and r: "report_ready lit conv buffer strings (mem s)"
    and at: "mmap_at (mem s) mmap es" and foot: "mmap_foot (mem s) mmap (length es) \<inter> output_area conv buffer 1023 = {}"
  shows "\<exists>s'. mmap_info env lit conv buffer mmap s = ret () s' \<and>
    logs conv buffer (concat (map (\<lambda>e. map_line e (clock_now regs)) es)) s s'"
proof -
  let ?L = "logs conv buffer" and ?now = "clock_now regs"
  have len: "length es < 2 ^ 32" using at by (simp add: mmap_at_def)
  have step: "collects (\<lambda>t. ?L t s) (\<lambda>_ _. False) (mmap_info_entry env lit conv buffer mmap i s1) (t @ map_line (es ! unat i) ?now)"
    if i: "i \<in> set (map word_of_nat [0..<length es])" and l: "?L t s s1" for i t s1
  proof -
    obtain j where j: "j < length es" "i = word_of_nat j" using i by auto
    then have ij: "unat i = j" using len by (simp add: unat_of_nat_eq)
    have "same_on (mmap_foot (mem s) mmap (length es)) (mem s) (mem s1)"
      using l foot unfolding logs_def by (auto intro: same_on_mono)
    note cong = mmap_cong(2,3) [OF this]
    let ?e = "mmap_entry (mem s) mmap i"
    have "es ! j = (entry_base (mem s1) ?e, entry_len (mem s1) ?e, entry_type (mem s1) ?e)"
      using at j cong(2) [OF j(1), of ?e] by (simp add: mmap_at_def Let_def)
    moreover obtain s2 where "mmap_info_entry env lit conv buffer mmap i s1 = ret () s2"
      "?L (map_line (entry_base (mem s1) ?e, entry_len (mem s1) ?e, entry_type (mem s1) ?e) ?now) s1 s2"
      using mmap_info_entry_line [OF assms(1,2) report_logs [OF r l], of ?e mmap i] cong(1) by auto
    ultimately show ?thesis using logs_append [OF l] by (auto simp: collects_def ij)
  qed
  have idx: "mmap_info env lit conv buffer mmap s = for_each (map word_of_nat [0..<length es]) (mmap_info_entry env lit conv buffer mmap) s"
    unfolding mmap_info_def
  proof (rule for_up_each [where P = "\<lambda>s1. \<exists>t. ?L t s s1", OF len])
    fix s1 assume "\<exists>t. ?L t s s1"
    then have "same_on (mmap_foot (mem s) mmap (length es)) (mem s) (mem s1)"
      using foot unfolding logs_def by (auto intro: same_on_mono)
    then show "mmap_len (mem s1) mmap = word_of_nat (length es)" using mmap_cong(1) at by (simp add: mmap_at_def)
  next
    fix i s1 s2
    assume "i < length es" and "\<exists>t. ?L t s s1" and "mmap_info_entry env lit conv buffer mmap (word_of_nat i) s1 = ret () s2"
    then show "\<exists>t. ?L t s s2" using step [of "word_of_nat i"] by (fastforce simp: collects_def)
  next
    show "\<exists>t. ?L t s s" by (rule exI [of _ "[]"]) (simp add: logs_def)
  qed
  have "?L [] s s" by (simp add: logs_def)
  then have c: "collects (\<lambda>t. ?L t s) (\<lambda>_ _. False) (mmap_info env lit conv buffer mmap s)
      ([] @ concat (map (\<lambda>i :: u32. map_line (es ! unat i) ?now) (map word_of_nat [0..<length es])))"
    unfolding idx
    by (intro for_each_collects [where body = "mmap_info_entry env lit conv buffer mmap" and good = "\<lambda>t. ?L t s"
      and f = "\<lambda>i :: u32. map_line (es ! unat i) ?now" and err = "\<lambda>_ _. False"]) (rule step, auto)
  have "map (\<lambda>i :: u32. map_line (es ! unat i) ?now) (map word_of_nat [0..<length es]) = map (\<lambda>e. map_line e ?now) es"
    using len by (intro nth_equalityI) (simp_all add: unat_of_nat_eq)
  then show ?thesis using c by (simp add: collects_def)
qed

section \<open>The whole report\<close>

definition boot_report :: "environment \<Rightarrow> (string \<Rightarrow> u32) \<Rightarrow> u32 \<Rightarrow> u32 \<Rightarrow> u32 \<Rightarrow> kernel \<Rightarrow> unit krun" where
  "boot_report env lit conv buffer b s =
    andthen (disk_info env lit conv buffer b s) (\<lambda>_ s.
    andthen (cpuid_info env lit conv buffer (boot_cpuid b) s) (\<lambda>_.
      mmap_info env lit conv buffer (boot_memory_map b)))"

definition report_lines :: "u8 \<Rightarrow> u8 list \<Rightarrow> u32 \<Rightarrow> map_entry list \<Rightarrow> time \<Rightarrow> u8 list" where
  "report_lines drive vendor features es now =
    disk_line drive now @ cpuid_line vendor features now @ concat (map (\<lambda>e. map_line e now) es)"

lemma boot_report_lines:
  assumes "serial_line env 1016 n" and "rtc_chip env regs k" and r: "report_ready lit conv buffer strings (mem s)"
    and v: "strings (boot_cpuid b) = Some vendor" "length vendor \<le> 900"
    and at: "mmap_at (mem s) (boot_memory_map b) es"
    and foot: "(region b 36 \<union> mmap_foot (mem s) (boot_memory_map b) (length es)) \<inter> output_area conv buffer 1023 = {}"
  shows "\<exists>s'. boot_report env lit conv buffer b s = ret () s' \<and>
    logs conv buffer (report_lines (boot_drive (mem s) b) vendor (cpuid_features1 (mem s) (boot_cpuid b)) es (clock_now regs)) s s'"
proof -
  let ?L = "logs conv buffer" and ?map = "boot_memory_map b" and ?foot = "mmap_foot (mem s) (boot_memory_map b) (length es)"
  obtain s1 where s1: "disk_info env lit conv buffer b s = ret () s1" "?L (disk_line (boot_drive (mem s) b) (clock_now regs)) s s1"
    using disk_info_line [OF assms(1-3)] by blast
  note r1 = report_logs [OF r s1(2)]
  obtain s2 where s2: "cpuid_info env lit conv buffer (boot_cpuid b) s1 = ret () s2"
      "?L (cpuid_line vendor (cpuid_features1 (mem s1) (boot_cpuid b)) (clock_now regs)) s1 s2"
    using cpuid_info_line [OF assms(1,2) r1 v] by blast
  note r2 = report_logs [OF r1 s2(2)] and l2 = logs_append [OF s1(2) s2(2)]
  have "same_on (region b 36 \<union> ?foot) (mem s) (mem s1)" "same_on (region b 36 \<union> ?foot) (mem s) (mem s2)"
    using s1(2) l2 foot unfolding logs_def by (auto intro: same_on_mono)
  then have feat: "cpuid_features1 (mem s1) (boot_cpuid b) = cpuid_features1 (mem s) (boot_cpuid b)"
    and foot2: "same_on ?foot (mem s) (mem s2)"
    using region_shift_subset [of 20 4 36 b]
    by (auto simp: cpuid_features1_def boot_cpuid_def add.assoc intro!: load32_cong intro: same_on_mono)
  note cong = mmap_cong [OF foot2]
  have "mmap_at (mem s2) ?map es" using at cong by (simp add: mmap_at_def Let_def)
  moreover have "mmap_foot (mem s2) ?map (length es) = ?foot" by (simp add: mmap_foot_def cong(2))
  ultimately obtain s3 where s3: "mmap_info env lit conv buffer ?map s2 = ret () s3"
      "?L (concat (map (\<lambda>e. map_line e (clock_now regs)) es)) s2 s3"
    using mmap_info_lines [OF assms(1,2) r2] foot by (metis Int_Un_distrib2 Un_empty)
  have "boot_report env lit conv buffer b s = ret () s3" using s1(1) s2(1) s3(1) by (simp add: boot_report_def)
  moreover have "?L (report_lines (boot_drive (mem s) b) vendor (cpuid_features1 (mem s) (boot_cpuid b)) es (clock_now regs)) s s3"
    using logs_append [OF l2 s3(2)] by (simp add: report_lines_def feat)
  ultimately show ?thesis by blast
qed

section \<open>A failed assertion\<close>

lemma sent_on_display: "set h \<subseteq> display_events \<Longrightarrow> sent_on 1016 (h @ h') = sent_on 1016 h'"
  by (induction h) (auto simp: display_events_def)

lemma prints_sent:
  assumes "prints cas X s s'"
  shows "sent_on 1016 (io s') = sent_on 1016 (io s)"
proof -
  obtain h where "io s' = h @ io s" "set h \<subseteq> display_events" using assms by (auto simp: prints_def kept_def)
  then show ?thesis by (simp add: sent_on_display)
qed

definition assert_literals :: "(string \<Rightarrow> u32) \<Rightarrow> strings \<Rightarrow> bool" where
  "assert_literals lit strings \<longleftrightarrow> log_literals lit strings \<and>
     (\<forall>x \<in> {''%fhalt, reason=%s'', ''halt, reason=%s''}. strings (lit x) = Some (char_codes x))"

definition halt_text :: "u8 list \<Rightarrow> u8 list" where
  "halt_text e = char_codes ''halt, reason='' @ e"

lemma assert_failed_reports:
  assumes "serial_line env 1016 n" and "rtc_chip env regs k" and lits: "assert_literals lit strings"
    and p: "printf_ready itoa_buf (lit ''%fhalt, reason=%s'') (char_codes ''%fhalt, reason=%s'') strings s"
    and l: "log_ready conv buffer strings (mem s)" and apart: "display_area \<inter> output_area conv buffer 1023 = {}"
    and place: "strings (file + 4) = Some place" "length place \<le> 900" and e: "strings expression = Some e" "length e \<le> 900"
  shows "\<exists>s'. assert_failed env lit itoa_buf conv buffer file line expression s = ret Halt s' \<and>
    terminal_of s' = fold term_put (map (\<lambda>c. (c, \<lparr>background = 4, foreground = 15\<rparr>)) (halt_text e)) (terminal_of s) \<and>
    sent_on 1016 (io s') = sent_on 1016 (io s) @ log_line 5 place line (halt_text e) (clock_now regs) \<and>
    same_on (- (display_area \<union> region itoa_buf 12 \<union> output_area conv buffer 1023)) (mem s) (mem s')"
proof -
  let ?attr = "\<lparr>background = 4, foreground = 15\<rparr> :: text_attribute"
  let ?cas = "map (\<lambda>c. (c, ?attr)) (halt_text e)"
  have attr: "attribute_of 0x0F04 = ?attr" by (simp add: attribute_of_def drop_bit_eq_div)
  have e0: "0 \<notin> set e" using l e(1) unfolding log_ready_def by (auto simp: cstr_def)
  have "printf_out strings (char_codes ''%fhalt, reason=%s'') default_attribute [0x0F04, expression] = Some ?cas"
    using e(1) by (simp add: char_codes_def halt_text_def attr)
  from printf_prints [OF p this] obtain s1 where
    s1: "printf itoa_buf (lit ''%fhalt, reason=%s'') [0x0F04, expression] s = ret () s1" "prints ?cas (region itoa_buf 12) s s1"
    by blast
  have same1: "same_on (- (display_area \<union> region itoa_buf 12)) (mem s) (mem s1)" using s1(2) by (simp add: prints_def kept_def)
  have l1: "log_ready conv buffer strings (mem s1)"
  proof -
    have "cstr (mem s1) a t" if "strings a = Some t" for a t
    proof -
      have c: "cstr (mem s) a t" "region a (Suc (length t)) \<inter> (display_area \<union> region itoa_buf 12) = {}"
        using p that by (auto simp: printf_ready_def)
      have "same_on (region a (Suc (length t))) (mem s) (mem s1)" using same1 by (rule same_on_mono) (use c(2) in blast)
      then show ?thesis using c(1) by (rule cstr_cong)
    qed
    then show ?thesis using l by (auto simp: log_ready_def)
  qed
  have "strings (lit ''halt, reason=%s'') = Some (char_codes ''halt, reason=%s'')" and ll: "log_literals lit strings"
    using lits by (simp_all add: assert_literals_def)
  moreover have "sprintf_out strings (char_codes ''halt, reason=%s'') [expression] = Some (halt_text e)"
    using e(1) by (simp add: char_codes_def directive_out_def halt_text_def)
  moreover have "length (halt_text e) \<le> 1023" "0 \<notin> set (halt_text e)"
    using e(2) e0 by (simp_all add: halt_text_def char_codes_def)
  ultimately obtain s2 where s2: "dprintf env lit conv buffer 5 file line (lit ''halt, reason=%s'') [expression] s1 = ret () s2"
      "logs conv buffer (log_line 5 place line (halt_text e) (clock_now regs)) s1 s2"
    using dprintf_line [OF assms(1,2) l1 ll place, of "lit ''halt, reason=%s''"] by blast
  have same2: "same_on (- output_area conv buffer 1023) (mem s1) (mem s2)" using s2(2) by (simp add: logs_def)
  have "assert_failed env lit itoa_buf conv buffer file line expression s = ret Halt s2"
    using s1(1) s2(1) by (simp add: assert_failed_def)
  moreover have "terminal_of s2 = terminal_of s1"
  proof -
    have "same_on display_area (mem s1) (mem s2)" using same2 by (rule same_on_mono) (use apart in blast)
    moreover have "cursor s2 = cursor (s2\<lparr>io := io s1, mem := mem s1\<rparr>)" by simp
    then have "cursor s2 = cursor s1" using s2(2) by (simp only: logs_def)
    ultimately show ?thesis by (simp add: terminal_cong)
  qed
  moreover have "terminal_of s1 = fold term_put ?cas (terminal_of s)" using s1(2) by (simp add: prints_def)
  moreover have "sent_on 1016 (io s2) = sent_on 1016 (io s) @ log_line 5 place line (halt_text e) (clock_now regs)"
    using s2(2) prints_sent [OF s1(2)] by (simp add: logs_def)
  moreover have "same_on (- (display_area \<union> region itoa_buf 12 \<union> output_area conv buffer 1023)) (mem s) (mem s2)"
    by (rule same_on_trans [OF same_on_mono [OF same1] same_on_mono [OF same2]]) auto
  ultimately show ?thesis by simp
qed

end
