(* ===== verification/Ata_Identify.thy ===== *)
theory Ata_Identify
  imports Fat12_Volume
begin

text \<open>
  The identification of the drives, \<open>ata_init\<close>: it returns on drives that answer the command or are absent, loses one block
  of the heap for every drive found, and writes nothing else but its three arrays, if their last bytes, which the
  routine never sets, are zero.
\<close>

section \<open>The drive\<close>

text \<open>After the command to identify, a status other than 0 announces a drive, which is ready after at most \<open>n\<close> polls.\<close>

definition identifying :: "u16 \<Rightarrow> history \<Rightarrow> bool" where
  "identifying bus h \<longleftrightarrow> last_out (bus + 7) h = 236 \<and> polls bus h \<noteq> [] \<and> last (polls bus h) \<noteq> 0"

definition ata_answers :: "environment \<Rightarrow> u16 \<Rightarrow> nat \<Rightarrow> bool" where
  "ata_answers env bus n \<longleftrightarrow>
    (\<forall>h. identifying bus h \<longrightarrow> n \<le> length (polls bus h) \<longrightarrow> (ucast (env h (bus + 7)) :: u8) AND 136 = 8)"

lemma identifying_polls: "identifying bus h \<Longrightarrow> identifying bus (map (In8 (bus + 7)) vs @ h)"
  by (simp add: identifying_def)

lemma answer_returns:
  fixes f :: "kernel \<Rightarrow> kernel option"
  assumes loop: "\<And>s. f s = (case inb env (bus + 7) s of (v, s) \<Rightarrow> if stop v then Some s else f s)"
    and stop: "\<And>v :: u8. v AND 136 = 8 \<Longrightarrow> stop v"
    and drive: "ata_answers env bus n" and "identifying bus (io s)"
  shows "\<exists>vs. f s = Some (s\<lparr>io := map (In8 (bus + 7)) vs @ io s\<rparr>)"
  using assms(4)
proof (induction "n - length (polls bus (io s))" arbitrary: s rule: less_induct)
  case less
  let ?v = "ucast (env (io s) (bus + 7)) :: u8"
  let ?s = "s\<lparr>io := map (In8 (bus + 7)) [?v] @ io s\<rparr>"
  show ?case
  proof (cases "stop ?v")
    case True
    then have "f s = Some (s\<lparr>io := map (In8 (bus + 7)) [?v] @ io s\<rparr>)"
      by (subst loop) (simp add: inb_polled)
    then show ?thesis by blast
  next
    case False
    then have "\<not> n \<le> length (polls bus (io s))"
      using drive less.prems stop unfolding ata_answers_def by blast
    then have "n - length (polls bus (io ?s)) < n - length (polls bus (io s))" by simp
    moreover have "identifying bus (io ?s)" using identifying_polls [OF less.prems, of "[?v]"] by simp
    ultimately obtain ws where w: "f ?s = Some (?s\<lparr>io := map (In8 (bus + 7)) ws @ io ?s\<rparr>)"
      using less.hyps [of ?s] by blast
    have "f s = Some (s\<lparr>io := map (In8 (bus + 7)) (ws @ [?v]) @ io s\<rparr>)"
      using False w by (subst loop) (simp add: inb_polled)
    then show ?thesis by blast
  qed
qed

lemma ata_poll_answers:
  assumes "ata_answers env bus n" and "identifying bus (io s)"
  shows "\<exists>h. ata_poll env bus s = Some (s\<lparr>io := h\<rparr>)"
proof -
  have busy: "ata_busy env bus s = (case inb env (bus + 7) s of (v, s) \<Rightarrow> if v AND 128 = 0 then Some s else ata_busy env bus s)"
    for s by (subst ata_busy.simps) (simp split: prod.split)
  have request: "ata_request env bus s =
      (case inb env (bus + 7) s of (v, s) \<Rightarrow> if v AND 8 \<noteq> 0 then Some s else ata_request env bus s)"
    for s by (subst ata_request.simps) (simp split: prod.split)
  obtain vs where v: "ata_busy env bus s = Some (s\<lparr>io := map (In8 (bus + 7)) vs @ io s\<rparr>)"
    using answer_returns [OF busy ready_bits(1) assms] by blast
  let ?s = "s\<lparr>io := map (In8 (bus + 7)) vs @ io s\<rparr>"
  have "identifying bus (io ?s)" using identifying_polls [OF assms(2)] by simp
  then obtain ws where w: "ata_request env bus ?s = Some (?s\<lparr>io := map (In8 (bus + 7)) ws @ io ?s\<rparr>)"
    using answer_returns [OF request ready_bits(2) assms(1)] by blast
  then show ?thesis using v by (simp add: ata_poll_def) blast
qed

section \<open>The data\<close>

lemma ata_words_any:
  "\<exists>h bs. length bs = 2 * k \<and> ata_words env buffer bus 0 k s = s\<lparr>io := h, mem := store_bytes (mem s) buffer bs\<rparr>"
proof (induction k)
  case 0
  have "s\<lparr>io := io s, mem := store_bytes (mem s) buffer []\<rparr> = s" by simp
  then show ?case by (intro exI [of _ "io s"] exI [of _ "[]"]) (simp add: ata_words_def)
next
  case (Suc k)
  then obtain h bs where b: "length bs = 2 * k"
      "ata_words env buffer bus 0 k s = s\<lparr>io := h, mem := store_bytes (mem s) buffer bs\<rparr>" by blast
  let ?w = "ucast (env h bus) :: u16"
  have "ata_words env buffer bus 0 (Suc k) s = s\<lparr>io := In16 bus ?w # h,
      mem := store16 (store_bytes (mem s) buffer bs) (buffer + 2 * word_of_nat k) ?w\<rparr>"
    using b(2) by (simp add: ata_words_def inw_def Let_def)
  moreover have "buffer + 2 * word_of_nat k = buffer + word_of_nat (length bs)" using b(1) by simp
  ultimately have "ata_words env buffer bus 0 (Suc k) s = s\<lparr>io := In16 bus ?w # h,
      mem := store_bytes (mem s) buffer (bs @ [ucast ?w, ucast (drop_bit 8 ?w)])\<rparr>"
    by (simp only: store16_bytes store_bytes_append)
  then show ?case using b(1) by (intro exI [of _ "In16 bus ?w # h"] exI [of _ "bs @ [ucast ?w, ucast (drop_bit 8 ?w)]"]) simp
qed

lemma swap_returns:
  assumes "even i" and "even n" and "i \<le> n" and "n < 2 ^ 31"
  shows "\<exists>m'. ata_swap_from buffer data (word_of_nat n) (word_of_nat i) m = Some m' \<and> same_on (- region buffer n) m m'"
  using assms
proof (induction "n - i" arbitrary: i m rule: less_induct)
  case less
  have u: "unat (word_of_nat i :: u32) = i" "unat (word_of_nat n :: u32) = n" "unat (word_of_nat (Suc i) :: u32) = Suc i"
    using less.prems by (simp_all add: unat_of_nat_eq del: of_nat_Suc)
  show ?case
  proof (cases "i < n")
    case False
    then have "\<not> (word_of_nat i :: u32) < word_of_nat n" using u by (simp add: word_less_nat_alt)
    then show ?thesis by (subst ata_swap_from.simps) simp
  next
    case True
    then have Si: "Suc i < n" using less.prems by presburger
    let ?i = "word_of_nat i :: u32"
    let ?m = "store8 (store8 m (buffer + ?i) (m (data + (?i + 1)))) (buffer + (?i + 1))
        (store8 m (buffer + ?i) (m (data + (?i + 1))) (data + ?i))"
    have "?i < word_of_nat n" using True u by (simp add: word_less_nat_alt)
    then have step: "ata_swap_from buffer data (word_of_nat n) ?i m =
        ata_swap_from buffer data (word_of_nat n) (word_of_nat (i + 2)) ?m"
      by (subst ata_swap_from.simps) (simp add: Let_def add.commute)
    have "buffer + ?i \<in> region buffer n" "buffer + word_of_nat (Suc i) \<in> region buffer n"
      using True Si u by (intro region_offset; simp)+
    then have "same_on (- region buffer n) m ?m"
      by (intro same_on_trans [OF same_on_store8 same_on_store8]) (simp_all add: add.commute)
    moreover have "even (i + 2)" "n - (i + 2) < n - i" "i + 2 \<le> n" using less.prems(1) True Si by simp_all
    from less.hyps [OF this(2,1) less.prems(2) this(3) less.prems(4), of ?m]
    obtain m' where "ata_swap_from buffer data (word_of_nat n) (word_of_nat (i + 2)) ?m = Some m'"
      "same_on (- region buffer n) ?m m'" by blast
    ultimately show ?thesis using step same_on_trans by (metis (no_types, lifting))
  qed
qed

lemma string_swap_returns:
  assumes "even n" and "n < 2 ^ 31"
  obtains m' where "ata_string_swap buffer data (word_of_nat n) m = Some m'" "same_on (- region buffer n) m m'"
  using swap_returns [of 0 n buffer data m] assms by (auto simp: ata_string_swap_def)

text \<open>Trimming an array whose last byte is zero.\<close>

lemma strtrim_array:
  assumes "m (a + word_of_nat n) = 0" and "n < 2 ^ 31"
  obtains m' where "strtrim a c m = Some m'" "same_on (- region a n) m m'"
proof -
  let ?k = "LEAST k. m (a + word_of_nat k) = 0"
  have k: "m (a + word_of_nat ?k) = 0" "?k \<le> n" using LeastI [of "\<lambda>k. m (a + word_of_nat k) = 0", OF assms(1)]
    Least_le [of "\<lambda>k. m (a + word_of_nat k) = 0", OF assms(1)] by simp_all
  have "m (a + word_of_nat j) \<noteq> 0" if "j < ?k" for j using not_less_Least [OF that] .
  then have "0 \<notin> set (bytes_at m a ?k)" by (auto simp: bytes_at_def)
  then have "cstr m a (bytes_at m a ?k)" using k assms(2) by (simp add: cstr_def)
  from strtrim_cstr [OF this, of c] obtain m' where
    "strtrim a c m = Some m'" "same_on (- region a ?k) m m'" using k(2) assms(2) by auto
  moreover have "region a ?k \<subseteq> region a n" using k(2) by (rule region_mono)
  ultimately show ?thesis using that by (meson Compl_anti_mono same_on_mono)
qed

section \<open>The identification\<close>

text \<open>The three arrays, and the bytes of them the routine writes.\<close>

definition id_arrays :: "u32 \<Rightarrow> u32 \<Rightarrow> u32 \<Rightarrow> u32 set" where
  "id_arrays serial firmware model = region serial 20 \<union> region firmware 8 \<union> region model 40"

definition id_ends :: "u32 \<Rightarrow> u32 \<Rightarrow> u32 \<Rightarrow> u32 set" where
  "id_ends serial firmware model = {serial + 20, firmware + 8, model + 40}"

definition ids_ready :: "u32 \<Rightarrow> u32 \<Rightarrow> u32 \<Rightarrow> u32 set \<Rightarrow> memory \<Rightarrow> bool" where
  "ids_ready serial firmware model A m \<longleftrightarrow>
     id_arrays serial firmware model \<inter> id_ends serial firmware model = {} \<and>
     (id_arrays serial firmware model \<union> id_ends serial firmware model) \<inter> A = {} \<and>
     (\<forall>x \<in> id_ends serial firmware model. m x = 0)"

lemma ids_cong:
  assumes "ids_ready serial firmware model A m" and "same_on (- A - id_arrays serial firmware model) m m'"
  shows "ids_ready serial firmware model A m'"
proof -
  have "id_ends serial firmware model \<subseteq> - A - id_arrays serial firmware model"
    using assms(1) by (auto simp: ids_ready_def)
  then show ?thesis using assms unfolding ids_ready_def same_on_def by (metis subsetD)
qed

lemma identify_texts_return:
  assumes "ids_ready serial firmware model A m"
  obtains m' where "ata_identify_texts serial firmware model device m = Some m'"
    "same_on (- id_arrays serial firmware model) m m'"
proof -
  let ?W = "id_arrays serial firmware model" and ?E = "id_ends serial firmware model"
  have away: "?W \<inter> ?E = {}" and zero: "\<forall>x \<in> ?E. m x = 0" using assms by (simp_all add: ids_ready_def)
  have W: "region serial 20 \<subseteq> ?W" "region firmware 8 \<subseteq> ?W" "region model 40 \<subseteq> ?W" by (auto simp: id_arrays_def)
  have grow: "same_on (- ?W) m m2" if "same_on (- ?W) m m1" "same_on (- R) m1 m2" "R \<subseteq> ?W" for R m1 m2
    using that by (meson Compl_anti_mono same_on_mono same_on_trans)
  have ends: "m1 (serial + 20) = 0" "m1 (firmware + 8) = 0" "m1 (model + 40) = 0" if s: "same_on (- ?W) m m1" for m1
  proof -
    have "m1 x = 0" if "x \<in> ?E" for x using same_onD [OF s, of x] that away zero by auto
    then show "m1 (serial + 20) = 0" "m1 (firmware + 8) = 0" "m1 (model + 40) = 0" by (simp_all add: id_ends_def)
  qed
  obtain m1 where m1: "ata_string_swap serial (device + 20) 20 m = Some m1" "same_on (- region serial 20) m m1"
    using string_swap_returns [of 20 serial "device + 20" m] by auto
  note g1 = grow [OF same_on_refl m1(2) W(1)]
  obtain m2 where m2: "ata_string_swap firmware (device + 46) 8 m1 = Some m2" "same_on (- region firmware 8) m1 m2"
    using string_swap_returns [of 8 firmware "device + 46" m1] by auto
  note g2 = grow [OF g1 m2(2) W(2)]
  obtain m3 where m3: "ata_string_swap model (device + 54) 40 m2 = Some m3" "same_on (- region model 40) m2 m3"
    using string_swap_returns [of 40 model "device + 54" m2] by auto
  note g3 = grow [OF g2 m3(2) W(3)]
  obtain m4 where m4: "strtrim serial 32 m3 = Some m4" "same_on (- region serial 20) m3 m4"
    using strtrim_array [of m3 serial 20 32] ends(1) [OF g3] by auto
  note g4 = grow [OF g3 m4(2) W(1)]
  obtain m5 where m5: "strtrim firmware 32 m4 = Some m5" "same_on (- region firmware 8) m4 m5"
    using strtrim_array [of m4 firmware 8 32] ends(2) [OF g4] by auto
  note g5 = grow [OF g4 m5(2) W(2)]
  obtain m6 where m6: "strtrim model 32 m5 = Some m6" "same_on (- region model 40) m5 m6"
    using strtrim_array [of m5 model 40 32] ends(3) [OF g5] by auto
  note g6 = grow [OF g5 m6(2) W(3)]
  show ?thesis
    by (rule that [OF _ g6]) (simp add: ata_identify_texts_def m1(1) m2(1) m3(1) m4(1) m5(1) m6(1))
qed

text \<open>What the identification leaves: the blocks it was given, more of its own, and the rest of the memory.\<close>

definition identified :: "u32 \<Rightarrow> u32 \<Rightarrow> u32 \<Rightarrow> u32 set \<Rightarrow> (u32 \<rightharpoonup> u32) \<Rightarrow> kernel \<Rightarrow> kernel \<Rightarrow> bool" where
  "identified serial firmware model A L s s' \<longleftrightarrow> (\<exists>L'. L \<subseteq>\<^sub>m L' \<and> heap_holds s' A L') \<and>
     effect ((- A \<union> blocks L) - id_arrays serial firmware model) s s'"

lemma ata_identify_outcome:
  assumes drive: "ata_answers env bus n" and h: "heap_holds s A L" and ids: "ids_ready serial firmware model A (mem s)"
  shows "outcome (ata_identify env serial firmware model bus disk s) (\<lambda>_. identified serial firmware model A L s)"
proof -
  let ?W = "id_arrays serial firmware model" and ?b6 = "ucast disk :: u8"
  define h0 where "h0 = Out8 (bus + 7) 236 # Out8 (bus + 5) 0 # Out8 (bus + 4) 0 # Out8 (bus + 3) 0 # Out8 (bus + 2) 0 #
      Out8 (bus + 6) ?b6 # io s"
  define v where "v = (ucast (env h0 (bus + 7)) :: u8)"
  define s1 where "s1 = s\<lparr>io := In8 (bus + 7) v # h0\<rparr>"
  have run: "ata_identify env serial firmware model bus disk s =
      (if v = 0 then ret () s1
       else case ata_poll env bus s1 of
              None \<Rightarrow> None
            | Some s \<Rightarrow>
                if v AND 1 \<noteq> 0 then ret () s
                else andthen (malloc 512 s) (\<lambda>data s.
                  let s = ata_words env data bus 0 256 s in
                  case ata_identify_texts serial firmware model data (mem s) of
                    None \<Rightarrow> None
                  | Some m \<Rightarrow> ret () (s\<lparr>mem := m\<rparr>)))"
  proof -
    have "inb env (bus + 7) (outb (bus + 7) 236 (outb (bus + 5) 0 (outb (bus + 4) 0 (outb (bus + 3) 0 (outb (bus + 2) 0
        (outb (bus + 6) ?b6 s)))))) = (v, s1)"
      by (simp add: outb_def inb_def Let_def s1_def v_def h0_def)
    then show ?thesis by (simp only: ata_identify_def Let_def prod.case)
  qed
  have io: "identified serial firmware model A L s (s\<lparr>io := h'\<rparr>)" for h'
    unfolding identified_def
  proof (intro conjI exI)
    show "L \<subseteq>\<^sub>m L" by simp
    show "heap_holds (s\<lparr>io := h'\<rparr>) A L" using h by simp
  qed (simp add: effect_def)
  show ?thesis
  proof (cases "v = 0")
    case True
    then show ?thesis using io run unfolding s1_def by (auto intro: outcome_ret)
  next
    case False
    have "polls bus h0 = []" by (simp add: h0_def)
    then have "identifying bus (io s1)" using False by (simp add: identifying_def s1_def) (simp add: h0_def)
    from ata_poll_answers [OF drive this] obtain h2 where p: "ata_poll env bus s1 = Some (s\<lparr>io := h2\<rparr>)"
      by (auto simp: s1_def)
    show ?thesis
    proof (cases "v AND 1 = 0")
      case v1: False
      then show ?thesis using io run p False by (auto intro: outcome_ret)
    next
      case True
      have h2: "heap_holds (s\<lparr>io := h2\<rparr>) A L" using h by simp
      have "outcome (andthen (malloc 512 (s\<lparr>io := h2\<rparr>)) (\<lambda>data s.
          let s = ata_words env data bus 0 256 s in
          case ata_identify_texts serial firmware model data (mem s) of
            None \<Rightarrow> None
          | Some m \<Rightarrow> ret () (s\<lparr>mem := m\<rparr>))) (\<lambda>_. identified serial firmware model A L s)"
      proof (rule outcome_andthen [OF malloc_outcome [OF h2]])
        fix p s3
        assume "\<exists>k\<ge>512. L p = None \<and> p \<noteq> 0 \<and> heap_holds s3 A (L(p \<mapsto> k)) \<and> effect (- A \<union> blocks L) (s\<lparr>io := h2\<rparr>) s3"
        then obtain k where k: "512 \<le> k" and Lp: "L p = None" and h3: "heap_holds s3 A (L(p \<mapsto> k))"
          and e3: "effect (- A \<union> blocks L) (s\<lparr>io := h2\<rparr>) s3" by blast
        let ?L = "L(p \<mapsto> k)"
        have "effect (- A \<union> blocks L) s (s\<lparr>io := h2\<rparr>)" by (simp add: effect_def)
        then have e03: "effect (- A \<union> blocks L) s s3" using e3 by (rule effect_trans)
        have k512: "512 \<le> unat k" using k by (simp add: word_le_nat_alt)
        obtain h4 bs where w: "length bs = 2 * 256"
            "ata_words env p bus 0 256 s3 = s3\<lparr>io := h4, mem := store_bytes (mem s3) p bs\<rparr>"
          using ata_words_any [of 256 env p bus s3] by blast
        let ?s4 = "s3\<lparr>io := h4, mem := store_bytes (mem s3) p bs\<rparr>"
        have "region p 512 \<subseteq> region p (unat k)" using k512 by (rule region_mono)
        then have e4: "effect (- region p (unat k)) s3 ?s4"
          using w(1) by (intro effect_io_mem same_on_store_bytes) auto
        note f = fresh_effect [of s3 A ?L p k L, OF h3 _ Lp map_le_upd [of L p k, OF Lp] e4]
        have e04: "effect (- A \<union> blocks L) s ?s4" using effect_trans [OF e03 f(2)] by simp
        then have "same_on (- A - ?W) (mem s) (mem ?s4)" by (auto simp: effect_def intro: same_on_mono)
        note ids4 = ids_cong [OF ids this]
        obtain m' where m': "ata_identify_texts serial firmware model p (mem ?s4) = Some m'" "same_on (- ?W) (mem ?s4) m'"
          using identify_texts_return [OF ids4] .
        have e5: "effect (- ?W) ?s4 (?s4\<lparr>mem := m'\<rparr>)" by (rule effect_mem [OF m'(2)])
        have "A \<subseteq> - ?W" using ids by (auto simp: ids_ready_def)
        then have h5: "heap_holds (?s4\<lparr>mem := m'\<rparr>) A ?L"
          using f(1) by (intro outside_write [OF _ effect_mono [OF e5]]) simp_all
        have "effect ((- A \<union> blocks L) - ?W) s (?s4\<lparr>mem := m'\<rparr>)"
          by (rule effect_trans [OF effect_mono [OF e04] effect_mono [OF e5]]) auto
        then have "identified serial firmware model A L s (?s4\<lparr>mem := m'\<rparr>)"
          using h5 map_le_upd [of L p k, OF Lp] unfolding identified_def by blast
        then show "outcome (let s = ata_words env p bus 0 256 s3 in
            case ata_identify_texts serial firmware model p (mem s) of
              None \<Rightarrow> None | Some m \<Rightarrow> ret () (s\<lparr>mem := m\<rparr>)) (\<lambda>_. identified serial firmware model A L s)"
          unfolding Let_def w(2) m'(1) option.case by (rule outcome_ret)
      qed simp
      then show ?thesis using run p False True by simp
    qed
  qed
qed

lemma ata_init_outcome:
  assumes drive: "ata_answers env 496 n" and h: "heap_holds s A L" and ids: "ids_ready serial firmware model A (mem s)"
  shows "outcome (ata_init env serial firmware model s) (\<lambda>_. identified serial firmware model A L s)"
  unfolding ata_init_def
proof (rule outcome_andthen [OF ata_identify_outcome [OF drive h ids]])
  fix u s1
  assume "identified serial firmware model A L s s1"
  then obtain L1 where L1: "L \<subseteq>\<^sub>m L1" "heap_holds s1 A L1"
    and e1: "effect ((- A \<union> blocks L) - id_arrays serial firmware model) s s1" by (auto simp: identified_def)
  have "same_on (- A - id_arrays serial firmware model) (mem s) (mem s1)"
    using e1 by (auto simp: effect_def intro: same_on_mono)
  note ids1 = ids_cong [OF ids this]
  show "outcome (ata_identify env serial firmware model 496 176 s1) (\<lambda>_. identified serial firmware model A L s)"
  proof (rule outcome_mono [OF ata_identify_outcome [OF drive L1(2) ids1]])
    fix u s2
    assume "identified serial firmware model A L1 s1 s2"
    then obtain L2 where L2: "L1 \<subseteq>\<^sub>m L2" "heap_holds s2 A L2"
      and e2: "effect ((- A \<union> blocks L1) - id_arrays serial firmware model) s1 s2" by (auto simp: identified_def)
    have "effect ((- A \<union> blocks L) - id_arrays serial firmware model) s s2"
      by (rule effect_trans [OF e1 effect_mono [OF e2]]) (use blocks_mono [OF L1(1)] in blast)
    then show "identified serial firmware model A L s s2"
      using map_le_trans [OF L1(1) L2(1)] L2(2) unfolding identified_def by blast
  qed
qed

end
