(* ===== verification/Startup.thy ===== *)
theory Startup
  imports Boot Dispatch Pci Elf_Load Ata_Identify
begin

text \<open>
  The start of the kernel, \<open>main\<close> of \<open>kernel.c\<close>, up to the endless loop at its end, and what its steps do. Interrupts that
  are taken between the steps are not part of it; a failed assertion of a component ends it.
\<close>

section \<open>What the compiler and the linker fix\<close>

text \<open>
  The addresses of literals and of the entry points of the file system driver, of the routines of \<open>isr.s\<close>, of the end of the
  kernel, of the buffers of \<open>dprintf\<close> and of the conversions, and of the arrays of \<open>ata_identify\<close>.
\<close>

record layout =
  at_literal :: "string \<Rightarrow> u32"
  at_entry :: "string \<Rightarrow> u32"
  at_isr :: "nat \<Rightarrow> u32"
  at_ignore :: u32
  at_end :: u32
  at_itoa :: u32
  at_conv :: u32
  at_log :: u32
  at_serial :: u32
  at_firmware :: u32
  at_model :: u32

section \<open>The routine\<close>

definition main_report :: "layout \<Rightarrow> environment \<Rightarrow> u32 \<Rightarrow> kernel \<Rightarrow> unit krun" where
  "main_report lay env b s =
    andthen (printf (at_itoa lay) (at_literal lay ''%f(kernel)\<newline>'') [0x0F03] (display_init env s)) (\<lambda>_.
      boot_report env (at_literal lay) (at_conv lay) (at_log lay) b)"

text \<open>The result is the limit in the processor's table register and the flags register.\<close>

definition main_interrupts :: "layout \<Rightarrow> u32 \<Rightarrow> kernel \<Rightarrow> (u16 \<times> u32) krun" where
  "main_interrupts lay eflags s =
    andthen (exceptions_init s) (\<lambda>_ s.
      case irq_init (at_isr lay) (at_ignore lay) s of (limit, s) \<Rightarrow>
        let s = pic_init s;
            eflags = irq_enable eflags
        in andthen (syscall_init s) (\<lambda>_ s. andthen (scheduler_init s) (\<lambda>_. ret (limit, eflags))))"

definition main_devices :: "layout \<Rightarrow> environment \<Rightarrow> u32 \<Rightarrow> kernel \<Rightarrow> unit krun" where
  "main_devices lay env b s =
    andthen (pit_init s) (\<lambda>_ s.
    andthen (keyboard_init env s) (\<lambda>_ s.
    andthen (pci_init env s) (\<lambda>_ s.
    andthen (ata_init env (at_serial lay) (at_firmware lay) (at_model lay) (serial_init 1016 s)) (\<lambda>_ s.
    andthen (fat12_init (at_entry lay) (ucast (boot_bpb (mem s) b)) s) (\<lambda>driver s.
      ret () (fs_mount driver 72 s))))))"

definition main :: "layout \<Rightarrow> environment \<Rightarrow> u32 \<Rightarrow> u32 \<Rightarrow> kernel \<Rightarrow> (u16 \<times> u32) krun" where
  "main lay env b eflags s =
    andthen (main_report lay env b s) (\<lambda>_ s.
    andthen (malloc_init (at_end lay) (boot_memory_map b) s) (\<lambda>_ s.
    andthen (main_interrupts lay eflags s) (\<lambda>regs s.
    andthen (main_devices lay env b s) (\<lambda>_ s.
    andthen (scheduler_enable s) (\<lambda>_. ret regs)))))"

section \<open>Steps that touch no memory\<close>

lemma outb_state: "\<exists>h. outb p v s = s\<lparr>io := h\<rparr>"
  by (simp add: outb_def) (rule exI, rule refl)

lemma serial_init_state: "\<exists>h. serial_init p s = s\<lparr>io := h\<rparr>"
  by (simp add: serial_init_def outb_def Let_def) (rule exI, rule refl)

lemma pic_init_state: "\<exists>h. pic_init s = s\<lparr>io := h\<rparr>"
  by (simp add: pic_init_def outb_def Let_def) (rule exI, rule refl)

lemma pit_init_run: "\<exists>h. pit_init s = ret () (s\<lparr>io := h, handlers := (handlers s)(32 := Some Pit_handle_irq)\<rparr>)"
  by (simp add: pit_init_def outb_def Let_def irq_init_handler_def) (rule exI, rule refl)

definition keyboard_quiet :: "environment \<Rightarrow> nat \<Rightarrow> bool" where
  "keyboard_quiet env n \<longleftrightarrow> (\<forall>h. n \<le> length h \<longrightarrow> (ucast (env h 100) :: u8) AND 1 = 0)"

lemma keyboard_drain_returns:
  assumes "keyboard_quiet env n"
  shows "\<exists>h. keyboard_drain env s = Some (s\<lparr>io := h\<rparr>)"
proof (induction "n - length (io s)" arbitrary: s rule: less_induct)
  case less
  let ?v = "ucast (env (io s) 100) :: u8"
  let ?h = "In8 100 ?v # io s"
  show ?case
  proof (cases "?v AND 1 = 0")
    case True
    then have "keyboard_drain env s = Some (s\<lparr>io := ?h\<rparr>)" by (subst keyboard_drain.simps) (simp add: inb_def Let_def)
    then show ?thesis by blast
  next
    case False
    then have "length (io s) < n" using assms by (metis not_le keyboard_quiet_def)
    let ?s = "s\<lparr>io := In8 96 (ucast (env ?h 96)) # ?h\<rparr>"
    have "n - length (io ?s) < n - length (io s)" using \<open>length (io s) < n\<close> by simp
    from less [OF this] obtain h where "keyboard_drain env ?s = Some (?s\<lparr>io := h\<rparr>)" by blast
    then have "keyboard_drain env s = Some (s\<lparr>io := h\<rparr>)"
      using False by (subst keyboard_drain.simps) (simp add: inb_def Let_def)
    then show ?thesis by blast
  qed
qed

lemma keyboard_init_run:
  assumes "keyboard_quiet env n"
  shows "\<exists>h. keyboard_init env s = ret () (s\<lparr>handlers := (handlers s)(33 := Some Keyboard_handle_irq), io := h\<rparr>)"
proof -
  let ?s = "s\<lparr>handlers := (handlers s)(33 := Some Keyboard_handle_irq)\<rparr>"
  obtain h where "keyboard_drain env ?s = Some (?s\<lparr>io := h\<rparr>)" using keyboard_drain_returns [OF assms] by blast
  then show ?thesis
    by (simp add: keyboard_init_def irq_init_handler_def outb_def inb_def Let_def) (rule exI, rule refl)
qed

section \<open>The report\<close>

text \<open>The memory the display, the conversions and the log write.\<close>

definition scratch :: "layout \<Rightarrow> u32 set" where
  "scratch lay = display_area \<union> region (at_itoa lay) 12 \<union> output_area (at_conv lay) (at_log lay) 1023"

text \<open>A step that changes only memory in \<open>W\<close>, the port history and the cursor.\<close>

definition outputs :: "u32 set \<Rightarrow> kernel \<Rightarrow> kernel \<Rightarrow> bool" where
  "outputs W s s' \<longleftrightarrow> same_on (- W) (mem s) (mem s') \<and> s'\<lparr>mem := mem s, cursor := cursor s, io := io s\<rparr> = s"

lemma outputs_trans:
  assumes "outputs W s s'" and "outputs W s' s''"
  shows "outputs W s s''"
proof -
  have "s''\<lparr>mem := mem s, cursor := cursor s, io := io s\<rparr> =
      (s''\<lparr>mem := mem s', cursor := cursor s', io := io s'\<rparr>)\<lparr>mem := mem s, cursor := cursor s, io := io s\<rparr>" by simp
  with assms same_on_trans show ?thesis unfolding outputs_def by metis
qed

lemma outputs_state:
  assumes "outputs W s s'"
  shows "s' = s\<lparr>io := io s', cursor := cursor s', mem := mem s'\<rparr>"
proof -
  have "s'\<lparr>mem := mem s, cursor := cursor s, io := io s\<rparr>\<lparr>io := io s', cursor := cursor s', mem := mem s'\<rparr> =
      s\<lparr>io := io s', cursor := cursor s', mem := mem s'\<rparr>"
    using assms by (simp only: outputs_def)
  then show ?thesis by simp
qed

lemma kept_outputs: "kept X s s' \<Longrightarrow> display_area \<union> X \<subseteq> W \<Longrightarrow> outputs W s s'"
  unfolding kept_def outputs_def by (meson Compl_anti_mono same_on_mono)

lemma logs_outputs:
  assumes "logs conv buffer t s s'" and "output_area conv buffer 1023 \<subseteq> W"
  shows "outputs W s s'"
proof -
  have eq: "s'\<lparr>io := io s, mem := mem s\<rparr> = s" using assms(1) by (simp add: logs_def)
  have "cursor s' = cursor (s'\<lparr>io := io s, mem := mem s\<rparr>)" by simp
  then have "cursor s' = cursor s" by (simp only: eq)
  then have "s'\<lparr>mem := mem s, cursor := cursor s, io := io s\<rparr> = s'\<lparr>mem := mem s, io := io s\<rparr>" by simp
  also have "\<dots> = s'\<lparr>io := io s, mem := mem s\<rparr>" by (rule kernel.equality) simp_all
  also note eq
  finally show ?thesis
    using assms same_on_mono [of "- output_area conv buffer 1023" "mem s" "mem s'" "- W"] by (auto simp: outputs_def logs_def)
qed

text \<open>The boot information and the literals, before the report.\<close>

definition report_inputs :: "layout \<Rightarrow> environment \<Rightarrow> (u8 \<Rightarrow> u8) \<Rightarrow> nat \<Rightarrow> strings \<Rightarrow> u32 \<Rightarrow> map_entry list \<Rightarrow> memory \<Rightarrow> bool" where
  "report_inputs lay env regs n strings b es m \<longleftrightarrow> serial_line env 1016 n \<and> rtc_chip env regs n \<and>
     report_ready (at_literal lay) (at_conv lay) (at_log lay) strings m \<and>
     (\<exists>vendor. strings (boot_cpuid b) = Some vendor \<and> length vendor \<le> 900) \<and>
     strings (at_literal lay ''%f(kernel)\<newline>'') = Some (char_codes ''%f(kernel)\<newline>'') \<and>
     (\<forall>a t. strings a = Some t \<longrightarrow> region a (Suc (length t)) \<inter> (display_area \<union> region (at_itoa lay) 12) = {}) \<and>
     region (at_itoa lay) 12 \<inter> display_area = {} \<and> mmap_at m (boot_memory_map b) es \<and>
     (region b 36 \<union> mmap_foot m (boot_memory_map b) (length es)) \<inter> scratch lay = {}"

lemma strings_cstr:
  "log_ready conv buffer strings m \<Longrightarrow> strings a = Some t \<Longrightarrow> cstr m a t"
  by (simp add: log_ready_def)

lemma main_report_run:
  assumes inp: "report_inputs lay env regs n strings b es (mem s)"
  shows "\<exists>s'. main_report lay env b s = ret () s' \<and> outputs (scratch lay) s s'"
proof -
  let ?lit = "at_literal lay" and ?conv = "at_conv lay" and ?log = "at_log lay" and ?itoa = "at_itoa lay"
  let ?shown = "display_area \<union> region ?itoa 12" and ?map = "boot_memory_map b"
  let ?foot = "mmap_foot (mem s) ?map (length es)"
  have line: "serial_line env 1016 n" "rtc_chip env regs n" and ready: "report_ready ?lit ?conv ?log strings (mem s)"
    and title: "strings (?lit ''%f(kernel)\<newline>'') = Some (char_codes ''%f(kernel)\<newline>'')"
    and strs: "\<And>a t. strings a = Some t \<Longrightarrow> region a (Suc (length t)) \<inter> ?shown = {}"
    and itoa: "region ?itoa 12 \<inter> display_area = {}" and at: "mmap_at (mem s) ?map es"
    and foot: "(region b 36 \<union> ?foot) \<inter> scratch lay = {}"
    using inp by (simp_all add: report_inputs_def)
  obtain vendor where v: "strings (boot_cpuid b) = Some vendor" "length vendor \<le> 900"
    using inp by (auto simp: report_inputs_def)
  define s1 where "s1 = display_init env s"
  have k1: "kept (region ?itoa 12) s s1" and d1: "display_ok s1" unfolding s1_def by (rule display_init_kept)+
  have keep: "report_ready ?lit ?conv ?log strings m" if "same_on (- ?shown) (mem s) m" for m
  proof -
    have "cstr m a t" if a: "strings a = Some t" for a t
    proof -
      have "same_on (region a (Suc (length t))) (mem s) m"
        using \<open>same_on (- ?shown) (mem s) m\<close> by (rule same_on_mono) (use strs [OF a] in blast)
      moreover have "cstr (mem s) a t" using ready a by (simp add: report_ready_def log_ready_def)
      ultimately show ?thesis by (rule cstr_cong)
    qed
    then show ?thesis using ready by (simp add: report_ready_def log_ready_def)
  qed
  have m1: "same_on (- ?shown) (mem s) (mem s1)" using k1 by (simp add: kept_def)
  note r1 = keep [OF m1]
  then have l1: "log_ready ?conv ?log strings (mem s1)" by (simp add: report_ready_def)
  have "printf_ready ?itoa (?lit ''%f(kernel)\<newline>'') (char_codes ''%f(kernel)\<newline>'') strings s1"
    using d1 itoa title strs strs [OF title] strings_cstr [OF l1] by (simp add: printf_ready_def)
  moreover have "\<exists>out. printf_out strings (char_codes ''%f(kernel)\<newline>'') default_attribute [0x0F03] = Some out"
    by (simp add: char_codes_def)
  ultimately obtain s2 out where s2: "printf ?itoa (?lit ''%f(kernel)\<newline>'') [0x0F03] s1 = ret () s2"
      "prints out (region ?itoa 12) s1 s2"
    using printf_prints by blast
  have k2: "kept (region ?itoa 12) s s2" using kept_trans [OF k1] s2(2) by (simp add: prints_def)
  then have m2: "same_on (- ?shown) (mem s) (mem s2)" by (simp add: kept_def)
  have shown: "?shown \<subseteq> scratch lay" "output_area ?conv ?log 1023 \<subseteq> scratch lay" by (auto simp: scratch_def)
  have foot2: "same_on ?foot (mem s) (mem s2)" using foot shown(1) by (intro same_on_mono [OF m2]) blast
  note cong = mmap_cong [OF foot2]
  have "mmap_at (mem s2) ?map es" using at cong by (simp add: mmap_at_def Let_def)
  moreover have "mmap_foot (mem s2) ?map (length es) = ?foot" by (simp add: mmap_foot_def cong(2))
  moreover have "(region b 36 \<union> ?foot) \<inter> output_area ?conv ?log 1023 = {}" using foot shown(2) by blast
  ultimately obtain s3 t where s3: "boot_report env ?lit ?conv ?log b s2 = ret () s3" "logs ?conv ?log t s2 s3"
    using boot_report_lines [OF line keep [OF m2] v, of es] by auto
  have "main_report lay env b s = ret () s3" using s2(1) s3(1) by (simp add: main_report_def s1_def)
  moreover have "outputs (scratch lay) s s3"
    using kept_outputs [OF k2 shown(1)] logs_outputs [OF s3(2) shown(2)] by (rule outputs_trans)
  ultimately show ?thesis by blast
qed

end
