(* ===== verification/Startup_Run.thy ===== *)
theory Startup_Run
  imports Startup
begin

text \<open>
  The outcome of the steps of \<open>main\<close> from the heap on: the tables of the interrupts, the scheduler with its empty list, the
  devices, and the mounted volume.
\<close>

section \<open>The tables\<close>

text \<open>The static variables that the steps before a step have set and the step keeps.\<close>

definition tables :: "kernel \<Rightarrow> (nat \<Rightarrow> idt_entry) \<times> (nat \<Rightarrow> handler option) \<times> u32 \<times> u32 \<times> bool \<times> (nat \<Rightarrow> u32)" where
  "tables s = (entries s, handlers s, plist s, current s, enabled s, drivers s)"

lemma tables_update [simp]:
  "tables (s\<lparr>mem := m\<rparr>) = tables s" "tables (s\<lparr>io := h\<rparr>) = tables s" "tables (s\<lparr>devices := d\<rparr>) = tables s"
  "tables (s\<lparr>device_count := w\<rparr>) = tables s" "tables (s\<lparr>bpb := w\<rparr>) = tables s" "tables (s\<lparr>lba_fat1 := w\<rparr>) = tables s"
  "tables (s\<lparr>lba_root := w\<rparr>) = tables s" "tables (s\<lparr>lba_data := w\<rparr>) = tables s" "tables (s\<lparr>ata_bus := w\<rparr>) = tables s"
  by (simp_all add: tables_def)

lemma heap_holds_tables [simp]:
  "heap_holds (s\<lparr>entries := f\<rparr>) A L = heap_holds s A L" "heap_holds (s\<lparr>handlers := g\<rparr>) A L = heap_holds s A L"
  "heap_holds (s\<lparr>bpb := w\<rparr>) A L = heap_holds s A L" "heap_holds (s\<lparr>lba_fat1 := w\<rparr>) A L = heap_holds s A L"
  "heap_holds (s\<lparr>lba_root := w\<rparr>) A L = heap_holds s A L" "heap_holds (s\<lparr>lba_data := w\<rparr>) A L = heap_holds s A L"
  "heap_holds (s\<lparr>ata_bus := w\<rparr>) A L = heap_holds s A L"
  by (simp_all add: heap_holds_def heap_inv_def)

lemma effect_tables:
  assumes "effect K s s'"
  shows "tables s' = tables s" "device_count s' = device_count s"
proof -
  obtain h m where "s' = s\<lparr>io := h, mem := m\<rparr>" using assms by (rule effect_state)
  then show "tables s' = tables s" "device_count s' = device_count s" by simp_all
qed

lemma malloc_tables: "malloc n s = ret p s' \<Longrightarrow> tables s' = tables s"
  by (auto simp: malloc_def Let_def split: if_splits option.splits)

section \<open>The scheduler\<close>

lemma zero_words:
  assumes "\<And>x. x \<in> region p 8 \<Longrightarrow> m x = 0"
  shows "load32 m p = 0" "load32 m (p + 4) = 0"
proof -
  have same: "same_on (region p 8) (\<lambda>_. 0) m" using assms by (simp add: same_on_def)
  have sub: "region p 4 \<subseteq> region p 8" "region (p + 4) 4 \<subseteq> region p 8"
    using region_mono [of 4 8 p] region_shift_subset [of 4 4 8 p] by simp_all
  show "load32 m p = 0" using load32_cong [OF same_on_mono [OF same sub(1)]] by (simp add: load32_def)
  show "load32 m (p + 4) = 0" using load32_cong [OF same_on_mono [OF same sub(2)]] by (simp add: load32_def)
qed

lemma scheduler_init_outcome:
  assumes inv: "heap_inv s cs" and h: "heap_holds s A Map.empty" and zero: "\<And>x. x \<in> A - headers cs \<Longrightarrow> mem s x = 0"
  shows "outcome (scheduler_init s) (\<lambda>_ s'. (\<exists>k. sched_rep s' A [plist s' \<mapsto> k] []) \<and> same_on (- A) (mem s) (mem s') \<and>
    (\<exists>p m. s' = s\<lparr>mem := m, plist := p, current := 0, enabled := False\<rparr>))"
proof (cases rule: malloc_cases [OF h, of 8])
  case 2
  then show ?thesis by (simp add: scheduler_init_def list_create_def)
next
  case (3 p k m)
  let ?s = "s\<lparr>mem := m, plist := p, current := 0, enabled := False\<rparr>"
  have k: "8 \<le> unat k" using 3(2) by (simp add: word_le_nat_alt)
  have fresh: "same_on (region p 8) (mem s) m" "region p 8 \<inter> headers cs = {}"
    using malloc_fresh_bytes [OF inv _ 3(1)] by simp_all
  have sub: "region p 8 \<subseteq> A"
    using kheap.block_range [OF 3(4), of p k] region_mono [OF k, of p] by auto
  have "m x = 0" if "x \<in> region p 8" for x
    using zero [of x] that fresh sub same_onD [OF fresh(1) that] by auto
  note z = zero_words [OF this]
  have "heap_holds ?s A [p \<mapsto> k]" using 3(4) by simp
  then have "sched_rep ?s A [plist ?s \<mapsto> k] []"
    using z 3(2) by (simp add: sched_rep_def list_rep_def list_blocks_def list_head_def list_length_def)
  moreover have "same_on (- A) (mem s) (mem ?s)" using 3(5) by (auto intro: same_on_mono)
  moreover have "scheduler_init s = ret () ?s" using 3(1,6) by (simp add: scheduler_init_def list_create_def)
  ultimately show ?thesis by (auto intro!: outcome_ret)
qed simp

section \<open>The interrupts\<close>

text \<open>The handlers that are registered, and the descriptors.\<close>

definition first_handlers :: "nat \<Rightarrow> handler option" where
  "first_handlers n = (if n < 32 then Some Exceptions_handle_irq else if n = 128 then Some Syscall_handle_irq else None)"

definition gates :: "layout \<Rightarrow> (nat \<Rightarrow> idt_entry) \<Rightarrow> bool" where
  "gates lay f \<longleftrightarrow> (\<forall>n < 255. f n = irq_init_idt 8 (if n < 48 \<or> n = 128 then at_isr lay n else at_ignore lay) 0 14)"

lemma irq_init_run:
  "\<exists>f. irq_init (at_isr lay) (at_ignore lay) s = (2039, s\<lparr>entries := f\<rparr>) \<and> gates lay f"
proof -
  have fold: "\<exists>f. fold (\<lambda>i. set_gate i (g i)) xs s = s\<lparr>entries := f\<rparr>" for g :: "nat \<Rightarrow> u32" and xs and s :: kernel
  proof (induction xs arbitrary: s)
    case Nil
    show ?case by (intro exI [of _ "entries s"]) simp
  next
    case (Cons x xs)
    show ?case using Cons.IH [of "set_gate x (g x) s"] by (auto simp: set_gate_def)
  qed
  define s1 where "s1 = fold (\<lambda>i. set_gate i (at_ignore lay)) [0..<255] s"
  define s2 where "s2 = fold (\<lambda>i. set_gate i (at_isr lay i)) [0..<48] s1"
  let ?s3 = "set_gate 128 (at_isr lay 128) s2"
  obtain f1 where f1: "s1 = s\<lparr>entries := f1\<rparr>" using fold [of "\<lambda>_. at_ignore lay"] unfolding s1_def by blast
  obtain f2 where "s2 = s1\<lparr>entries := f2\<rparr>" using fold unfolding s2_def by blast
  with f1 have s2: "s2 = s\<lparr>entries := f2\<rparr>" by simp
  have "?s3 = s\<lparr>entries := entries ?s3\<rparr>" by (simp add: s2 set_gate_def)
  moreover have "entries ?s3 n = irq_init_idt 8 (if n < 48 \<or> n = 128 then at_isr lay n else at_ignore lay) 0 14" if n: "n < 255" for n
  proof -
    have "entries s1 n = irq_init_idt 8 (at_ignore lay) 0 14"
      using n set_gate_fold [of "\<lambda>_. at_ignore lay" 255 s n] by (simp only: s1_def if_True)
    moreover have "entries s2 n = (if n < 48 then irq_init_idt 8 (at_isr lay n) 0 14 else entries s1 n)"
      unfolding s2_def by (rule set_gate_fold)
    ultimately show ?thesis by (simp add: set_gate_def)
  qed
  moreover have "irq_init (at_isr lay) (at_ignore lay) s = (2039, ?s3)" by (simp only: irq_init_def Let_def s1_def s2_def) simp
  ultimately show ?thesis unfolding gates_def by metis
qed

definition interrupts_ready :: "layout \<Rightarrow> u32 set \<Rightarrow> kernel \<Rightarrow> kernel \<Rightarrow> bool" where
  "interrupts_ready lay A s s' \<longleftrightarrow> (\<exists>k. sched_rep s' A [plist s' \<mapsto> k] []) \<and> same_on (- A) (mem s) (mem s') \<and>
     gates lay (entries s') \<and> handlers s' = first_handlers \<and> \<not> enabled s' \<and> current s' = 0 \<and>
     drivers s' = drivers s \<and> device_count s' = device_count s"

lemma main_interrupts_outcome:
  assumes inv: "heap_inv s cs" and h: "heap_holds s A Map.empty" and zero: "\<And>x. x \<in> A - headers cs \<Longrightarrow> mem s x = 0"
    and none: "handlers s = (\<lambda>_. None)"
  shows "outcome (main_interrupts lay eflags s) (\<lambda>r s'. r = (2039, irq_enable eflags) \<and> interrupts_ready lay A s s')"
proof -
  obtain f where f: "\<And>s. irq_init (at_isr lay) (at_ignore lay) (s :: kernel) = (2039, s\<lparr>entries := f s\<rparr>) \<and> gates lay (f s)"
    using irq_init_run by metis
  let ?h1 = "\<lambda>n. if n < 32 then Some Exceptions_handle_irq else handlers s n"
  let ?s1 = "s\<lparr>handlers := ?h1\<rparr>"
  let ?s2 = "?s1\<lparr>entries := f ?s1\<rparr>"
  obtain h3 where h3: "pic_init ?s2 = ?s2\<lparr>io := h3\<rparr>" using pic_init_state by blast
  let ?h4 = "?h1(128 := Some Syscall_handle_irq)"
  let ?s4 = "s\<lparr>handlers := ?h4, entries := f ?s1, io := h3\<rparr>"
  have s4: "?s2\<lparr>io := h3\<rparr>\<lparr>handlers := ?h4\<rparr> = ?s4" by (rule kernel.equality) simp_all
  have run: "main_interrupts lay eflags s = andthen (scheduler_init ?s4) (\<lambda>_. ret (2039, irq_enable eflags))"
    by (simp only: main_interrupts_def exceptions_init_run andthen_ret f [of ?s1, THEN conjunct1] split Let_def h3
          syscall_init_def irq_init_handler_def)
      (simp add: s4 [symmetric])
  have "heap_inv ?s4 cs" using inv by (simp add: heap_inv_def)
  moreover have "heap_holds ?s4 A Map.empty" using h by simp
  moreover have "mem ?s4 x = 0" if "x \<in> A - headers cs" for x using zero [OF that] by simp
  ultimately have out: "outcome (scheduler_init ?s4) (\<lambda>_ s'. (\<exists>k. sched_rep s' A [plist s' \<mapsto> k] []) \<and>
      same_on (- A) (mem ?s4) (mem s') \<and> (\<exists>p m. s' = ?s4\<lparr>mem := m, plist := p, current := 0, enabled := False\<rparr>))"
    by (rule scheduler_init_outcome)
  have h4: "?h4 = first_handlers" by (simp add: fun_eq_iff first_handlers_def none)
  show ?thesis unfolding run
  proof (rule outcome_andthen [OF out])
    fix u s'
    assume a: "(\<exists>k. sched_rep s' A [plist s' \<mapsto> k] []) \<and> same_on (- A) (mem ?s4) (mem s') \<and>
      (\<exists>p m. s' = ?s4\<lparr>mem := m, plist := p, current := 0, enabled := False\<rparr>)"
    then obtain p m where s': "s' = ?s4\<lparr>mem := m, plist := p, current := 0, enabled := False\<rparr>" by blast
    have "entries s' = f ?s1" "handlers s' = ?h4" "enabled s' = False" "current s' = 0" "drivers s' = drivers s"
        "device_count s' = device_count s"
      unfolding s' by simp_all
    moreover have "same_on (- A) (mem s) (mem s')" using a by simp
    ultimately have "interrupts_ready lay A s s'" using a f [of ?s1] h4 unfolding interrupts_ready_def by simp
    then show "outcome (ret (2039, irq_enable eflags) s') (\<lambda>r s'. r = (2039, irq_enable eflags) \<and> interrupts_ready lay A s s')"
      by (intro outcome_ret) simp
  qed
qed

end
