(* ===== verification/Startup_Devices.thy ===== *)
theory Startup_Devices
  imports Startup_Run Fs_Volume
begin

text \<open>
  The outcome of the part of \<open>main\<close> that starts the devices: the enumeration of the bus and the disk driver keep the tables
  and the memory outside the heap, and the volume is mounted under its letter.
\<close>

section \<open>The bus\<close>

lemma for_each_same:
  assumes "\<And>x s s'. body x s = ret () s' \<Longrightarrow> g s' = g s" and "for_each xs body s = ret () s'"
  shows "g s' = g s"
  using assms(2)
proof (induction xs arbitrary: s)
  case (Cons x xs)
  then obtain t where "body x s = ret () t" "for_each xs body t = ret () s'" by (auto simp: andthen_eq_ret)
  then show ?case using assms(1) [of x s t] Cons.IH [of t] by simp
qed simp

lemma pci_describe_tables: "tables (pci_describe env p b d f v i hdr s) = tables s"
  by (simp add: pci_describe_def pci_fields pci_read_def inl_def outl_def set_field16_def set_field8_def Let_def)

lemma pci_add_tables:
  assumes "pci_add env b d f v i hdr s = ret () s'"
  shows "tables s' = tables s"
proof -
  obtain p t where t: "malloc 22 s = ret p t" and r: "s' = (let t = pci_describe env p b d f v i hdr t in
      t\<lparr>devices := (devices t)(unat (device_count t) := p), device_count := device_count t + 1\<rparr>)"
    using assms unfolding pci_add_def andthen_eq_ret Let_def by (metis ret_inject ret_neq_fail(2))
  have "tables s' = tables t" by (simp add: r Let_def pci_describe_tables)
  then show ?thesis using malloc_tables [OF t] by simp
qed

lemma pci_function_tables:
  assumes "pci_function env b d hdr f s = ret () s'"
  shows "tables s' = tables s"
proof -
  let ?s1 = "if f > 0 then snd (pci_header_type env b d (word_of_nat f) s) else s"
  let ?s2 = "snd (pci_device_id env b d (word_of_nat f) ?s1)"
  let ?s3 = "snd (pci_vendor_id env b d (word_of_nat f) ?s2)"
  have same: "tables ?s3 = tables s" by (simp add: pci_fields pci_read_def inl_def outl_def Let_def)
  have "s' = ?s3 \<or> (\<exists>v i h. pci_add env b d (word_of_nat f) v i h ?s3 = ret () s')"
    using assms by (auto simp: pci_function_def Let_def split: prod.splits if_splits)
  then show ?thesis using pci_add_tables same by metis
qed

lemma pci_slot_tables:
  assumes "pci_slot env b d s = ret () s'"
  shows "tables s' = tables s"
proof -
  obtain xs hdr h where "for_each xs (pci_function env (word_of_nat b) (word_of_nat d) hdr) (s\<lparr>io := h\<rparr>) = ret () s'"
    using assms unfolding pci_slot_def by (simp add: pci_fields pci_read_def inl_def outl_def Let_def)
  from for_each_same [OF _ this, of tables] show ?thesis using pci_function_tables by simp
qed

lemma for_each_same_nested:
  assumes body: "\<And>y x s s'. body y x s = ret () s' \<Longrightarrow> g s' = g s"
    and run: "for_each ys (\<lambda>y. for_each xs (body y)) s = ret () s'"
  shows "g s' = g s"
proof (rule for_each_same [of _ g, OF _ run])
  fix y s s'
  assume "for_each xs (body y) s = ret () s'"
  then show "g s' = g s" by (rule for_each_same [of "body y" g, rotated]) (rule body)
qed

lemma pci_init_tables:
  assumes "pci_init env s = ret () s'"
  shows "tables s' = tables s"
  using pci_slot_tables assms [unfolded pci_init_def] by (rule for_each_same_nested)

text \<open>A state reached with the heap grown, the tables as before, and memory changed in the heap and \<open>W\<close> only.\<close>

definition grown :: "u32 set \<Rightarrow> (u32 \<rightharpoonup> u32) \<Rightarrow> u32 set \<Rightarrow> kernel \<Rightarrow> kernel \<Rightarrow> bool" where
  "grown A L W s s' \<longleftrightarrow> tables s' = tables s \<and> same_on ((- A \<union> blocks L) - W) (mem s) (mem s') \<and>
     (\<exists>L'. L \<subseteq>\<^sub>m L' \<and> heap_holds s' A L')"

lemma grown_trans:
  assumes "grown A L W s s'" and "\<And>L'. L \<subseteq>\<^sub>m L' \<Longrightarrow> heap_holds s' A L' \<Longrightarrow> grown A L' W s' s''"
  shows "grown A L W s s''"
proof -
  obtain L' where L': "L \<subseteq>\<^sub>m L'" "heap_holds s' A L'" using assms(1) by (auto simp: grown_def)
  have g: "grown A L' W s' s''" using L' by (rule assms(2))
  have "same_on ((- A \<union> blocks L) - W) (mem s') (mem s'')"
    using g blocks_mono [OF L'(1)] by (auto simp: grown_def intro: same_on_mono)
  then have "same_on ((- A \<union> blocks L) - W) (mem s) (mem s'')"
    using assms(1) by (auto simp: grown_def intro: same_on_trans)
  moreover have "tables s'' = tables s" using assms(1) g by (simp add: grown_def)
  moreover obtain L'' where "L' \<subseteq>\<^sub>m L''" "heap_holds s'' A L''" using g by (auto simp: grown_def)
  ultimately show ?thesis using map_le_trans [OF L'(1)] by (auto simp: grown_def)
qed

lemma pci_init_outcome:
  assumes h: "heap_holds s A L" and bus: "pci_bus env cfg" and zero: "device_count s = 0" and few: "length (bus_functions cfg) \<le> 255"
  shows "outcome (pci_init env s) (\<lambda>_. grown A L W s)"
proof -
  have "pci_found cfg A L (mem s) [] s" using h zero by (auto simp: pci_found_def)
  from pci_init_found [OF this bus]
  consider e where "pci_init env s = fail e" "pci_fault e (bus_functions cfg)"
    | s' where "pci_init env s = ret () s'" "pci_found cfg A L (mem s) (bus_functions cfg) s'"
    unfolding collects_def by blast
  then show ?thesis
  proof cases
    case 1
    then show ?thesis using few by (auto simp: pci_fault_def)
  next
    case 2
    have "grown A L W s s'" using 2(2) pci_init_tables [OF 2(1)] unfolding pci_found_def grown_def by (auto intro: same_on_mono)
    then show ?thesis unfolding 2(1) by (rule outcome_ret)
  qed
qed

lemma ata_init_grown:
  assumes "ata_answers env 496 n" and "heap_holds s A L" and "ids_ready serial firmware model A (mem s)"
  shows "outcome (ata_init env serial firmware model s) (\<lambda>_. grown A L (id_arrays serial firmware model) s)"
proof (rule outcome_mono [OF ata_init_outcome [OF assms]])
  fix u s'
  assume i: "identified serial firmware model A L s s'"
  then have "effect ((- A \<union> blocks L) - id_arrays serial firmware model) s s'" by (simp add: identified_def)
  then show "grown A L (id_arrays serial firmware model) s s'"
    using i effect_tables(1) by (simp add: grown_def identified_def effect_def)
qed

section \<open>The volume\<close>

lemma parameters_update [simp]:
  "bytes_per_sector (s\<lparr>lba_fat1 := w\<rparr>) = bytes_per_sector s" "bytes_per_sector (s\<lparr>lba_root := w\<rparr>) = bytes_per_sector s"
  "bytes_per_sector (s\<lparr>lba_data := w\<rparr>) = bytes_per_sector s" "bytes_per_sector (s\<lparr>ata_bus := v\<rparr>) = bytes_per_sector s"
  "directory_entries (s\<lparr>lba_fat1 := w\<rparr>) = directory_entries s" "directory_entries (s\<lparr>lba_root := w\<rparr>) = directory_entries s"
  "sectors_per_fat (s\<lparr>lba_fat1 := w\<rparr>) = sectors_per_fat s" "fats (s\<lparr>lba_fat1 := w\<rparr>) = fats s"
  by (simp_all add: bytes_per_sector_def directory_entries_def sectors_per_fat_def fats_def)

definition volume_block :: "kernel \<Rightarrow> bool" where
  "volume_block s \<longleftrightarrow> bytes_per_sector s = 512 \<and> sectors_per_cluster s \<noteq> 0 \<and> unat (directory_entries s) mod 16 = 0 \<and>
     directory_entries s \<noteq> 0 \<and> unat (directory_entries s) \<le> 4096 \<and> unat (reserved_sectors s) + 192 < 2 ^ 28 \<and>
     unat (reserved_sectors s + sectors_per_fat s * fats s) < 2 ^ 28 \<and>
     unat (reserved_sectors s + sectors_per_fat s * fats s + directory_entries s * 32 div 512) + 2 ^ 20 < 2 ^ 28"

lemma volume_block_cong:
  assumes "same_on (region (bpb s) 62) (mem s) (mem s')" and "bpb s' = bpb s"
  shows "volume_block s' = volume_block s" "bytes_per_sector s' = bytes_per_sector s"
    "sectors_per_cluster s' = sectors_per_cluster s" "directory_entries s' = directory_entries s"
    "reserved_sectors s' = reserved_sectors s" "sectors_per_fat s' = sectors_per_fat s" "fats s' = fats s"
proof -
  have l: "load16 (mem s') (bpb s + i) = load16 (mem s) (bpb s + i)" if "unat i + 2 \<le> 62" for i
    using region_shift_subset [OF that, of "bpb s"] by (intro load16_cong same_on_mono [OF assms(1)]) simp
  have b: "mem s' (bpb s + i) = mem s (bpb s + i)" if "unat i < 62" for i
    using same_onD [OF assms(1) region_offset [OF that]] .
  show "bytes_per_sector s' = bytes_per_sector s"
    "sectors_per_cluster s' = sectors_per_cluster s" "directory_entries s' = directory_entries s"
    "reserved_sectors s' = reserved_sectors s" "sectors_per_fat s' = sectors_per_fat s" "fats s' = fats s"
    by (simp_all add: bytes_per_sector_def sectors_per_cluster_def directory_entries_def reserved_sectors_def sectors_per_fat_def
        fats_def assms(2) l b)
  then show "volume_block s' = volume_block s" by (simp add: volume_block_def)
qed

lemma volume_started:
  assumes "volume_block s" and "same_on (region (bpb s) 62) (mem s) (mem s')" and "bpb s' = bpb s"
    and "lba_fat1 s' = reserved_sectors s" and "lba_root s' = reserved_sectors s + sectors_per_fat s * fats s"
    and "lba_data s' = reserved_sectors s + sectors_per_fat s * fats s + directory_entries s * 32 div 512" and "ata_bus s' = 496"
    and "ata_disk env 496 disk n" and "region (bpb s) 62 \<inter> A = {}"
  shows "volume env disk n A s'"
  using assms(1,3-9) volume_block_cong [OF assms(2,3)] by (simp add: volume_def volume_block_def)

definition driver_memory :: "(string \<Rightarrow> u32) \<Rightarrow> u32 \<Rightarrow> memory \<Rightarrow> memory" where
  "driver_memory code d m = store32 (store32 (store32 (store32 (store32 (store32 (store32 (store32 (store8 m d 0)
     (d + 4) (code ''fat12_open'')) (d + 8) (code ''fat12_opendir'')) (d + 12) (code ''fat12_close''))
     (d + 16) (code ''fat12_closedir'')) (d + 20) (code ''fat12_read'')) (d + 24) (code ''fat12_readdir''))
     (d + 28) (code ''fat12_write'')) (d + 32) (code ''fat12_seek'')"

lemma driver_memory_fields:
  "fat12_driver code d (driver_memory code d m)" "same_on (- region d 36) m (driver_memory code d m)"
proof -
  have "driver_op (driver_memory code d m) d 0 = code ''fat12_open''" "driver_op (driver_memory code d m) d 1 = code ''fat12_opendir''"
    "driver_op (driver_memory code d m) d 2 = code ''fat12_close''" "driver_op (driver_memory code d m) d 3 = code ''fat12_closedir''"
    "driver_op (driver_memory code d m) d 4 = code ''fat12_read''" "driver_op (driver_memory code d m) d 5 = code ''fat12_readdir''"
    "driver_op (driver_memory code d m) d 6 = code ''fat12_write''" "driver_op (driver_memory code d m) d 7 = code ''fat12_seek''"
    unfolding driver_op_def driver_memory_def by (simp_all add: frame_simps add.assoc)
  note ops = this
  show "fat12_driver code d (driver_memory code d m)"
    unfolding fat12_driver_def
  proof (intro allI impI)
    fix k :: nat
    assume "k < 8"
    then consider "k = 0" | "k = 1" | "k = 2" | "k = 3" | "k = 4" | "k = 5" | "k = 6" | "k = 7" by arith
    then show "driver_op (driver_memory code d m) d (word_of_nat k) = code (operations ! k)"
      by cases (simp_all add: operations_def ops)
  qed
  have sub: "- region d 36 \<inter> region (d + i) 4 = {}" if "unat i + 4 \<le> 36" for i
    using region_shift_subset [OF that, of d] by auto
  have "d + 0 \<in> region d 36" by (rule region_offset) simp
  then have "same_on (- region d 36) m (store8 m d 0)" by (intro same_on_store8) simp
  then show "same_on (- region d 36) m (driver_memory code d m)"
    unfolding driver_memory_def by (intro same_on_trans [OF _ same_on_store32] sub) simp_all
qed

lemma fat12_init_outcome:
  assumes h: "heap_holds s A L" and v: "volume_block (s\<lparr>bpb := p\<rparr>)" and apart: "region p 62 \<inter> A = {}" and disk: "ata_disk env 496 disk n"
  shows "outcome (fat12_init code p s) (\<lambda>d s'. d \<noteq> 0 \<and> volume env disk n A s' \<and> fat12_driver code d (mem s') \<and>
    (\<exists>L'. L \<subseteq>\<^sub>m L' \<and> heap_holds s' A L' \<and> L d = None \<and> (\<exists>k. L' d = Some k \<and> 36 \<le> unat k)) \<and> grown A L W s s')"
proof -
  let ?s0 = "s\<lparr>bpb := p\<rparr>"
  let ?root = "reserved_sectors ?s0 + sectors_per_fat ?s0 * fats ?s0"
  let ?s = "?s0\<lparr>lba_fat1 := reserved_sectors ?s0, lba_root := ?root, lba_data := ?root + directory_entries ?s0 * 32 div 512, ata_bus := 496\<rparr>"
  have b: "bytes_per_sector ?s0 = 512" using v by (simp add: volume_block_def)
  have run: "fat12_init code p s = andthen (malloc 36 ?s) (\<lambda>d s. ret d (s\<lparr>mem := driver_memory code d (mem s)\<rparr>))"
    using b by (simp add: fat12_init_def Let_def driver_memory_def)
  have h': "heap_holds ?s A L" using h by simp
  have n36: "(36 :: u32) \<noteq> 0" by simp
  show ?thesis
  proof (cases rule: malloc_cases [OF h' n36])
    case 1
    then show ?thesis by (simp add: run)
  next
    case (2 d k m)
    let ?m = "driver_memory code d m"
    have k: "36 \<le> unat k" using 2(2) by (simp add: word_le_nat_alt)
    have wr: "same_on (- region d (unat k)) m ?m"
      using driver_memory_fields(2) region_mono [OF k, of d] by (auto intro: same_on_mono)
    have heap: "heap_holds (?s\<lparr>mem := ?m\<rparr>) A (L(d \<mapsto> k))"
      using kheap.write_block [OF 2(4), of d k ?m] wr by simp
    have away: "region d (unat k) \<inter> (- A \<union> blocks L) = {}"
      using kheap.fresh_away [of _ A "L(d \<mapsto> k)" d k L, OF 2(4)] 2(3) map_le_upd [of L d k, OF 2(3)] by simp
    have same: "same_on (- A \<union> blocks L) (mem s) ?m"
      using 2(5) same_on_mono [OF wr, of "- A \<union> blocks L"] away same_on_trans [of "- A \<union> blocks L" "mem s" m ?m] by auto
    have "same_on (region p 62) (mem s) ?m" using apart by (intro same_on_mono [OF same]) blast
    then have "same_on (region (bpb ?s0) 62) (mem ?s0) (mem (?s\<lparr>mem := ?m\<rparr>))" by simp
    then have vol: "volume env disk n A (?s\<lparr>mem := ?m\<rparr>)"
      using disk apart by (intro volume_started [OF v]) simp_all
    have gr: "grown A L W s (?s\<lparr>mem := ?m\<rparr>)"
      unfolding grown_def using heap map_le_upd [of L d k, OF 2(3)] same by (auto intro: same_on_mono simp del: fun_upd_apply)
    show ?thesis unfolding run 2(1) andthen_ret
    proof (rule outcome_ret, intro conjI)
      show "\<exists>L'. L \<subseteq>\<^sub>m L' \<and> heap_holds (?s\<lparr>mem := m\<rparr>\<lparr>mem := driver_memory code d (mem (?s\<lparr>mem := m\<rparr>))\<rparr>) A L' \<and> L d = None \<and>
          (\<exists>k. L' d = Some k \<and> 36 \<le> unat k)"
        using heap map_le_upd [of L d k, OF 2(3)] 2(3) k by (intro exI [of _ "L(d \<mapsto> k)"]) simp
    qed (use 2(6) vol gr driver_memory_fields(1) in simp_all)
  qed
qed

section \<open>The mounted driver\<close>

lemma sched_rep_grown:
  assumes r: "sched_rep s A L []" and g: "grown A L W s s'" and apart: "W \<inter> A = {}"
  shows "\<exists>L'. sched_rep s' A L' []"
proof -
  obtain k where k: "L (plist s) = Some k" "8 \<le> k" and cur: "current s = 0" and h: "heap_holds s A L"
    and hd: "list_head (mem s) (plist s) = 0" "list_length (mem s) (plist s) = 0"
    using r by (auto simp: sched_rep_def list_rep_def list_blocks_def)
  obtain L' where L': "L \<subseteq>\<^sub>m L'" "heap_holds s' A L'" using g by (auto simp: grown_def)
  have pl: "plist s' = plist s" "current s' = current s" using g by (simp_all add: grown_def tables_def)
  have k8: "8 \<le> unat k" using k(2) by (simp add: word_le_nat_alt)
  have in8: "region (plist s) 8 \<subseteq> (- A \<union> blocks L) - W"
    using region_mono [OF k8, of "plist s"] block_subset [of L "plist s" k, OF k(1)] kheap.block_range [OF h k(1)] apart by blast
  have "same_on ((- A \<union> blocks L) - W) (mem s) (mem s')" using g by (simp add: grown_def)
  then have same: "same_on (region (plist s) 8) (mem s) (mem s')" using in8 by (rule same_on_mono)
  have sub: "region (plist s) 4 \<subseteq> region (plist s) 8" "region (plist s + 4) 4 \<subseteq> region (plist s) 8"
    using region_mono [of 4 8 "plist s"] region_shift_subset [of 4 4 8 "plist s"] by simp_all
  have "list_head (mem s') (plist s) = 0" "list_length (mem s') (plist s) = 0"
    using hd load32_cong [OF same_on_mono [OF same sub(1)]] load32_cong [OF same_on_mono [OF same sub(2)]]
    by (simp_all add: list_head_def list_length_def)
  moreover have "L' (plist s) = Some k" using L'(1) k(1) by (auto simp: map_le_def dom_def)
  ultimately have "sched_rep s' A L' []" using L'(2) k(2) cur pl by (simp add: sched_rep_def list_rep_def list_blocks_def)
  then show ?thesis by blast
qed

lemma volume_same:
  assumes v: "volume env disk n A s" and same: "same_on (- A) (mem s) (mem s')"
    and eqs: "bpb s' = bpb s" "lba_fat1 s' = lba_fat1 s" "lba_root s' = lba_root s" "lba_data s' = lba_data s" "ata_bus s' = ata_bus s"
  shows "volume env disk n A s'"
proof -
  have "region (bpb s) 62 \<subseteq> - A" using v by (auto simp: volume_def)
  then have "same_on (region (bpb s) 62) (mem s) (mem s')" by (rule same_on_mono [OF same])
  note c = volume_block_cong [OF this eqs(1)]
  show ?thesis using v eqs c by (simp add: volume_def)
qed

lemma fat12_driver_store:
  assumes "fat12_driver code d m"
  shows "fat12_driver code d (set_driver_mnt d c m)"
  unfolding fat12_driver_def
proof (intro allI impI)
  fix k :: nat
  assume k: "k < 8"
  then consider "k = 0" | "k = 1" | "k = 2" | "k = 3" | "k = 4" | "k = 5" | "k = 6" | "k = 7" by arith
  then have "driver_op (set_driver_mnt d c m) d (word_of_nat k) = driver_op m d (word_of_nat k)"
    by cases (simp_all add: driver_op_def set_driver_mnt_def load32_def store8_def)
  then show "driver_op (set_driver_mnt d c m) d (word_of_nat k) = code (operations ! k)"
    using assms k by (simp add: fat12_driver_def)
qed

definition under_letter :: "(string \<Rightarrow> u32) \<Rightarrow> environment \<Rightarrow> (nat \<Rightarrow> u8) \<Rightarrow> nat \<Rightarrow> u32 set \<Rightarrow> kernel \<Rightarrow> bool" where
  "under_letter code env disk n A s \<longleftrightarrow> volume env disk n A s \<and>
     (\<exists>d. mounted s [d] \<and> driver_mnt (mem s) d = 72 \<and> fat12_driver code d (mem s))"

lemma fs_mount_started:
  assumes h: "heap_holds s A L'" and L': "L' d = Some k" "36 \<le> unat k" "L d = None" "L \<subseteq>\<^sub>m L'" and m: "mounted s []"
    and dr: "d \<noteq> 0" "fat12_driver code d (mem s)" and v: "volume env disk n A s"
  defines "s' \<equiv> fs_mount d 72 s"
  shows "under_letter code env disk n A s'" and "\<exists>L'. L \<subseteq>\<^sub>m L' \<and> heap_holds s' A L'"
    and "same_on (- A \<union> blocks L) (mem s) (mem s')" and "s' = s\<lparr>drivers := drivers s', mem := mem s'\<rparr>"
proof -
  let ?m = "set_driver_mnt d 72 (mem s)"
  have run: "s' = s\<lparr>drivers := (drivers s)(0 := d), mem := ?m\<rparr>" "mounted s' [d]"
    using fs_mount_run [OF m dr(1), of 72] by (simp_all add: s'_def)
  then show "s' = s\<lparr>drivers := drivers s', mem := mem s'\<rparr>" by simp
  have "d + 0 \<in> region d (unat k)" using L'(2) by (intro region_offset) simp
  then have wr: "same_on (- region d (unat k)) (mem s) ?m"
    unfolding set_driver_mnt_def by (intro same_on_store8) simp
  have "heap_holds (s\<lparr>mem := ?m\<rparr>) A L'" using kheap.write_block [OF h L'(1) wr] by simp
  moreover have "s' = s\<lparr>mem := ?m\<rparr>\<lparr>drivers := (drivers s)(0 := d)\<rparr>" unfolding run(1) by (rule kernel.equality) simp_all
  ultimately have "heap_holds s' A L'" by (simp only: heap_holds_update)
  then show "\<exists>L'. L \<subseteq>\<^sub>m L' \<and> heap_holds s' A L'" using L'(4) by blast
  have "region d (unat k) \<inter> (- A \<union> blocks L) = {}" by (rule kheap.fresh_away [OF h L'(1,3,4)])
  then show same: "same_on (- A \<union> blocks L) (mem s) (mem s')" using run(1) by (auto intro: same_on_mono [OF wr])
  have "volume env disk n A s'" using v same_on_mono [OF same] run(1) by (intro volume_same [OF v]) auto
  moreover have "fat12_driver code d (mem s')" "driver_mnt (mem s') d = 72"
    using fat12_driver_store [OF dr(2)] run(1) by (simp_all add: driver_mnt_def set_driver_mnt_def)
  ultimately show "under_letter code env disk n A s'" using run(2) by (auto simp: under_letter_def)
qed

section \<open>The devices\<close>

text \<open>The arrays of \<open>ata_identify\<close>; the machine; and the memory \<open>main\<close> reads for the devices.\<close>

abbreviation ids :: "layout \<Rightarrow> u32 set" where
  "ids lay \<equiv> id_arrays (at_serial lay) (at_firmware lay) (at_model lay)"

definition machine :: "environment \<Rightarrow> (u32 \<Rightarrow> u32) \<Rightarrow> (nat \<Rightarrow> u8) \<Rightarrow> nat \<Rightarrow> bool" where
  "machine env cfg disk n \<longleftrightarrow> keyboard_quiet env n \<and> pci_bus env cfg \<and> length (bus_functions cfg) \<le> 255 \<and>
     ata_answers env 496 n \<and> ata_disk env 496 disk n"

abbreviation boot_block :: "memory \<Rightarrow> u32 \<Rightarrow> u32" where
  "boot_block m b \<equiv> ucast (boot_bpb m b)"

definition devices_inputs :: "layout \<Rightarrow> u32 \<Rightarrow> u32 set \<Rightarrow> kernel \<Rightarrow> bool" where
  "devices_inputs lay b A s \<longleftrightarrow> ids_ready (at_serial lay) (at_firmware lay) (at_model lay) A (mem s) \<and>
     volume_block (s\<lparr>bpb := boot_block (mem s) b\<rparr>) \<and>
     (region b 36 \<union> region (boot_block (mem s) b) 62) \<inter> (A \<union> ids lay) = {}"

definition device_memory :: "layout \<Rightarrow> u32 \<Rightarrow> memory \<Rightarrow> u32 set" where
  "device_memory lay b m = region b 36 \<union> region (boot_block m b) 62 \<union> id_ends (at_serial lay) (at_firmware lay) (at_model lay)"

lemma devices_inputs_cong:
  assumes "devices_inputs lay b A s" and "same_on (device_memory lay b (mem s)) (mem s) (mem s')"
  shows "devices_inputs lay b A s'" "boot_block (mem s') b = boot_block (mem s) b"
proof -
  let ?p = "boot_block (mem s) b"
  have "region (b + 4) 2 \<subseteq> region b 36" using region_shift_subset [of 4 2 36 b] by simp
  then have "same_on (region (b + 4) 2) (mem s) (mem s')" by (intro same_on_mono [OF assms(2)]) (auto simp: device_memory_def)
  then show eq: "boot_block (mem s') b = ?p" unfolding boot_bpb_def by (simp add: load16_cong)
  have "same_on (region ?p 62) (mem s) (mem s')" by (intro same_on_mono [OF assms(2)]) (auto simp: device_memory_def)
  then have "volume_block (s'\<lparr>bpb := ?p\<rparr>) = volume_block (s\<lparr>bpb := ?p\<rparr>)" by (intro volume_block_cong) simp_all
  moreover have "mem s' x = mem s x" if "x \<in> id_ends (at_serial lay) (at_firmware lay) (at_model lay)" for x
    using that by (intro same_onD [OF assms(2)]) (simp add: device_memory_def)
  ultimately show "devices_inputs lay b A s'" using assms(1) eq by (simp add: devices_inputs_def ids_ready_def)
qed

lemma devices_inputs_same:
  assumes "devices_inputs lay b A s" and "same_on (- A - ids lay) (mem s) (mem s')"
  shows "devices_inputs lay b A s'" "boot_block (mem s') b = boot_block (mem s) b"
proof -
  have "device_memory lay b (mem s) \<subseteq> - A - ids lay"
    using assms(1) by (auto simp: device_memory_def devices_inputs_def ids_ready_def)
  from same_on_mono [OF assms(2) this]
  show "devices_inputs lay b A s'" "boot_block (mem s') b = boot_block (mem s) b"
    using devices_inputs_cong [OF assms(1)] by blast+
qed

lemma grown_mono: "grown A L W s s' \<Longrightarrow> W \<subseteq> V \<Longrightarrow> grown A L V s s'"
  by (auto simp: grown_def intro: same_on_mono)

lemma grown_io: "grown A L W s s' \<Longrightarrow> grown A L W s (s'\<lparr>io := h\<rparr>)"
  by (simp add: grown_def)

lemma grown_same: "grown A L W s s' \<Longrightarrow> same_on (- A - W) (mem s) (mem s')"
  by (auto simp: grown_def intro: same_on_mono)

lemma probe_outcome:
  assumes mach: "machine env cfg disk n" and h: "heap_holds s A L" and zero: "device_count s = 0" and inp: "devices_inputs lay b A s"
  shows "outcome (andthen (pci_init env s) (\<lambda>_ s. ata_init env (at_serial lay) (at_firmware lay) (at_model lay) (serial_init 1016 s)))
    (\<lambda>_. grown A L (ids lay) s)"
proof (rule outcome_andthen)
  show "outcome (pci_init env s) (\<lambda>_. grown A L (ids lay) s)"
    using mach by (intro pci_init_outcome [OF h _ zero]) (auto simp: machine_def)
next
  fix u s1
  assume g: "grown A L (ids lay) s s1"
  obtain h' where io: "serial_init 1016 s1 = s1\<lparr>io := h'\<rparr>" using serial_init_state by blast
  have g': "grown A L (ids lay) s (s1\<lparr>io := h'\<rparr>)" using g by (rule grown_io)
  then obtain L1 where L1: "L \<subseteq>\<^sub>m L1" "heap_holds (s1\<lparr>io := h'\<rparr>) A L1" by (auto simp: grown_def)
  have "devices_inputs lay b A (s1\<lparr>io := h'\<rparr>)" using inp grown_same [OF g'] by (rule devices_inputs_same)
  then have ready: "ids_ready (at_serial lay) (at_firmware lay) (at_model lay) A (mem (s1\<lparr>io := h'\<rparr>))"
    by (simp add: devices_inputs_def)
  have ans: "ata_answers env 496 n" using mach by (simp add: machine_def)
  show "outcome (ata_init env (at_serial lay) (at_firmware lay) (at_model lay) (serial_init 1016 s1)) (\<lambda>_. grown A L (ids lay) s)"
    unfolding io
  proof (rule outcome_mono [OF ata_init_grown [OF ans L1(2) ready]])
    fix u s2
    assume "grown A L1 (ids lay) (s1\<lparr>io := h'\<rparr>) s2"
    then have "same_on (- A \<union> blocks L1 - ids lay) (mem s1) (mem s2)" "tables s2 = tables s1" "\<exists>L'. L1 \<subseteq>\<^sub>m L' \<and> heap_holds s2 A L'"
      by (simp_all add: grown_def)
    moreover have "same_on (- A \<union> blocks L - ids lay) (mem s1) (mem s2)"
      using calculation(1) blocks_mono [OF L1(1)] by (auto intro: same_on_mono)
    moreover have "same_on (- A \<union> blocks L - ids lay) (mem s) (mem s1)" "tables s1 = tables s" using g by (simp_all add: grown_def)
    ultimately show "grown A L (ids lay) s s2"
      using map_le_trans [OF L1(1)] same_on_trans [of _ "mem s" "mem s1" "mem s2"] unfolding grown_def by simp blast
  qed
qed

definition devices_started :: "layout \<Rightarrow> environment \<Rightarrow> (nat \<Rightarrow> u8) \<Rightarrow> nat \<Rightarrow> u32 set \<Rightarrow> kernel \<Rightarrow> kernel \<Rightarrow> bool" where
  "devices_started lay env disk n A s s' \<longleftrightarrow> (\<exists>L. sched_rep s' A L []) \<and> under_letter (at_entry lay) env disk n A s' \<and>
     handlers s' = (handlers s)(32 := Some Pit_handle_irq, 33 := Some Keyboard_handle_irq) \<and> entries s' = entries s \<and>
     enabled s' = enabled s \<and> current s' = current s \<and> same_on (- A - ids lay) (mem s) (mem s')"

lemma mount_outcome:
  assumes mach: "machine env cfg disk n" and r: "sched_rep s A L []" and inp: "devices_inputs lay b A s" and m: "mounted s []"
    and g: "grown A L (ids lay) s s1"
  shows "outcome (andthen (fat12_init (at_entry lay) (boot_block (mem s1) b) s1) (\<lambda>d s. ret () (fs_mount d 72 s)))
    (\<lambda>_ s'. (\<exists>L. sched_rep s' A L []) \<and> under_letter (at_entry lay) env disk n A s' \<and> same_on (- A - ids lay) (mem s) (mem s') \<and>
      handlers s' = handlers s \<and> entries s' = entries s \<and> enabled s' = enabled s \<and> current s' = current s)"
proof -
  note inp1 = devices_inputs_same [OF inp grown_same [OF g]]
  obtain L1 where L1: "L \<subseteq>\<^sub>m L1" "heap_holds s1 A L1" using g by (auto simp: grown_def)
  have vb: "volume_block (s1\<lparr>bpb := boot_block (mem s1) b\<rparr>)" "region (boot_block (mem s1) b) 62 \<inter> A = {}"
    using inp1(1) by (auto simp: devices_inputs_def)
  have disk: "ata_disk env 496 disk n" using mach by (simp add: machine_def)
  have apart: "ids lay \<inter> A = {}" using inp by (auto simp: devices_inputs_def ids_ready_def)
  show ?thesis
  proof (rule outcome_andthen [OF fat12_init_outcome [OF L1(2) vb disk, of "at_entry lay" "ids lay"]])
    fix d s2
    assume a: "d \<noteq> 0 \<and> volume env disk n A s2 \<and> fat12_driver (at_entry lay) d (mem s2) \<and>
      (\<exists>L'. L1 \<subseteq>\<^sub>m L' \<and> heap_holds s2 A L' \<and> L1 d = None \<and> (\<exists>k. L' d = Some k \<and> 36 \<le> unat k)) \<and> grown A L1 (ids lay) s1 s2"
    then obtain L2 k where L2: "L1 \<subseteq>\<^sub>m L2" "heap_holds s2 A L2" "L1 d = None" "L2 d = Some k" "36 \<le> unat k" by blast
    have g1: "grown A L1 (ids lay) s1 s2" using a by blast
    have tb: "tables s2 = tables s" using g1 g by (simp add: grown_def)
    then have "mounted s2 []" using m mounted_cong [of s2 s] by (simp add: tables_def)
    note mt = fs_mount_started [OF L2(2,4,5,3,1) this, of "at_entry lay" env disk n]
    let ?s3 = "fs_mount d 72 s2"
    have u: "under_letter (at_entry lay) env disk n A ?s3" and h3: "\<exists>L'. L1 \<subseteq>\<^sub>m L' \<and> heap_holds ?s3 A L'"
      and same3: "same_on (- A \<union> blocks L1) (mem s2) (mem ?s3)" and st: "?s3 = s2\<lparr>drivers := drivers ?s3, mem := mem ?s3\<rparr>"
      using mt a by blast+
    have fields: "handlers ?s3 = handlers s" "entries ?s3 = entries s" "enabled ?s3 = enabled s" "current ?s3 = current s" "plist ?s3 = plist s"
      using tb unfolding tables_def by (subst st, simp)+
    have s12: "same_on (- A \<union> blocks L1 - ids lay) (mem s1) (mem s2)" using g1 by (simp add: grown_def)
    have "same_on (- A \<union> blocks L - ids lay) (mem s1) (mem ?s3)"
    proof (rule same_on_mono [OF same_on_trans [OF s12]])
      show "same_on (- A \<union> blocks L1 - ids lay) (mem s2) (mem ?s3)" using same3 by (auto intro: same_on_mono)
    qed (use blocks_mono [OF L1(1)] in blast)
    then have same: "same_on (- A \<union> blocks L - ids lay) (mem s) (mem ?s3)" using g by (auto simp: grown_def intro: same_on_trans)
    obtain L3 where L3: "L \<subseteq>\<^sub>m L3" "heap_holds ?s3 A L3" using h3 map_le_trans [OF L1(1)] by blast
    let ?t = "?s3\<lparr>drivers := drivers s\<rparr>"
    have "grown A L (ids lay) s ?t" using same L3 fields by (auto simp: grown_def tables_def)
    from sched_rep_grown [OF r this apart] obtain L4 where "sched_rep ?t A L4 []" by blast
    then have "sched_rep ?s3 A L4 []" by (simp add: sched_rep_def list_rep_def)
    moreover have "same_on (- A - ids lay) (mem s) (mem ?s3)" using same by (auto intro: same_on_mono)
    ultimately show "outcome (ret () ?s3) (\<lambda>_ s'. (\<exists>L. sched_rep s' A L []) \<and> under_letter (at_entry lay) env disk n A s' \<and>
        same_on (- A - ids lay) (mem s) (mem s') \<and>
        handlers s' = handlers s \<and> entries s' = entries s \<and> enabled s' = enabled s \<and> current s' = current s)"
      using u fields by (intro outcome_ret) blast
  qed
qed

lemma main_devices_outcome:
  assumes mach: "machine env cfg disk n" and r: "sched_rep s A L []" and zero: "device_count s = 0"
    and inp: "devices_inputs lay b A s" and m: "mounted s []"
  shows "outcome (main_devices lay env b s) (\<lambda>_. devices_started lay env disk n A s)"
proof -
  obtain h1 where pit: "pit_init s = ret () (s\<lparr>io := h1, handlers := (handlers s)(32 := Some Pit_handle_irq)\<rparr>)"
    using pit_init_run by blast
  let ?s1 = "s\<lparr>io := h1, handlers := (handlers s)(32 := Some Pit_handle_irq)\<rparr>"
  have "keyboard_quiet env n" using mach by (simp add: machine_def)
  from keyboard_init_run [OF this, of ?s1] obtain h2 where
    kbd: "keyboard_init env ?s1 = ret () (?s1\<lparr>handlers := (handlers ?s1)(33 := Some Keyboard_handle_irq), io := h2\<rparr>)" by blast
  let ?s2 = "?s1\<lparr>handlers := (handlers ?s1)(33 := Some Keyboard_handle_irq), io := h2\<rparr>"
  have heap: "heap_holds s A L" using r by (simp add: sched_rep_def list_rep_def)
  have h: "heap_holds ?s2 A L" using heap by (simp add: heap_holds_def heap_inv_def)
  have r2: "sched_rep ?s2 A L []" using r h by (simp add: sched_rep_def list_rep_def)
  have inp2: "devices_inputs lay b A ?s2" by (rule devices_inputs_same [OF inp]) simp
  have m2: "mounted ?s2 []" using m by (simp add: mounted_def)
  have "device_count ?s2 = 0" using zero by simp
  note probe = probe_outcome [OF mach h this inp2]
  have "main_devices lay env b s = andthen (andthen (pci_init env ?s2) (\<lambda>_ s.
      ata_init env (at_serial lay) (at_firmware lay) (at_model lay) (serial_init 1016 s))) (\<lambda>_ s.
      andthen (fat12_init (at_entry lay) (boot_block (mem s) b) s) (\<lambda>d s. ret () (fs_mount d 72 s)))"
    by (simp only: main_devices_def pit kbd andthen_ret andthen_assoc)
  moreover have "outcome \<dots> (\<lambda>_. devices_started lay env disk n A s)"
  proof (rule outcome_andthen [OF probe])
    fix u s3
    assume "grown A L (ids lay) ?s2 s3"
    from mount_outcome [OF mach r2 inp2 m2 this]
    show "outcome (andthen (fat12_init (at_entry lay) (boot_block (mem s3) b) s3) (\<lambda>d s. ret () (fs_mount d 72 s)))
        (\<lambda>_. devices_started lay env disk n A s)"
      by (rule outcome_mono) (simp add: devices_started_def)
  qed
  ultimately show ?thesis by simp
qed

end
