(* ===== verification/Boot_Properties.thy ===== *)
theory Boot_Properties
  imports Boot
begin

text \<open>
  The properties of the boot report and of assertions, with an instance: a machine with the literals at 4096, the boot
  information at 3200, a memory map of one region, and a BIOS parameter block at 3300.
\<close>

section \<open>An example machine\<close>

definition boot_table :: "string list" where
  "boot_table = [''src/cpu/boot.c'', ''src/memory/malloc.c'', ''chunk'', ''drive=%x, type=%s'', ''vendor=%s, features=%x'',
     ''base=%lx, length=%lx, type=%s'', ''hdd'', ''cd-rom'', ''fdd'', ''free'', ''reserved'', ''unknown'', ''%fhalt, reason=%s'',
     ''halt, reason=%s'', ''%f(kernel)\<newline>''] @ log_table"

lemma boot_table_ok: "literal_table boot_table"
  by (simp add: literal_table_def boot_table_def log_table_def type_name_def esc_def char_codes_def)

definition vendor_name :: "u8 list" where
  "vendor_name = char_codes ''GenuineIntel''"

text \<open>The boot information at 3200, the entry of the map at 3240, and the parameter block at 3300.\<close>

definition boot_bytes :: "u8 list" where
  "boot_bytes = [0, 0, 0, 0, 228, 12, 128] @ char_codes ''GenuineIntel'' @ [0, 1, 2, 3, 4, 0, 0, 0, 0, 1, 0, 0, 0, 168, 12, 0, 0, 0, 0, 0, 0] @
     [0, 0, 1, 0, 0, 0, 0, 0, 0, 0, 8, 0, 0, 0, 0, 0, 1, 0, 0, 0, 0, 0, 0, 0] @ replicate 36 0 @
     [0, 0, 0, 0, 0, 0, 0, 0, 0, 0, 0, 0, 2, 1, 1, 0, 1, 16, 0, 0, 0, 0, 1, 0] @ replicate 38 0"

definition boot_memory :: memory where
  "boot_memory = store_bytes (literal_memory boot_table) 3200 boot_bytes"

lemma length_boot_bytes [simp]: "length boot_bytes = 162"
  by (simp add: boot_bytes_def char_codes_def)

lemma boot_byte: "boot_memory x = (if unat (x - 3200) < 162 then boot_bytes ! unat (x - 3200) else literal_memory boot_table x)"
  unfolding boot_memory_def by (subst store_bytes_apply) simp_all

lemma boot_bytes_at:
  assumes "k + n \<le> 162"
  shows "bytes_at boot_memory (3200 + word_of_nat k) n = take n (drop k boot_bytes)"
proof (rule nth_equalityI)
  fix i assume "i < length (bytes_at boot_memory (3200 + word_of_nat k) n)"
  then have i: "i < n" by simp
  have "unat (word_of_nat k + word_of_nat i :: u32) = k + i" using assms i by (simp add: unat_add_exact unat_of_nat_eq)
  then show "bytes_at boot_memory (3200 + word_of_nat k) n ! i = take n (drop k boot_bytes) ! i"
    using assms i by (simp add: boot_byte)
qed (use assms in simp)

lemma boot_memory_low: "unat x < 3200 \<Longrightarrow> boot_memory x = 0"
proof -
  assume x: "unat x < 3200"
  have l: "length boot_table = 28" by (simp add: boot_table_def log_table_def)
  have d: "unat (x - c) = unat x + (2 ^ 32 - unat c)" if "unat x < unat c" for c :: u32
    using that unat_lt32 [of x] unat_lt32 [of c] by (simp add: unat_sub_if')
  have "\<not> unat (x - 4096) div 32 < 28" "\<not> unat (x - 3200) < 162" using x d [of 4096] d [of 3200] by simp_all
  then show ?thesis by (simp add: boot_byte literal_memory_def l Let_def)
qed

lemma boot_memory_high: "6144 \<le> unat x \<Longrightarrow> boot_memory x = 0"
proof -
  assume x: "6144 \<le> unat x"
  have l: "length boot_table = 28" by (simp add: boot_table_def log_table_def)
  have d: "unat (x - c) = unat x - unat c" if "unat c \<le> unat x" for c :: u32
    using that by (simp add: unat_sub word_le_nat_alt)
  have "\<not> unat (x - 4096) div 32 < 28" "\<not> unat (x - 3200) < 162" using x d [of 4096] d [of 3200] by simp_all
  then show ?thesis by (simp add: boot_byte literal_memory_def l Let_def)
qed

lemma boot_literals_kept: "same_on {x. 4096 \<le> unat x \<and> unat x < 6144} (literal_memory boot_table) boot_memory"
  unfolding boot_memory_def by (rule same_on_store_bytes) (auto simp: in_region_nat)

text \<open>The strings: the literals, the two file names from their fifth character on, and the name of the vendor.\<close>

definition boot_strings :: strings where
  "boot_strings a =
    (if a = 3207 then Some vendor_name
     else if a = literal_at boot_table ''src/cpu/boot.c'' + 4 then Some (char_codes ''cpu/boot.c'')
     else if a = literal_at boot_table ''src/memory/malloc.c'' + 4 then Some (char_codes ''memory/malloc.c'')
     else literal_strings boot_table a)"

lemma cstr_suffix:
  assumes "cstr m a (xs @ ys)"
  shows "cstr m (a + word_of_nat (length xs)) ys"
proof -
  have "bytes_at m a (length xs) @ bytes_at m (a + word_of_nat (length xs)) (length ys) = xs @ ys"
    using assms bytes_at_append [of m a "length xs" "length ys"] by (simp add: cstr_def)
  then show ?thesis using assms by (simp add: cstr_def add.assoc)
qed

lemma boot_at:
  "literal_at boot_table ''src/cpu/boot.c'' = 4096" "literal_at boot_table ''src/memory/malloc.c'' = 4128"
  "literal_at boot_table ''chunk'' = 4160"
  by (simp_all add: literal_at_def boot_table_def)

lemma boot_string_cases:
  assumes "boot_strings a = Some t"
  shows "cstr boot_memory a t \<and> length t \<le> 31 \<and> region a (Suc (length t)) \<subseteq> {x. 3200 \<le> unat x \<and> unat x < 6144}"
proof -
  note literal = literal_cstr [OF boot_table_ok _ boot_literals_kept]
  consider "a = 3207" "t = vendor_name" | "a = 4100" "t = char_codes ''cpu/boot.c''"
    | "a = 4132" "t = char_codes ''memory/malloc.c''" | "literal_strings boot_table a = Some t"
    using assms by (cases "a = 3207"; cases "a = 4100"; cases "a = 4132") (simp_all add: boot_strings_def boot_at)
  then show ?thesis
  proof cases
    case 1
    have "bytes_at boot_memory 3207 12 = take 12 (drop 7 boot_bytes)" using boot_bytes_at [of 7 12] by simp
    moreover have "length vendor_name = 12" "take 12 (drop 7 boot_bytes) = vendor_name" "0 \<notin> set vendor_name"
      by (simp_all add: vendor_name_def boot_bytes_def char_codes_def)
    moreover have "boot_memory 3219 = 0" by (simp add: boot_byte boot_bytes_def char_codes_def)
    ultimately have "cstr boot_memory 3207 vendor_name" by (simp add: cstr_def)
    then show ?thesis using 1 by (auto simp: vendor_name_def char_codes_def in_region_nat)
  next
    case 2
    have "literal_strings boot_table 4096 = Some (char_codes ''src/'' @ char_codes ''cpu/boot.c'')"
      using literal_found [OF boot_table_ok, of "''src/cpu/boot.c''"]
      by (simp add: boot_at) (simp add: boot_table_def char_codes_def)
    from cstr_suffix [OF literal(1) [OF this]] show ?thesis
      using 2 by (auto simp: char_codes_def in_region_nat)
  next
    case 3
    have "literal_strings boot_table 4128 = Some (char_codes ''src/'' @ char_codes ''memory/malloc.c'')"
      using literal_found [OF boot_table_ok, of "''src/memory/malloc.c''"]
      by (simp add: boot_at) (simp add: boot_table_def char_codes_def)
    from cstr_suffix [OF literal(1) [OF this]] show ?thesis
      using 3 by (auto simp: char_codes_def in_region_nat)
  next
    case 4
    then show ?thesis using literal [OF 4] by (auto dest: subsetD)
  qed
qed

lemma boot_log_ready: "log_ready 1000 2000 boot_strings boot_memory"
  unfolding log_ready_def
proof (intro conjI allI impI)
  show "region (2000 :: u32) 1024 \<inter> region 1000 32 = {}" by (rule region_disjoint') simp_all
  fix a t assume a: "boot_strings a = Some t"
  note c = boot_string_cases [OF a]
  show "cstr boot_memory a t" "length t < 2 ^ 32 - 2" using c by simp_all
  have "x \<notin> output_area 1000 2000 1023" if "3200 \<le> unat x \<and> unat x < 6144" for x
    using that by (auto simp: output_area_def in_region_nat)
  with c show "region a (Suc (length t)) \<inter> output_area 1000 2000 1023 = {}" by blast
qed

lemma boot_string_literal:
  assumes "x \<in> set boot_table"
  shows "boot_strings (literal_at boot_table x) = Some (char_codes x)"
proof -
  have l: "literal_strings boot_table (literal_at boot_table x) = Some (char_codes x)"
    by (rule literal_found [OF boot_table_ok assms])
  moreover have "literal_strings boot_table 3207 = None" "literal_strings boot_table 4100 = None"
      "literal_strings boot_table 4132 = None"
    by (simp_all add: literal_strings_def)
  ultimately have "literal_at boot_table x \<noteq> 3207" "literal_at boot_table x \<noteq> 4100" "literal_at boot_table x \<noteq> 4132"
    by auto
  with l show ?thesis by (simp add: boot_strings_def boot_at)
qed

lemma boot_log_literals: "log_literals (literal_at boot_table) boot_strings"
proof -
  have "x \<in> set boot_table"
    if "x \<in> {''0%d:'', ''%d:'', ''0%d '', ''%d '', ''%s %s:%d: '', esc ''[1m'', esc ''[0m\<newline>''} \<union> range type_name" for x
  proof -
    have "type_name n \<in> set log_table" for n
      by (cases "n \<in> {1, 2, 3, 4, 5}") (auto simp: log_table_def type_name_def)
    then have "x \<in> set log_table" using that by (auto simp: log_table_def)
    then show ?thesis by (simp add: boot_table_def)
  qed
  then show ?thesis unfolding log_literals_def using boot_string_literal by blast
qed

lemma boot_report_ready: "report_ready (literal_at boot_table) 1000 2000 boot_strings boot_memory"
proof -
  have "x \<in> set boot_table" if "x \<in> boot_literals" for x using that by (auto simp: boot_literals_def boot_table_def)
  moreover have "boot_strings (literal_at boot_table ''src/cpu/boot.c'' + 4) = Some (char_codes ''cpu/boot.c'')"
    by (simp add: boot_strings_def boot_at)
  ultimately show ?thesis
    using boot_log_ready boot_log_literals boot_string_literal by (simp add: report_ready_def)
qed

lemma boot_memory_map_at:
  "mmap_at boot_memory 3228 [(65536, 524288, 1)]" "mmap_foot boot_memory 3228 1 = region 3228 8 \<union> region 3240 24"
proof -
  have l: "load32 boot_memory x =
      ucast (boot_memory x) OR push_bit 8 (ucast (boot_memory (x + 1))) OR push_bit 16 (ucast (boot_memory (x + 2))) OR
      push_bit 24 (ucast (boot_memory (x + 3)))" for x
    by (simp add: load32_def ac_simps)
  have e: "mmap_len boot_memory 3228 = 1" "mmap_entry boot_memory 3228 0 = 3240"
    by (simp_all add: mmap_len_def mmap_entry_def l boot_byte boot_bytes_def char_codes_def)
  have "entry_base boot_memory 3240 = 65536" "entry_len boot_memory 3240 = 524288" "entry_type boot_memory 3240 = 1"
    by (simp_all add: entry_base_def entry_len_def entry_type_def load64_def l boot_byte boot_bytes_def char_codes_def)
  then show "mmap_at boot_memory 3228 [(65536, 524288, 1)]" using e by (simp add: mmap_at_def Let_def)
  show "mmap_foot boot_memory 3228 1 = region 3228 8 \<union> region 3240 24" using e by (simp add: mmap_foot_def lessThan_Suc)
qed

definition boot_environment :: environment where
  "boot_environment h port = (if port = 113 then 0 else 32)"

lemma boot_environment_ok: "serial_line boot_environment 1016 0" "rtc_chip boot_environment (\<lambda>_. 0) 0"
  by (simp_all add: serial_line_def rtc_chip_def boot_environment_def)

section \<open>Properties\<close>

text \<open>C38.
  The kernel reports what it was started with. With a clock and a line that become ready and the literals in memory,
  \<open>disk_info\<close>, \<open>cpuid_info\<close> and \<open>mmap_info\<close> return, and the log has received one line with the number and the kind of the boot
  drive, one with the name and the features of the processor, and one for every region of the memory map in its order,
  with the low 32 bits of base and length and the type; only the buffers of the log were written.
\<close>

theorem boot_report_logs:
  assumes "serial_line env 1016 n" and "rtc_chip env regs k" and "report_ready lit conv buffer strings (mem s)"
    and "strings (boot_cpuid b) = Some vendor" and "length vendor \<le> 900" and "mmap_at (mem s) (boot_memory_map b) es"
    and "(region b 36 \<union> mmap_foot (mem s) (boot_memory_map b) (length es)) \<inter> output_area conv buffer 1023 = {}"
  shows "\<exists>s'. boot_report env lit conv buffer b s = ret () s' \<and>
    sent_on 1016 (io s') = sent_on 1016 (io s) @
      report_lines (boot_drive (mem s) b) vendor (cpuid_features1 (mem s) (boot_cpuid b)) es (clock_now regs) \<and>
    same_on (- output_area conv buffer 1023) (mem s) (mem s')"
  using boot_report_lines [OF assms] by (auto simp: logs_def)

theorem boot_report_logs_witness:
  "\<exists>s' now. boot_report boot_environment (literal_at boot_table) 1000 2000 3200 (boot_state boot_memory) = ret () s' \<and>
     sent_on 1016 (io s') = report_lines 128 vendor_name 67305985 [(65536, 524288, 1)] now"
proof -
  let ?s = "boot_state boot_memory"
  have m: "mem ?s = boot_memory" "io ?s = []" by (simp_all add: boot_state_def)
  have a: "boot_cpuid 3200 = 3207" "boot_memory_map 3200 = 3228" by (simp_all add: boot_cpuid_def boot_memory_map_def)
  have v: "boot_strings (boot_cpuid 3200) = Some vendor_name" "length vendor_name \<le> 900"
    by (simp_all add: a boot_strings_def vendor_name_def char_codes_def)
  have foot: "(region 3200 36 \<union> mmap_foot (mem ?s) (boot_memory_map 3200) (length [(65536 :: u64, 524288 :: u64, 1 :: u32)])) \<inter>
      output_area 1000 2000 1023 = {}"
  proof -
    have "length [(65536 :: u64, 524288 :: u64, 1 :: u32)] = 1" by simp
    then show ?thesis unfolding m a using boot_memory_map_at(2) by (auto simp: output_area_def in_region_nat)
  qed
  have "boot_drive boot_memory 3200 = 128" "cpuid_features1 boot_memory 3207 = 67305985"
    by (simp_all add: boot_drive_def cpuid_features1_def load32_def boot_byte boot_bytes_def char_codes_def)
  moreover have "report_ready (literal_at boot_table) 1000 2000 boot_strings (mem ?s)" "mmap_at (mem ?s) (boot_memory_map 3200) [(65536, 524288, 1)]"
    using boot_report_ready boot_memory_map_at(1) by (simp_all add: m a)
  from boot_report_logs [OF boot_environment_ok this(1) v this(2) foot]
  show ?thesis unfolding m a calculation by auto
qed

text \<open>C39.
  A failed assertion is reported before the processor halts. \<open>_assert\<close> shows \<open>halt, reason=\<close> and the expression in white on
  red, sends the same text as an error with the place to the log, and halts; it writes only the display and the
  buffers of the two conversions.
\<close>

theorem assert_reports:
  assumes "serial_line env 1016 n" and "rtc_chip env regs k" and "assert_literals lit strings"
    and "printf_ready itoa_buf (lit ''%fhalt, reason=%s'') (char_codes ''%fhalt, reason=%s'') strings s"
    and "log_ready conv buffer strings (mem s)" and "display_area \<inter> output_area conv buffer 1023 = {}"
    and "strings (file + 4) = Some place" and "length place \<le> 900" and "strings expression = Some e" and "length e \<le> 900"
  shows "\<exists>s'. assert_failed env lit itoa_buf conv buffer file line expression s = ret Halt s' \<and>
    terminal_of s' = fold term_put (map (\<lambda>c. (c, \<lparr>background = 4, foreground = 15\<rparr>)) (halt_text e)) (terminal_of s) \<and>
    sent_on 1016 (io s') = sent_on 1016 (io s) @ log_line 5 place line (halt_text e) (clock_now regs) \<and>
    same_on (- (display_area \<union> region itoa_buf 12 \<union> output_area conv buffer 1023)) (mem s) (mem s')"
  by (rule assert_failed_reports [OF assms])

lemma display_high: "x \<in> display_area \<Longrightarrow> 753664 \<le> unat x"
  by (auto simp: display_area_def in_region_nat)

lemma boot_printf_ready:
  assumes "x \<in> set boot_table" and "display_ok s" and "mem s = boot_memory"
  shows "printf_ready 1040 (literal_at boot_table x) (char_codes x) boot_strings s"
proof -
  have away: "y \<notin> display_area \<union> region 1040 12" if "3200 \<le> unat y \<and> unat y < 6144" for y
    using that display_high [of y] by (auto simp: in_region_nat)
  have strings: "cstr boot_memory a t \<and> region a (Suc (length t)) \<inter> (display_area \<union> region 1040 12) = {}"
    if "boot_strings a = Some t" for a t
    using boot_string_cases [OF that] away by blast
  have "region 1040 12 \<inter> display_area = {}"
    using display_high by (fastforce simp: in_region_nat)
  then show ?thesis
    using strings strings [OF boot_string_literal [OF assms(1)]] assms(2,3) by (simp add: printf_ready_def)
qed

theorem assert_reports_witness:
  "\<exists>s' now. assert_failed boot_environment (literal_at boot_table) 1040 1000 2000 (literal_at boot_table ''src/memory/malloc.c'') 131
       (literal_at boot_table ''chunk'') (boot_state boot_memory) = ret Halt s' \<and>
     sent_on 1016 (io s') = log_line 5 (char_codes ''memory/malloc.c'') 131 (char_codes ''halt, reason=chunk'') now"
proof -
  let ?s = "boot_state boot_memory"
  have m: "mem ?s = boot_memory" "io ?s = []" "display_ok ?s" by (simp_all add: boot_state_def display_ok_def)
  have lits: "assert_literals (literal_at boot_table) boot_strings"
    using boot_log_literals boot_string_literal by (simp add: assert_literals_def boot_table_def)
  have "''%fhalt, reason=%s'' \<in> set boot_table" by (simp add: boot_table_def)
  note p = boot_printf_ready [OF this m(3,1)]
  have l: "log_ready 1000 2000 boot_strings (mem ?s)" using boot_log_ready by (simp add: m)
  have apart: "display_area \<inter> output_area 1000 2000 1023 = {}"
    using display_high by (fastforce simp: output_area_def in_region_nat)
  have place: "boot_strings (literal_at boot_table ''src/memory/malloc.c'' + 4) = Some (char_codes ''memory/malloc.c'')"
      "length (char_codes ''memory/malloc.c'') \<le> 900"
    by (simp_all add: boot_strings_def boot_at char_codes_def)
  have e: "boot_strings (literal_at boot_table ''chunk'') = Some (char_codes ''chunk'')" "length (char_codes ''chunk'') \<le> 900"
    using boot_string_literal by (simp_all add: boot_table_def char_codes_def)
  have "halt_text (char_codes ''chunk'') = char_codes ''halt, reason=chunk''" by (simp add: halt_text_def char_codes_def)
  then show ?thesis
    using assert_reports [OF boot_environment_ok lits p l apart place e, of 131] unfolding m by auto
qed

end
