(* ===== verification/Startup_Properties.thy ===== *)
theory Startup_Properties
  imports Startup_Devices Boot_Properties Fs_Properties
begin

text \<open>
  The property of \<open>main\<close>: what the kernel has set up when it enters its endless loop, with an instance that puts the example
  machine of the boot report, the example bus and the example disk together.
\<close>

section \<open>A machine that boots\<close>

text \<open>The memory from the first chunk up to \<open>hi\<close>.\<close>

definition heap_area :: "chunk list \<Rightarrow> nat \<Rightarrow> u32 set" where
  "heap_area cs hi = {x. unat (head_addr cs 0) \<le> unat x \<and> unat x < hi}"

definition usable :: "chunk list \<Rightarrow> nat \<Rightarrow> bool" where
  "usable cs hi \<longleftrightarrow> cs \<noteq> [] \<and> spaced cs \<and> (\<forall>c \<in> set cs. c_end c \<le> hi) \<and> hi < 2 ^ 32"

lemma init_chunks_live: "live (init_chunks k es) = Map.empty"
proof -
  have "live (map entry_chunk (filter entry_free es)) = Map.empty" for es
    by (induction es) (auto simp: entry_chunk_def)
  then show ?thesis by (induction es) (auto simp: kernel_chunk_def)
qed

text \<open>
  The heap's area holds zeros, lies behind the kernel, and contains nothing that the kernel reads or writes before it sets
  the heap up; the boot information and the ends of the arrays of the disk driver are apart from what the report writes.
\<close>

definition bootable :: "layout \<Rightarrow> u32 \<Rightarrow> map_entry list \<Rightarrow> nat \<Rightarrow> memory \<Rightarrow> bool" where
  "bootable lay b es hi m \<longleftrightarrow>
     (let cs = init_chunks (at_end lay) es; A = heap_area cs hi in
      usable cs hi \<and> (\<forall>x \<in> A. m x = 0) \<and> scratch lay \<inter> (A \<union> device_memory lay b m) = {} \<and>
      mmap_foot m (boot_memory_map b) (length es) \<inter> headers cs = {} \<and> devices_inputs lay b A (boot_state m))"

definition booted :: "layout \<Rightarrow> environment \<Rightarrow> (nat \<Rightarrow> u8) \<Rightarrow> nat \<Rightarrow> u32 set \<Rightarrow> memory \<Rightarrow> kernel \<Rightarrow> bool" where
  "booted lay env disk n A m s \<longleftrightarrow> (\<exists>L. sched_rep s A L []) \<and> enabled s \<and> gates lay (entries s) \<and>
     handlers s = first_handlers(32 := Some Pit_handle_irq, 33 := Some Keyboard_handle_irq) \<and>
     under_letter (at_entry lay) env disk n A s \<and> same_on (- (A \<union> scratch lay \<union> ids lay)) m (mem s)"

lemma malloc_init_outcome:
  assumes s: "s = (boot_state m)\<lparr>io := h, cursor := c, mem := m'\<rparr>" and at: "mmap_at m' mmap es" and "mmap \<noteq> 0"
    and cs: "usable (init_chunks k es) hi" and foot: "mmap_foot m' mmap (length es) \<inter> headers (init_chunks k es) = {}"
  shows "\<exists>s'. malloc_init k mmap s = ret () s' \<and> heap_inv s' (init_chunks k es) \<and>
    heap_holds s' (heap_area (init_chunks k es) hi) Map.empty \<and> same_on (- headers (init_chunks k es)) m' (mem s') \<and>
    handlers s' = (\<lambda>_. None) \<and> drivers s' = (\<lambda>_. 0) \<and> device_count s' = 0"
proof -
  let ?cs = "init_chunks k es"
  have u: "?cs \<noteq> []" "spaced ?cs" "\<forall>c \<in> set ?cs. c_end c \<le> hi" "hi < 2 ^ 32" using cs by (simp_all add: usable_def)
  have "mmap_at (mem s) mmap es" "start_chunk s = 0" "mmap_foot (mem s) mmap (length es) \<inter> headers ?cs = {}"
    using at foot by (simp_all add: s boot_state_def)
  from malloc_init_establishes [OF assms(3) this(1,2) u(2) this(3)] u(1)
  obtain s' where s': "malloc_init k mmap s = ret () s'" "heap_inv s' ?cs" "same_on (- headers ?cs) (mem s) (mem s')"
    "s' = s\<lparr>mem := mem s', initialized := True, start_chunk := head_addr ?cs 0, heap_len := heap_len s'\<rparr>" by auto
  have "start_chunk s' = head_addr ?cs 0" using s'(2) by (simp add: heap_inv_def)
  then have "heap_holds s' (heap_area ?cs hi) Map.empty"
    by (intro heap_holdsI [OF s'(2) u(4,3)]) (simp_all add: heap_area_def init_chunks_live)
  moreover have "handlers s' = (\<lambda>_. None)" "drivers s' = (\<lambda>_. 0)" "device_count s' = 0"
    by (subst s'(4), simp add: s boot_state_def)+
  moreover have "same_on (- headers ?cs) m' (mem s')" using s'(3) by (simp add: s)
  ultimately show ?thesis using s'(1,2) by blast
qed

lemma headers_area:
  assumes "usable cs hi"
  shows "headers cs \<subseteq> heap_area cs hi"
proof
  fix x
  assume "x \<in> headers cs"
  then obtain c where c: "c \<in> set cs" "x \<in> region (c_addr c) 16" by (auto simp: headers_def)
  obtain d ds where cs: "cs = d # ds" using assms by (cases cs) (auto simp: usable_def)
  have ok: "chunk_ok c" "c_end c \<le> hi" using assms c(1) by (auto simp: usable_def spaced_def)
  have "unat (c_addr d) \<le> unat (c_addr c)"
    using assms c(1) by (auto simp: usable_def cs c_end_def)
  moreover have "unat (c_addr c) \<le> unat x" "unat x < unat (c_addr c) + 16"
    using c(2) ok by (auto simp: in_region_nat chunk_ok_def c_end_def)
  ultimately show "x \<in> heap_area cs hi" using ok(2) by (simp add: heap_area_def cs c_end_def)
qed

lemma main_outcome:
  assumes inp: "report_inputs lay env regs n strings b es m" and mach: "machine env cfg disk n" and boot: "bootable lay b es hi m"
    and b: "boot_memory_map b \<noteq> 0"
  shows "outcome (main lay env b eflags (boot_state m)) (\<lambda>r s'. r = (2039, irq_enable eflags) \<and>
    booted lay env disk n (heap_area (init_chunks (at_end lay) es) hi) m s')"
proof -
  let ?cs = "init_chunks (at_end lay) es"
  let ?A = "heap_area ?cs hi" and ?map = "boot_memory_map b"
  have u: "usable ?cs hi" and zero: "\<And>x. x \<in> ?A \<Longrightarrow> m x = 0" and sc: "scratch lay \<inter> (?A \<union> device_memory lay b m) = {}"
    and foot: "mmap_foot m ?map (length es) \<inter> headers ?cs = {}" and dev: "devices_inputs lay b ?A (boot_state m)"
    using boot by (simp_all add: bootable_def Let_def)
  have m: "mem (boot_state m) = m" by (simp add: boot_state_def)
  obtain s1 where s1: "main_report lay env b (boot_state m) = ret () s1" "outputs (scratch lay) (boot_state m) s1"
    using main_report_run [of lay env regs n strings b es "boot_state m"] inp m by auto
  have same1: "same_on (- scratch lay) m (mem s1)" using s1(2) m by (simp add: outputs_def)
  have "mmap_foot m ?map (length es) \<inter> scratch lay = {}" using inp by (auto simp: report_inputs_def)
  then have "same_on (mmap_foot m ?map (length es)) m (mem s1)" by (intro same_on_mono [OF same1]) blast
  note cong = mmap_cong [OF this]
  have "mmap_at m ?map es" using inp by (simp add: report_inputs_def)
  then have at: "mmap_at (mem s1) ?map es" using cong by (simp add: mmap_at_def Let_def)
  have ft: "mmap_foot (mem s1) ?map (length es) \<inter> headers ?cs = {}" using foot by (simp add: mmap_foot_def cong(2))
  obtain s2 where s2: "malloc_init (at_end lay) ?map s1 = ret () s2" "heap_inv s2 ?cs" "heap_holds s2 ?A Map.empty"
      "same_on (- headers ?cs) (mem s1) (mem s2)" "handlers s2 = (\<lambda>_. None)" "drivers s2 = (\<lambda>_. 0)" "device_count s2 = 0"
    using malloc_init_outcome [OF outputs_state [OF s1(2)] at b u ft] by blast
  have zero2: "mem s2 x = 0" if x: "x \<in> ?A - headers ?cs" for x
  proof -
    have "x \<in> - scratch lay" "x \<in> - headers ?cs" "m x = 0" using x sc zero [of x] by blast+
    then show ?thesis using same_onD [OF same1, of x] same_onD [OF s2(4), of x] by simp
  qed
  have same2: "same_on (- (?A \<union> scratch lay)) m (mem s2)"
    by (rule same_on_trans [OF same_on_mono [OF same1] same_on_mono [OF s2(4)]]) (use headers_area [OF u] in blast)+
  have run: "main lay env b eflags (boot_state m) = andthen (main_interrupts lay eflags s2) (\<lambda>regs s.
      andthen (main_devices lay env b s) (\<lambda>_ s. andthen (scheduler_enable s) (\<lambda>_. ret regs)))"
    by (simp add: main_def s1(1) s2(1))
  show ?thesis unfolding run
  proof (rule outcome_andthen [OF main_interrupts_outcome [OF s2(2,3) zero2 s2(5), of lay eflags]])
    fix r s3
    assume a: "r = (2039, irq_enable eflags) \<and> interrupts_ready lay ?A s2 s3"
    then obtain k where k: "sched_rep s3 ?A [plist s3 \<mapsto> k] []" by (auto simp: interrupts_ready_def)
    have i: "same_on (- ?A) (mem s2) (mem s3)" "gates lay (entries s3)" "handlers s3 = first_handlers"
      "drivers s3 = drivers s2" "device_count s3 = device_count s2" using a by (simp_all add: interrupts_ready_def)
    have same3: "same_on (- (?A \<union> scratch lay)) m (mem s3)"
      by (rule same_on_trans [OF same2 same_on_mono [OF i(1)]]) blast
    have "device_memory lay b m \<inter> ?A = {}"
      using dev m by (auto simp: device_memory_def devices_inputs_def ids_ready_def)
    then have "same_on (device_memory lay b m) m (mem s3)" using sc by (intro same_on_mono [OF same3]) blast
    then have dev3: "devices_inputs lay b ?A s3" using m by (intro devices_inputs_cong [OF dev]) simp
    have "mounted s3 []" by (rule mountedI) (simp_all add: i(4) s2(6))
    moreover have "device_count s3 = 0" using i(5) s2(7) by simp
    ultimately have "outcome (main_devices lay env b s3) (\<lambda>_. devices_started lay env disk n ?A s3)"
      using main_devices_outcome [OF mach k _ dev3] by blast
    then show "outcome (andthen (main_devices lay env b s3) (\<lambda>_ s. andthen (scheduler_enable s) (\<lambda>_. ret r)))
        (\<lambda>r s'. r = (2039, irq_enable eflags) \<and> booted lay env disk n ?A m s')"
    proof (rule outcome_andthen)
      fix v s4
      assume d: "devices_started lay env disk n ?A s3 s4"
      let ?s = "s4\<lparr>enabled := True\<rparr>"
      obtain L where "sched_rep s4 ?A L []" using d by (auto simp: devices_started_def)
      then have "sched_rep ?s ?A L []" by (simp add: sched_rep_def list_rep_def)
      moreover have "under_letter (at_entry lay) env disk n ?A ?s"
        using d volume_same [of env disk n ?A s4 ?s] by (auto simp: devices_started_def under_letter_def mounted_def)
      moreover have "same_on (- ?A - ids lay) (mem s3) (mem s4)" using d by (simp add: devices_started_def)
      then have "same_on (- (?A \<union> scratch lay \<union> ids lay)) m (mem s4)"
        by (intro same_on_trans [OF same_on_mono [OF same3] same_on_mono [of "- ?A - ids lay"]]) blast+
      ultimately have "booted lay env disk n ?A m ?s" using d i(2,3) by (auto simp: booted_def devices_started_def)
      then show "outcome (andthen (scheduler_enable s4) (\<lambda>_. ret r))
          (\<lambda>r s'. r = (2039, irq_enable eflags) \<and> booted lay env disk n ?A m s')"
        using a by (simp add: scheduler_enable_def outcome_ret)
    qed
  qed
qed

section \<open>Properties\<close>

text \<open>C40.
  The kernel boots. From the state the boot loader leaves, with zeros in the memory of the heap, \<open>main\<close> either stops where
  the heap is full, or reaches its endless loop with 255 descriptors that lead every exception, hardware interrupt and the
  system call to its entry point and every other vector to the ignoring one, the handlers of the exceptions, the timer, the
  keyboard and the system calls registered, interrupts and the scheduler enabled with an empty list of processes in a
  well-formed heap, and the volume of the disk mounted as \<open>H\<close> with the operations of the FAT12 driver; outside the heap it has
  written only the display, the buffers of the log and the arrays of the disk driver.
\<close>

theorem main_boots:
  assumes "report_inputs lay env regs n strings b es m" and "machine env cfg disk n" and "bootable lay b es hi m"
    and "boot_memory_map b \<noteq> 0"
  shows "main lay env b eflags (boot_state m) = halt ''chunk'' \<or>
    (\<exists>s'. main lay env b eflags (boot_state m) = ret (2039, irq_enable eflags) s' \<and>
       booted lay env disk n (heap_area (init_chunks (at_end lay) es) hi) m s')"
  using main_outcome [OF assms, of eflags] by (auto simp: outcome_def)

text \<open>
  The instance: a clock at zero, a line that is always ready, a keyboard without a key, an empty bus, and the example disk; the
  kernel ends at 98304 in the region of the example map.
\<close>

definition start_environment :: environment where
  "start_environment h port =
    (if port = 113 \<or> port = 100 then 0 else if port = 1021 then 32 else if port = 3324 then 4294967295 else example_drive fat_disk h port)"

definition start_layout :: layout where
  "start_layout = \<lparr>at_literal = literal_at boot_table, at_entry = (\<lambda>x. 8192 + word_of_nat (length x)), at_isr = (\<lambda>n. word_of_nat (12288 + n)),
     at_ignore = 12800, at_end = 98304, at_itoa = 1040, at_conv = 1000, at_log = 2000, at_serial = 256, at_firmware = 288, at_model = 304\<rparr>"

abbreviation (input) start_area :: "u32 set" where
  "start_area \<equiv> {x. 98304 \<le> unat x \<and> unat x < 589824}"

lemma start_machine:
  "serial_line start_environment 1016 6" "rtc_chip start_environment (\<lambda>_. 0) 6"
  "machine start_environment (\<lambda>_. 4294967295) fat_disk 6"
proof -
  show "serial_line start_environment 1016 6" "rtc_chip start_environment (\<lambda>_. 0) 6"
    by (simp_all add: serial_line_def rtc_chip_def start_environment_def)
  have port: "start_environment h 496 = example_drive fat_disk h 496" "start_environment h 503 = example_drive fat_disk h 503" for h
    by (simp_all add: start_environment_def)
  have "ata_disk start_environment 496 fat_disk 6"
    using example_drive_disk [of fat_disk] by (simp add: ata_disk_def port)
  moreover have "ata_answers start_environment 496 6" by (simp add: ata_answers_def port example_drive_def)
  moreover have "bus_functions (\<lambda>_. 4294967295) = []"
    by (auto simp: bus_functions_def filter_empty_conv present_def config_word_def)
  ultimately show "machine start_environment (\<lambda>_. 4294967295) fat_disk 6"
    by (simp add: machine_def keyboard_quiet_def pci_bus_def start_environment_def)
qed

lemma start_scratch: "x \<in> scratch start_layout \<Longrightarrow> 1000 \<le> unat x \<and> unat x < 3200 \<or> 753664 \<le> unat x"
  using display_high [of x] by (auto simp: scratch_def start_layout_def output_area_def in_region_nat)

lemma start_report:
  "report_inputs start_layout start_environment (\<lambda>_. 0) 6 boot_strings 3200 [(65536, 524288, 1)] boot_memory"
proof -
  have a: "boot_cpuid 3200 = 3207" "boot_memory_map 3200 = 3228" by (simp_all add: boot_cpuid_def boot_memory_map_def)
  have away: "y \<notin> display_area \<union> region 1040 12" if "3200 \<le> unat y \<and> unat y < 6144" for y
    using that display_high [of y] by (auto simp: in_region_nat)
  have strings: "region x (Suc (length t)) \<inter> (display_area \<union> region 1040 12) = {}" if "boot_strings x = Some t" for x t
    using boot_string_cases [OF that] away by blast
  have itoa: "region 1040 12 \<inter> display_area = {}" using display_high by (fastforce simp: in_region_nat)
  have low: "3200 \<le> unat x \<and> unat x < 3300" if "x \<in> region 3200 36 \<union> (region 3228 8 \<union> region 3240 24)" for x :: u32
    using that by (auto simp: in_region_nat)
  have foot: "(region 3200 36 \<union> mmap_foot boot_memory 3228 1) \<inter> scratch start_layout = {}"
    unfolding boot_memory_map_at(2) using low start_scratch by fastforce
  have "\<exists>vendor. boot_strings 3207 = Some vendor \<and> length vendor \<le> 900"
    by (simp add: boot_strings_def vendor_name_def char_codes_def)
  moreover have "boot_strings (literal_at boot_table ''%f(kernel)\<newline>'') = Some (char_codes ''%f(kernel)\<newline>'')"
    by (rule boot_string_literal) (simp add: boot_table_def)
  ultimately show ?thesis
    using start_machine(1,2) boot_report_ready strings itoa boot_memory_map_at(1) foot
    by (simp add: report_inputs_def a) (simp add: start_layout_def)
qed

lemma start_block: "boot_block boot_memory 3200 = 3300"
  by (simp add: boot_bpb_def load16_def boot_byte boot_bytes_def char_codes_def)

lemma start_chunks:
  "init_chunks (at_end start_layout) [(65536, 524288, 1)] = [\<lparr>c_addr = 98304, c_len = 491504, c_used = False\<rparr>]"
  "heap_area [\<lparr>c_addr = 98304, c_len = 491504, c_used = False\<rparr>] 589824 = start_area"
  by (simp_all add: start_layout_def holds_kernel_def kernel_chunk_def heap_area_def)

lemma start_devices: "devices_inputs start_layout 3200 start_area (boot_state boot_memory)"
proof -
  have m: "mem (boot_state boot_memory) = boot_memory" by (simp add: boot_state_def)
  have at: "at_serial start_layout = 256" "at_firmware start_layout = 288" "at_model start_layout = 304"
    by (simp_all add: start_layout_def)
  have "ids_ready 256 288 304 start_area boot_memory"
    by (auto simp: ids_ready_def id_arrays_def id_ends_def in_region_nat boot_memory_low)
  moreover have "volume_block ((boot_state boot_memory)\<lparr>bpb := 3300\<rparr>)"
    by (simp add: volume_block_def bytes_per_sector_def sectors_per_cluster_def directory_entries_def reserved_sectors_def
        sectors_per_fat_def fats_def load16_def boot_state_def boot_byte boot_bytes_def char_codes_def nth_append)
  moreover have "(region 3200 36 \<union> region 3300 62) \<inter> (start_area \<union> id_arrays 256 288 304) = {}"
    by (auto simp: id_arrays_def in_region_nat)
  ultimately show ?thesis by (simp add: devices_inputs_def m at start_block)
qed

lemma start_bootable: "bootable start_layout 3200 [(65536, 524288, 1)] 589824 boot_memory"
proof -
  have u: "usable [\<lparr>c_addr = 98304, c_len = 491504, c_used = False\<rparr>] 589824"
    by (simp add: usable_def chunk_ok_def c_end_def)
  have zero: "\<forall>x \<in> start_area. boot_memory x = 0" by (simp add: boot_memory_high)
  have "unat x < 1000 \<or> 3200 \<le> unat x \<and> unat x < 753664" if "x \<in> start_area \<union> device_memory start_layout 3200 boot_memory" for x
    using that by (auto simp: device_memory_def start_block start_layout_def id_ends_def in_region_nat)
  then have sc: "scratch start_layout \<inter> (start_area \<union> device_memory start_layout 3200 boot_memory) = {}"
    using start_scratch by fastforce
  have foot: "mmap_foot boot_memory (boot_memory_map 3200) (length [(65536 :: u64, 524288 :: u64, 1 :: u32)]) \<inter>
      headers [\<lparr>c_addr = 98304, c_len = 491504, c_used = False\<rparr>] = {}"
    using boot_memory_map_at(2) by (auto simp: boot_memory_map_def headers_def in_region_nat)
  show ?thesis unfolding bootable_def Let_def start_chunks using u zero sc foot start_devices by blast
qed

theorem main_boots_witness:
  "main start_layout start_environment 3200 70 (boot_state boot_memory) = halt ''chunk'' \<or>
    (\<exists>s'. main start_layout start_environment 3200 70 (boot_state boot_memory) = ret (2039, 582) s' \<and>
       booted start_layout start_environment fat_disk 6 start_area boot_memory s')"
proof -
  have map: "boot_memory_map 3200 \<noteq> 0" by (simp add: boot_memory_map_def)
  have "irq_enable 70 = 582" by (simp add: irq_enable_def)
  then show ?thesis
    using main_boots [OF start_report start_machine(3) start_bootable map, of 70] unfolding start_chunks by simp
qed

end
