(* ===== verification/Spec2Isabelle.thy ===== *)
theory Spec2Isabelle
  imports Applications Format Mutex Debug Pci Elf_Properties Startup_Properties
begin

text \<open>
  A verification development of the kernel in \<open>src/kernel\<close>: a small monolithic kernel for 32-bit x86 with a heap, round robin
  processes, a text display, a keyboard, a clock, a serial log, a PCI enumeration, an ATA disk, a FAT12 file system and a
  loader for relocatable ELF files, and of the library and the test program that use its system calls (\<open>src/libc\<close>, \<open>src/apps\<close>).

  \<^bold>\<open>How the program works\<close>

  The boot loader leaves a structure with the boot drive, the processor's identification, the memory map of the firmware and the
  parameter block of the disk, and calls \<open>main\<close> (\<open>kernel.c\<close>). \<open>main\<close> reports the structure, builds the heap from the memory
  map, sets up the descriptor table and the interrupt controller, registers handlers, starts the devices, mounts the disk as
  \<open>H\<close>, enables the scheduler and loops. From then on the timer interrupt drives the scheduler, the keyboard interrupt shows
  characters, and the interrupt 128 is the system call. The scheduler, the disk, FAT12 and ELF code take their memory from the
  one heap; the display, the serial port and the disk are reached through ports and the buffer of the display.

  \<^bold>\<open>The model\<close>

  All routines act on one record \<open>kernel\<close> (\<open>Kernel_State\<close>) with the physical memory, the history of port accesses, and one
  field per static variable. Memory is a total function from 32-bit addresses to bytes (\<open>Memory\<close>); the fields of structures
  are loads and stores at their offsets, so aliasing, null pointers and stray writes behave as in the flat address space of
  the kernel. Machine integers are words of their width. A routine returns \<open>None\<close> when it loops forever, \<open>Some (Inl fault)\<close>
  when it fails an assertion, divides by zero or leaves an array, and \<open>Some (Inr (result, state))\<close> otherwise (\<open>Prelude\<close>);
  loops whose end depends on memory or on a device are \<open>partial_function (option)\<close>, so that a theorem that a routine returns
  has its termination as content. A loop whose bound is a local variable is a recursion or a fold over the
  values of its counter, such as the 256 rounds in which \<open>fat12_read_cluster_chain\<close> follows a chain; a loop whose bound is
  read from a structure in memory is a \<open>function\<close> that reads it again before every iteration (\<open>count_up\<close>, \<open>for_up\<close>,
  \<open>elf_relocate_entries\<close>, \<open>elf_relocate\<close>) and ends since its counter stays below a bound of 32 bits; no fuel is added.

  Parameters stand for what is not in the sources: \<open>env\<close>, what a port answers after a history of accesses (the devices);
  \<open>lit\<close>, \<open>code\<close>, \<open>lay\<close>, the addresses that the compiler and the linker give to literals, routines, the routines of \<open>isr.s\<close> and
  the end of the kernel; \<open>buffer\<close>, \<open>slot\<close>, \<open>ext\<close>, \<open>conv\<close>, \<open>itoa_buf\<close>, the addresses of local arrays and variables whose address
  is taken (\<open>buf\<close> and \<open>itoa_buf\<close> those of \<open>printf\<close>); \<open>procs\<close>, the routines behind the pointers of a file system driver. The named hypotheses about them are documented
  behaviour of hardware: \<open>ata_disk\<close> and \<open>ata_answers\<close> (a drive that obeys the protocol), \<open>pci_bus\<close>, \<open>rtc_chip\<close>, \<open>serial_line\<close>,
  \<open>keyboard_quiet\<close>; each theorem that has one comes with an instance that computes with a concrete device.

  \<^bold>\<open>The theories\<close>

  \<^item> \<open>Prelude\<close>, \<open>Memory\<close>, \<open>Kernel_State\<close>: results, loops, words, loads and stores with frame lemmas (\<open>frame_simps\<close>), the state.
  \<^item> \<open>CString\<close>, \<open>Format\<close>: \<open>string.c\<close>. The digits of \<open>itoa\<close> read back as the number; \<open>strcmp\<close> compares unsigned bytes;
    \<open>sprintf\<close> stores the expansion of its format and nothing else.
  \<^item> \<open>Malloc\<close>, \<open>Heap\<close>, \<open>Allocator\<close>, \<open>Heap_Init\<close>, \<open>Heap_Safety\<close>: \<open>memory/malloc.c\<close>. \<open>Malloc\<close> has the operations; \<open>Heap\<close> the abstract
    list of chunks (\<open>heap_inv\<close>) and the refinement of first fit with splitting and of release with merging; \<open>Allocator\<close> the
    contract as a locale, interpreted as \<open>kheap\<close>, on which every client's proof rests (\<open>heap_holds s A L\<close>: a heap in the area
    \<open>A\<close> whose live blocks are \<open>L\<close>); \<open>Heap_Init\<close> the construction from the memory map; \<open>Heap_Safety\<close> the safety of clients
    over all histories (\<open>client_step\<close>).
  \<^item> \<open>KList\<close>: \<open>list.c\<close>, refined to lists of pairs of node and value.
  \<^item> \<open>Process\<close>, \<open>Scheduler\<close>, \<open>Scheduler_Properties\<close>: \<open>execution/process.c\<close>, the frames of \<open>isr.s\<close>, and \<open>execution/scheduler.c\<close>. The
    timer interrupt refines a step of round robin on a table of processes (\<open>irq_table\<close>, \<open>next_turn\<close>); a waiting process is
    resumed within as many interrupts as there are processes; sleeping and stopping.
  \<^item> \<open>Ports\<close>, \<open>Display\<close>, \<open>Printf\<close>: \<open>cpu/io.h\<close> and \<open>display/display.c\<close>, refined to a terminal with line feed and scrolling
    (\<open>term_put\<close>), and \<open>printf\<close> as the expansion of a format (\<open>printf_out\<close>).
  \<^item> \<open>Interrupts\<close>, \<open>Keyboard\<close>, \<open>Dispatch\<close>: \<open>cpu/irq.c\<close>, \<open>cpu/pic.c\<close>, \<open>cpu/exceptions.c\<close>, \<open>drivers/pit.c\<close>, \<open>execution/syscall.c\<close>,
    \<open>drivers/keyboard.c\<close>. \<open>interrupt\<close> follows one interrupt from the registers it meets to those it leaves with; the
    properties cover the timer, a key and an exception, whose reason goes through the model of \<open>printf\<close>. \<open>Applications\<close> adds the library of applications and the test program.
  \<^item> \<open>Mutex\<close>: \<open>execution/mutex.c\<close> as an inductive step relation of threads, with mutual exclusion in every reachable state.
  \<^item> \<open>Cmos\<close>, \<open>Serial\<close>, \<open>Debug\<close>, \<open>Boot\<close>, \<open>Boot_Properties\<close>: \<open>drivers/cmos.c\<close>, \<open>drivers/serial.c\<close>, \<open>debug.c\<close>, \<open>cpu/boot.c\<close>, \<open>assert.c\<close>:
    the time in every mode of the clock, with the noon and midnight of the 12-hour form as the code reports them, the line that a call of the log sends, the report at the start, failed assertions.
  \<^item> \<open>Pci\<close>: \<open>drivers/pci.c\<close>. The enumeration finds every function of the bus in order.
  \<^item> \<open>Ata\<close>, \<open>Ata_Identify\<close>: \<open>drivers/ata.c\<close>. Reading delivers the sectors of a drive that becomes ready within some number of polls
    (the bound \<open>n\<close> of \<open>ata_disk\<close> is arbitrary); the identification returns.
  \<^item> \<open>Fat12\<close>, \<open>Fat12_Volume\<close>, \<open>Fat12_Paths\<close>, \<open>Fat12_Open\<close>, \<open>Fat12_Read\<close>, \<open>Fat12_Properties\<close>: \<open>filesystem/fat12.c\<close>. \<open>Fat12_Volume\<close>
    describes a volume by the bytes of its disk; opening is the lookup of a path in it, reading a copy from the chain of
    clusters, of the positions \<open>delivered\<close>: all of the span when it is \<open>contiguous\<close>, fewer bytes when it is not. The loops over the characters of a path share the locale \<open>path_loop\<close>, interpreted for files and directories.
  \<^item> \<open>Fs\<close>, \<open>Fs_Volume\<close>, \<open>Fs_Properties\<close>: \<open>filesystem/fs.c\<close>, with the driver behind its pointers: opening, reading and closing
    a file of a mounted volume, from the path down to the bytes of the disk.
  \<^item> \<open>Elf\<close>, \<open>Elf_Image\<close>, \<open>Elf_Load\<close>, \<open>Elf_Properties\<close>: \<open>execution/elf.c\<close>. \<open>Elf_Image\<close> defines the relocated image as a function of the
    bytes of the file; the locale \<open>file_source\<close> says what the loader needs of the file system, and is interpreted by the volume.
  \<^item> \<open>Startup\<close>, \<open>Startup_Run\<close>, \<open>Startup_Devices\<close>, \<open>Startup_Properties\<close>: \<open>main\<close>, composed of the routines above, and the state in which it
    enters its endless loop.

  \<^bold>\<open>Bounds\<close>

  Strings are shorter than \<open>2 ^ 31\<close> bytes where a routine counts them; sectors have 512 bytes and block addresses 28 bits, as the
  driver assumes; the root directory has at most 4096 entries, a whole number of sectors; a chain of clusters of a directory
  is followed for at most 256 clusters, as in the code, and that of a file as far as the span that is read needs; the table of drivers has 256 places, the one of PCI devices 255, the descriptor table 255.
  Most results about routines that allocate say: either the routine stops at the assertion of a full heap, or the result is right.
  The properties of FAT12 and ELF have hypotheses where the code relies on them (\<open>file_base\<close>, \<open>walkable\<close>, \<open>readable\<close>, \<open>elf_ok\<close>);
  \<open>walkable\<close> asks that the directories of a path, but for the root, have one cluster, \<open>file_base\<close> that a name with its dot has at
  most 11 characters, \<open>readable\<close> that the chain reaches as far as the span and that the memory the read uses is disjoint.
  What happens outside of hypotheses is stated where it was found, as in \<open>fat12_open_rejects_full_names\<close>, \<open>fat12_extension_returns\<close>,
  \<open>fs_open_missing\<close> and \<open>free_merges_over_gap\<close>.

  \<^bold>\<open>Not modelled\<close>

  The boot loader (\<open>src/boot\<close>) and \<open>crt0.s\<close> are assembly; of \<open>isr.s\<close> the entry and exit code is modelled, without the
  return address that its call pushes; the stack frames of the C functions are not modelled either. \<open>gdt.h\<close> has no user.
  Makefiles, linker scripts and shell scripts are not code of the kernel. Log lines are left out of the components, since they
  change only the serial port and the buffers of the log; the log itself is modelled, and so are its lines in \<open>boot.c\<close> and
  \<open>assert.c\<close>. Interrupts between the steps of a routine are not modelled; \<open>Mutex\<close> treats the interleavings of the one
  component that is made for them. The timing of devices and the caches and privilege levels of the processor do not occur.
\<close>

end
